(* ===== verification/Prelude.thy ===== *)
theory Prelude
  imports Main "HOL-Library.Word"
begin

text \<open>
  Shared vocabulary of the development: the outcome of a fallible Rust
  function, the question-mark operator as sequencing that threads the mutated
  state, checked conversions between \<open>usize\<close> and \<open>u32\<close>, and the ordered
  containers of \<open>alloc::collections\<close> as sorted lists.
\<close>

section \<open>Outcomes of fallible code\<close>

text \<open>
  A Rust function of the runtime ends in one of three ways: it returns a value
  (\<open>Ok\<close>), it returns an error (\<open>Err\<close>), or it panics (a failed \<open>assert!\<close>, an
  \<open>unwrap\<close> of \<open>None\<close>, an index out of range, \<open>unreachable!\<close>).  A function with
  \<open>&mut self\<close> returns its outcome together with the state as mutated so far,
  since an \<open>Err\<close> does not undo the writes that precede it.
\<close>

datatype ('e, 'a) outcome = Ok 'a | Err 'e | Panic string

type_synonym ('e, 'a, 's) result = "('e, 'a) outcome \<times> 's"

text \<open>The \<open>?\<close> operator on a computation that mutates a state.\<close>

definition and_then :: "('e, 'a, 's) result \<Rightarrow> ('a \<Rightarrow> 's \<Rightarrow> ('e, 'b, 's) result) \<Rightarrow> ('e, 'b, 's) result" where
  "and_then m k = (case m of
      (Ok x, s) \<Rightarrow> k x s
    | (Err e, s) \<Rightarrow> (Err e, s)
    | (Panic p, s) \<Rightarrow> (Panic p, s))"

text \<open>The \<open>?\<close> operator on a function that only reads.\<close>

definition and_then_pure :: "('e, 'a) outcome \<Rightarrow> ('a \<Rightarrow> ('e, 'b) outcome) \<Rightarrow> ('e, 'b) outcome" where
  "and_then_pure m k = (case m of Ok x \<Rightarrow> k x | Err e \<Rightarrow> Err e | Panic p \<Rightarrow> Panic p)"

fun map_ok :: "('a \<Rightarrow> 'b) \<Rightarrow> ('e, 'a) outcome \<Rightarrow> ('e, 'b) outcome" where
  "map_ok f (Ok x) = Ok (f x)"
| "map_ok f (Err e) = Err e"
| "map_ok f (Panic p) = Panic p"

fun map_err :: "('e \<Rightarrow> 'f) \<Rightarrow> ('e, 'a) outcome \<Rightarrow> ('f, 'a) outcome" where
  "map_err f (Ok x) = Ok x"
| "map_err f (Err e) = Err (f e)"
| "map_err f (Panic p) = Panic p"

text \<open>\<open>Option::ok_or\<close>.\<close>

fun ok_or :: "'e \<Rightarrow> 'a option \<Rightarrow> ('e, 'a) outcome" where
  "ok_or e None = Err e"
| "ok_or e (Some x) = Ok x"

fun panics :: "('e, 'a) outcome \<Rightarrow> bool" where
  "panics (Panic p) = True"
| "panics (Ok x) = False"
| "panics (Err e) = False"

fun is_ok :: "('e, 'a) outcome \<Rightarrow> bool" where
  "is_ok (Ok x) = True"
| "is_ok (Err e) = False"
| "is_ok (Panic p) = False"

lemma and_then_simps [simp]:
  "and_then (Ok x, s) k = k x s"
  "and_then (Err e, s) k = (Err e, s)"
  "and_then (Panic p, s) k = (Panic p, s)"
  by (simp_all add: and_then_def)

lemma and_then_pure_simps [simp]:
  "and_then_pure (Ok x) f = f x"
  "and_then_pure (Err e) f = Err e"
  "and_then_pure (Panic p) f = Panic p"
  by (simp_all add: and_then_pure_def)

lemma and_then_cong [fundef_cong]:
  "m = m' \<Longrightarrow> (\<And>x s. m' = (Ok x, s) \<Longrightarrow> k x s = k' x s) \<Longrightarrow> and_then m k = and_then m' k'"
  by (auto simp: and_then_def split: prod.splits outcome.splits)

lemma and_then_Ok_iff:
  "and_then m k = (Ok y, s') \<longleftrightarrow> (\<exists>x s. m = (Ok x, s) \<and> k x s = (Ok y, s'))"
  by (auto simp: and_then_def split: prod.splits outcome.splits)

lemma and_then_OkE:
  assumes "and_then m k = (Ok y, s')"
  obtains x s where "m = (Ok x, s)" and "k x s = (Ok y, s')"
  using assms by (auto simp: and_then_Ok_iff)

lemma and_then_pure_Ok_iff:
  "and_then_pure m k = Ok y \<longleftrightarrow> (\<exists>x. m = Ok x \<and> k x = Ok y)"
  by (cases m) auto

lemma ok_or_eq_iff [simp]:
  "ok_or e v = Ok x \<longleftrightarrow> v = Some x"
  "ok_or e v = Err e' \<longleftrightarrow> v = None \<and> e' = e"
  "ok_or e v \<noteq> Panic p"
  by (cases v; auto)+

lemma map_ok_eq_iff [simp]:
  "map_ok f r = Ok y \<longleftrightarrow> (\<exists>x. r = Ok x \<and> y = f x)"
  "map_ok f r = Err e \<longleftrightarrow> r = Err e"
  "map_ok f r = Panic p \<longleftrightarrow> r = Panic p"
  by (cases r; auto)+

lemma map_err_eq_iff [simp]:
  "map_err g r = Ok x \<longleftrightarrow> r = Ok x"
  "map_err g r = Panic p \<longleftrightarrow> r = Panic p"
  by (cases r; auto)+

lemma panics_ok_or [simp]: "\<not> panics (ok_or e v)"
  by (cases v) auto

lemma panics_map [simp]: "panics (map_ok f r) = panics r" "panics (map_err g r) = panics r"
  by (cases r; simp)+

lemma panics_and_then:
  "panics (fst (and_then m k)) \<longleftrightarrow>
     panics (fst m) \<or> (\<exists>x s. m = (Ok x, s) \<and> panics (fst (k x s)))"
  by (auto simp: and_then_def split: prod.splits outcome.splits)

text \<open>Invariants are threaded through sequencing.\<close>

lemma and_then_inv:
  assumes "P (snd m)" and "\<And>x s. m = (Ok x, s) \<Longrightarrow> P (snd (k x s))"
  shows "P (snd (and_then m k))"
  using assms by (auto simp: and_then_def split: prod.splits outcome.splits)


section \<open>Checked integers\<close>

text \<open>
  Table keys are \<open>u32\<close> in the code and index a \<open>Vec\<close> by a \<open>usize\<close> of 64 bits.
  They are naturals here, with the checked conversions written out.
\<close>

definition u32_max :: nat where
  "u32_max = 2 ^ 32 - 1"

definition u32_try_from :: "nat \<Rightarrow> nat option" where
  "u32_try_from n = (if n \<le> u32_max then Some n else None)"

definition u32_checked_add :: "nat \<Rightarrow> nat \<Rightarrow> nat option" where
  "u32_checked_add a b = (if a + b \<le> u32_max then Some (a + b) else None)"

definition u32_checked_sub :: "nat \<Rightarrow> nat \<Rightarrow> nat option" where
  "u32_checked_sub a b = (if b \<le> a then Some (a - b) else None)"

lemma u32_try_from_Some [simp]: "u32_try_from n = Some m \<longleftrightarrow> n \<le> u32_max \<and> m = n"
  by (auto simp: u32_try_from_def)

lemma u32_try_from_None [simp]: "u32_try_from n = None \<longleftrightarrow> u32_max < n"
  by (auto simp: u32_try_from_def)

lemma u32_checked_add_Some [simp]:
  "u32_checked_add a b = Some c \<longleftrightarrow> a + b \<le> u32_max \<and> c = a + b"
  by (auto simp: u32_checked_add_def)

lemma u32_checked_sub_Some [simp]:
  "u32_checked_sub a b = Some c \<longleftrightarrow> b \<le> a \<and> c = a - b"
  by (auto simp: u32_checked_sub_def)

lemma u32_checked_sub_None [simp]: "u32_checked_sub a b = None \<longleftrightarrow> a < b"
  by (auto simp: u32_checked_sub_def)


section \<open>Vectors\<close>

text \<open>\<open>slice::get\<close>: \<open>None\<close> past the end.\<close>

definition vec_get :: "'a list \<Rightarrow> nat \<Rightarrow> 'a option" where
  "vec_get xs i = (if i < length xs then Some (xs ! i) else None)"

text \<open>A sub-slice \<open>get(a..)?.get(..n)\<close>, and copying into one.\<close>

definition sub_slice :: "nat \<Rightarrow> nat \<Rightarrow> 'a list \<Rightarrow> 'a list option" where
  "sub_slice address n mem = (if address + n \<le> length mem then Some (take n (drop address mem)) else None)"

definition overwrite :: "nat \<Rightarrow> 'a list \<Rightarrow> 'a list \<Rightarrow> 'a list" where
  "overwrite address items mem = take address mem @ items @ drop (address + length items) mem"

lemma overwrite_Nil [simp]: "overwrite a [] mem = mem"
  by (simp add: overwrite_def)

lemma length_overwrite [simp]: "a + length xs \<le> length mem \<Longrightarrow> length (overwrite a xs mem) = length mem"
  by (simp add: overwrite_def)

lemma overwrite_overwrite:
  "a + length xs + length ys \<le> length mem \<Longrightarrow> overwrite (a + length xs) ys (overwrite a xs mem) = overwrite a (xs @ ys) mem"
  by (simp add: overwrite_def ac_simps)

lemma take_overwrite:
  "a + length xs \<le> length mem \<Longrightarrow> take (a + length xs) (overwrite a xs mem) = take a mem @ xs"
  "a + length xs \<le> length mem \<Longrightarrow> take (length xs) (drop a (overwrite a xs mem)) = xs"
  by (simp_all add: overwrite_def)

lemma overwrite_all: "length xs = length mem \<Longrightarrow> overwrite 0 xs mem = xs"
  by (simp add: overwrite_def)

lemma nth_update_if: "j < length xs \<Longrightarrow> xs[i := x] ! j = (if i = j then x else xs ! j)"
  by auto

lemma vec_get_Nil [simp]: "vec_get [] i = None"
  by (simp add: vec_get_def)

lemma vec_get_eq_Some: "vec_get xs i = Some x \<longleftrightarrow> i < length xs \<and> xs ! i = x"
  by (auto simp: vec_get_def)

lemma vec_get_eq_None: "vec_get xs i = None \<longleftrightarrow> length xs \<le> i"
  by (auto simp: vec_get_def)

lemma vec_get_update:
  "vec_get (xs[i := x]) j = (if j = i \<and> i < length xs then Some x else vec_get xs j)"
  by (auto simp: vec_get_def)

lemma vec_get_append1:
  "vec_get (xs @ [x]) j = (if j = length xs then Some x else vec_get xs j)"
  by (auto simp: vec_get_def nth_append)


section \<open>Ordered maps\<close>

text \<open>
  A \<open>BTreeMap\<close> is the list of its bindings in increasing order of the keys.
\<close>

fun bt_insert :: "'k :: linorder \<Rightarrow> 'v \<Rightarrow> ('k \<times> 'v) list \<Rightarrow> ('k \<times> 'v) list" where
  "bt_insert k v [] = [(k, v)]"
| "bt_insert k v ((k', v') # m) =
     (if k < k' then (k, v) # (k', v') # m
      else if k = k' then (k, v) # m
      else (k', v') # bt_insert k v m)"

definition bt_remove :: "'k \<Rightarrow> ('k \<times> 'v) list \<Rightarrow> ('k \<times> 'v) list" where
  "bt_remove k m = filter (\<lambda>(k', v). k' \<noteq> k) m"

definition bt_ok :: "('k :: linorder \<times> 'v) list \<Rightarrow> bool" where
  "bt_ok m \<longleftrightarrow> sorted_wrt (<) (map fst m)"

lemma bt_ok_simps [simp]:
  "bt_ok []"
  "bt_ok ((k, v) # m) \<longleftrightarrow> (\<forall>k' \<in> fst ` set m. k < k') \<and> bt_ok m"
  by (auto simp: bt_ok_def)

lemma keys_bt_insert [simp]: "fst ` set (bt_insert k v m) = insert k (fst ` set m)"
  by (induction m rule: bt_insert.induct) auto

lemma map_of_bt_insert [simp]: "map_of (bt_insert k v m) = (map_of m)(k \<mapsto> v)"
  by (induction k v m rule: bt_insert.induct) (auto simp: fun_eq_iff)

lemma bt_ok_insert [simp]: "bt_ok m \<Longrightarrow> bt_ok (bt_insert k v m)"
proof (induction k v m rule: bt_insert.induct)
  case (2 k v k' v' m)
  then show ?case by (auto intro: less_trans)
qed simp

lemma bt_insert_last: "\<forall>k' \<in> fst ` set m. k' < k \<Longrightarrow> bt_insert k v m = m @ [(k, v)]"
  by (induction k v m rule: bt_insert.induct) auto

lemma map_of_bt_remove [simp]: "map_of (bt_remove k m) = (map_of m)(k := None)"
  by (induction m) (auto simp: bt_remove_def fun_eq_iff)

lemma bt_ok_remove [simp]: "bt_ok m \<Longrightarrow> bt_ok (bt_remove k m)"
  by (induction m) (auto simp: bt_remove_def)

end
