(* ===== verification/Free_List.thy ===== *)
theory Free_List
  imports Prelude
begin

text \<open>
  Every arena of the runtime (the \<open>Slab\<close> crate, the two resource tables, the
  async table and the per-component handle tables) is a vector of slots in which
  the vacant slots form a singly linked list.  This theory states what such a
  list is, independently of the slot type, and proves once what popping,
  pushing and overwriting do to it.  The contract that the arenas offer their
  clients is the locale \<open>arena\<close>; each arena interprets it.
\<close>

section \<open>Chains of vacant slots\<close>

text \<open>
  \<open>nxt i\<close> is \<open>Some n\<close> when slot \<open>i\<close> is vacant with successor \<open>n\<close>, and \<open>None\<close>
  when slot \<open>i\<close> is occupied or does not exist.
\<close>

primrec free_chain :: "(nat \<Rightarrow> nat option option) \<Rightarrow> nat option \<Rightarrow> nat list \<Rightarrow> bool" where
  "free_chain nxt h [] \<longleftrightarrow> h = None"
| "free_chain nxt h (i # is) \<longleftrightarrow> h = Some i \<and> (\<exists>n. nxt i = Some n \<and> free_chain nxt n is)"

lemma free_chain_unique: "free_chain nxt h is \<Longrightarrow> free_chain nxt h js \<Longrightarrow> is = js"
proof (induction "is" arbitrary: h js)
  case Nil
  then show ?case by (cases js) auto
next
  case (Cons i "is")
  then show ?case by (cases js) auto
qed

lemma free_chain_suffix:
  "free_chain nxt h (as @ i # bs) \<Longrightarrow> free_chain nxt (Some i) (i # bs)"
  by (induction as arbitrary: h) auto

lemma free_chain_distinct: "free_chain nxt h is \<Longrightarrow> distinct is"
proof (induction "is" arbitrary: h)
  case Nil
  then show ?case by simp
next
  case (Cons i "is")
  then obtain n where n: "nxt i = Some n" "free_chain nxt n is" by auto
  have "i \<notin> set is"
  proof
    assume "i \<in> set is"
    then obtain as bs where sp: "is = as @ i # bs" by (auto dest: split_list)
    with n have "free_chain nxt (Some i) (i # bs)" by (blast intro: free_chain_suffix)
    moreover from n have "free_chain nxt (Some i) (i # is)" by simp
    ultimately have "i # bs = i # is" by (rule free_chain_unique)
    with sp show False by simp
  qed
  with n Cons.IH show ?case by auto
qed

lemma free_chain_cong:
  "(\<And>i. i \<in> set is \<Longrightarrow> nxt i = nxt' i) \<Longrightarrow> free_chain nxt h is = free_chain nxt' h is"
  by (induction "is" arbitrary: h) auto


section \<open>Free lists threaded through a vector\<close>

definition slot_next :: "('e \<Rightarrow> nat option option) \<Rightarrow> 'e list \<Rightarrow> nat \<Rightarrow> nat option option" where
  "slot_next next_of es i = (if i < length es then next_of (es ! i) else None)"

definition vacant :: "('e \<Rightarrow> nat option option) \<Rightarrow> 'e list \<Rightarrow> nat set" where
  "vacant next_of es = {i. i < length es \<and> next_of (es ! i) \<noteq> None}"

text \<open>The head \<open>h\<close> leads through all vacant slots of \<open>es\<close>, and through nothing else.\<close>

definition free_list_ok :: "('e \<Rightarrow> nat option option) \<Rightarrow> 'e list \<Rightarrow> nat option \<Rightarrow> bool" where
  "free_list_ok next_of es h \<longleftrightarrow>
     (\<exists>is. free_chain (slot_next next_of es) h is \<and> set is = vacant next_of es)"

lemma finite_vacant [simp]: "finite (vacant next_of es)"
  by (simp add: vacant_def)

lemma free_list_ok_empty [simp]: "free_list_ok next_of [] None"
  unfolding free_list_ok_def by (rule exI [of _ "[]"]) (simp add: vacant_def)

lemma free_list_ok_None:
  assumes "free_list_ok next_of es None"
  shows "vacant next_of es = {}"
proof -
  from assms obtain "is" where ch: "free_chain (slot_next next_of es) None is"
    and vac: "set is = vacant next_of es"
    by (auto simp: free_list_ok_def)
  from ch have "is = []" by (cases "is") auto
  with vac show ?thesis by simp
qed

lemma free_list_ok_no_vacancy:
  assumes "free_list_ok next_of es None" and "i < length es"
  shows "next_of (es ! i) = None"
  using free_list_ok_None [OF assms(1)] assms(2) by (auto simp: vacant_def)

lemma free_list_ok_fullI:
  assumes "\<And>i. i < length es \<Longrightarrow> next_of (es ! i) = None"
  shows "free_list_ok next_of es None"
  unfolding free_list_ok_def using assms by (intro exI [of _ "[]"]) (auto simp: vacant_def)

text \<open>The head of a free list is a vacant slot: popping it never fails.\<close>

lemma free_list_ok_SomeE:
  assumes "free_list_ok next_of es (Some i)"
  obtains n where "i < length es" and "next_of (es ! i) = Some n"
proof -
  from assms obtain "is" where "free_chain (slot_next next_of es) (Some i) is"
    by (auto simp: free_list_ok_def)
  then obtain n where "slot_next next_of es i = Some n" by (cases "is") auto
  then show thesis by (intro that) (auto simp: slot_next_def split: if_splits)
qed

lemma free_list_ok_pop:
  assumes ok: "free_list_ok next_of es (Some i)" and nx: "next_of (es ! i) = Some n"
    and occ: "next_of e = None"
  shows "free_list_ok next_of (es[i := e]) n"
proof -
  from ok obtain "is" where ch: "free_chain (slot_next next_of es) (Some i) is"
    and vac: "set is = vacant next_of es"
    by (auto simp: free_list_ok_def)
  from ch obtain js where js: "is = i # js" by (cases "is") auto
  from ch js have i: "i < length es" and chj: "free_chain (slot_next next_of es) n js"
    using nx by (auto simp: slot_next_def split: if_splits)
  from free_chain_distinct [OF ch] js have notin: "i \<notin> set js" by simp
  have "free_chain (slot_next next_of (es[i := e])) n js"
    using chj notin
    by (subst free_chain_cong [where nxt' = "slot_next next_of es"])
       (auto simp: slot_next_def nth_update_if)
  moreover have "vacant next_of (es[i := e]) = vacant next_of es - {i}"
    using occ by (auto simp: vacant_def nth_update_if split: if_splits)
  then have "set js = vacant next_of (es[i := e])"
    using vac [symmetric] js notin by simp
  ultimately show ?thesis by (auto simp: free_list_ok_def)
qed

lemma free_list_ok_push:
  assumes ok: "free_list_ok next_of es h" and i: "i < length es"
    and occ: "next_of (es ! i) = None" and e: "next_of e = Some h"
  shows "free_list_ok next_of (es[i := e]) (Some i)"
proof -
  from ok obtain "is" where ch: "free_chain (slot_next next_of es) h is"
    and vac: "set is = vacant next_of es"
    by (auto simp: free_list_ok_def)
  from vac occ have notin: "i \<notin> set is" by (auto simp: vacant_def)
  have "free_chain (slot_next next_of (es[i := e])) h is"
    using ch notin
    by (subst free_chain_cong [where nxt' = "slot_next next_of es"])
       (auto simp: slot_next_def nth_update_if)
  with i e have "free_chain (slot_next next_of (es[i := e])) (Some i) (i # is)"
    by (simp add: slot_next_def)
  moreover have "set (i # is) = vacant next_of (es[i := e])"
    using vac i e by (auto simp: vacant_def nth_update_if split: if_splits)
  ultimately show ?thesis unfolding free_list_ok_def by blast
qed

lemma free_list_ok_update:
  assumes ok: "free_list_ok next_of es h"
    and same: "i < length es \<Longrightarrow> next_of e = next_of (es ! i)"
  shows "free_list_ok next_of (es[i := e]) h"
proof -
  have "slot_next next_of (es[i := e]) = slot_next next_of es"
    using same by (auto simp: slot_next_def nth_update_if fun_eq_iff)
  moreover have "vacant next_of (es[i := e]) = vacant next_of es"
    using same by (auto simp: vacant_def nth_update_if split: if_splits)
  ultimately show ?thesis using ok by (simp add: free_list_ok_def)
qed

lemma free_list_ok_grow:
  assumes ok: "free_list_ok next_of es None" and e: "next_of e = None"
  shows "free_list_ok next_of (es @ [e]) None"
proof -
  have "vacant next_of (es @ [e]) = {}"
    using free_list_ok_None [OF ok] e by (auto simp: vacant_def nth_append split: if_splits)
  then show ?thesis
    unfolding free_list_ok_def by (intro exI [of _ "[]"]) simp
qed

text \<open>A vector without vacancies may be extended by one vacant slot.\<close>

lemma free_list_ok_grow_vacant:
  assumes ok: "free_list_ok next_of es None" and e: "next_of e = Some None"
  shows "free_list_ok next_of (es @ [e]) (Some (length es))"
proof -
  have "vacant next_of (es @ [e]) = {length es}"
    using free_list_ok_None [OF ok] e by (auto simp: vacant_def nth_append split: if_splits)
  moreover have "free_chain (slot_next next_of (es @ [e])) (Some (length es)) [length es]"
    using e by (simp add: slot_next_def)
  ultimately show ?thesis unfolding free_list_ok_def by (intro exI [of _ "[length es]"]) simp
qed

lemmas free_list_ok_intros =
  free_list_ok_pop free_list_ok_push free_list_ok_update free_list_ok_grow


section \<open>Free lists that end at the length of the vector\<close>

text \<open>
  The handle tables store a plain index as the link of a vacant slot, and the
  length of the vector is the end of the list.
\<close>

definition tail_link :: "nat \<Rightarrow> nat \<Rightarrow> nat option" where
  "tail_link len n = (if n = len then None else Some n)"

definition tail_list_ok :: "('e \<Rightarrow> nat option) \<Rightarrow> 'e list \<Rightarrow> nat \<Rightarrow> bool" where
  "tail_list_ok link_of es h \<longleftrightarrow>
     free_list_ok (\<lambda>e. map_option (tail_link (length es)) (link_of e)) es (tail_link (length es) h)"

lemma tail_list_ok_Nil [simp]: "tail_list_ok link_of [] 0"
  by (simp add: tail_list_ok_def tail_link_def)

lemma tail_list_full:
  assumes "tail_list_ok link_of es (length es)" and "i < length es"
  shows "link_of (es ! i) = None"
  using free_list_ok_no_vacancy [of "\<lambda>e. map_option (tail_link (length es)) (link_of e)" es i] assms
  by (simp add: tail_list_ok_def tail_link_def)

lemma tail_list_grow:
  assumes "tail_list_ok link_of es (length es)" and "link_of e = None"
  shows "tail_list_ok link_of (es @ [e]) (Suc (length es))"
  using tail_list_full [OF assms(1)] assms(2)
  unfolding tail_list_ok_def
  by (auto simp: tail_link_def nth_append less_Suc_eq intro!: free_list_ok_fullI)

lemma tail_list_pop:
  assumes "tail_list_ok link_of es h" and "h \<noteq> length es"
  obtains n where "h < length es" and "link_of (es ! h) = Some n"
    and "\<forall>e. link_of e = None \<longrightarrow> tail_list_ok link_of (es[h := e]) n"
proof -
  let ?nx = "\<lambda>e. map_option (tail_link (length es)) (link_of e)"
  have fl: "free_list_ok ?nx es (Some h)" using assms by (simp add: tail_list_ok_def tail_link_def)
  then obtain m where h: "h < length es" and m: "?nx (es ! h) = Some m" by (rule free_list_ok_SomeE)
  then obtain n where n: "link_of (es ! h) = Some n" "m = tail_link (length es) n" by auto
  have "tail_list_ok link_of (es[h := e]) n" if "link_of e = None" for e
    using free_list_ok_pop [OF fl m, of e] that n(2) by (simp add: tail_list_ok_def)
  then show thesis using h n(1) by (intro that) auto
qed

lemma tail_list_push:
  assumes "tail_list_ok link_of es h" and "i < length es" and "link_of (es ! i) = None" and "link_of e = Some h"
  shows "tail_list_ok link_of (es[i := e]) i"
  using free_list_ok_push [of "\<lambda>e. map_option (tail_link (length es)) (link_of e)" es _ i e] assms
  by (simp add: tail_list_ok_def tail_link_def)

lemma tail_list_update:
  assumes "tail_list_ok link_of es h" and "i < length es \<Longrightarrow> link_of e = link_of (es ! i)"
  shows "tail_list_ok link_of (es[i := e]) h"
  using assms unfolding tail_list_ok_def by (auto intro!: free_list_ok_update)


section \<open>The contract of an arena\<close>

text \<open>
  What the clients of an arena rely on.  \<open>lookup\<close> is the abstraction of the
  arena to a finite map from keys to values.  Insertion hands out a key that was
  not live and binds it; removal of a live key that the arena does not pin
  returns its value and unbinds it; neither touches any other key; neither
  panics on a well-formed arena; a failed removal leaves the map as it was.
\<close>

locale arena =
  fixes inv :: "'t \<Rightarrow> bool"
    and lookup :: "'t \<Rightarrow> nat \<Rightarrow> 'v option"
    and insert :: "'v \<Rightarrow> 't \<Rightarrow> ('e, nat, 't) result"
    and remove :: "nat \<Rightarrow> 't \<Rightarrow> ('e, 'v, 't) result"
    and pinned :: "'t \<Rightarrow> nat \<Rightarrow> bool"
  assumes finite_dom: "inv t \<Longrightarrow> finite (dom (lookup t))"
    and insert_Ok: "inv t \<Longrightarrow> insert v t = (Ok k, t') \<Longrightarrow>
          inv t' \<and> lookup t k = None \<and> lookup t' = (lookup t)(k \<mapsto> v) \<and> \<not> pinned t' k"
    and remove_Ok: "inv t \<Longrightarrow> remove k t = (Ok v, t') \<Longrightarrow>
          inv t' \<and> lookup t k = Some v \<and> lookup t' = (lookup t)(k := None)"
    and remove_live: "inv t \<Longrightarrow> lookup t k = Some v \<Longrightarrow> \<not> pinned t k \<Longrightarrow>
          \<exists>t'. remove k t = (Ok v, t')"
    and remove_Err: "inv t \<Longrightarrow> remove k t = (Err e, t') \<Longrightarrow> inv t' \<and> lookup t' = lookup t"
begin

lemma insert_then_lookup:
  assumes "inv t" and "insert v t = (Ok k, t')"
  shows "lookup t' k = Some v"
  using insert_Ok [OF assms] by simp

lemma insert_frame:
  assumes "inv t" and "insert v t = (Ok k, t')" and "lookup t j = Some w"
  shows "lookup t' j = Some w" and "j \<noteq> k"
  using insert_Ok [OF assms(1,2)] assms(3) by auto

lemma insert_remove_roundtrip:
  assumes "inv t" and "insert v t = (Ok k, t')"
  shows "\<exists>t''. remove k t' = (Ok v, t'') \<and> inv t'' \<and> lookup t'' = lookup t"
proof -
  from insert_Ok [OF assms] have t': "inv t'" "lookup t k = None"
    "lookup t' = (lookup t)(k \<mapsto> v)" "\<not> pinned t' k" by auto
  then obtain t'' where rm: "remove k t' = (Ok v, t'')"
    using remove_live [of t' k v] by auto
  from remove_Ok [OF t'(1) rm] t' have "inv t''" "lookup t'' = lookup t" by auto
  with rm show ?thesis by blast
qed

lemma card_insert:
  assumes "inv t" and "insert v t = (Ok k, t')"
  shows "card (dom (lookup t')) = Suc (card (dom (lookup t)))"
proof -
  from insert_Ok [OF assms] have "lookup t k = None" "lookup t' = (lookup t)(k \<mapsto> v)" by auto
  then have "dom (lookup t') = Set.insert k (dom (lookup t))" "k \<notin> dom (lookup t)" by auto
  with finite_dom [OF assms(1)] show ?thesis by simp
qed

lemma card_remove:
  assumes "inv t" and "remove k t = (Ok v, t')"
  shows "Suc (card (dom (lookup t'))) = card (dom (lookup t))"
proof -
  from remove_Ok [OF assms] have "lookup t k = Some v" "lookup t' = (lookup t)(k := None)" by auto
  then have "dom (lookup t') = dom (lookup t) - {k}" "k \<in> dom (lookup t)" by auto
  with finite_dom [OF assms(1)] show ?thesis by (metis card_Suc_Diff1)
qed

lemma remove_twice_fails:
  assumes "inv t" and "remove k t = (Ok v, t')" and "remove k t' = (r, t'')"
  shows "\<not> is_ok r"
proof
  assume "is_ok r"
  with assms(3) obtain w where rm: "remove k t' = (Ok w, t'')" by (cases r) auto
  from remove_Ok [OF assms(1,2)] have "inv t'" "lookup t' k = None" by auto
  with remove_Ok [OF _ rm] show False by simp
qed

end

text \<open>An arena whose failed insertions leave it well formed and the map as it was.\<close>

locale atomic_arena = arena +
  assumes insert_Err: "inv t \<Longrightarrow> insert v t = (Err e, t') \<Longrightarrow> inv t' \<and> lookup t' = lookup t"
begin

lemma insert_keeps_inv:
  assumes "inv t" and "insert v t = (r, t')" and "\<not> panics r"
  shows "inv t'" and "lookup t \<subseteq>\<^sub>m lookup t'"
  using assms insert_Ok [of t v _ t'] insert_Err [of t v _ t']
  by (cases r; auto simp: map_le_def)+

lemma remove_keeps_inv:
  assumes "inv t" and "remove k t = (r, t')" and "\<not> panics r"
  shows "inv t'" and "lookup t' \<subseteq>\<^sub>m lookup t"
  using assms remove_Ok [of t k _ t'] remove_Err [of t k _ t']
  by (cases r; auto simp: map_le_def)+

end

end
