(* ===== verification/Slab.thy ===== *)
theory Slab
  imports Free_List
begin

text \<open>
  The slab arena of \<open>crates/slab/src/lib.rs\<close>: its entry index (a \<open>NonZeroU32\<close>
  holding the index plus one), its entries, its free list, its capacity and its
  count of occupied entries, with every method of the crate.  The growth policy
  of \<open>Vec::reserve\<close> is a parameter constrained by what the standard library
  documents.
\<close>

section \<open>Indices\<close>

definition max_capacity :: nat where
  "max_capacity = u32_max - 1"

datatype entry_index = EntryIndex nat

definition entry_index_new :: "nat \<Rightarrow> ('e, entry_index) outcome" where
  "entry_index_new index =
     (if index \<le> max_capacity
      then (case u32_try_from (index + 1) of
              Some x \<Rightarrow> if x = 0 then Panic ''unwrap on None'' else Ok (EntryIndex x)
            | None \<Rightarrow> Panic ''unwrap on Err'')
      else Panic ''assertion failed: index <= MAX_CAPACITY'')"

fun entry_index_index :: "entry_index \<Rightarrow> nat" where
  "entry_index_index (EntryIndex x) = x - 1"

datatype slab_id = Id entry_index

fun id_into_raw :: "slab_id \<Rightarrow> nat" where
  "id_into_raw (Id i) = entry_index_index i"

definition id_from_raw :: "nat \<Rightarrow> ('e, slab_id) outcome" where
  "id_from_raw raw = map_ok Id (entry_index_new raw)"


section \<open>The slab\<close>

datatype 'a slab_entry = SlabOccupied 'a | SlabFree "entry_index option"

record 'a slab =
  slab_entries :: "'a slab_entry list"
  slab_capacity :: nat
  slab_free :: "entry_index option"
  slab_len :: nat

definition slab_default :: "'a slab" where
  "slab_default = \<lparr>slab_entries = [], slab_capacity = 0, slab_free = None, slab_len = 0\<rparr>"

definition slab_new :: "'a slab" where
  "slab_new = slab_default"

text \<open>
  \<open>grow cap len additional\<close> is the capacity of a vector of capacity \<open>cap\<close> and
  length \<open>len\<close> after \<open>Vec::reserve(additional)\<close>.
\<close>

type_synonym growth = "nat \<Rightarrow> nat \<Rightarrow> nat \<Rightarrow> nat"

definition slab_reserve :: "growth \<Rightarrow> nat \<Rightarrow> 'a slab \<Rightarrow> ('e, unit, 'a slab) result" where
  "slab_reserve grow additional s =
     (let cap = slab_capacity s; len = slab_len s in
      if \<not> len \<le> cap then (Panic ''assertion failed: cap >= len'', s)
      else if additional \<le> cap - len then (Ok (), s)
      else
        let s' = s\<lparr>slab_capacity := grow cap (length (slab_entries s)) additional\<rparr> in
        if slab_capacity s' \<le> max_capacity then (Ok (), s')
        else (Panic ''assertion failed: capacity <= MAX_CAPACITY'', s'))"

definition slab_with_capacity :: "growth \<Rightarrow> nat \<Rightarrow> ('e, unit, 'a slab) result" where
  "slab_with_capacity grow capacity = slab_reserve grow capacity slab_new"

definition slab_double_capacity :: "growth \<Rightarrow> 'a slab \<Rightarrow> ('e, unit, 'a slab) result" where
  "slab_double_capacity grow s = slab_reserve grow (max (slab_capacity s) 16) s"

definition slab_is_empty :: "'a slab \<Rightarrow> bool" where
  "slab_is_empty s \<longleftrightarrow> slab_len s = 0"

definition slab_try_alloc_index :: "'a slab \<Rightarrow> ('e, entry_index option, 'a slab) result" where
  "slab_try_alloc_index s = (case slab_free s of
      Some i \<Rightarrow> (Ok (Some i), s\<lparr>slab_free := None\<rparr>)
    | None \<Rightarrow>
        if length (slab_entries s) < slab_capacity s
        then (case entry_index_new (length (slab_entries s)) of
                Ok i \<Rightarrow> (Ok (Some i), s\<lparr>slab_entries := slab_entries s @ [SlabFree None]\<rparr>)
              | Err e \<Rightarrow> (Err e, s)
              | Panic p \<Rightarrow> (Panic p, s))
        else (Ok None, s))"

text \<open>\<open>self.len += 1\<close> on a \<open>u32\<close>, with the overflow check of a debug build.\<close>

definition slab_incr_len :: "'a slab \<Rightarrow> ('e, unit, 'a slab) result" where
  "slab_incr_len s = (case u32_checked_add (slab_len s) 1 of
      Some n \<Rightarrow> (Ok (), s\<lparr>slab_len := n\<rparr>)
    | None \<Rightarrow> (Panic ''attempt to add with overflow'', s))"

definition slab_try_alloc :: "'a \<Rightarrow> 'a slab \<Rightarrow> ('a, slab_id, 'a slab) result" where
  "slab_try_alloc v s =
     and_then (slab_try_alloc_index s) (\<lambda>ix s. case ix of
         None \<Rightarrow> (Err v, s)
       | Some index \<Rightarrow>
           (case vec_get (slab_entries s) (entry_index_index index) of
              None \<Rightarrow> (Panic ''index out of bounds'', s)
            | Some (SlabOccupied x) \<Rightarrow> (Panic ''unreachable'', s)
            | Some (SlabFree next_free) \<Rightarrow>
                and_then (slab_incr_len (s\<lparr>slab_free := next_free,
                    slab_entries := (slab_entries s)[entry_index_index index := SlabOccupied v]\<rparr>))
                  (\<lambda>_ s. (Ok (Id index), s))))"

definition slab_alloc_slow :: "growth \<Rightarrow> 'a \<Rightarrow> 'a slab \<Rightarrow> ('a, slab_id, 'a slab) result" where
  "slab_alloc_slow grow v s =
     and_then (slab_double_capacity grow s) (\<lambda>_ s.
       case slab_try_alloc v s of
         (Ok i, s) \<Rightarrow> (Ok i, s)
       | (Err e, s) \<Rightarrow> (Panic ''unwrap on None'', s)
       | (Panic p, s) \<Rightarrow> (Panic p, s))"

definition slab_alloc :: "growth \<Rightarrow> 'a \<Rightarrow> 'a slab \<Rightarrow> ('a, slab_id, 'a slab) result" where
  "slab_alloc grow v s = (case slab_try_alloc v s of
      (Ok i, s) \<Rightarrow> (Ok i, s)
    | (Err v, s) \<Rightarrow> slab_alloc_slow grow v s
    | (Panic p, s) \<Rightarrow> (Panic p, s))"

definition slab_next_id :: "'a slab \<Rightarrow> ('e, slab_id) outcome" where
  "slab_next_id s = (case slab_free s of
      Some index \<Rightarrow> Ok (Id index)
    | None \<Rightarrow> map_ok Id (entry_index_new (slab_len s)))"

fun slab_get :: "slab_id \<Rightarrow> 'a slab \<Rightarrow> ('e, 'a option) outcome" where
  "slab_get (Id i) s = (case vec_get (slab_entries s) (entry_index_index i) of
      None \<Rightarrow> Panic ''id from different slab''
    | Some (SlabOccupied x) \<Rightarrow> Ok (Some x)
    | Some (SlabFree n) \<Rightarrow> Ok None)"

text \<open>\<open>get_mut\<close>, with what the caller does to the borrowed value.\<close>

fun slab_get_mut :: "slab_id \<Rightarrow> ('a \<Rightarrow> 'a) \<Rightarrow> 'a slab \<Rightarrow> ('e, 'a option, 'a slab) result" where
  "slab_get_mut (Id i) f s = (case vec_get (slab_entries s) (entry_index_index i) of
      None \<Rightarrow> (Panic ''id from different slab'', s)
    | Some (SlabOccupied x) \<Rightarrow>
        (Ok (Some x), s\<lparr>slab_entries := (slab_entries s)[entry_index_index i := SlabOccupied (f x)]\<rparr>)
    | Some (SlabFree n) \<Rightarrow> (Ok None, s))"

text \<open>\<open>Index::index\<close>.\<close>

definition slab_index :: "slab_id \<Rightarrow> 'a slab \<Rightarrow> ('e, 'a) outcome" where
  "slab_index i s = (case slab_get i s of
      Ok (Some x) \<Rightarrow> Ok x
    | Ok None \<Rightarrow> Panic ''id from different slab or value was deallocated''
    | Err e \<Rightarrow> Err e
    | Panic p \<Rightarrow> Panic p)"

fun slab_contains :: "slab_id \<Rightarrow> 'a slab \<Rightarrow> bool" where
  "slab_contains (Id i) s = (case vec_get (slab_entries s) (entry_index_index i) of
      Some (SlabOccupied x) \<Rightarrow> True
    | _ \<Rightarrow> False)"

fun slab_dealloc :: "slab_id \<Rightarrow> 'a slab \<Rightarrow> ('e, 'a, 'a slab) result" where
  "slab_dealloc (Id i) s = (let ix = entry_index_index i in
     case vec_get (slab_entries s) ix of
       None \<Rightarrow> (Panic ''id from a different slab'', s)
     | Some (SlabFree n) \<Rightarrow>
         (Panic ''attempt to deallocate an entry that is already vacant'',
          s\<lparr>slab_entries := (slab_entries s)[ix := SlabFree None]\<rparr>)
     | Some (SlabOccupied v) \<Rightarrow>
         (let next_free = slab_free s;
              s' = s\<lparr>slab_free := Some i, slab_entries := (slab_entries s)[ix := SlabFree next_free]\<rparr>
          in case u32_checked_sub (slab_len s) 1 of
               Some n \<Rightarrow> (Ok v, s'\<lparr>slab_len := n\<rparr>)
             | None \<Rightarrow> (Panic ''attempt to subtract with overflow'', s')))"

fun slab_iter_from :: "nat \<Rightarrow> 'a slab_entry list \<Rightarrow> ('e, (slab_id \<times> 'a) list) outcome" where
  "slab_iter_from i [] = Ok []"
| "slab_iter_from i (SlabFree n # es) = slab_iter_from (Suc i) es"
| "slab_iter_from i (SlabOccupied x # es) =
     and_then_pure (entry_index_new i) (\<lambda>ix.
       map_ok (\<lambda>r. (Id ix, x) # r) (slab_iter_from (Suc i) es))"

definition slab_iter :: "'a slab \<Rightarrow> ('e, (slab_id \<times> 'a) list) outcome" where
  "slab_iter s =
     (if length (slab_entries s) \<le> max_capacity then slab_iter_from 0 (slab_entries s)
      else Panic ''assertion failed: entries.len() <= MAX_CAPACITY'')"

text \<open>\<open>iter_mut\<close>, with what the caller does to each of the borrowed values.\<close>

definition slab_iter_mut :: "('a \<Rightarrow> 'a) \<Rightarrow> 'a slab \<Rightarrow> ('e, (slab_id \<times> 'a) list, 'a slab) result" where
  "slab_iter_mut f s =
     (if length (slab_entries s) \<le> max_capacity
      then (slab_iter_from 0 (slab_entries s),
            s\<lparr>slab_entries := map (\<lambda>e. case e of SlabOccupied x \<Rightarrow> SlabOccupied (f x)
                                              | SlabFree n \<Rightarrow> SlabFree n) (slab_entries s)\<rparr>)
      else (Panic ''assertion failed: entries.len() <= MAX_CAPACITY'', s))"

definition slab_drain :: "'a slab \<Rightarrow> ('e, (slab_id \<times> 'a) list, 'a slab) result" where
  "slab_drain s =
     (if length (slab_entries s) \<le> max_capacity
      then (slab_iter_from 0 (slab_entries s),
            s\<lparr>slab_len := 0, slab_free := None, slab_entries := []\<rparr>)
      else (Panic ''assertion failed: entries.len() <= MAX_CAPACITY'', s))"


section \<open>The invariant\<close>

fun slab_next_of :: "'a slab_entry \<Rightarrow> nat option option" where
  "slab_next_of (SlabOccupied x) = None"
| "slab_next_of (SlabFree n) = Some (map_option entry_index_index n)"

text \<open>The payload of a \<open>NonZeroU32\<close>.\<close>

fun index_ok :: "entry_index \<Rightarrow> bool" where
  "index_ok (EntryIndex x) \<longleftrightarrow> 0 < x"

fun link_ok :: "'a slab_entry \<Rightarrow> bool" where
  "link_ok (SlabOccupied x) \<longleftrightarrow> True"
| "link_ok (SlabFree n) \<longleftrightarrow> pred_option index_ok n"

fun is_occupied :: "'a slab_entry \<Rightarrow> bool" where
  "is_occupied (SlabOccupied x) = True"
| "is_occupied (SlabFree n) = False"

definition slab_inv :: "'a slab \<Rightarrow> bool" where
  "slab_inv s \<longleftrightarrow>
     free_list_ok slab_next_of (slab_entries s) (map_option entry_index_index (slab_free s)) \<and>
     pred_option index_ok (slab_free s) \<and> list_all link_ok (slab_entries s) \<and>
     slab_len s = length (filter is_occupied (slab_entries s)) \<and>
     length (slab_entries s) \<le> slab_capacity s \<and> slab_capacity s \<le> max_capacity"

text \<open>The slab as a finite map from raw identifiers to values.\<close>

definition slab_lookup :: "'a slab \<Rightarrow> nat \<Rightarrow> 'a option" where
  "slab_lookup s k = (case vec_get (slab_entries s) k of
      Some (SlabOccupied x) \<Rightarrow> Some x
    | _ \<Rightarrow> None)"

lemma slab_next_of_None [simp]: "slab_next_of e = None \<longleftrightarrow> is_occupied e"
  by (cases e) auto

lemma is_occupied_iff: "is_occupied e \<longleftrightarrow> (\<exists>x. e = SlabOccupied x)"
  by (cases e) auto

lemma max_capacity_lt: "max_capacity < u32_max"
  by (simp add: max_capacity_def u32_max_def)

lemma entry_index_new_Ok: "n \<le> max_capacity \<Longrightarrow> entry_index_new n = Ok (EntryIndex (Suc n))"
  using max_capacity_lt by (simp add: entry_index_new_def u32_try_from_def)

lemma entry_index_new_eq [simp]:
  "entry_index_new n = Ok i \<longleftrightarrow> n \<le> max_capacity \<and> i = EntryIndex (Suc n)"
proof (cases "n \<le> max_capacity")
  case True
  then show ?thesis by (auto simp: entry_index_new_Ok)
next
  case False
  then show ?thesis by (simp add: entry_index_new_def)
qed

lemma entry_index_new_not_Err [simp]: "entry_index_new n \<noteq> Err e"
  by (simp add: entry_index_new_def split: option.splits)

lemma length_filter_update:
  assumes "i < length xs"
  shows "length (filter P (xs[i := x])) + (if P (xs ! i) then 1 else 0) =
         length (filter P xs) + (if P x then 1 else 0)"
  using assms
proof (induction xs arbitrary: i)
  case Nil
  then show ?case by simp
next
  case (Cons a xs)
  then show ?case by (cases i) (auto split: if_splits)
qed

lemma list_all_update: "list_all P xs \<Longrightarrow> P x \<Longrightarrow> list_all P (xs[i := x])"
  using set_update_subset_insert [of xs i x] by (auto simp: list_all_iff)


lemma slab_inv_default [simp]: "slab_inv slab_default" "slab_lookup slab_default = Map.empty"
  by (auto simp: slab_inv_def slab_default_def slab_lookup_def vec_get_def fun_eq_iff)

lemma slab_lookup_Some:
  "slab_lookup s k = Some x \<longleftrightarrow> k < length (slab_entries s) \<and> slab_entries s ! k = SlabOccupied x"
  by (auto simp: slab_lookup_def vec_get_def split: slab_entry.splits)

lemma slab_lookup_None:
  "slab_lookup s k = None \<longleftrightarrow> (k < length (slab_entries s) \<longrightarrow> \<not> is_occupied (slab_entries s ! k))"
  by (auto simp: slab_lookup_def vec_get_def split: slab_entry.splits)

lemma finite_dom_slab_lookup [simp]: "finite (dom (slab_lookup s))"
proof (rule finite_subset)
  show "dom (slab_lookup s) \<subseteq> {..<length (slab_entries s)}" by (auto simp: slab_lookup_Some)
qed simp

lemma slab_lookup_update:
  "k < length (slab_entries s) \<Longrightarrow> slab_entries s' = (slab_entries s)[k := e] \<Longrightarrow>
   slab_lookup s' = (slab_lookup s)(k := (case e of SlabOccupied x \<Rightarrow> Some x | SlabFree n \<Rightarrow> None))"
  by (auto simp: slab_lookup_def vec_get_def nth_update_if fun_eq_iff split: slab_entry.splits)

lemma slab_lookup_append:
  "slab_entries s' = slab_entries s @ [e] \<Longrightarrow>
   slab_lookup s' = (slab_lookup s)(length (slab_entries s) :=
     (case e of SlabOccupied x \<Rightarrow> Some x | SlabFree n \<Rightarrow> None))"
  by (auto simp: slab_lookup_def vec_get_def nth_append fun_eq_iff split: slab_entry.splits)

text \<open>An unlinked free list means that every entry is occupied.\<close>

lemma slab_full:
  assumes "slab_inv s" and "slab_free s = None"
  shows "slab_len s = length (slab_entries s)"
proof -
  from assms have "free_list_ok slab_next_of (slab_entries s) None" by (simp add: slab_inv_def)
  then have "\<forall>e\<in>set (slab_entries s). is_occupied e"
    using free_list_ok_no_vacancy [of slab_next_of "slab_entries s"] by (auto simp: in_set_conv_nth)
  then have "filter is_occupied (slab_entries s) = slab_entries s" by simp
  with assms(1) show ?thesis by (simp add: slab_inv_def)
qed

lemma slab_len_card:
  assumes "slab_inv s"
  shows "slab_len s = card (dom (slab_lookup s))"
proof -
  have "dom (slab_lookup s) = {i. i < length (slab_entries s) \<and> is_occupied (slab_entries s ! i)}"
    by (auto simp: slab_lookup_Some is_occupied_iff)
  with assms show ?thesis by (simp add: slab_inv_def length_filter_conv_card)
qed

lemma slab_len_le: "slab_inv s \<Longrightarrow> slab_len s \<le> length (slab_entries s)"
  by (simp add: slab_inv_def)

text \<open>The entry taken from the free list.\<close>

lemma slab_try_alloc_free:
  assumes inv: "slab_inv s" and fr: "slab_free s = Some i"
  shows "\<exists>k s'. i = EntryIndex (Suc k) \<and> slab_try_alloc v s = (Ok (Id i), s') \<and> slab_inv s' \<and>
           slab_lookup s k = None \<and> slab_lookup s' = (slab_lookup s)(k \<mapsto> v)"
proof -
  obtain k where i: "i = EntryIndex (Suc k)"
    using inv fr by (cases i) (auto simp: slab_inv_def gr0_conv_Suc)
  with inv fr have fl: "free_list_ok slab_next_of (slab_entries s) (Some k)"
    by (simp add: slab_inv_def)
  then obtain m where k: "k < length (slab_entries s)" and
    nx: "slab_next_of (slab_entries s ! k) = Some m" by (rule free_list_ok_SomeE)
  from nx obtain n where ent: "slab_entries s ! k = SlabFree n" and m: "m = map_option entry_index_index n"
    by (cases "slab_entries s ! k") auto
  let ?es = "(slab_entries s)[k := SlabOccupied v]"
  have cnt: "length (filter is_occupied ?es) = Suc (slab_len s)"
    using length_filter_update [OF k, of is_occupied "SlabOccupied v"] ent inv
    by (simp add: slab_inv_def)
  moreover have "length (filter is_occupied ?es) \<le> length (slab_entries s)"
    by (rule order_trans [OF length_filter_le]) simp
  ultimately have "Suc (slab_len s) \<le> u32_max"
    using inv max_capacity_lt by (simp add: slab_inv_def)
  then have ok: "slab_try_alloc v s = (Ok (Id i),
      s\<lparr>slab_free := n, slab_entries := ?es, slab_len := Suc (slab_len s)\<rparr>)" (is "_ = (_, ?s)")
    using k ent i fr
    by (simp add: slab_try_alloc_def slab_try_alloc_index_def slab_incr_len_def vec_get_def
          u32_checked_add_def)
  have "pred_option index_ok n"
    using inv k ent unfolding slab_inv_def list_all_iff by (metis link_ok.simps(2) nth_mem)
  then have "slab_inv ?s"
    using inv cnt free_list_ok_pop [OF fl nx, of "SlabOccupied v"] m
    by (simp add: slab_inv_def list_all_update)
  moreover have "slab_lookup ?s = (slab_lookup s)(k \<mapsto> v)"
    using k by (subst slab_lookup_update [of k s]) auto
  moreover have "slab_lookup s k = None" using ent by (simp add: slab_lookup_None)
  ultimately show ?thesis using i ok by blast
qed

text \<open>The entry pushed onto the vector within its capacity.\<close>

lemma slab_try_alloc_grow:
  assumes inv: "slab_inv s" and fr: "slab_free s = None"
    and cap: "length (slab_entries s) < slab_capacity s"
  shows "\<exists>s'. slab_try_alloc v s = (Ok (Id (EntryIndex (Suc (length (slab_entries s))))), s') \<and> slab_inv s' \<and>
           slab_lookup s' = (slab_lookup s)(length (slab_entries s) \<mapsto> v)"
proof -
  let ?n = "length (slab_entries s)"
  from inv cap have n: "?n \<le> max_capacity" "slab_capacity s \<le> max_capacity"
    by (auto simp: slab_inv_def)
  have len: "slab_len s = ?n" using inv fr by (rule slab_full)
  have ok: "slab_try_alloc v s = (Ok (Id (EntryIndex (Suc ?n))),
      s\<lparr>slab_entries := slab_entries s @ [SlabOccupied v], slab_len := Suc ?n\<rparr>)" (is "_ = (_, ?s)")
    using fr cap n len max_capacity_lt
    by (simp add: slab_try_alloc_def slab_try_alloc_index_def slab_incr_len_def vec_get_def
          u32_checked_add_def entry_index_new_Ok)
  have "free_list_ok slab_next_of (slab_entries s @ [SlabOccupied v]) None"
    using inv fr by (intro free_list_ok_grow) (auto simp: slab_inv_def)
  then have "slab_inv ?s"
    using inv fr cap len by (simp add: slab_inv_def)
  moreover have "slab_lookup ?s = (slab_lookup s)(?n \<mapsto> v)"
    by (subst slab_lookup_append [of _ s]) auto
  ultimately show ?thesis using ok by blast
qed

lemma slab_try_alloc_full:
  assumes "slab_inv s" and "slab_free s = None" and "\<not> length (slab_entries s) < slab_capacity s"
  shows "slab_try_alloc v s = (Err v, s)"
  using assms by (simp add: slab_try_alloc_def slab_try_alloc_index_def)

lemma slab_lookup_length [simp]: "slab_lookup s (length (slab_entries s)) = None"
  by (simp add: slab_lookup_None)

lemma slab_try_alloc_cases:
  assumes inv: "slab_inv s"
  obtains (done_) k s' where "slab_try_alloc v s = (Ok (Id (EntryIndex (Suc k))), s')" "slab_inv s'"
      "slab_lookup s k = None" "slab_lookup s' = (slab_lookup s)(k \<mapsto> v)"
      "slab_next_id s = (Ok (Id (EntryIndex (Suc k))) :: (unit, slab_id) outcome)"
    | (full) "slab_try_alloc v s = (Err v, s)" "slab_free s = None"
      "length (slab_entries s) = slab_capacity s" "slab_len s = slab_capacity s"
proof (cases "slab_free s")
  case (Some i)
  then show ?thesis
    using slab_try_alloc_free [OF inv Some, of v] by (auto simp: slab_next_id_def intro: done_)
next
  case None
  show ?thesis
  proof (cases "length (slab_entries s) < slab_capacity s")
    case True
    have "slab_len s \<le> max_capacity"
      using slab_full [OF inv None] True inv by (simp add: slab_inv_def)
    with True None show ?thesis
      using slab_try_alloc_grow [OF inv None True, of v] slab_full [OF inv None]
      by (auto simp: slab_next_id_def entry_index_new_Ok intro: done_)
  next
    case False
    with None inv show ?thesis
      using slab_try_alloc_full [OF inv None False, of v] slab_full [OF inv None]
      by (intro full) (auto simp: slab_inv_def)
  qed
qed


text \<open>Returning an occupied entry to the free list.\<close>

lemma slab_dealloc_live:
  assumes inv: "slab_inv s" and live: "slab_lookup s k = Some v"
  shows "\<exists>s'. slab_dealloc (Id (EntryIndex (Suc k))) s = (Ok v, s') \<and> slab_inv s' \<and>
           slab_lookup s' = (slab_lookup s)(k := None) \<and> slab_free s' = Some (EntryIndex (Suc k))"
proof -
  from live have k: "k < length (slab_entries s)" and ent: "slab_entries s ! k = SlabOccupied v"
    by (auto simp: slab_lookup_Some)
  let ?es = "(slab_entries s)[k := SlabFree (slab_free s)]"
  have cnt: "Suc (length (filter is_occupied ?es)) = slab_len s"
    using length_filter_update [OF k, of is_occupied "SlabFree (slab_free s)"] ent inv
    by (simp add: slab_inv_def)
  then have ok: "slab_dealloc (Id (EntryIndex (Suc k))) s = (Ok v,
      s\<lparr>slab_free := Some (EntryIndex (Suc k)), slab_entries := ?es, slab_len := slab_len s - 1\<rparr>)"
      (is "_ = (_, ?s)")
    using k ent by (simp add: vec_get_def u32_checked_sub_def Let_def)
  have "slab_inv ?s"
    using inv cnt k ent by (auto simp: slab_inv_def list_all_update intro!: free_list_ok_push)
  moreover have "slab_lookup ?s = (slab_lookup s)(k := None)"
    using k by (subst slab_lookup_update [of k s]) auto
  ultimately show ?thesis using ok by auto
qed

lemma slab_dealloc_dead:
  "slab_lookup s (entry_index_index i) = None \<Longrightarrow> panics (fst (slab_dealloc (Id i) s))"
  by (auto simp: slab_lookup_def vec_get_def Let_def split: slab_entry.splits if_splits)

lemma slab_get_eq:
  "slab_get (Id i) s = (if entry_index_index i < length (slab_entries s)
     then Ok (slab_lookup s (entry_index_index i)) else Panic ''id from different slab'')"
  by (auto simp: slab_lookup_def vec_get_def split: slab_entry.splits)

lemma slab_contains_iff: "slab_contains (Id i) s \<longleftrightarrow> slab_lookup s (entry_index_index i) \<noteq> None"
  by (auto simp: slab_lookup_def vec_get_def split: slab_entry.splits option.splits)

lemma slab_get_mut_live:
  assumes "slab_inv s" and "slab_lookup s k = Some v"
  shows "\<exists>s'. slab_get_mut (Id (EntryIndex (Suc k))) f s = (Ok (Some v), s') \<and> slab_inv s' \<and>
           slab_lookup s' = (slab_lookup s)(k \<mapsto> f v)"
proof -
  from assms(2) have k: "k < length (slab_entries s)" and ent: "slab_entries s ! k = SlabOccupied v"
    by (auto simp: slab_lookup_Some)
  have "length (filter is_occupied ((slab_entries s)[k := SlabOccupied (f v)])) =
        length (filter is_occupied (slab_entries s))"
    using length_filter_update [OF k, of is_occupied "SlabOccupied (f v)"] ent by simp
  then show ?thesis
    using k ent assms(1) slab_lookup_update [OF k, of _ "SlabOccupied (f v)"]
    by (auto simp: vec_get_def slab_inv_def list_all_update intro!: free_list_ok_update)
qed

lemma ex_nat_split: "(\<exists>j. P j) \<longleftrightarrow> P 0 \<or> (\<exists>j. P (Suc j))"
  by (metis not0_implies_Suc)

lemma ex_index_Cons:
  "(\<exists>j. ix = f j \<and> j < length (e # es) \<and> (e # es) ! j = y) \<longleftrightarrow>
   ix = f 0 \<and> e = y \<or> (\<exists>j. ix = f (Suc j) \<and> j < length es \<and> es ! j = y)"
  by (subst ex_nat_split) simp

lemma slab_iter_from_Ok:
  assumes "i + length es \<le> Suc max_capacity"
  shows "\<exists>xs. slab_iter_from i es = (Ok xs :: ('e, (slab_id \<times> 'a) list) outcome) \<and>
           length xs = length (filter is_occupied es) \<and>
           (\<forall>ix x. (ix, x) \<in> set xs \<longleftrightarrow>
              (\<exists>j. ix = Id (EntryIndex (Suc (i + j))) \<and> j < length es \<and> es ! j = SlabOccupied x))"
  using assms
proof (induction es arbitrary: i)
  case Nil
  then show ?case by simp
next
  case (Cons e es)
  have "Suc i + length es \<le> Suc max_capacity" using Cons.prems by simp
  from Cons.IH [OF this] obtain xs where "slab_iter_from (Suc i) es = (Ok xs :: ('e, (slab_id \<times> 'a) list) outcome) \<and>
      length xs = length (filter is_occupied es) \<and>
      (\<forall>ix x. (ix, x) \<in> set xs \<longleftrightarrow>
       (\<exists>j. ix = Id (EntryIndex (Suc (Suc i + j))) \<and> j < length es \<and> es ! j = SlabOccupied x))" ..
  note xs = this [THEN conjunct1] this [THEN conjunct2, THEN conjunct1]
    this [THEN conjunct2, THEN conjunct2, rule_format]
  show ?case
  proof (cases e)
    case (SlabOccupied y)
    with xs(1) Cons.prems have "slab_iter_from i (e # es) =
        (Ok ((Id (EntryIndex (Suc i)), y) # xs) :: ('e, (slab_id \<times> 'a) list) outcome)"
      by (simp add: entry_index_new_Ok)
    moreover have "(ix, x) \<in> set ((Id (EntryIndex (Suc i)), y) # xs) \<longleftrightarrow>
        (\<exists>j. ix = Id (EntryIndex (Suc (i + j))) \<and> j < length (e # es) \<and> (e # es) ! j = SlabOccupied x)"
      for ix x
      unfolding ex_index_Cons SlabOccupied using xs(3) [of ix x] by (simp add: eq_commute [of x])
    ultimately show ?thesis using xs(2) SlabOccupied by simp
  next
    case (SlabFree n)
    then have "(ix, x) \<in> set xs \<longleftrightarrow>
        (\<exists>j. ix = Id (EntryIndex (Suc (i + j))) \<and> j < length (e # es) \<and> (e # es) ! j = SlabOccupied x)"
      for ix x
      unfolding ex_index_Cons using xs(3) [of ix x] by simp
    with xs(1,2) SlabFree show ?thesis by simp
  qed
qed

text \<open>The growth policy of \<open>Vec\<close>, as its documentation constrains it.\<close>

locale vec_growth =
  fixes grow :: growth
  assumes grow_enough: "len \<le> cap \<Longrightarrow> len + additional \<le> grow cap len additional"
begin

lemma double_capacity_grows:
  assumes inv: "slab_inv s" and full: "slab_len s = slab_capacity s"
    and eq: "slab_double_capacity grow s = (r :: ('e, unit) outcome, s')"
  shows "(\<exists>p. r = Panic p \<and> max_capacity < slab_capacity s') \<or>
         r = Ok () \<and> slab_inv s' \<and> slab_entries s' = slab_entries s \<and> slab_free s' = slab_free s \<and>
         length (slab_entries s') < slab_capacity s'"
proof -
  have le: "length (slab_entries s) \<le> slab_capacity s" using inv by (simp add: slab_inv_def)
  let ?cap = "grow (slab_capacity s) (length (slab_entries s)) (max (slab_capacity s) 16)"
  have "length (slab_entries s) + max (slab_capacity s) 16 \<le> ?cap"
    using le by (rule grow_enough)
  then have cap: "length (slab_entries s) < ?cap" by simp
  have dbl: "slab_double_capacity grow s =
      (if ?cap \<le> max_capacity then Ok () :: ('e, unit) outcome
       else Panic ''assertion failed: capacity <= MAX_CAPACITY'',
       s\<lparr>slab_capacity := ?cap\<rparr>)"
    using full by (simp add: slab_double_capacity_def slab_reserve_def Let_def)
  show ?thesis
  proof (cases "?cap \<le> max_capacity")
    case True
    with inv cap have "slab_inv (s\<lparr>slab_capacity := ?cap\<rparr>)" by (simp add: slab_inv_def)
    with True cap dbl eq show ?thesis by auto
  next
    case False
    with dbl eq show ?thesis by auto
  qed
qed

text \<open>
  Allocation succeeds with the identifier that \<open>next_id\<close> announced, or the
  capacity would exceed its maximum.
\<close>

lemma alloc_result:
  assumes inv: "slab_inv s" and eq: "slab_alloc grow v s = (r, s')"
  shows "(\<exists>p. r = Panic p \<and> max_capacity < slab_capacity s') \<or>
         (\<exists>k. r = Ok (Id (EntryIndex (Suc k))) \<and>
            slab_next_id s = (Ok (Id (EntryIndex (Suc k))) :: (unit, slab_id) outcome) \<and>
            slab_inv s' \<and> slab_lookup s k = None \<and> slab_lookup s' = (slab_lookup s)(k \<mapsto> v))"
  using inv
proof (cases rule: slab_try_alloc_cases [where v = v])
  case (done_ k s'')
  with eq show ?thesis by (auto simp: slab_alloc_def)
next
  case full
  from full eq have slow: "slab_alloc_slow grow v s = (r, s')" by (simp add: slab_alloc_def)
  obtain r2 s2 where dbl: "slab_double_capacity grow s = (r2 :: ('a, unit) outcome, s2)" by fastforce
  from double_capacity_grows [OF inv full(4) dbl] show ?thesis
  proof
    assume "\<exists>p. r2 = Panic p \<and> max_capacity < slab_capacity s2"
    with slow dbl show ?thesis by (auto simp: slab_alloc_slow_def)
  next
    assume ok: "r2 = Ok () \<and> slab_inv s2 \<and> slab_entries s2 = slab_entries s \<and> slab_free s2 = slab_free s \<and>
         length (slab_entries s2) < slab_capacity s2"
    then obtain s3 where ta: "slab_try_alloc v s2 = (Ok (Id (EntryIndex (Suc (length (slab_entries s2))))), s3)"
      and s3: "slab_inv s3" "slab_lookup s3 = (slab_lookup s2)(length (slab_entries s2) \<mapsto> v)"
      using slab_try_alloc_grow [of s2 v] full(2) by auto
    have "slab_lookup s2 = slab_lookup s" using ok by (auto simp: slab_lookup_def fun_eq_iff)
    moreover have "slab_next_id s = (Ok (Id (EntryIndex (Suc (length (slab_entries s2))))) :: (unit, slab_id) outcome)"
      using full ok inv by (simp add: slab_next_id_def slab_inv_def entry_index_new_Ok)
    moreover have "slab_lookup s (length (slab_entries s2)) = None" using ok by simp
    ultimately show ?thesis using slow dbl ok ta s3 by (auto simp: slab_alloc_slow_def)
  qed
qed

end


text \<open>
  The arena interface over raw identifiers, composed from \<open>alloc\<close>, \<open>dealloc\<close>,
  \<open>Id::into_raw\<close> and \<open>Id::from_raw\<close> the way the clients of the crate do.
\<close>

definition slab_insert_raw :: "growth \<Rightarrow> 'a \<Rightarrow> 'a slab \<Rightarrow> ('a, nat, 'a slab) result" where
  "slab_insert_raw grow v s = (case slab_alloc grow v s of (r, s') \<Rightarrow> (map_ok id_into_raw r, s'))"

definition slab_remove_raw :: "nat \<Rightarrow> 'a slab \<Rightarrow> ('a, 'a, 'a slab) result" where
  "slab_remove_raw k s = and_then (id_from_raw k, s) slab_dealloc"

lemma id_from_raw_Ok: "k \<le> max_capacity \<Longrightarrow> id_from_raw k = Ok (Id (EntryIndex (Suc k)))"
  by (simp add: id_from_raw_def)

lemma slab_lookup_bound: "slab_inv s \<Longrightarrow> slab_lookup s k = Some v \<Longrightarrow> k \<le> max_capacity"
  by (auto simp: slab_lookup_Some slab_inv_def)

lemma slab_remove_raw_Ok:
  assumes inv: "slab_inv s" and eq: "slab_remove_raw k s = (Ok v, s')"
  shows "slab_inv s' \<and> slab_lookup s k = Some v \<and> slab_lookup s' = (slab_lookup s)(k := None)"
proof -
  from eq have de: "slab_dealloc (Id (EntryIndex (Suc k))) s = (Ok v :: ('a, 'a) outcome, s')"
    by (auto simp: slab_remove_raw_def and_then_Ok_iff id_from_raw_def simp del: slab_dealloc.simps)
  then have "slab_lookup s k \<noteq> None"
    using slab_dealloc_dead [of s "EntryIndex (Suc k)", where 'b = 'a]
    by (auto simp del: slab_dealloc.simps)
  then obtain w where "slab_lookup s k = Some w" by auto
  with slab_dealloc_live [OF inv this, where 'b = 'a] de show ?thesis by (auto simp del: slab_dealloc.simps)
qed

lemma slab_dealloc_not_Err: "slab_dealloc i s \<noteq> (Err e, s')"
  by (cases i) (auto simp: Let_def split: option.splits slab_entry.splits)

sublocale vec_growth \<subseteq> slab: atomic_arena slab_inv slab_lookup "slab_insert_raw grow" slab_remove_raw "\<lambda>_ _. False"
proof
  fix s s' :: "'a slab" and v :: 'a and k and e :: 'a
  show "slab_inv s \<Longrightarrow> finite (dom (slab_lookup s))" by simp
  show "slab_inv s' \<and> slab_lookup s k = None \<and> slab_lookup s' = (slab_lookup s)(k \<mapsto> v) \<and> \<not> False"
    if "slab_inv s" "slab_insert_raw grow v s = (Ok k, s')"
    using that alloc_result [of s v] by (auto simp: slab_insert_raw_def split: prod.splits)
  show "slab_inv s' \<and> slab_lookup s' = slab_lookup s"
    if "slab_inv s" "slab_insert_raw grow v s = (Err e, s')"
    using that alloc_result [of s v] by (auto simp: slab_insert_raw_def split: prod.splits)
  show "slab_inv s' \<and> slab_lookup s k = Some v \<and> slab_lookup s' = (slab_lookup s)(k := None)"
    if "slab_inv s" "slab_remove_raw k s = (Ok v, s')"
    using that by (rule slab_remove_raw_Ok)
  show "\<exists>s'. slab_remove_raw k s = (Ok v, s')"
    if "slab_inv s" "slab_lookup s k = Some v"
    using slab_dealloc_live [OF that] slab_lookup_bound [OF that]
    by (auto simp: slab_remove_raw_def id_from_raw_Ok simp del: slab_dealloc.simps)
  show "slab_inv s' \<and> slab_lookup s' = slab_lookup s" if "slab_inv s" "slab_remove_raw k s = (Err e, s')"
    using that by (auto simp: slab_remove_raw_def and_then_def id_from_raw_def slab_dealloc_not_Err
        simp del: slab_dealloc.simps split: outcome.splits)
qed

text \<open>The amortised policy of the standard library is one such policy.\<close>

definition amortized_grow :: growth where
  "amortized_grow cap len additional =
     (if additional \<le> cap - len then cap else max (max (2 * cap) (len + additional)) 4)"

interpretation amortized: vec_growth amortized_grow
  by unfold_locales (auto simp: amortized_grow_def)


lemmas slab_eval_defs =
  slab_default_def slab_alloc_def slab_try_alloc_def slab_try_alloc_index_def slab_alloc_slow_def
  slab_double_capacity_def slab_reserve_def slab_incr_len_def amortized_grow_def max_capacity_def
  u32_max_def entry_index_new_def u32_try_from_def u32_checked_add_def vec_get_def Let_def


section \<open>Properties\<close>

text \<open>
  C6: Allocation on a well-formed slab either runs into the assertion on the
  maximum capacity, or hands out exactly the identifier that \<open>next_id\<close>
  announced; that identifier was not live, it now maps to the value, every other
  identifier keeps its meaning, and the slab is well formed again.
\<close>

theorem slab_alloc_spec:
  assumes "vec_growth grow" and "slab_inv s" and "slab_alloc grow v s = (r, s')"
  shows "(\<exists>p. r = Panic p \<and> max_capacity < slab_capacity s') \<or>
    (\<exists>i. r = Ok i \<and> slab_next_id s = (Ok i :: (unit, slab_id) outcome) \<and> \<not> slab_contains i s \<and>
       slab_inv s' \<and> slab_len s' = Suc (slab_len s) \<and>
       slab_get i s' = (Ok (Some v) :: (unit, 'a option) outcome) \<and>
       slab_lookup s' = (slab_lookup s)(id_into_raw i \<mapsto> v))"
proof -
  from vec_growth.alloc_result [OF assms]
  show ?thesis
  proof
    assume "\<exists>k. r = Ok (Id (EntryIndex (Suc k))) \<and>
            slab_next_id s = (Ok (Id (EntryIndex (Suc k))) :: (unit, slab_id) outcome) \<and>
            slab_inv s' \<and> slab_lookup s k = None \<and> slab_lookup s' = (slab_lookup s)(k \<mapsto> v)"
    then obtain k where k: "r = Ok (Id (EntryIndex (Suc k)))"
      "slab_next_id s = (Ok (Id (EntryIndex (Suc k))) :: (unit, slab_id) outcome)"
      "slab_inv s'" "slab_lookup s k = None" "slab_lookup s' = (slab_lookup s)(k \<mapsto> v)" by auto
    have "slab_len s' = Suc (slab_len s)"
      using k(3,4,5) assms(2) by (simp add: slab_len_card card_insert_if domIff)
    moreover have "k < length (slab_entries s')"
      using k(5) slab_lookup_Some [of s' k v] by simp
    ultimately show ?thesis using k
      by (simp add: slab_contains_iff slab_get_eq del: slab_contains.simps slab_get.simps)
  qed simp
qed

theorem slab_alloc_spec_witness:
  "vec_growth amortized_grow \<and> slab_inv (slab_default :: nat slab) \<and>
   (\<exists>s'. slab_alloc amortized_grow (7 :: nat) slab_default = (Ok (Id (EntryIndex 1)), s') \<and> slab_inv s')"
proof -
  obtain s' where eq: "slab_alloc amortized_grow (7 :: nat) slab_default = (Ok (Id (EntryIndex 1)), s')"
    by (simp add: slab_eval_defs)
  with slab_alloc_spec [OF amortized.vec_growth_axioms slab_inv_default(1) eq]
  show ?thesis using amortized.vec_growth_axioms by auto
qed

text \<open>
  C7: Deallocating a live identifier returns its value, unbinds exactly that
  identifier, and makes it the next one to be handed out; deallocating an
  identifier that is not live panics.
\<close>

theorem slab_dealloc_spec:
  assumes "slab_inv s" and "id_from_raw k = (Ok i :: (unit, slab_id) outcome)"
    and "slab_dealloc i s = (r :: (unit, 'a) outcome, s')"
  shows "case slab_lookup s k of
      None \<Rightarrow> panics r
    | Some v \<Rightarrow> r = Ok v \<and> slab_inv s' \<and> slab_lookup s' = (slab_lookup s)(k := None) \<and>
        slab_len s = Suc (slab_len s') \<and> slab_next_id s' = (Ok i :: (unit, slab_id) outcome)"
proof (cases "slab_lookup s k")
  case None
  with assms show ?thesis
    using slab_dealloc_dead [of s "EntryIndex (Suc k)", where 'b = unit]
    by (auto simp: id_from_raw_def simp del: slab_dealloc.simps)
next
  case (Some v)
  from assms(2) have i: "i = Id (EntryIndex (Suc k))" by (auto simp: id_from_raw_def)
  from slab_dealloc_live [OF assms(1) Some, where 'b = unit] assms(3) i
  have *: "r = Ok v" "slab_inv s'" "slab_lookup s' = (slab_lookup s)(k := None)"
    "slab_free s' = Some (EntryIndex (Suc k))" by (auto simp del: slab_dealloc.simps)
  have "card (dom (slab_lookup s)) = Suc (card (dom (slab_lookup s) - {k}))"
    using Some by (intro card.remove) auto
  then have "slab_len s = Suc (slab_len s')"
    using *(2,3) assms(1) by (simp add: slab_len_card)
  with * Some i show ?thesis by (simp add: slab_next_id_def)
qed

theorem slab_dealloc_spec_witness:
  "\<exists>s s' :: nat slab. slab_inv s \<and> slab_lookup s 0 = Some 7 \<and>
     slab_dealloc (Id (EntryIndex 1)) s = (Ok 7 :: (unit, nat) outcome, s') \<and> slab_inv s'"
proof -
  let ?s = "\<lparr>slab_entries = [SlabOccupied (7 :: nat)], slab_capacity = 4, slab_free = None, slab_len = 1\<rparr>"
  have inv: "slab_inv ?s"
    using free_list_ok_grow [of slab_next_of "[]" "SlabOccupied 7"]
    by (simp add: slab_inv_def max_capacity_def u32_max_def)
  have look: "slab_lookup ?s 0 = Some 7" by (simp add: slab_lookup_Some)
  have raw: "id_from_raw 0 = (Ok (Id (EntryIndex 1)) :: (unit, slab_id) outcome)"
    by (simp add: id_from_raw_Ok)
  obtain s' where eq: "slab_dealloc (Id (EntryIndex 1)) ?s = (Ok 7 :: (unit, nat) outcome, s')"
    by (simp add: vec_get_def u32_checked_sub_def)
  from slab_dealloc_spec [OF inv raw eq] look have "slab_inv s'" by simp
  with inv look eq show ?thesis by blast
qed

text \<open>
  Iteration over a well-formed slab lists exactly the live identifiers with
  their values, as many as \<open>len\<close> says; draining yields the same list and leaves
  an empty well-formed slab.
\<close>

theorem slab_iter_drain_spec:
  assumes "slab_inv s"
  shows "\<exists>xs. slab_iter s = (Ok xs :: (unit, (slab_id \<times> 'a) list) outcome) \<and> length xs = slab_len s \<and>
      (\<forall>i x. (i, x) \<in> set xs \<longleftrightarrow> (\<exists>k. id_from_raw k = (Ok i :: (unit, slab_id) outcome) \<and> slab_lookup s k = Some x)) \<and>
      fst (slab_drain s) = (Ok xs :: (unit, (slab_id \<times> 'a) list) outcome) \<and>
      slab_inv (snd (slab_drain s :: (unit, (slab_id \<times> 'a) list, 'a slab) result)) \<and>
      slab_lookup (snd (slab_drain s :: (unit, (slab_id \<times> 'a) list, 'a slab) result)) = Map.empty"
proof -
  have le: "length (slab_entries s) \<le> max_capacity" using assms by (simp add: slab_inv_def)
  then have "0 + length (slab_entries s) \<le> Suc max_capacity" by simp
  from slab_iter_from_Ok [OF this, where 'e = unit]
  obtain xs where xs: "slab_iter_from 0 (slab_entries s) = (Ok xs :: (unit, (slab_id \<times> 'a) list) outcome)"
    "length xs = length (filter is_occupied (slab_entries s))"
    and mem: "\<And>i x. (i, x) \<in> set xs \<longleftrightarrow>
       (\<exists>j. i = Id (EntryIndex (Suc (0 + j))) \<and> j < length (slab_entries s) \<and> slab_entries s ! j = SlabOccupied x)"
    by metis
  have "(i, x) \<in> set xs \<longleftrightarrow> (\<exists>k. id_from_raw k = (Ok i :: (unit, slab_id) outcome) \<and> slab_lookup s k = Some x)"
    for i x
    unfolding mem id_from_raw_def slab_lookup_Some using le by auto
  moreover have "slab_inv (s\<lparr>slab_len := 0, slab_free := None, slab_entries := []\<rparr>)"
    using assms by (simp add: slab_inv_def)
  moreover have "slab_lookup (s\<lparr>slab_len := 0, slab_free := None, slab_entries := []\<rparr>) = Map.empty"
    by (simp add: slab_lookup_def vec_get_def fun_eq_iff)
  moreover have "length xs = slab_len s" using xs(2) assms by (simp add: slab_inv_def)
  ultimately show ?thesis using le xs(1) by (simp add: slab_iter_def slab_drain_def)
qed

theorem slab_iter_drain_spec_witness:
  "\<exists>s :: nat slab. slab_inv s \<and> slab_iter s = (Ok [(Id (EntryIndex 1), 7)] :: (unit, (slab_id \<times> nat) list) outcome) \<and>
     slab_lookup (snd (slab_drain s :: (unit, (slab_id \<times> nat) list, nat slab) result)) = Map.empty"
proof -
  let ?s = "\<lparr>slab_entries = [SlabOccupied (7 :: nat)], slab_capacity = 4, slab_free = None, slab_len = 1\<rparr>"
  have inv: "slab_inv ?s"
    using free_list_ok_grow [of slab_next_of "[]" "SlabOccupied 7"]
    by (simp add: slab_inv_def max_capacity_def u32_max_def)
  moreover have "slab_iter ?s = (Ok [(Id (EntryIndex 1), 7)] :: (unit, (slab_id \<times> nat) list) outcome)"
    by (simp add: slab_iter_def entry_index_new_Ok max_capacity_def u32_max_def)
  ultimately show ?thesis using slab_iter_drain_spec [OF inv] by blast
qed

end
