(* ===== verification/Family.thy ===== *)
theory Family
  imports Prelude
begin

text \<open>
  Parents and children by index.  Both resource tables record an entry's parent
  in the entry and the entry's children in the parent; this theory states when
  the two agree, what linking and unlinking do, and why a table whose entries
  get their parent only at creation has no cycles.
\<close>

definition family_ok :: "(nat \<Rightarrow> nat option) \<Rightarrow> (nat \<Rightarrow> nat set) \<Rightarrow> bool" where
  "family_ok par chi \<longleftrightarrow> (\<forall>c p. c \<in> chi p \<longleftrightarrow> par c = Some p)"

lemma family_okD: "family_ok par chi \<Longrightarrow> c \<in> chi p \<longleftrightarrow> par c = Some p"
  by (simp add: family_ok_def)

lemma family_ok_empty [simp]: "family_ok (\<lambda>_. None) (\<lambda>_. {})"
  by (simp add: family_ok_def)

lemma family_ok_unlink:
  assumes "family_ok par chi" and "par k = Some p"
  shows "family_ok (par(k := None)) (chi(p := chi p - {k}))"
  using assms unfolding family_ok_def by auto

lemma family_ok_link:
  assumes "family_ok par chi" and "par k = None"
  shows "family_ok (par(k := Some p)) (chi(p := insert k (chi p)))"
  using assms unfolding family_ok_def by auto

definition parent_rel :: "(nat \<Rightarrow> nat option) \<Rightarrow> (nat \<times> nat) set" where
  "parent_rel par = {(c, p). par c = Some p}"

lemma parent_rel_link:
  assumes "par k = None"
  shows "parent_rel (par(k := Some p)) = insert (k, p) (parent_rel par)"
  using assms by (auto simp: parent_rel_def split: if_splits)

lemma parent_rel_unlink: "parent_rel (par(k := None)) \<subseteq> parent_rel par"
  by (auto simp: parent_rel_def split: if_splits)

lemma acyclic_unlink: "acyclic (parent_rel par) \<Longrightarrow> acyclic (parent_rel (par(k := None)))"
  using parent_rel_unlink by (rule acyclic_subset [rotated])

text \<open>A fresh entry has no children, so giving it a parent closes no cycle.\<close>

lemma acyclic_link:
  assumes "acyclic (parent_rel par)" and "par k = None" and "p \<noteq> k" and "\<And>c. par c \<noteq> Some k"
  shows "acyclic (parent_rel (par(k := Some p)))"
proof -
  have "(p, k) \<notin> (parent_rel par)\<^sup>*"
  proof
    assume "(p, k) \<in> (parent_rel par)\<^sup>*"
    then show False
      by (cases rule: rtranclE) (use assms in \<open>auto simp: parent_rel_def\<close>)
  qed
  with assms(1,2) show ?thesis by (simp add: parent_rel_link)
qed

text \<open>In a finite acyclic family somebody has no children.\<close>

lemma exists_childless:
  assumes fam: "family_ok par chi" and ac: "acyclic (parent_rel par)"
    and fin: "finite L" and ne: "L \<noteq> {}" and sub: "\<And>c p. par c = Some p \<Longrightarrow> c \<in> L"
  shows "\<exists>k \<in> L. chi k = {}"
proof -
  have "parent_rel par = (\<lambda>c. (c, the (par c))) ` {c. par c \<noteq> None}"
    by (auto simp: parent_rel_def)
  moreover have "finite {c. par c \<noteq> None}"
    by (rule finite_subset [OF _ fin]) (use sub in blast)
  ultimately have "finite (parent_rel par)" by simp
  then have "wf (parent_rel par)" using ac by (rule finite_acyclic_wf)
  with ne obtain k where k: "k \<in> L" and min: "\<And>c. (c, k) \<in> parent_rel par \<Longrightarrow> c \<notin> L"
    by (metis wfE_min ex_in_conv)
  have "chi k = {}"
    using min sub family_okD [OF fam] by (auto simp: parent_rel_def)
  with k show ?thesis by blast
qed

end
