(* ===== verification/Host_Handle.thy ===== *)
theory Host_Handle
  imports Prelude
begin

text \<open>
  The host's view of one resource, from
  \<open>crates/wasmtime/src/runtime/component/resources.rs\<close>: the 64-bit index that
  carries a table index and a generation, the state of a \<open>Resource<T>\<close> encoded in
  two 32-bit atomics, and \<open>Resource<T>\<close> itself.
\<close>

unbundle bit_operations_syntax

section \<open>Host indices\<close>

datatype host_resource_index = HostResourceIndex "64 word"

definition hri_new :: "32 word \<Rightarrow> 32 word \<Rightarrow> host_resource_index" where
  "hri_new idx generation = HostResourceIndex (ucast idx OR push_bit 32 (ucast generation))"

fun hri_index :: "host_resource_index \<Rightarrow> 32 word" where
  "hri_index (HostResourceIndex w) = ucast (w AND 0xffffffff)"

fun hri_generation :: "host_resource_index \<Rightarrow> 32 word" where
  "hri_generation (HostResourceIndex w) = ucast (drop_bit 32 w)"


section \<open>The state of a resource\<close>

datatype resource_state = Borrow | NotInTable | Taken | Index host_resource_index

definition rs_BORROW :: "32 word" where "rs_BORROW = 0xffffffff"
definition rs_NOT_IN_TABLE :: "32 word" where "rs_NOT_IN_TABLE = 0xffffffff - 1"
definition rs_TAKEN :: "32 word" where "rs_TAKEN = 0xffffffff - 2"

definition rs_decode :: "32 word \<Rightarrow> 32 word \<Rightarrow> resource_state" where
  "rs_decode idx generation =
     (if generation = rs_BORROW then Borrow
      else if generation = rs_NOT_IN_TABLE then NotInTable
      else if generation = rs_TAKEN then Taken
      else Index (hri_new idx generation))"

fun rs_encode :: "resource_state \<Rightarrow> 32 word \<times> 32 word" where
  "rs_encode Borrow = (0, rs_BORROW)"
| "rs_encode NotInTable = (0, rs_NOT_IN_TABLE)"
| "rs_encode Taken = (0, rs_TAKEN)"
| "rs_encode (Index i) = (hri_index i, hri_generation i)"

record atomic_resource_state =
  ars_index :: "32 word"
  ars_generation :: "32 word"

definition ars_new :: "resource_state \<Rightarrow> atomic_resource_state" where
  "ars_new state = (case rs_encode state of (index, generation) \<Rightarrow>
     \<lparr>ars_index = index, ars_generation = generation\<rparr>)"

definition ars_get :: "atomic_resource_state \<Rightarrow> resource_state" where
  "ars_get a = rs_decode (ars_index a) (ars_generation a)"

definition ars_swap :: "resource_state \<Rightarrow> atomic_resource_state \<Rightarrow> resource_state \<times> atomic_resource_state" where
  "ars_swap state a = (case rs_encode state of (index, generation) \<Rightarrow>
     (rs_decode (ars_index a) (ars_generation a),
      a\<lparr>ars_index := index, ars_generation := generation\<rparr>))"

record resource =
  res_state :: atomic_resource_state
  res_rep :: nat

definition resource_new_own :: "nat \<Rightarrow> resource" where
  "resource_new_own rep = \<lparr>res_state = ars_new NotInTable, res_rep = rep\<rparr>"

definition resource_new_borrow :: "nat \<Rightarrow> resource" where
  "resource_new_borrow rep = \<lparr>res_state = ars_new Borrow, res_rep = rep\<rparr>"

definition resource_owned :: "resource \<Rightarrow> bool" where
  "resource_owned r = (case ars_get (res_state r) of Borrow \<Rightarrow> False | _ \<Rightarrow> True)"


section \<open>Round trips\<close>

lemma hri_index_new [simp]: "hri_index (hri_new i g) = i"
proof -
  have "bit (hri_index (hri_new i g)) n = bit i n" if "n < 32" for n
  proof -
    have "bit (0xffffffff :: 64 word) n"
      using that mask_eq_exp_minus_1 [of 32, where 'a = "64 word"] bit_mask_iff [of 32 n, where 'a = "64 word"]
      by simp
    with that show ?thesis
      by (simp add: hri_new_def bit_simps)
  qed
  then show ?thesis by (intro bit_word_eqI) simp
qed

lemma hri_generation_new [simp]: "hri_generation (hri_new i g) = g"
proof (rule bit_word_eqI)
  fix n assume "n < LENGTH(32)"
  then have n: "n < 32" by simp
  have "\<not> bit i (n + 32)"
    using bit_imp_le_length [of i "n + 32"] by auto
  with n show "bit (hri_generation (hri_new i g)) n = bit g n"
    by (simp add: hri_new_def bit_simps add.commute)
qed

lemma hri_eq_iff: "hri_new i g = hri_new i' g' \<longleftrightarrow> i = i' \<and> g = g'"
  by (metis hri_index_new hri_generation_new)

lemma rs_sentinels [simp]:
  "rs_BORROW \<noteq> rs_NOT_IN_TABLE" "rs_BORROW \<noteq> rs_TAKEN" "rs_NOT_IN_TABLE \<noteq> rs_TAKEN"
  "rs_NOT_IN_TABLE \<noteq> rs_BORROW" "rs_TAKEN \<noteq> rs_BORROW" "rs_TAKEN \<noteq> rs_NOT_IN_TABLE"
  by (simp_all add: rs_BORROW_def rs_NOT_IN_TABLE_def rs_TAKEN_def)

lemma ars_get_new_simple [simp]:
  "ars_get (ars_new Borrow) = Borrow" "ars_get (ars_new NotInTable) = NotInTable"
  "ars_get (ars_new Taken) = Taken"
  by (simp_all add: ars_get_def ars_new_def rs_decode_def)

lemma resource_owned_new [simp]: "resource_owned (resource_new_own r)" "\<not> resource_owned (resource_new_borrow r)"
  by (simp_all add: resource_owned_def resource_new_own_def resource_new_borrow_def)

lemma res_rep_new [simp]: "res_rep (resource_new_own r) = r" "res_rep (resource_new_borrow r) = r"
  by (simp_all add: resource_new_own_def resource_new_borrow_def)


lemma hri_new_parts [simp]: "hri_new (hri_index h) (hri_generation h) = h"
proof (cases h)
  case (HostResourceIndex w)
  have "bit (ucast (ucast (w AND 0xffffffff) :: 32 word) OR push_bit 32 (ucast (ucast (drop_bit 32 w) :: 32 word)) :: 64 word) n = bit w n"
    if "n < 64" for n
  proof (cases "n < 32")
    case True
    have "bit (0xffffffff :: 64 word) n"
      using True mask_eq_exp_minus_1 [of 32, where 'a = "64 word"] bit_mask_iff [of 32 n, where 'a = "64 word"]
      by simp
    with True that show ?thesis by (simp add: bit_simps)
  next
    case False
    with that have "n - 32 < 64" "n - 32 < 32" by simp_all
    with False that show ?thesis by (simp add: bit_simps)
  qed
  then have "ucast (ucast (w AND 0xffffffff) :: 32 word) OR push_bit 32 (ucast (ucast (drop_bit 32 w) :: 32 word)) = w"
    by (intro bit_word_eqI) simp
  then show ?thesis using HostResourceIndex by (simp add: hri_new_def)
qed

text \<open>
  C9: The state of a resource survives its encoding in two atomics exactly when
  it is not an index whose generation is one of the three sentinels: then, and
  only then, storing it and reading it back gives the same state.
\<close>

theorem resource_state_roundtrip:
  "ars_get (snd (ars_swap s a)) = s \<longleftrightarrow>
     (case s of Index i \<Rightarrow> hri_generation i \<notin> {rs_BORROW, rs_NOT_IN_TABLE, rs_TAKEN} | _ \<Rightarrow> True)"
  by (cases s) (auto simp: ars_swap_def ars_get_def rs_decode_def)

end
