(* ===== verification/Resource_Table.thy ===== *)
theory Resource_Table
  imports Free_List Family Host_Handle
begin

text \<open>
  The embedder's resource table,
  \<open>crates/wasmtime/src/runtime/component/resource_table.rs\<close>: boxed values
  addressed by \<open>Resource<T>\<close>, whose parent is given when the entry is created.
  Debug assertions are part of the model; on reachable tables none of them fires.
\<close>

section \<open>Data and operations\<close>

datatype resource_table_error = ResFull | ResNotPresent | ResWrongType | ResHasChildren

record 'a res_entry =
  re_entry :: 'a
  re_parent :: "nat option"
  re_children :: "nat set"

datatype 'a res_slot = ResFree "nat option" | ResOccupied "'a res_entry"

record 'a resource_table =
  rt_entries :: "'a res_slot list"
  rt_free_head :: "nat option"

fun res_slot_occupied :: "'a res_slot \<Rightarrow> 'a res_entry option" where
  "res_slot_occupied (ResOccupied e) = Some e"
| "res_slot_occupied (ResFree n) = None"

definition res_entry_new :: "'a \<Rightarrow> nat option \<Rightarrow> 'a res_entry" where
  "res_entry_new x p = \<lparr>re_entry = x, re_parent = p, re_children = {}\<rparr>"

definition res_add_child ::
    "nat \<Rightarrow> 'a res_entry \<Rightarrow> (resource_table_error, unit, 'a res_entry) result" where
  "res_add_child child e =
     (if child \<in> re_children e then (Panic ''assertion failed: !self.children.contains(&child)'', e)
      else (Ok (), e\<lparr>re_children := insert child (re_children e)\<rparr>))"

definition res_remove_child ::
    "nat \<Rightarrow> 'a res_entry \<Rightarrow> (resource_table_error, unit, 'a res_entry) result" where
  "res_remove_child child e =
     (if child \<in> re_children e then (Ok (), e\<lparr>re_children := re_children e - {child}\<rparr>)
      else (Panic ''assertion failed: was_removed'', e))"

definition rt_new :: "'a resource_table" where
  "rt_new = \<lparr>rt_entries = [], rt_free_head = None\<rparr>"

text \<open>Reserved capacity is not observable through the table's methods.\<close>

definition rt_with_capacity :: "nat \<Rightarrow> 'a resource_table" where
  "rt_with_capacity capacity = \<lparr>rt_entries = [], rt_free_head = None\<rparr>"

definition rt_pop_free_list ::
    "'a resource_table \<Rightarrow> (resource_table_error, nat option, 'a resource_table) result" where
  "rt_pop_free_list t = (case rt_free_head t of
      None \<Rightarrow> (Ok None, t)
    | Some ix \<Rightarrow> (case vec_get (rt_entries t) ix of
          None \<Rightarrow> (Panic ''index out of bounds'', t)
        | Some (ResFree n) \<Rightarrow> (Ok (Some ix), t\<lparr>rt_free_head := n\<rparr>)
        | Some (ResOccupied e) \<Rightarrow> (Panic ''unreachable'', t)))"

definition rt_free_entry ::
    "nat \<Rightarrow> 'a resource_table \<Rightarrow> (resource_table_error, 'a res_entry, 'a resource_table) result" where
  "rt_free_entry ix t = (case vec_get (rt_entries t) ix of
      None \<Rightarrow> (Panic ''index out of bounds'', t)
    | Some slot \<Rightarrow>
        (let t' = t\<lparr>rt_entries := (rt_entries t)[ix := ResFree (rt_free_head t)]\<rparr> in
         case slot of ResOccupied e \<Rightarrow> (Ok e, t'\<lparr>rt_free_head := Some ix\<rparr>)
                    | ResFree n \<Rightarrow> (Panic ''unreachable'', t')))"

definition rt_push_entry ::
    "'a res_entry \<Rightarrow> 'a resource_table \<Rightarrow> (resource_table_error, nat, 'a resource_table) result" where
  "rt_push_entry e t = and_then (rt_pop_free_list t) (\<lambda>free t. case free of
      Some ix \<Rightarrow>
        (case u32_try_from ix of
           Some k \<Rightarrow> (Ok k, t\<lparr>rt_entries := (rt_entries t)[ix := ResOccupied e]\<rparr>)
         | None \<Rightarrow> (Panic ''unwrap on Err'', t\<lparr>rt_entries := (rt_entries t)[ix := ResOccupied e]\<rparr>))
    | None \<Rightarrow>
        (case u32_try_from (length (rt_entries t)) of
           Some k \<Rightarrow> (Ok k, t\<lparr>rt_entries := rt_entries t @ [ResOccupied e]\<rparr>)
         | None \<Rightarrow> (Err ResFull, t)))"

definition rt_push :: "'a \<Rightarrow> 'a resource_table \<Rightarrow> (resource_table_error, resource, 'a resource_table) result" where
  "rt_push x t = and_then (rt_push_entry (res_entry_new x None) t) (\<lambda>idx t. (Ok (resource_new_own idx), t))"

definition rt_occupied :: "nat \<Rightarrow> 'a resource_table \<Rightarrow> (resource_table_error, 'a res_entry) outcome" where
  "rt_occupied key t = ok_or ResNotPresent (Option.bind (vec_get (rt_entries t) key) res_slot_occupied)"

text \<open>\<open>occupied_mut\<close>, with what the caller does to the borrowed entry.\<close>

definition rt_occupied_mut ::
    "nat \<Rightarrow> ('a res_entry \<Rightarrow> (resource_table_error, 'r, 'a res_entry) result) \<Rightarrow> 'a resource_table
     \<Rightarrow> (resource_table_error, 'r, 'a resource_table) result" where
  "rt_occupied_mut key f t = and_then (rt_occupied key t, t) (\<lambda>e t.
     case f e of (r, e') \<Rightarrow> (r, t\<lparr>rt_entries := (rt_entries t)[key := ResOccupied e']\<rparr>))"

definition rt_push_child ::
    "'a \<Rightarrow> resource \<Rightarrow> 'a resource_table \<Rightarrow> (resource_table_error, resource, 'a resource_table) result" where
  "rt_push_child x parent t = (let parent = res_rep parent in
     and_then (rt_occupied parent t, t) (\<lambda>_ t.
     and_then (rt_push_entry (res_entry_new x (Some parent)) t) (\<lambda>child t.
     and_then (rt_occupied_mut parent (res_add_child child) t) (\<lambda>_ t.
     (Ok (resource_new_own child), t)))))"

definition rt_get_any :: "nat \<Rightarrow> 'a resource_table \<Rightarrow> (resource_table_error, 'a) outcome" where
  "rt_get_any key t = map_ok re_entry (rt_occupied key t)"

definition rt_get :: "('a \<Rightarrow> 'b option) \<Rightarrow> resource \<Rightarrow> 'a resource_table \<Rightarrow> (resource_table_error, 'b) outcome" where
  "rt_get down key t =
     and_then_pure (rt_get_any (res_rep key) t) (\<lambda>x. ok_or ResWrongType (down x))"

text \<open>\<open>get_any_mut\<close> and \<open>get_mut\<close>, with what the caller does to the borrowed value.\<close>

definition rt_get_any_mut ::
    "nat \<Rightarrow> ('a \<Rightarrow> 'a) \<Rightarrow> 'a resource_table \<Rightarrow> (resource_table_error, 'a, 'a resource_table) result" where
  "rt_get_any_mut key f t = rt_occupied_mut key (\<lambda>e. (Ok (re_entry e), e\<lparr>re_entry := f (re_entry e)\<rparr>)) t"

definition rt_get_mut ::
    "('a \<Rightarrow> 'b option) \<Rightarrow> ('b \<Rightarrow> 'a) \<Rightarrow> resource \<Rightarrow> ('b \<Rightarrow> 'b) \<Rightarrow> 'a resource_table
     \<Rightarrow> (resource_table_error, 'b, 'a resource_table) result" where
  "rt_get_mut down up key f t =
     (case rt_get_any_mut (res_rep key) (\<lambda>x. case down x of None \<Rightarrow> x | Some y \<Rightarrow> up (f y)) t of
        (r, t) \<Rightarrow> (and_then_pure r (\<lambda>x. ok_or ResWrongType (down x)), t))"

definition rt_delete_entry ::
    "nat \<Rightarrow> 'a resource_table \<Rightarrow> (resource_table_error, 'a res_entry, 'a resource_table) result" where
  "rt_delete_entry key t = and_then (rt_occupied key t, t) (\<lambda>e t.
     if re_children e \<noteq> {} then (Err ResHasChildren, t)
     else and_then (rt_free_entry key t) (\<lambda>e t.
       case re_parent e of
         None \<Rightarrow> (Ok e, t)
       | Some parent \<Rightarrow>
           (case rt_occupied_mut parent (res_remove_child key) t of
              (Ok _, t) \<Rightarrow> (Ok e, t)
            | (Err _, t) \<Rightarrow> (Panic ''missing parent'', t)
            | (Panic p, t) \<Rightarrow> (Panic p, t))))"

definition rt_delete ::
    "('a \<Rightarrow> 'b option) \<Rightarrow> resource \<Rightarrow> 'a resource_table \<Rightarrow> (resource_table_error, 'b, 'a resource_table) result" where
  "rt_delete down r t =
     (if \<not> resource_owned r then (Panic ''assertion failed: resource.owned()'', t)
      else and_then (rt_delete_entry (res_rep r) t) (\<lambda>e t. (ok_or ResWrongType (down (re_entry e)), t)))"

text \<open>\<open>iter_entries\<close>: the map is given by its entries in key order.\<close>

definition rt_iter_entries ::
    "(nat \<times> 'v) list \<Rightarrow> 'a resource_table \<Rightarrow> ((resource_table_error, 'a) outcome \<times> 'v) list" where
  "rt_iter_entries m t = map (\<lambda>(k, v). (rt_get_any k t, v)) m"

fun rt_children_list :: "nat list \<Rightarrow> 'a resource_table \<Rightarrow> (resource_table_error, 'a list) outcome" where
  "rt_children_list [] t = Ok []"
| "rt_children_list (c # cs) t = (case rt_occupied c t of
      Ok child \<Rightarrow> map_ok (Cons (re_entry child)) (rt_children_list cs t)
    | _ \<Rightarrow> Panic ''missing child'')"

definition rt_iter_children :: "resource \<Rightarrow> 'a resource_table \<Rightarrow> (resource_table_error, 'a list) outcome" where
  "rt_iter_children parent t = and_then_pure (rt_occupied (res_rep parent) t) (\<lambda>e.
     rt_children_list (sorted_list_of_set (re_children e)) t)"


section \<open>The invariant\<close>

definition rt_occ :: "'a resource_table \<Rightarrow> nat \<Rightarrow> 'a res_entry option" where
  "rt_occ t k = Option.bind (vec_get (rt_entries t) k) res_slot_occupied"

definition rt_parent :: "(nat \<Rightarrow> 'a res_entry option) \<Rightarrow> nat \<Rightarrow> nat option" where
  "rt_parent occ c = Option.bind (occ c) re_parent"

definition rt_children :: "(nat \<Rightarrow> 'a res_entry option) \<Rightarrow> nat \<Rightarrow> nat set" where
  "rt_children occ p = (case occ p of None \<Rightarrow> {} | Some e \<Rightarrow> re_children e)"

fun rt_next_of :: "'a res_slot \<Rightarrow> nat option option" where
  "rt_next_of (ResFree n) = Some n"
| "rt_next_of (ResOccupied e) = None"

text \<open>Besides agreeing, the parents form no cycle.\<close>

definition rt_inv :: "'a resource_table \<Rightarrow> bool" where
  "rt_inv t \<longleftrightarrow> free_list_ok rt_next_of (rt_entries t) (rt_free_head t) \<and>
     length (rt_entries t) \<le> Suc u32_max \<and>
     family_ok (rt_parent (rt_occ t)) (rt_children (rt_occ t)) \<and>
     acyclic (parent_rel (rt_parent (rt_occ t)))"

definition rt_lookup :: "'a resource_table \<Rightarrow> nat \<Rightarrow> 'a option" where
  "rt_lookup t k = map_option re_entry (rt_occ t k)"

abbreviation rt_set :: "nat \<Rightarrow> 'a res_entry \<Rightarrow> 'a resource_table \<Rightarrow> 'a resource_table" where
  "rt_set k e t \<equiv> t\<lparr>rt_entries := (rt_entries t)[k := ResOccupied e]\<rparr>"

lemma res_slot_occupied_Some [simp]: "res_slot_occupied s = Some e \<longleftrightarrow> s = ResOccupied e"
  by (cases s) auto

lemma rt_occ_Some:
  "rt_occ t k = Some e \<longleftrightarrow> k < length (rt_entries t) \<and> rt_entries t ! k = ResOccupied e"
  by (auto simp: rt_occ_def vec_get_def)

lemma finite_dom_rt_occ: "finite (dom (rt_occ t))"
  by (rule finite_subset [of _ "{..<length (rt_entries t)}"]) (auto simp: rt_occ_Some)

lemma finite_dom_rt_lookup [simp]: "finite (dom (rt_lookup t))"
  by (rule finite_subset [OF _ finite_dom_rt_occ [of t]]) (auto simp: rt_lookup_def)

lemma rt_occ_update:
  "k < length (rt_entries t) \<Longrightarrow> rt_entries t' = (rt_entries t)[k := s] \<Longrightarrow>
   rt_occ t' = (rt_occ t)(k := res_slot_occupied s)"
  by (auto simp: rt_occ_def vec_get_def nth_update_if fun_eq_iff)

lemma rt_occ_append:
  "rt_entries t' = rt_entries t @ [s] \<Longrightarrow>
   rt_occ t' = (rt_occ t)(length (rt_entries t) := res_slot_occupied s)"
  by (auto simp: rt_occ_def vec_get_def nth_append fun_eq_iff)

lemma rt_occ_set [simp]: "rt_occ t k = Some e \<Longrightarrow> rt_occ (rt_set k e' t) = (rt_occ t)(k \<mapsto> e')"
  by (subst rt_occ_update [of k t]) (auto simp: rt_occ_Some)

lemma rt_occupied_eq: "rt_occupied k t = (case rt_occ t k of None \<Rightarrow> Err ResNotPresent | Some e \<Rightarrow> Ok e)"
  by (auto simp: rt_occupied_def rt_occ_def split: option.splits)

lemma rt_occupied_mut_eq:
  "rt_occupied_mut k f t = (case rt_occ t k of
      None \<Rightarrow> (Err ResNotPresent, t)
    | Some e \<Rightarrow> (fst (f e), rt_set k (snd (f e)) t))"
  by (auto simp: rt_occupied_mut_def rt_occupied_eq split: option.splits prod.splits)

lemma free_list_rt_set:
  assumes "free_list_ok rt_next_of (rt_entries t) h" and "rt_occ t k = Some e"
  shows "free_list_ok rt_next_of ((rt_entries t)[k := ResOccupied e']) h"
  using assms by (intro free_list_ok_update) (auto simp: rt_occ_Some)

lemma rt_parent_upd [simp]: "rt_parent (occ(k := x)) = (rt_parent occ)(k := Option.bind x re_parent)"
  by (auto simp: rt_parent_def)

lemma rt_children_upd [simp]:
  "rt_children (occ(k := x)) = (rt_children occ)(k := (case x of None \<Rightarrow> {} | Some e \<Rightarrow> re_children e))"
  by (auto simp: rt_children_def fun_eq_iff)

lemma rt_parent_occ: "occ k = Some e \<Longrightarrow> rt_parent occ k = re_parent e"
  by (simp add: rt_parent_def)

lemma rt_children_occ: "occ k = Some e \<Longrightarrow> rt_children occ k = re_children e"
  by (simp add: rt_children_def)

lemma rt_inv_new [simp]: "rt_inv rt_new"
proof -
  have "rt_occ rt_new = (\<lambda>_. None :: 'a res_entry option)"
    by (simp add: rt_occ_def [abs_def] rt_new_def vec_get_def)
  then show ?thesis
    by (simp add: rt_inv_def rt_new_def rt_parent_def [abs_def] rt_children_def [abs_def]
          parent_rel_def acyclic_def)
qed


lemma rt_push_entry_cases:
  assumes inv: "rt_inv t"
  obtains (done_) k t' where "rt_push_entry e t = (Ok k, t')" "rt_occ t k = None"
      "rt_occ t' = (rt_occ t)(k \<mapsto> e)" "free_list_ok rt_next_of (rt_entries t') (rt_free_head t')"
      "length (rt_entries t') \<le> Suc u32_max" "k \<le> u32_max"
    | (full) "rt_push_entry e t = (Err ResFull, t)" "rt_free_head t = None" "length (rt_entries t) = Suc u32_max"
proof (cases "rt_free_head t")
  case (Some k)
  from inv Some have fl: "free_list_ok rt_next_of (rt_entries t) (Some k)" by (simp add: rt_inv_def)
  then obtain n where k: "k < length (rt_entries t)" and "rt_next_of (rt_entries t ! k) = Some n"
    by (rule free_list_ok_SomeE)
  then have ent: "rt_entries t ! k = ResFree n" by (cases "rt_entries t ! k") auto
  let ?t = "t\<lparr>rt_free_head := n, rt_entries := (rt_entries t)[k := ResOccupied e]\<rparr>"
  have "rt_occ t k = None" using ent by (simp add: rt_occ_def vec_get_def)
  moreover have "rt_occ ?t = (rt_occ t)(k \<mapsto> e)"
    using k by (subst rt_occ_update [of k t]) auto
  moreover have "free_list_ok rt_next_of (rt_entries ?t) (rt_free_head ?t)"
    using free_list_ok_pop [OF fl, of n "ResOccupied e"] ent by simp
  moreover have "k \<le> u32_max" "length (rt_entries ?t) \<le> Suc u32_max"
    using k inv by (auto simp: rt_inv_def)
  moreover have "rt_push_entry e t = (Ok k, ?t)"
    using Some k ent inv
    by (simp add: rt_push_entry_def rt_pop_free_list_def vec_get_def u32_try_from_def rt_inv_def)
  ultimately show ?thesis by (intro done_)
next
  case None
  show ?thesis
  proof (cases "length (rt_entries t) \<le> u32_max")
    case True
    let ?k = "length (rt_entries t)"
    let ?t = "t\<lparr>rt_entries := rt_entries t @ [ResOccupied e]\<rparr>"
    have "rt_occ t ?k = None" by (simp add: rt_occ_def vec_get_def)
    moreover have "rt_occ ?t = (rt_occ t)(?k \<mapsto> e)"
      by (subst rt_occ_append [of _ t]) auto
    moreover have "free_list_ok rt_next_of (rt_entries ?t) (rt_free_head ?t)"
      using inv None by (auto simp: rt_inv_def intro!: free_list_ok_grow)
    moreover have "rt_push_entry e t = (Ok ?k, ?t)"
      using None True by (simp add: rt_push_entry_def rt_pop_free_list_def u32_try_from_def)
    ultimately show ?thesis using True by (intro done_) auto
  next
    case False
    with inv None show ?thesis
      by (intro full) (auto simp: rt_push_entry_def rt_pop_free_list_def u32_try_from_def rt_inv_def)
  qed
qed

lemma rt_children_empty: "rt_inv t \<Longrightarrow> rt_occ t k = None \<Longrightarrow> rt_parent (rt_occ t) c \<noteq> Some k"
  using family_okD [of "rt_parent (rt_occ t)" "rt_children (rt_occ t)" c k]
  by (auto simp: rt_inv_def rt_children_def)

lemma rt_push_cases:
  assumes inv: "rt_inv t"
  obtains (done_) k t' where "rt_push x t = (Ok (resource_new_own k), t')" "rt_occ t k = None"
      "rt_occ t' = (rt_occ t)(k \<mapsto> res_entry_new x None)" "rt_inv t'" "k \<le> u32_max"
    | (full) "rt_push x t = (Err ResFull, t)" "length (rt_entries t) = Suc u32_max"
  using inv
proof (cases rule: rt_push_entry_cases [where e = "res_entry_new x None"])
  case (done_ k t')
  have "rt_parent (rt_occ t') = rt_parent (rt_occ t)" "rt_children (rt_occ t') = rt_children (rt_occ t)"
    using done_(2,3) by (auto simp: fun_eq_iff rt_parent_def rt_children_def res_entry_new_def)
  with done_ inv have "rt_inv t'" by (simp add: rt_inv_def)
  with done_ show ?thesis by (intro that(1)) (auto simp: rt_push_def)
next
  case full
  then show ?thesis by (intro that(2)) (auto simp: rt_push_def)
qed

lemma rt_push_child_cases:
  assumes inv: "rt_inv t"
  obtains (done_) k t' pe where "rt_push_child x r t = (Ok (resource_new_own k), t')" "rt_occ t k = None"
      "rt_occ t (res_rep r) = Some pe" "k \<noteq> res_rep r" "k \<le> u32_max" "rt_inv t'"
      "rt_occ t' = (rt_occ t)(k \<mapsto> res_entry_new x (Some (res_rep r)),
         res_rep r \<mapsto> pe\<lparr>re_children := insert k (re_children pe)\<rparr>)"
    | (absent) "rt_push_child x r t = (Err ResNotPresent, t)" "rt_occ t (res_rep r) = None"
    | (full) "rt_push_child x r t = (Err ResFull, t)" "length (rt_entries t) = Suc u32_max"
proof (cases "rt_occ t (res_rep r)")
  case None
  then show ?thesis by (intro absent) (auto simp: rt_push_child_def rt_occupied_eq Let_def)
next
  case (Some pe)
  let ?p = "res_rep r"
  from inv show ?thesis
  proof (cases rule: rt_push_entry_cases [where e = "res_entry_new x (Some ?p)"])
    case (done_ k t1)
    have ne: "k \<noteq> ?p" using Some done_(2) by auto
    have p1: "rt_occ t1 ?p = Some pe" using done_(3) Some ne by simp
    have fam: "family_ok (rt_parent (rt_occ t)) (rt_children (rt_occ t))"
      and ac: "acyclic (parent_rel (rt_parent (rt_occ t)))" using inv by (auto simp: rt_inv_def)
    have none: "rt_parent (rt_occ t) k = None" using done_(2) by (simp add: rt_parent_def)
    have notin: "k \<notin> re_children pe"
      using family_okD [OF fam, of k ?p] none Some by (simp add: rt_children_occ)
    let ?pe = "pe\<lparr>re_children := insert k (re_children pe)\<rparr>"
    let ?t2 = "rt_set ?p ?pe t1"
    have occ2: "rt_occ ?t2 = (rt_occ t)(k \<mapsto> res_entry_new x (Some ?p), ?p \<mapsto> ?pe)"
      using p1 done_(3) by simp
    have par2: "rt_parent (rt_occ ?t2) = (rt_parent (rt_occ t))(k := Some ?p)"
      using ne Some by (auto simp: occ2 fun_eq_iff rt_parent_occ res_entry_new_def)
    have chi2: "rt_children (rt_occ ?t2) = (rt_children (rt_occ t))(?p := insert k (rt_children (rt_occ t) ?p))"
      using ne Some done_(2) by (auto simp: occ2 fun_eq_iff rt_children_def res_entry_new_def)
    have "family_ok (rt_parent (rt_occ ?t2)) (rt_children (rt_occ ?t2))"
      unfolding par2 chi2 using fam none by (rule family_ok_link)
    moreover have "acyclic (parent_rel (rt_parent (rt_occ ?t2)))"
      unfolding par2 using ac none ne rt_children_empty [OF inv done_(2)] by (intro acyclic_link) auto
    moreover have "free_list_ok rt_next_of (rt_entries ?t2) (rt_free_head ?t2)"
      using free_list_rt_set [OF done_(4) p1] by simp
    ultimately have "rt_inv ?t2" using done_(5) by (simp add: rt_inv_def)
    moreover have "rt_push_child x r t = (Ok (resource_new_own k), ?t2)"
      using Some done_(1) p1 notin
      by (simp add: rt_push_child_def rt_occupied_eq Let_def rt_occupied_mut_eq res_add_child_def)
    ultimately show ?thesis using done_ Some ne occ2 by (intro that(1)) auto
  next
    case full
    with Some show ?thesis by (intro that(3)) (auto simp: rt_push_child_def rt_occupied_eq Let_def)
  qed
qed

lemma rt_delete_entry_live:
  assumes inv: "rt_inv t" and k: "rt_occ t k = Some e" and ch: "re_children e = {}"
  shows "\<exists>t'. rt_delete_entry k t = (Ok e, t') \<and> rt_inv t' \<and> rt_lookup t' = (rt_lookup t)(k := None) \<and>
     rt_parent (rt_occ t') = (rt_parent (rt_occ t))(k := None)"
proof -
  from k have lt: "k < length (rt_entries t)" and ent: "rt_entries t ! k = ResOccupied e"
    by (auto simp: rt_occ_Some)
  let ?t1 = "t\<lparr>rt_entries := (rt_entries t)[k := ResFree (rt_free_head t)], rt_free_head := Some k\<rparr>"
  have fr: "rt_free_entry k t = (Ok e, ?t1)" using lt ent by (simp add: rt_free_entry_def vec_get_def)
  have occ1: "rt_occ ?t1 = (rt_occ t)(k := None)" using lt by (subst rt_occ_update [of k t]) auto
  have fl: "free_list_ok rt_next_of (rt_entries ?t1) (rt_free_head ?t1)"
    using inv lt ent by (auto simp: rt_inv_def intro!: free_list_ok_push)
  have look: "rt_lookup ?t1 = (rt_lookup t)(k := None)"
    by (simp add: rt_lookup_def [abs_def] occ1 fun_eq_iff)
  have fam: "family_ok (rt_parent (rt_occ t)) (rt_children (rt_occ t))"
    and ac: "acyclic (parent_rel (rt_parent (rt_occ t)))"
    and len: "length (rt_entries ?t1) \<le> Suc u32_max" using inv by (auto simp: rt_inv_def)
  have del: "rt_delete_entry k t = (case re_parent e of
         None \<Rightarrow> (Ok e, ?t1)
       | Some parent \<Rightarrow>
           (case rt_occupied_mut parent (res_remove_child k) ?t1 of
              (Ok _, t) \<Rightarrow> (Ok e, t)
            | (Err _, t) \<Rightarrow> (Panic ''missing parent'', t)
            | (Panic p, t) \<Rightarrow> (Panic p, t)))"
    using k ch fr by (simp add: rt_delete_entry_def rt_occupied_eq)
  show ?thesis
  proof (cases "re_parent e")
    case None
    then have "rt_parent (rt_occ ?t1) = rt_parent (rt_occ t)" "rt_children (rt_occ ?t1) = rt_children (rt_occ t)"
      using k ch by (auto simp: occ1 fun_eq_iff rt_parent_occ rt_children_occ)
    moreover from this fam ac fl len have "rt_inv ?t1" unfolding rt_inv_def by simp
    moreover have "(rt_parent (rt_occ t))(k := None) = rt_parent (rt_occ t)"
      using None k by (simp add: fun_upd_idem rt_parent_occ)
    ultimately show ?thesis using None del look by auto
  next
    case (Some p)
    have kp: "k \<in> rt_children (rt_occ t) p"
      using family_okD [OF fam, of k p] k Some by (simp add: rt_parent_occ)
    then have ne: "p \<noteq> k" using k ch by (auto simp: rt_children_occ)
    from kp obtain pe where pe: "rt_occ t p = Some pe" "k \<in> re_children pe"
      by (auto simp: rt_children_def split: option.splits)
    let ?pe = "pe\<lparr>re_children := re_children pe - {k}\<rparr>"
    let ?t2 = "rt_set p ?pe ?t1"
    have p1: "rt_occ ?t1 p = Some pe" using occ1 pe ne by simp
    from rt_occ_set [OF this] occ1 have occ2: "rt_occ ?t2 = (rt_occ t)(k := None, p \<mapsto> ?pe)" by simp
    have par2: "rt_parent (rt_occ ?t2) = (rt_parent (rt_occ t))(k := None)"
      unfolding occ2 using pe ne by (auto simp: fun_eq_iff rt_parent_occ)
    have chi2: "rt_children (rt_occ ?t2) = (rt_children (rt_occ t))(p := rt_children (rt_occ t) p - {k})"
      unfolding occ2 using pe ne k ch by (auto simp: fun_eq_iff rt_children_occ)
    have "family_ok (rt_parent (rt_occ ?t2)) (rt_children (rt_occ ?t2))"
      unfolding par2 chi2 using fam k Some by (intro family_ok_unlink) (auto simp: rt_parent_occ)
    moreover have "acyclic (parent_rel (rt_parent (rt_occ ?t2)))"
      unfolding par2 using ac by (rule acyclic_unlink)
    moreover have "free_list_ok rt_next_of (rt_entries ?t2) (rt_free_head ?t2)"
      using free_list_rt_set [OF fl p1] by simp
    ultimately have "rt_inv ?t2" using len by (simp add: rt_inv_def)
    moreover have "rt_lookup ?t2 = (rt_lookup t)(k := None)"
      unfolding rt_lookup_def [abs_def] occ2 using pe ne by (auto simp: fun_eq_iff)
    moreover have "rt_occupied_mut p (res_remove_child k) ?t1 = (Ok (), ?t2)"
      using p1 pe by (simp add: rt_occupied_mut_eq res_remove_child_def)
    ultimately show ?thesis using Some del par2 by auto
  qed
qed


lemma rt_delete_cases:
  assumes inv: "rt_inv t" and own: "resource_owned r"
  obtains (absent) "rt_delete down r t = (Err ResNotPresent, t)" "rt_occ t (res_rep r) = None"
    | (parent) e where "rt_delete down r t = (Err ResHasChildren, t)" "rt_occ t (res_rep r) = Some e" "re_children e \<noteq> {}"
    | (gone) e t' where "rt_delete down r t = (ok_or ResWrongType (down (re_entry e)), t')"
        "rt_occ t (res_rep r) = Some e" "re_children e = {}" "rt_inv t'"
        "rt_lookup t' = (rt_lookup t)(res_rep r := None)"
proof (cases "rt_occ t (res_rep r)")
  case None
  with own show ?thesis
    by (intro absent) (auto simp: rt_delete_def rt_delete_entry_def rt_occupied_eq)
next
  case (Some e)
  show ?thesis
  proof (cases "re_children e = {}")
    case True
    from rt_delete_entry_live [OF inv Some True] Some True own show ?thesis
      by (auto simp: rt_delete_def intro: gone)
  next
    case False
    with Some own show ?thesis
      by (intro parent) (auto simp: rt_delete_def rt_delete_entry_def rt_occupied_eq)
  qed
qed

lemma rt_get_any_mut_inv:
  assumes inv: "rt_inv t" and eq: "rt_get_any_mut k f t = (r, t')"
  shows "rt_inv t'"
proof (cases "rt_occ t k")
  case None
  with eq inv show ?thesis by (auto simp: rt_get_any_mut_def rt_occupied_mut_eq)
next
  case (Some e)
  with eq have t': "t' = rt_set k (e\<lparr>re_entry := f (re_entry e)\<rparr>) t"
    by (auto simp: rt_get_any_mut_def rt_occupied_mut_eq)
  have "rt_occ t' = (rt_occ t)(k \<mapsto> e\<lparr>re_entry := f (re_entry e)\<rparr>)" using Some t' by simp
  then have "rt_parent (rt_occ t') = rt_parent (rt_occ t)" "rt_children (rt_occ t') = rt_children (rt_occ t)"
    using Some by (simp_all add: fun_upd_idem_iff rt_parent_occ rt_children_occ)
  moreover have "free_list_ok rt_next_of (rt_entries t') (rt_free_head t')"
    using inv Some t' by (auto simp: rt_inv_def intro!: free_list_rt_set)
  ultimately show ?thesis using inv t' by (simp add: rt_inv_def)
qed

text \<open>The arena interface, over the representations that resources carry.\<close>

definition rt_insert_rep :: "'a \<Rightarrow> 'a resource_table \<Rightarrow> (resource_table_error, nat, 'a resource_table) result" where
  "rt_insert_rep x t = (case rt_push x t of (r, t') \<Rightarrow> (map_ok res_rep r, t'))"

definition rt_remove_rep :: "nat \<Rightarrow> 'a resource_table \<Rightarrow> (resource_table_error, 'a, 'a resource_table) result" where
  "rt_remove_rep k t = rt_delete Some (resource_new_own k) t"

definition rt_pinned :: "'a resource_table \<Rightarrow> nat \<Rightarrow> bool" where
  "rt_pinned t k \<longleftrightarrow> rt_children (rt_occ t) k \<noteq> {}"

interpretation resource_arena: atomic_arena rt_inv rt_lookup rt_insert_rep rt_remove_rep rt_pinned
proof
  fix t t' :: "'a resource_table" and x k e
  show "finite (dom (rt_lookup t))" by simp
  show "rt_inv t' \<and> rt_lookup t k = None \<and> rt_lookup t' = (rt_lookup t)(k \<mapsto> x) \<and> \<not> rt_pinned t' k"
    if "rt_inv t" "rt_insert_rep x t = (Ok k, t')"
    using that(1)
    by (cases rule: rt_push_cases [where x = x])
       (use that in \<open>auto simp: rt_insert_rep_def rt_lookup_def rt_pinned_def rt_children_def
          res_entry_new_def fun_eq_iff\<close>)
  show "rt_inv t' \<and> rt_lookup t' = rt_lookup t"
    if "rt_inv t" "rt_insert_rep x t = (Err e, t')"
    using that(1)
    by (cases rule: rt_push_cases [where x = x]) (use that in \<open>auto simp: rt_insert_rep_def\<close>)
  show "rt_inv t' \<and> rt_lookup t k = Some x \<and> rt_lookup t' = (rt_lookup t)(k := None)"
    if "rt_inv t" "rt_remove_rep k t = (Ok x, t')"
    using that(1) resource_owned_new(1) [of k]
    by (cases rule: rt_delete_cases [where down = Some])
       (use that in \<open>auto simp: rt_remove_rep_def rt_lookup_def\<close>)
  show "\<exists>t'. rt_remove_rep k t = (Ok x, t')"
    if "rt_inv t" "rt_lookup t k = Some x" "\<not> rt_pinned t k"
    using that(1) resource_owned_new(1) [of k]
    by (cases rule: rt_delete_cases [where down = Some])
       (use that in \<open>auto simp: rt_remove_rep_def rt_lookup_def rt_pinned_def rt_children_occ\<close>)
  show "rt_inv t' \<and> rt_lookup t' = rt_lookup t"
    if "rt_inv t" "rt_remove_rep k t = (Err e, t')"
    using that(1) resource_owned_new(1) [of k]
    by (cases rule: rt_delete_cases [where down = Some]) (use that in \<open>auto simp: rt_remove_rep_def\<close>)
qed


section \<open>Reachable tables\<close>

inductive rt_reach :: "'a resource_table \<Rightarrow> bool" where
  rt_reach_new: "rt_reach rt_new"
| rt_reach_push: "rt_reach t \<Longrightarrow> rt_push x t = (r, t') \<Longrightarrow> rt_reach t'"
| rt_reach_push_child: "rt_reach t \<Longrightarrow> rt_push_child x p t = (r, t') \<Longrightarrow> rt_reach t'"
| rt_reach_get_any_mut: "rt_reach t \<Longrightarrow> rt_get_any_mut k f t = (r, t') \<Longrightarrow> rt_reach t'"
| rt_reach_delete: "rt_reach t \<Longrightarrow> resource_owned res \<Longrightarrow>
    rt_delete (down :: 'a \<Rightarrow> 'a option) res t = (r, t') \<Longrightarrow> rt_reach t'"

lemma rt_reach_inv: "rt_reach t \<Longrightarrow> rt_inv t"
proof (induction rule: rt_reach.induct)
  case (rt_reach_push t x r t')
  from rt_reach_push.IH show ?case
    by (cases rule: rt_push_cases [where x = x]) (use rt_reach_push in auto)
next
  case (rt_reach_push_child t x p r t')
  from rt_reach_push_child.IH show ?case
    by (cases rule: rt_push_child_cases [where x = x and r = p]) (use rt_reach_push_child in auto)
next
  case (rt_reach_delete t res down r t')
  from rt_reach_delete.IH rt_reach_delete.hyps(2) show ?case
    by (cases rule: rt_delete_cases [where down = down]) (use rt_reach_delete in auto)
qed (auto intro: rt_get_any_mut_inv)

lemma rt_children_list_Ok:
  "(\<And>c. c \<in> set cs \<Longrightarrow> rt_occ t c \<noteq> None) \<Longrightarrow>
   rt_children_list cs t = Ok (map (\<lambda>c. the (rt_lookup t c)) cs)"
  by (induction cs) (fastforce simp: rt_occupied_eq rt_lookup_def split: option.splits)+

lemma rt_finite_children: "rt_inv t \<Longrightarrow> finite (rt_children (rt_occ t) k)"
proof (rule finite_subset [OF _ finite_dom_rt_occ [of t]])
  assume "rt_inv t"
  then show "rt_children (rt_occ t) k \<subseteq> dom (rt_occ t)"
    using family_okD [of "rt_parent (rt_occ t)" "rt_children (rt_occ t)" _ k]
    by (force simp: rt_inv_def rt_parent_def bind_eq_Some_conv)
qed

text \<open>Deleting a sequence of entries, stopping at the first failure.\<close>

fun rt_delete_all :: "nat list \<Rightarrow> 'a resource_table \<Rightarrow> (resource_table_error, unit, 'a resource_table) result" where
  "rt_delete_all [] t = (Ok (), t)"
| "rt_delete_all (k # ks) t = and_then (rt_delete Some (resource_new_own k) t) (\<lambda>_ t. rt_delete_all ks t)"

lemma rt_exists_deletable:
  assumes inv: "rt_inv t" and ne: "dom (rt_lookup t) \<noteq> {}"
  shows "\<exists>k x t'. rt_delete Some (resource_new_own k) t = (Ok x, t') \<and> rt_lookup t k = Some x \<and>
     rt_inv t' \<and> rt_lookup t' = (rt_lookup t)(k := None)"
proof -
  have dom: "dom (rt_lookup t) = dom (rt_occ t)" by (auto simp: rt_lookup_def)
  have "\<exists>k \<in> dom (rt_occ t). rt_children (rt_occ t) k = {}"
    by (rule exists_childless [where par = "rt_parent (rt_occ t)"])
       (use inv ne dom in \<open>auto simp: rt_inv_def rt_parent_def bind_eq_Some_conv finite_dom_rt_occ\<close>)
  then obtain k e where k: "rt_occ t k = Some e" "re_children e = {}" by (auto simp: rt_children_occ)
  from inv resource_owned_new(1) [of k] show ?thesis
    by (cases rule: rt_delete_cases [where down = Some]) (use k in \<open>auto simp: rt_lookup_def\<close>)
qed

lemma rt_drainable:
  "rt_inv t \<Longrightarrow> card (dom (rt_lookup t)) = n \<Longrightarrow>
   \<exists>ks t'. rt_delete_all ks t = (Ok (), t') \<and> length ks = n \<and> rt_lookup t' = Map.empty"
proof (induction n arbitrary: t)
  case 0
  then have "rt_lookup t = Map.empty" by (simp add: dom_eq_empty_conv)
  then show ?case by (intro exI [of _ "[]"]) auto
next
  case (Suc n)
  from Suc.prems(2) have "dom (rt_lookup t) \<noteq> {}" by auto
  from rt_exists_deletable [OF Suc.prems(1) this] obtain k x t1 where
    k: "rt_delete Some (resource_new_own k) t = (Ok x, t1)" "rt_lookup t k = Some x" "rt_inv t1"
      "rt_lookup t1 = (rt_lookup t)(k := None)" by blast
  have "card (dom (rt_lookup t1)) = n" using k(2,4) Suc.prems(2) by (simp add: card_Diff_singleton domI)
  from Suc.IH [OF k(3) this] obtain ks t' where
    "rt_delete_all ks t1 = (Ok (), t')" "length ks = n" "rt_lookup t' = Map.empty" by blast
  with k(1) show ?case by (intro exI [of _ "k # ks"] exI [of _ t']) simp
qed



section \<open>Properties\<close>

definition rt_example :: "nat resource_table" where
  "rt_example = \<lparr>rt_entries = [ResOccupied \<lparr>re_entry = 7, re_parent = None, re_children = {1}\<rparr>,
     ResOccupied \<lparr>re_entry = 8, re_parent = Some 0, re_children = {}\<rparr>], rt_free_head = None\<rparr>"

lemma rt_example_reach: "rt_reach rt_example"
proof -
  let ?t = "\<lparr>rt_entries = [ResOccupied (res_entry_new (7 :: nat) None)], rt_free_head = None\<rparr>"
  have "rt_push 7 rt_new = (Ok (resource_new_own 0), ?t)"
    by (simp add: rt_push_def rt_push_entry_def rt_pop_free_list_def rt_new_def u32_try_from_def)
  then have "rt_reach ?t" by (rule rt_reach_push [OF rt_reach_new])
  moreover have "rt_push_child 8 (resource_new_own 0) ?t = (Ok (resource_new_own 1), rt_example)"
    by (simp add: rt_push_child_def rt_push_entry_def rt_pop_free_list_def rt_occupied_eq rt_occ_def
          rt_occupied_mut_eq vec_get_def u32_try_from_def u32_max_def res_entry_new_def res_add_child_def
          rt_example_def)
  ultimately show ?thesis by (rule rt_reach_push_child)
qed



text \<open>
  C11: An entry with children cannot be deleted and stays as it is; but a
  reachable table never gets stuck: some order of deletions, one per entry,
  succeeds on every entry and empties the table.
\<close>

theorem rt_drain_order:
  assumes "rt_reach t"
  shows "(\<forall>k e. rt_occ t k = Some e \<longrightarrow> re_children e \<noteq> {} \<longrightarrow>
            rt_delete Some (resource_new_own k) t = (Err ResHasChildren, t)) \<and>
    (\<exists>ks t'. rt_delete_all ks t = (Ok (), t') \<and> length ks = card (dom (rt_lookup t)) \<and> rt_lookup t' = Map.empty)"
  using rt_drainable [OF rt_reach_inv [OF assms] refl]
  by (auto simp: rt_delete_def rt_delete_entry_def rt_occupied_eq)

theorem rt_drain_order_witness:
  "rt_reach rt_example \<and> rt_delete Some (resource_new_own 0) rt_example = (Err ResHasChildren, rt_example) \<and>
   (\<exists>ks t'. rt_delete_all ks rt_example = (Ok (), t') \<and> length ks = 2 \<and> rt_lookup t' = Map.empty)"
proof -
  have "dom (rt_lookup rt_example) = {0, 1}"
    by (auto simp: rt_example_def rt_lookup_def rt_occ_def vec_get_def nth_Cons' split: if_splits)
  then have "card (dom (rt_lookup rt_example)) = 2" by simp
  moreover obtain e where "rt_occ rt_example 0 = Some e" "re_children e \<noteq> {}"
    by (simp add: rt_example_def rt_occ_def vec_get_def)
  ultimately show ?thesis using rt_drain_order [OF rt_example_reach] rt_example_reach by metis
qed

end
