(* ===== verification/Handle_Table.thy ===== *)
theory Handle_Table
  imports Free_List
begin

text \<open>
  The resource handle tables of the VM,
  \<open>crates/wasmtime/src/runtime/vm/component/resources.rs\<close>: one table per
  component instance and one for the host, whose slots own or borrow a resource,
  and the stack of call contexts that counts what a call has lent and borrowed.
\<close>

section \<open>Data\<close>

definition MAX_RESOURCE_HANDLE :: nat where
  "MAX_RESOURCE_HANDLE = 2 ^ 30"

text \<open>\<open>Component\<close> carries the representation (or the index) and the type.\<close>

datatype typed_resource = HostRes nat | ComponentRes nat nat

datatype typed_resource_index = HostIdx nat | ComponentIdx nat nat

datatype handle_error =
    UnknownHandleIndex typed_resource_index
  | ResourceTypeMismatch typed_resource_index string
  | HandleIndexOverflow
  | RemoveWhileBorrowed
  | LiftOwnFromBorrow
  | BorrowsRemain

fun typed_resource_rep :: "typed_resource_index \<Rightarrow> typed_resource \<Rightarrow> (handle_error, nat) outcome" where
  "typed_resource_rep access_ty (HostRes rep) = (case access_ty of
      HostIdx _ \<Rightarrow> Ok rep
    | ComponentIdx _ _ \<Rightarrow> Err (ResourceTypeMismatch access_ty ''host resource''))"
| "typed_resource_rep access_ty (ComponentRes rep ty) = (case access_ty of
      ComponentIdx _ expected \<Rightarrow>
        if ty = expected then Ok rep
        else Err (ResourceTypeMismatch access_ty ''a different guest-defined resource'')
    | HostIdx _ \<Rightarrow> Err (ResourceTypeMismatch access_ty ''guest-defined resource''))"

fun raw_index :: "typed_resource_index \<Rightarrow> nat" where
  "raw_index (HostIdx index) = index"
| "raw_index (ComponentIdx index ty) = index"

datatype vm_slot = VFree nat | VOwn typed_resource nat | VBorrow typed_resource nat

record vm_table =
  vt_next :: nat
  vt_slots :: "vm_slot list"

record call_context =
  cc_lenders :: "typed_resource_index list"
  cc_borrow_count :: nat

text \<open>
  \<open>ResourceTables\<close>: the guest's tables by instance with the instance that each
  resource type belongs to, the host's table, and the call scopes, innermost last.
\<close>

record resource_tables =
  rts_guest :: "(vm_table list \<times> nat list) option"
  rts_host :: "vm_table option"
  rts_calls :: "call_context list"

definition vt_default :: vm_table where
  "vt_default = \<lparr>vt_next = 0, vt_slots = []\<rparr>"

definition call_context_default :: call_context where
  "call_context_default = \<lparr>cc_lenders = [], cc_borrow_count = 0\<rparr>"


section \<open>One table\<close>

definition vt_insert :: "vm_slot \<Rightarrow> vm_table \<Rightarrow> (handle_error, nat, vm_table) result" where
  "vt_insert new t =
     and_then
       (if vt_next t = length (vt_slots t)
        then (case u32_checked_add (vt_next t) 1 of
                Some n \<Rightarrow> (Ok (), t\<lparr>vt_slots := vt_slots t @ [VFree n]\<rparr>)
              | None \<Rightarrow> (Panic ''unwrap on None'', t))
        else (Ok (), t))
     (\<lambda>_ t. case vec_get (vt_slots t) (vt_next t) of
        None \<Rightarrow> (Panic ''index out of bounds'', t)
      | Some slot \<Rightarrow>
          (let ret = vt_next t; t = t\<lparr>vt_slots := (vt_slots t)[ret := new]\<rparr> in
           case slot of
             VFree n \<Rightarrow>
               (let t = t\<lparr>vt_next := n\<rparr> in
                case u32_checked_add ret 1 of
                  None \<Rightarrow> (Panic ''attempt to add with overflow'', t)
                | Some ret \<Rightarrow>
                    if ret \<ge> MAX_RESOURCE_HANDLE then (Err HandleIndexOverflow, t) else (Ok ret, t))
           | _ \<Rightarrow> (Panic ''unreachable'', t)))"

definition vt_slot_at :: "nat \<Rightarrow> vm_table \<Rightarrow> vm_slot option" where
  "vt_slot_at idx t = Option.bind (u32_checked_sub idx 1) (vec_get (vt_slots t))"

definition vt_rep :: "typed_resource_index \<Rightarrow> vm_table \<Rightarrow> (handle_error, nat) outcome" where
  "vt_rep idx t = (case vt_slot_at (raw_index idx) t of
      None \<Rightarrow> Err (UnknownHandleIndex idx)
    | Some (VFree n) \<Rightarrow> Err (UnknownHandleIndex idx)
    | Some (VOwn r c) \<Rightarrow> typed_resource_rep idx r
    | Some (VBorrow r s) \<Rightarrow> typed_resource_rep idx r)"

text \<open>\<open>get_mut\<close>: the slot, if it is not free.\<close>

definition vt_get :: "typed_resource_index \<Rightarrow> vm_table \<Rightarrow> (handle_error, vm_slot) outcome" where
  "vt_get idx t = (case vt_slot_at (raw_index idx) t of
      None \<Rightarrow> Err (UnknownHandleIndex idx)
    | Some (VFree n) \<Rightarrow> Err (UnknownHandleIndex idx)
    | Some slot \<Rightarrow> Ok slot)"

text \<open>Writing through the reference that \<open>get_mut\<close> returned.\<close>

definition vt_set :: "typed_resource_index \<Rightarrow> vm_slot \<Rightarrow> vm_table \<Rightarrow> vm_table" where
  "vt_set idx slot t = t\<lparr>vt_slots := (vt_slots t)[raw_index idx - 1 := slot]\<rparr>"

definition vt_remove :: "typed_resource_index \<Rightarrow> vm_table \<Rightarrow> (handle_error, vm_slot, vm_table) result" where
  "vt_remove idx t = and_then (vt_get idx t, t) (\<lambda>slot t.
     (Ok slot, (vt_set idx (VFree (vt_next t)) t)\<lparr>vt_next := raw_index idx - 1\<rparr>))"


section \<open>All tables\<close>

datatype table_loc = HostLoc | GuestLoc nat

fun rts_get :: "table_loc \<Rightarrow> resource_tables \<Rightarrow> vm_table option" where
  "rts_get HostLoc t = rts_host t"
| "rts_get (GuestLoc i) t = (case rts_guest t of None \<Rightarrow> None | Some (tables, types) \<Rightarrow> vec_get tables i)"

fun rts_put :: "table_loc \<Rightarrow> vm_table \<Rightarrow> resource_tables \<Rightarrow> resource_tables" where
  "rts_put HostLoc x t = t\<lparr>rts_host := Some x\<rparr>"
| "rts_put (GuestLoc i) x t = (case rts_guest t of
      None \<Rightarrow> t
    | Some (tables, types) \<Rightarrow> t\<lparr>rts_guest := Some (tables[i := x], types)\<rparr>)"

definition guest_loc :: "nat \<Rightarrow> resource_tables \<Rightarrow> (handle_error, table_loc) outcome" where
  "guest_loc ty t = (case rts_guest t of
      None \<Rightarrow> Panic ''unwrap on None''
    | Some (tables, types) \<Rightarrow> (case vec_get types ty of
          None \<Rightarrow> Panic ''index out of bounds''
        | Some i \<Rightarrow> if i < length tables then Ok (GuestLoc i) else Panic ''index out of bounds''))"

definition host_loc :: "resource_tables \<Rightarrow> (handle_error, table_loc) outcome" where
  "host_loc t = (case rts_host t of None \<Rightarrow> Panic ''unwrap on None'' | Some x \<Rightarrow> Ok HostLoc)"

fun table_for_resource :: "typed_resource \<Rightarrow> resource_tables \<Rightarrow> (handle_error, table_loc) outcome" where
  "table_for_resource (HostRes rep) t = host_loc t"
| "table_for_resource (ComponentRes rep ty) t = guest_loc ty t"

fun table_for_index :: "typed_resource_index \<Rightarrow> resource_tables \<Rightarrow> (handle_error, table_loc) outcome" where
  "table_for_index (HostIdx index) t = host_loc t"
| "table_for_index (ComponentIdx index ty) t = guest_loc ty t"

text \<open>Running an operation of one table in place.\<close>

definition on_table ::
    "(handle_error, table_loc) outcome \<Rightarrow> (vm_table \<Rightarrow> (handle_error, 'r, vm_table) result) \<Rightarrow> resource_tables
     \<Rightarrow> (handle_error, 'r, resource_tables) result" where
  "on_table at f t = and_then (at, t) (\<lambda>loc t. case rts_get loc t of
      None \<Rightarrow> (Panic ''unwrap on None'', t)
    | Some x \<Rightarrow> (case f x of (r, x') \<Rightarrow> (r, rts_put loc x' t)))"

definition resource_new :: "typed_resource \<Rightarrow> resource_tables \<Rightarrow> (handle_error, nat, resource_tables) result" where
  "resource_new r t = on_table (table_for_resource r t) (vt_insert (VOwn r 0)) t"

definition resource_rep ::
    "typed_resource_index \<Rightarrow> resource_tables \<Rightarrow> (handle_error, nat, resource_tables) result" where
  "resource_rep index t = on_table (table_for_index index t) (\<lambda>x. (vt_rep index x, x)) t"

text \<open>\<open>self.calls.scopes[scope].borrow_count -= 1\<close>.\<close>

definition calls_decr_borrow ::
    "nat \<Rightarrow> resource_tables \<Rightarrow> (handle_error, unit, resource_tables) result" where
  "calls_decr_borrow scope t = (case vec_get (rts_calls t) scope of
      None \<Rightarrow> (Panic ''index out of bounds'', t)
    | Some cx \<Rightarrow> (case u32_checked_sub (cc_borrow_count cx) 1 of
          None \<Rightarrow> (Panic ''attempt to subtract with overflow'', t)
        | Some n \<Rightarrow> (Ok (), t\<lparr>rts_calls := (rts_calls t)[scope := cx\<lparr>cc_borrow_count := n\<rparr>]\<rparr>)))"

definition resource_drop ::
    "typed_resource_index \<Rightarrow> resource_tables \<Rightarrow> (handle_error, nat option, resource_tables) result" where
  "resource_drop index t =
     and_then (on_table (table_for_index index t) (vt_remove index) t) (\<lambda>slot t. case slot of
        VOwn r c \<Rightarrow>
          if c = 0 then (map_ok Some (typed_resource_rep index r), t) else (Err RemoveWhileBorrowed, t)
      | VBorrow r scope \<Rightarrow>
          and_then (typed_resource_rep index r, t) (\<lambda>_ t.
          and_then (calls_decr_borrow scope t) (\<lambda>_ t. (Ok None, t)))
      | VFree n \<Rightarrow> (Panic ''unreachable'', t))"

definition resource_lower_own :: "typed_resource \<Rightarrow> resource_tables \<Rightarrow> (handle_error, nat, resource_tables) result" where
  "resource_lower_own r t = on_table (table_for_resource r t) (vt_insert (VOwn r 0)) t"

definition resource_lift_own ::
    "typed_resource_index \<Rightarrow> resource_tables \<Rightarrow> (handle_error, nat, resource_tables) result" where
  "resource_lift_own index t =
     and_then (on_table (table_for_index index t) (vt_remove index) t) (\<lambda>slot t. case slot of
        VOwn r c \<Rightarrow> if c = 0 then (typed_resource_rep index r, t) else (Err RemoveWhileBorrowed, t)
      | VBorrow r scope \<Rightarrow> (Err LiftOwnFromBorrow, t)
      | VFree n \<Rightarrow> (Panic ''unreachable'', t))"

text \<open>\<open>self.calls.scopes.last_mut().unwrap().lenders.push(index)\<close>.\<close>

definition calls_push_lender ::
    "typed_resource_index \<Rightarrow> resource_tables \<Rightarrow> (handle_error, unit, resource_tables) result" where
  "calls_push_lender index t =
     (if rts_calls t = [] then (Panic ''unwrap on None'', t)
      else (let cx = last (rts_calls t) in
        (Ok (), t\<lparr>rts_calls := butlast (rts_calls t) @ [cx\<lparr>cc_lenders := cc_lenders cx @ [index]\<rparr>]\<rparr>)))"

definition resource_lift_borrow ::
    "typed_resource_index \<Rightarrow> resource_tables \<Rightarrow> (handle_error, nat, resource_tables) result" where
  "resource_lift_borrow index t =
     and_then (on_table (table_for_index index t) (\<lambda>x.
        and_then (vt_get index x, x) (\<lambda>slot x. case slot of
            VOwn r c \<Rightarrow>
              and_then (typed_resource_rep index r, x) (\<lambda>rep x. case u32_checked_add c 1 of
                  Some c' \<Rightarrow> (Ok (rep, True), vt_set index (VOwn r c') x)
                | None \<Rightarrow> (Panic ''unwrap on None'', x))
          | VBorrow r scope \<Rightarrow> (map_ok (\<lambda>rep. (rep, False)) (typed_resource_rep index r), x)
          | VFree n \<Rightarrow> (Panic ''unreachable'', x))) t)
     (\<lambda>(rep, owned) t.
        if owned then and_then (calls_push_lender index t) (\<lambda>_ t. (Ok rep, t)) else (Ok rep, t))"

definition resource_lower_borrow ::
    "typed_resource \<Rightarrow> resource_tables \<Rightarrow> (handle_error, nat, resource_tables) result" where
  "resource_lower_borrow r t =
     (if rts_calls t = [] then (Panic ''attempt to subtract with overflow'', t)
      else
        (let scope = length (rts_calls t) - 1; cx = last (rts_calls t) in
         case u32_checked_add (cc_borrow_count cx) 1 of
           None \<Rightarrow> (Panic ''unwrap on None'', t)
         | Some n \<Rightarrow>
             (let t = t\<lparr>rts_calls := butlast (rts_calls t) @ [cx\<lparr>cc_borrow_count := n\<rparr>]\<rparr> in
              on_table (table_for_resource r t) (vt_insert (VBorrow r scope)) t)))"

definition enter_call :: "resource_tables \<Rightarrow> resource_tables" where
  "enter_call t = t\<lparr>rts_calls := rts_calls t @ [call_context_default]\<rparr>"

text \<open>The loop of \<open>exit_call\<close> over the lenders of the scope.\<close>

fun return_lenders ::
    "typed_resource_index list \<Rightarrow> resource_tables \<Rightarrow> (handle_error, unit, resource_tables) result" where
  "return_lenders [] t = (Ok (), t)"
| "return_lenders (lender # ls) t =
     and_then (on_table (table_for_index lender t) (\<lambda>x. case vt_get lender x of
         Ok (VOwn r c) \<Rightarrow> (case u32_checked_sub c 1 of
             Some c' \<Rightarrow> (Ok (), vt_set lender (VOwn r c') x)
           | None \<Rightarrow> (Panic ''attempt to subtract with overflow'', x))
       | Ok _ \<Rightarrow> (Panic ''unreachable'', x)
       | _ \<Rightarrow> (Panic ''unwrap on Err'', x)) t)
     (\<lambda>_ t. return_lenders ls t)"

definition exit_call :: "resource_tables \<Rightarrow> (handle_error, unit, resource_tables) result" where
  "exit_call t =
     (if rts_calls t = [] then (Panic ''unwrap on None'', t)
      else
        (let cx = last (rts_calls t); t = t\<lparr>rts_calls := butlast (rts_calls t)\<rparr> in
         if cc_borrow_count cx > 0 then (Err BorrowsRemain, t)
         else return_lenders (cc_lenders cx) t))"

definition call_contexts_push :: "call_context \<Rightarrow> call_context list \<Rightarrow> call_context list" where
  "call_contexts_push cx scopes = scopes @ [cx]"

definition call_contexts_pop :: "call_context list \<Rightarrow> call_context option \<times> call_context list" where
  "call_contexts_pop scopes = (if scopes = [] then (None, []) else (Some (last scopes), butlast scopes))"



section \<open>Well-formed tables\<close>

fun vt_link_of :: "vm_slot \<Rightarrow> nat option" where
  "vt_link_of (VFree n) = Some n"
| "vt_link_of (VOwn r c) = None"
| "vt_link_of (VBorrow r s) = None"

definition vt_inv :: "vm_table \<Rightarrow> bool" where
  "vt_inv t \<longleftrightarrow> tail_list_ok vt_link_of (vt_slots t) (vt_next t) \<and> length (vt_slots t) < MAX_RESOURCE_HANDLE"

fun live_slot :: "vm_slot \<Rightarrow> vm_slot option" where
  "live_slot (VFree n) = None"
| "live_slot (VOwn r c) = Some (VOwn r c)"
| "live_slot (VBorrow r s) = Some (VBorrow r s)"

definition vt_lookup :: "vm_table \<Rightarrow> nat \<Rightarrow> vm_slot option" where
  "vt_lookup t idx = Option.bind (vt_slot_at idx t) live_slot"

lemma live_slot_Some [simp]: "live_slot s = Some v \<longleftrightarrow> s = v \<and> vt_link_of s = None"
  by (cases s) auto

lemma live_slot_id [simp]: "vt_link_of s = None \<Longrightarrow> live_slot s = Some s"
  by (cases s) auto

lemma vt_slot_at_simps [simp]: "vt_slot_at 0 t = None" "vt_slot_at (Suc i) t = vec_get (vt_slots t) i"
  by (simp_all add: vt_slot_at_def u32_checked_sub_def)

lemma vt_lookup_0 [simp]: "vt_lookup t 0 = None"
  by (simp add: vt_lookup_def)

lemma vt_lookup_Suc:
  "vt_lookup t (Suc i) = Some v \<longleftrightarrow> i < length (vt_slots t) \<and> vt_slots t ! i = v \<and> vt_link_of v = None"
  by (auto simp: vt_lookup_def vec_get_def)

lemma vt_lookup_live: "vt_lookup t idx = Some v \<Longrightarrow> vt_link_of v = None"
  by (cases idx) (auto simp: vt_lookup_Suc)

lemma finite_dom_vt_lookup [simp]: "finite (dom (vt_lookup t))"
proof (rule finite_subset [of _ "Suc ` {..<length (vt_slots t)}"])
  show "dom (vt_lookup t) \<subseteq> Suc ` {..<length (vt_slots t)}"
  proof
    fix k assume "k \<in> dom (vt_lookup t)"
    then show "k \<in> Suc ` {..<length (vt_slots t)}" by (cases k) (auto simp: vt_lookup_Suc)
  qed
qed simp

lemma vt_get_eq:
  "vt_get idx t = (case vt_lookup t (raw_index idx) of None \<Rightarrow> Err (UnknownHandleIndex idx) | Some s \<Rightarrow> Ok s)"
  by (auto simp: vt_get_def vt_lookup_def split: option.splits vm_slot.splits)

lemma vt_lookup_update:
  assumes "i < length (vt_slots t)" and "vt_slots t' = (vt_slots t)[i := x]"
  shows "vt_lookup t' = (vt_lookup t)(Suc i := live_slot x)"
proof (rule ext)
  fix k show "vt_lookup t' k = ((vt_lookup t)(Suc i := live_slot x)) k"
    using assms by (cases k) (auto simp: vt_lookup_def vec_get_def nth_update_if)
qed

lemma vt_lookup_append:
  assumes "vt_slots t' = vt_slots t @ [x]"
  shows "vt_lookup t' = (vt_lookup t)(Suc (length (vt_slots t)) := live_slot x)"
proof (rule ext)
  fix k show "vt_lookup t' k = ((vt_lookup t)(Suc (length (vt_slots t)) := live_slot x)) k"
    using assms by (cases k) (auto simp: vt_lookup_def vec_get_def nth_append)
qed

lemma MAX_RESOURCE_HANDLE_lt: "MAX_RESOURCE_HANDLE < u32_max"
  by (simp add: MAX_RESOURCE_HANDLE_def u32_max_def)

lemma vt_inv_default [simp]: "vt_inv vt_default" "vt_lookup vt_default = Map.empty"
proof -
  show "vt_inv vt_default" by (simp add: vt_inv_def vt_default_def MAX_RESOURCE_HANDLE_def)
  have "vt_lookup vt_default k = None" for k
    by (cases k) (auto simp: vt_lookup_def vt_default_def vec_get_def)
  then show "vt_lookup vt_default = Map.empty" by blast
qed

lemma vt_insert_cases:
  assumes inv: "vt_inv t" and live: "vt_link_of new = None"
  obtains (done_) idx t' where "vt_insert new t = (Ok idx, t')" "0 < idx" "idx < MAX_RESOURCE_HANDLE"
      "vt_inv t'" "vt_lookup t idx = None" "vt_lookup t' = (vt_lookup t)(idx \<mapsto> new)"
    | (overflow) t' where "vt_insert new t = (Err HandleIndexOverflow, t')" "MAX_RESOURCE_HANDLE \<le> Suc (vt_next t)"
        "vt_lookup t' = (vt_lookup t)(Suc (vt_next t) \<mapsto> new)"
proof (cases "vt_next t = length (vt_slots t)")
  case True
  let ?n = "length (vt_slots t)"
  let ?t = "t\<lparr>vt_slots := vt_slots t @ [new], vt_next := Suc ?n\<rparr>"
  have len: "?n < MAX_RESOURCE_HANDLE" using inv by (simp add: vt_inv_def)
  then have ins: "vt_insert new t =
      (if MAX_RESOURCE_HANDLE \<le> Suc ?n then (Err HandleIndexOverflow, ?t) else (Ok (Suc ?n), ?t))"
    using True MAX_RESOURCE_HANDLE_lt
    by (simp add: vt_insert_def u32_checked_add_def vec_get_def Let_def)
  have look: "vt_lookup ?t = (vt_lookup t)(Suc ?n \<mapsto> new)"
    using live by (subst vt_lookup_append [of _ t]) auto
  have none: "vt_lookup t (Suc ?n) = None" by (simp add: vt_lookup_def vec_get_def)
  show ?thesis
  proof (cases "MAX_RESOURCE_HANDLE \<le> Suc ?n")
    case True
    with ins look \<open>vt_next t = ?n\<close> show ?thesis by (intro overflow [of ?t]) auto
  next
    case False
    have "tail_list_ok vt_link_of (vt_slots t) ?n" using inv True by (simp add: vt_inv_def)
    then have "vt_inv ?t" using tail_list_grow [of vt_link_of "vt_slots t" new] live False by (simp add: vt_inv_def)
    with False ins look none show ?thesis by (intro done_ [of "Suc ?n" ?t]) auto
  qed
next
  case False
  let ?k = "vt_next t"
  from inv have "tail_list_ok vt_link_of (vt_slots t) ?k" by (simp add: vt_inv_def)
  then obtain n where k: "?k < length (vt_slots t)" and link: "vt_link_of (vt_slots t ! ?k) = Some n"
    and pop: "\<forall>e. vt_link_of e = None \<longrightarrow> tail_list_ok vt_link_of ((vt_slots t)[?k := e]) n"
    using False by (rule tail_list_pop)
  from link have ent: "vt_slots t ! ?k = VFree n" by (cases "vt_slots t ! ?k") auto
  let ?t = "t\<lparr>vt_slots := (vt_slots t)[?k := new], vt_next := n\<rparr>"
  have len: "Suc ?k < MAX_RESOURCE_HANDLE" "Suc ?k \<le> u32_max"
    using k inv MAX_RESOURCE_HANDLE_lt by (auto simp: vt_inv_def)
  then have ins: "vt_insert new t = (Ok (Suc ?k), ?t)"
    using False k ent by (simp add: vt_insert_def u32_checked_add_def vec_get_def Let_def)
  moreover have "vt_lookup ?t = (vt_lookup t)(Suc ?k \<mapsto> new)"
    using k live by (subst vt_lookup_update [of ?k t]) auto
  moreover have "vt_lookup t (Suc ?k) = None" using ent by (simp add: vt_lookup_def vec_get_def)
  moreover have "vt_inv ?t" using pop live inv by (simp add: vt_inv_def)
  ultimately show ?thesis using len by (intro done_ [of "Suc ?k" ?t]) auto
qed

lemma vt_set_live:
  assumes inv: "vt_inv t" and l: "vt_lookup t (raw_index idx) = Some old" and live: "vt_link_of new = None"
  shows "vt_inv (vt_set idx new t)" and "vt_lookup (vt_set idx new t) = (vt_lookup t)(raw_index idx \<mapsto> new)"
proof -
  obtain i where i: "raw_index idx = Suc i" using l by (cases "raw_index idx") auto
  with l have ent: "i < length (vt_slots t)" "vt_slots t ! i = old" "vt_link_of old = None"
    by (auto simp: vt_lookup_Suc)
  show "vt_inv (vt_set idx new t)"
    using inv i ent live by (auto simp: vt_inv_def vt_set_def intro!: tail_list_update)
  show "vt_lookup (vt_set idx new t) = (vt_lookup t)(raw_index idx \<mapsto> new)"
    using i ent live by (subst vt_lookup_update [of i t]) (auto simp: vt_set_def)
qed

lemma vt_remove_eq:
  assumes inv: "vt_inv t"
  shows "case vt_lookup t (raw_index idx) of
      None \<Rightarrow> vt_remove idx t = (Err (UnknownHandleIndex idx), t)
    | Some old \<Rightarrow> (\<exists>t'. vt_remove idx t = (Ok old, t') \<and> vt_inv t' \<and>
        vt_lookup t' = (vt_lookup t)(raw_index idx := None))"
proof (cases "vt_lookup t (raw_index idx)")
  case None
  then show ?thesis by (simp add: vt_remove_def vt_get_eq)
next
  case (Some old)
  obtain i where i: "raw_index idx = Suc i" using Some by (cases "raw_index idx") auto
  with Some have ent: "i < length (vt_slots t)" "vt_slots t ! i = old" "vt_link_of old = None"
    by (auto simp: vt_lookup_Suc)
  let ?t = "(vt_set idx (VFree (vt_next t)) t)\<lparr>vt_next := i\<rparr>"
  have "tail_list_ok vt_link_of ((vt_slots t)[i := VFree (vt_next t)]) i"
    using inv ent by (intro tail_list_push [of _ _ "vt_next t"]) (auto simp: vt_inv_def)
  then have "vt_inv ?t" using inv i by (simp add: vt_inv_def vt_set_def)
  moreover have "vt_lookup ?t = (vt_lookup t)(raw_index idx := None)"
    using i ent by (subst vt_lookup_update [of i t]) (auto simp: vt_set_def)
  ultimately show ?thesis using Some i by (simp add: vt_remove_def vt_get_eq)
qed

text \<open>The arena interface: only slots that own or borrow are inserted.\<close>

definition vt_insert_live :: "vm_slot \<Rightarrow> vm_table \<Rightarrow> (handle_error, nat, vm_table) result" where
  "vt_insert_live new t = (if vt_link_of new = None then vt_insert new t else (Panic ''not a handle'', t))"

definition vt_remove_raw :: "nat \<Rightarrow> vm_table \<Rightarrow> (handle_error, vm_slot, vm_table) result" where
  "vt_remove_raw k t = vt_remove (HostIdx k) t"

interpretation vm_arena: arena vt_inv vt_lookup vt_insert_live vt_remove_raw "\<lambda>_ _. False"
proof
  fix t t' v k e
  show "finite (dom (vt_lookup t))" by simp
  show "vt_inv t' \<and> vt_lookup t k = None \<and> vt_lookup t' = (vt_lookup t)(k \<mapsto> v) \<and> \<not> False"
    if t: "vt_inv t" and ins: "vt_insert_live v t = (Ok k, t')"
  proof -
    from ins have v: "vt_link_of v = None" by (auto simp: vt_insert_live_def split: if_splits)
    from t v show ?thesis
      by (cases rule: vt_insert_cases) (use ins v in \<open>auto simp: vt_insert_live_def\<close>)
  qed
  show "vt_inv t' \<and> vt_lookup t k = Some v \<and> vt_lookup t' = (vt_lookup t)(k := None)"
    if "vt_inv t" "vt_remove_raw k t = (Ok v, t')"
    using vt_remove_eq [OF that(1), of "HostIdx k"] that(2)
    by (auto simp: vt_remove_raw_def split: option.splits)
  show "\<exists>t'. vt_remove_raw k t = (Ok v, t')"
    if "vt_inv t" "vt_lookup t k = Some v"
    using vt_remove_eq [OF that(1), of "HostIdx k"] that(2) by (auto simp: vt_remove_raw_def)
  show "vt_inv t' \<and> vt_lookup t' = vt_lookup t"
    if "vt_inv t" "vt_remove_raw k t = (Err e, t')"
    using vt_remove_eq [OF that(1), of "HostIdx k"] that
    by (auto simp: vt_remove_raw_def split: option.splits)
qed



section \<open>The accounts of lent and borrowed handles\<close>

text \<open>
  \<open>acct\<close> relates all live handles, the borrow counts of the scopes and the keys
  that the scopes list as lenders: every scope counts the borrows made in it,
  every owned handle counts how often it has been lent, and everything lent is
  an owned handle that is still there.
\<close>

type_synonym handle_key = "table_loc \<times> nat"

definition borrows :: "(handle_key \<Rightarrow> vm_slot option) \<Rightarrow> nat \<Rightarrow> handle_key set" where
  "borrows L s = {k. \<exists>r. L k = Some (VBorrow r s)}"

definition acct :: "(handle_key \<Rightarrow> vm_slot option) \<Rightarrow> nat list \<Rightarrow> handle_key list \<Rightarrow> bool" where
  "acct L B ks \<longleftrightarrow> finite (dom L) \<and>
     (\<forall>s < length B. B ! s = card (borrows L s)) \<and>
     (\<forall>k r s. L k = Some (VBorrow r s) \<longrightarrow> s < length B) \<and>
     (\<forall>k r c. L k = Some (VOwn r c) \<longrightarrow> c = count_list ks k) \<and>
     (\<forall>k \<in> set ks. \<exists>r c. L k = Some (VOwn r c))"

lemma finite_borrows: "finite (dom L) \<Longrightarrow> finite (borrows L s)"
  by (rule finite_subset [of _ "dom L"]) (auto simp: borrows_def)

lemma borrows_upd:
  "borrows (L(k := x)) s = (borrows L s - {k}) \<union> (if \<exists>r. x = Some (VBorrow r s) then {k} else {})"
  by (auto simp: borrows_def)

lemma count_list_0: "k \<notin> set ks \<Longrightarrow> count_list ks k = 0"
  by (induction ks) auto

lemma count_list_0_iff: "count_list ks k = 0 \<longleftrightarrow> k \<notin> set ks"
  by (induction ks) auto

lemma acct_ownD: "acct L B ks \<Longrightarrow> L k = Some (VOwn r c) \<Longrightarrow> c = count_list ks k"
  unfolding acct_def by blast

lemma acct_borrowD: "acct L B ks \<Longrightarrow> L k = Some (VBorrow r s) \<Longrightarrow> s < length B"
  unfolding acct_def by blast

lemma acct_insert_own:
  assumes a: "acct L B ks" and k: "L k = None"
  shows "acct (L(k \<mapsto> VOwn r 0)) B ks"
proof -
  have "k \<notin> set ks" using a k by (auto simp: acct_def)
  moreover have "borrows (L(k \<mapsto> VOwn r 0)) = borrows L" using k by (auto simp: borrows_upd fun_eq_iff borrows_def)
  ultimately show ?thesis using a by (auto simp: acct_def count_list_0)
qed

lemma acct_remove_own:
  assumes a: "acct L B ks" and k: "L k = Some (VOwn r 0)"
  shows "acct (L(k := None)) B ks"
proof -
  have "k \<notin> set ks" using acct_ownD [OF a k] by (simp add: count_list_0_iff)
  moreover have "borrows (L(k := None)) = borrows L" using k by (auto simp: borrows_upd fun_eq_iff borrows_def)
  ultimately show ?thesis using a by (auto simp: acct_def)
qed

lemma acct_insert_borrow:
  assumes a: "acct L B ks" and k: "L k = None" and s: "s < length B"
  shows "acct (L(k \<mapsto> VBorrow r s)) (B[s := Suc (B ! s)]) ks"
proof -
  have fin: "finite (borrows L i)" for i using a by (auto simp: acct_def intro: finite_borrows)
  have "k \<notin> borrows L i" for i using k by (simp add: borrows_def)
  then have "card (borrows (L(k \<mapsto> VBorrow r s)) i) = card (borrows L i) + (if i = s then 1 else 0)" for i
    using fin by (simp add: borrows_upd)
  moreover have "k \<notin> set ks" using a k by (auto simp: acct_def)
  ultimately show ?thesis using a s by (auto simp: acct_def nth_update_if)
qed

lemma acct_remove_borrow:
  assumes a: "acct L B ks" and k: "L k = Some (VBorrow r s)"
  shows "s < length B" and "0 < B ! s" and "acct (L(k := None)) (B[s := B ! s - 1]) ks"
proof -
  have fin: "finite (borrows L i)" for i using a by (auto simp: acct_def intro: finite_borrows)
  show s: "s < length B" using acct_borrowD [OF a k] .
  have ks: "k \<in> borrows L s" using k by (auto simp: borrows_def)
  then have "0 < card (borrows L s)" using fin by (auto simp: card_gt_0_iff)
  then show "0 < B ! s" using a s by (simp add: acct_def)
  have "k \<notin> borrows L i" if "i \<noteq> s" for i using k that by (simp add: borrows_def)
  then have "card (borrows (L(k := None)) i) = card (borrows L i) - (if i = s then 1 else 0)" for i
    using ks fin by (simp add: borrows_upd)
  moreover have "k \<notin> set ks" using a k by (auto simp: acct_def)
  ultimately show "acct (L(k := None)) (B[s := B ! s - 1]) ks"
    using a s by (auto simp: acct_def nth_update_if)
qed

lemma acct_perm:
  assumes "acct L B ks" and "\<And>k. count_list ks' k = count_list ks k"
  shows "acct L B ks'"
proof -
  have "set ks' = set ks" using assms(2) by (metis count_list_0_iff subsetI subset_antisym)
  with assms show ?thesis by (simp add: acct_def)
qed

lemma acct_lend:
  assumes a: "acct L B ks" and k: "L k = Some (VOwn r c)"
  shows "acct (L(k \<mapsto> VOwn r (Suc c))) B (ks @ [k])"
proof -
  have "borrows (L(k \<mapsto> VOwn r (Suc c))) = borrows L" using k by (auto simp: borrows_upd fun_eq_iff borrows_def)
  with a k show ?thesis by (auto simp: acct_def)
qed

lemma acct_return:
  assumes a: "acct L B (k # ks)"
  obtains r c where "L k = Some (VOwn r (Suc c))" and "acct (L(k \<mapsto> VOwn r c)) B ks"
proof -
  from a obtain r c where k: "L k = Some (VOwn r c)" by (auto simp: acct_def)
  with acct_ownD [OF a] have c: "c = Suc (count_list ks k)" by fastforce
  have "borrows (L(k \<mapsto> VOwn r (count_list ks k))) = borrows L"
    using k by (auto simp: borrows_upd fun_eq_iff borrows_def)
  moreover have "ca = count_list ks j" if "L j = Some (VOwn ra ca)" "j \<noteq> k" for j ra ca
    using acct_ownD [OF a that(1)] that(2) by simp
  ultimately have "acct (L(k \<mapsto> VOwn r (count_list ks k))) B ks"
    using a k unfolding acct_def by auto
  with k c show thesis by (intro that) auto
qed

lemma acct_push:
  assumes a: "acct L B ks"
  shows "acct L (B @ [0]) ks"
proof -
  have "borrows L (length B) = {}" using acct_borrowD [OF a] by (fastforce simp: borrows_def)
  moreover have "s < Suc (length B)" if "L k = Some (VBorrow r s)" for k r s
    using acct_borrowD [OF a that] by simp
  ultimately show ?thesis using a unfolding acct_def by (auto simp: nth_append less_Suc_eq)
qed

lemma acct_pop:
  assumes a: "acct L (B @ [0]) ks"
  shows "acct L B ks"
proof -
  have "card (borrows L (length B)) = 0" using a by (auto simp: acct_def nth_append)
  then have none: "borrows L (length B) = {}" using a by (simp add: acct_def finite_borrows)
  have "s < length B" if "L k = Some (VBorrow r s)" for k r s
  proof -
    have "s \<noteq> length B" using none that by (cases k) (auto simp: borrows_def)
    with acct_borrowD [OF a that] show ?thesis by simp
  qed
  with a show ?thesis unfolding acct_def by (auto simp: nth_append less_Suc_eq)
qed



section \<open>The accounts of all tables\<close>

definition rts_lookup :: "resource_tables \<Rightarrow> handle_key \<Rightarrow> vm_slot option" where
  "rts_lookup t k = Option.bind (rts_get (fst k) t) (\<lambda>x. vt_lookup x (snd k))"

definition lender_key :: "resource_tables \<Rightarrow> typed_resource_index \<Rightarrow> handle_key" where
  "lender_key t i = (case table_for_index i t of Ok loc \<Rightarrow> (loc, raw_index i) | _ \<Rightarrow> (HostLoc, raw_index i))"

definition rts_wf :: "resource_tables \<Rightarrow> bool" where
  "rts_wf t \<longleftrightarrow> (\<forall>loc x. rts_get loc t = Some x \<longrightarrow> vt_inv x)"

text \<open>
  The accounts hold when the lenders in \<open>pending\<close>, on top of those of the open
  scopes, have yet to be returned.
\<close>

definition rts_acct :: "typed_resource_index list \<Rightarrow> resource_tables \<Rightarrow> bool" where
  "rts_acct pending t \<longleftrightarrow> rts_wf t \<and>
     (\<forall>i \<in> set (pending @ concat (map cc_lenders (rts_calls t))). is_ok (table_for_index i t)) \<and>
     acct (rts_lookup t) (map cc_borrow_count (rts_calls t))
       (map (lender_key t) (pending @ concat (map cc_lenders (rts_calls t))))"

abbreviation accounts_ok :: "resource_tables \<Rightarrow> bool" where
  "accounts_ok \<equiv> rts_acct []"

lemma rts_get_put:
  assumes "rts_get loc t = Some y"
  shows "rts_get l (rts_put loc x t) = (if l = loc then Some x else rts_get l t)"
  using assms
  by (cases loc; cases l) (auto simp: vec_get_def split: option.splits prod.splits if_splits)

lemma rts_put_calls [simp]: "rts_calls (rts_put loc x t) = rts_calls t"
  by (cases loc) (auto split: option.splits prod.splits)

lemma table_for_put [simp]:
  assumes "rts_get loc t = Some y"
  shows "table_for_index i (rts_put loc x t) = table_for_index i t"
    and "table_for_resource r (rts_put loc x t) = table_for_resource r t"
  using assms
  by (cases loc; cases i; cases r;
      auto simp: host_loc_def guest_loc_def vec_get_def split: option.splits prod.splits if_splits)+

lemma rts_lookup_put:
  assumes "rts_get loc t = Some x" and "vt_lookup x' = (vt_lookup x)(i := v)"
  shows "rts_lookup (rts_put loc x' t) = (rts_lookup t)((loc, i) := v)"
  using assms by (auto simp: rts_lookup_def fun_eq_iff rts_get_put)

lemma rts_wf_put: "rts_wf t \<Longrightarrow> rts_get loc t = Some x \<Longrightarrow> vt_inv x' \<Longrightarrow> rts_wf (rts_put loc x' t)"
  by (auto simp: rts_wf_def rts_get_put split: if_splits)

lemma calls_update [simp]:
  "rts_get loc (t\<lparr>rts_calls := c\<rparr>) = rts_get loc t"
  "table_for_index i (t\<lparr>rts_calls := c\<rparr>) = table_for_index i t"
  "table_for_resource r (t\<lparr>rts_calls := c\<rparr>) = table_for_resource r t"
  "rts_lookup (t\<lparr>rts_calls := c\<rparr>) = rts_lookup t"
  "lender_key (t\<lparr>rts_calls := c\<rparr>) = lender_key t"
  "rts_wf (t\<lparr>rts_calls := c\<rparr>) = rts_wf t"
proof -
  show g: "rts_get loc (t\<lparr>rts_calls := c\<rparr>) = rts_get loc t" for loc by (cases loc) auto
  show i: "table_for_index i (t\<lparr>rts_calls := c\<rparr>) = table_for_index i t" for i
    by (cases i) (auto simp: host_loc_def guest_loc_def)
  show "table_for_resource r (t\<lparr>rts_calls := c\<rparr>) = table_for_resource r t"
    by (cases r) (auto simp: host_loc_def guest_loc_def)
  show "rts_lookup (t\<lparr>rts_calls := c\<rparr>) = rts_lookup t" by (simp add: rts_lookup_def fun_eq_iff g)
  show "lender_key (t\<lparr>rts_calls := c\<rparr>) = lender_key t" by (simp add: lender_key_def fun_eq_iff i)
  show "rts_wf (t\<lparr>rts_calls := c\<rparr>) = rts_wf t" by (simp add: rts_wf_def g)
qed

lemma lender_key_put [simp]:
  "rts_get loc t = Some y \<Longrightarrow> lender_key (rts_put loc x t) = lender_key t"
  by (simp add: lender_key_def fun_eq_iff)

lemma table_for_get:
  "table_for_index i t = Ok loc \<Longrightarrow> \<exists>x. rts_get loc t = Some x"
  "table_for_resource r t = Ok loc \<Longrightarrow> \<exists>x. rts_get loc t = Some x"
  by (cases i; auto simp: host_loc_def guest_loc_def vec_get_def split: option.splits prod.splits if_splits)
     (cases r; auto simp: host_loc_def guest_loc_def vec_get_def split: option.splits prod.splits if_splits)

text \<open>What an operation on one table does to all of them.\<close>

lemma on_table_run:
  assumes "at = Ok loc" and "rts_get loc t = Some x"
  shows "on_table at f t = (fst (f x), rts_put loc (snd (f x)) t)"
  using assms by (simp add: on_table_def split: prod.splits)

lemma on_table_OkE:
  assumes "on_table at f t = (Ok r, t')"
  obtains loc x x' where "at = Ok loc" "rts_get loc t = Some x" "f x = (Ok r, x')" "t' = rts_put loc x' t"
proof -
  from assms obtain loc where loc: "at = Ok loc" by (cases at) (auto simp: on_table_def)
  with assms obtain x where x: "rts_get loc t = Some x"
    by (cases "rts_get loc t") (auto simp: on_table_def)
  with loc assms show thesis by (cases "f x") (auto simp: on_table_def intro: that)
qed

lemma rts_acct_insert_own:
  assumes a: "rts_acct p t" and eq: "on_table at (vt_insert (VOwn r 0)) t = (Ok idx, t')"
  shows "rts_acct p t'" and "rts_calls t' = rts_calls t"
proof -
  from eq obtain loc x x' where x: "rts_get loc t = Some x" "vt_insert (VOwn r 0) x = (Ok idx, x')"
    and t': "t' = rts_put loc x' t" by (rule on_table_OkE)
  have "vt_inv x" using a x(1) by (simp add: rts_acct_def rts_wf_def)
  then have x': "vt_inv x'" "vt_lookup x idx = None" "vt_lookup x' = (vt_lookup x)(idx \<mapsto> VOwn r 0)"
    using vm_arena.insert_Ok [of x "VOwn r 0" idx x'] x(2) by (auto simp: vt_insert_live_def)
  have "rts_lookup t (loc, idx) = None" using x(1) x'(2) by (simp add: rts_lookup_def)
  then show "rts_acct p t'"
    using a x(1) x' unfolding t' rts_acct_def
    by (simp add: rts_wf_put rts_lookup_put acct_insert_own)
  show "rts_calls t' = rts_calls t" by (simp add: t')
qed


lemma on_table_removeE:
  assumes a: "rts_acct p t" and eq: "on_table (table_for_index i t) (vt_remove i) t = (Ok slot, t')"
  obtains loc where "table_for_index i t = Ok loc" "rts_lookup t (loc, raw_index i) = Some slot"
    "rts_lookup t' = (rts_lookup t)((loc, raw_index i) := None)" "rts_wf t'" "rts_calls t' = rts_calls t"
    "\<And>j. table_for_index j t' = table_for_index j t" "lender_key t' = lender_key t"
proof -
  from eq obtain loc x x' where loc: "table_for_index i t = Ok loc" and x: "rts_get loc t = Some x"
    "vt_remove i x = (Ok slot, x')" and t': "t' = rts_put loc x' t" by (rule on_table_OkE)
  have inv: "rts_wf t" "vt_inv x" using a x(1) by (auto simp: rts_acct_def rts_wf_def)
  have x': "vt_inv x'" "vt_lookup x (raw_index i) = Some slot" "vt_lookup x' = (vt_lookup x)(raw_index i := None)"
    using vt_remove_eq [OF inv(2), of i] x(2) by (auto split: option.splits)
  show thesis
    by (rule that [OF loc])
       (use x x' inv in \<open>auto simp: t' rts_lookup_def [of t] rts_lookup_put rts_wf_put\<close>)
qed

lemma typed_resource_rep_no_panic [simp]: "typed_resource_rep i r \<noteq> Panic m"
  by (cases r; cases i) auto

lemma acct_of: "rts_acct p t \<Longrightarrow> acct (rts_lookup t) (map cc_borrow_count (rts_calls t))
    (map (lender_key t) (p @ concat (map cc_lenders (rts_calls t))))"
  by (simp add: rts_acct_def)

lemma rts_acctI:
  assumes "rts_acct p t" and "rts_wf t'" and "\<And>j. table_for_index j t' = table_for_index j t"
    and "lender_key t' = lender_key t" and "map cc_lenders (rts_calls t') = map cc_lenders (rts_calls t)"
    and "acct (rts_lookup t') (map cc_borrow_count (rts_calls t'))
      (map (lender_key t) (p @ concat (map cc_lenders (rts_calls t))))"
  shows "rts_acct p t'"
proof -
  have "concat (map cc_lenders (rts_calls t')) = concat (map cc_lenders (rts_calls t))" using assms(5) by simp
  with assms show ?thesis unfolding rts_acct_def by simp
qed

lemma resource_drop_acct:
  assumes a: "rts_acct p t" and eq: "resource_drop i t = (r, t')"
  shows "\<not> panics r \<or> panics (fst (on_table (table_for_index i t) (vt_remove i) t))"
    and "is_ok r \<Longrightarrow> rts_acct p t'"
proof -
  obtain r1 t1 where rm: "on_table (table_for_index i t) (vt_remove i) t = (r1, t1)" by fastforce
  have main: "\<not> panics r \<and> (is_ok r \<longrightarrow> rts_acct p t')" if r1: "r1 = Ok slot" for slot
  proof -
    from a obtain loc where loc: "table_for_index i t = Ok loc" "rts_lookup t (loc, raw_index i) = Some slot"
      "rts_lookup t1 = (rts_lookup t)((loc, raw_index i) := None)" "rts_wf t1" "rts_calls t1 = rts_calls t"
      "\<And>j. table_for_index j t1 = table_for_index j t" "lender_key t1 = lender_key t"
      using rm r1 by (auto elim!: on_table_removeE)
    note drop = eq [unfolded resource_drop_def rm r1 and_then_simps]
    show ?thesis
    proof (cases slot)
      case (VFree n)
      with loc(2) show ?thesis by (auto simp: rts_lookup_def bind_eq_Some_conv dest: vt_lookup_live)
    next
      case (VOwn res c)
      show ?thesis
      proof (cases "c = 0")
        case True
        have "rts_acct p t1"
          using a acct_remove_own [OF acct_of [OF a], of "(loc, raw_index i)" res] loc VOwn True
          by (simp add: rts_acct_def)
        with drop VOwn True show ?thesis by (cases "typed_resource_rep i res") (auto split: typed_resource_index.splits if_splits)
      next
        case False
        with drop VOwn show ?thesis by auto
      qed
    next
      case (VBorrow res s)
      from acct_remove_borrow [OF acct_of [OF a], of "(loc, raw_index i)" res s] loc(2) VBorrow
      have s: "s < length (rts_calls t)" "0 < cc_borrow_count (rts_calls t ! s)"
        and acct1: "acct ((rts_lookup t)((loc, raw_index i) := None))
          ((map cc_borrow_count (rts_calls t))[s := map cc_borrow_count (rts_calls t) ! s - 1])
          (map (lender_key t) (p @ concat (map cc_lenders (rts_calls t))))" by auto
      define c where "c = (rts_calls t)[s := (rts_calls t ! s)\<lparr>cc_borrow_count := cc_borrow_count (rts_calls t ! s) - 1\<rparr>]"
      have dec: "calls_decr_borrow s t1 = (Ok (), t1\<lparr>rts_calls := c\<rparr>)"
        using s loc(5) by (simp add: c_def calls_decr_borrow_def vec_get_def u32_checked_sub_def)
      have maps: "map cc_borrow_count c = (map cc_borrow_count (rts_calls t))[s := map cc_borrow_count (rts_calls t) ! s - 1]"
        "map cc_lenders c = map cc_lenders (rts_calls t)"
        using s by (auto simp: c_def map_update list_update_same_conv)
      have "rts_acct p (t1\<lparr>rts_calls := c\<rparr>)"
        by (rule rts_acctI [OF a]) (use acct1 loc(3,4,6,7) maps in simp_all)
      with drop VBorrow dec show ?thesis
        by (cases "typed_resource_rep i res") auto
    qed
  qed
  show "\<not> panics r \<or> panics (fst (on_table (table_for_index i t) (vt_remove i) t))"
    using main eq rm by (cases r1) (auto simp: resource_drop_def)
  show "rts_acct p t'" if "is_ok r"
    using main eq rm that by (cases r1) (auto simp: resource_drop_def)
qed


lemma resource_lift_own_acct:
  assumes a: "rts_acct p t" and eq: "resource_lift_own i t = (Ok rep, t')"
  shows "rts_acct p t'"
proof -
  from eq obtain slot t1 where rm: "on_table (table_for_index i t) (vt_remove i) t = (Ok slot, t1)"
    unfolding resource_lift_own_def by (rule and_then_OkE)
  from a rm obtain loc where loc: "rts_lookup t (loc, raw_index i) = Some slot"
    "rts_lookup t1 = (rts_lookup t)((loc, raw_index i) := None)" "rts_wf t1" "rts_calls t1 = rts_calls t"
    "\<And>j. table_for_index j t1 = table_for_index j t" "lender_key t1 = lender_key t"
    by (auto elim!: on_table_removeE)
  from eq rm obtain res where slot: "slot = VOwn res 0" "t' = t1"
    by (auto simp: resource_lift_own_def split: vm_slot.splits if_splits)
  have "acct (rts_lookup t1) (map cc_borrow_count (rts_calls t1))
      (map (lender_key t) (p @ concat (map cc_lenders (rts_calls t))))"
    using acct_remove_own [OF acct_of [OF a], of "(loc, raw_index i)" res] loc slot by simp
  with a loc slot(2) show ?thesis by (intro rts_acctI [OF a]) simp_all
qed

lemma enter_call_acct: "rts_acct p t \<Longrightarrow> rts_acct p (enter_call t)"
  unfolding rts_acct_def enter_call_def call_context_default_def by (simp add: acct_push)

lemma calls_last: "rts_calls t \<noteq> [] \<Longrightarrow> rts_calls t = butlast (rts_calls t) @ [last (rts_calls t)]"
  by simp

text \<open>Lending an owned handle.\<close>

lemma resource_lift_borrow_acct:
  assumes a: "accounts_ok t" and eq: "resource_lift_borrow i t = (Ok rep, t')"
  shows "accounts_ok t'"
proof -
  let ?f = "\<lambda>x. and_then (vt_get i x, x) (\<lambda>slot x. case slot of
            VOwn r c \<Rightarrow>
              and_then (typed_resource_rep i r, x) (\<lambda>rep x. case u32_checked_add c 1 of
                  Some c' \<Rightarrow> (Ok (rep, True), vt_set i (VOwn r c') x)
                | None \<Rightarrow> (Panic ''unwrap on None'', x))
          | VBorrow r scope \<Rightarrow> (map_ok (\<lambda>rep. (rep, False)) (typed_resource_rep i r), x)
          | VFree n \<Rightarrow> (Panic ''unreachable'', x))"
  from eq obtain rep1 own t1 where run: "on_table (table_for_index i t) ?f t = (Ok (rep1, own), t1)"
    and k: "(if own then and_then (calls_push_lender i t1) (\<lambda>_ t. (Ok rep1, t)) else (Ok rep1, t1)) = (Ok rep, t')"
    unfolding resource_lift_borrow_def by (auto elim!: and_then_OkE)
  from run obtain loc x x' where loc: "table_for_index i t = Ok loc" and x: "rts_get loc t = Some x"
    "?f x = (Ok (rep1, own), x')" and t1: "t1 = rts_put loc x' t" by (rule on_table_OkE)
  have wf: "rts_wf t" "vt_inv x" using a x(1) by (auto simp: rts_acct_def rts_wf_def)
  from x(2) obtain slot where slot: "vt_get i x = Ok slot" by (cases "vt_get i x") auto
  show ?thesis
  proof (cases own)
    case False
    then have "x' = x" using x(2) slot
      by (cases slot) (auto simp: and_then_Ok_iff u32_checked_add_def split: if_splits)
    moreover have "rts_put loc x t = t" using x(1)
      by (cases loc) (auto simp: vec_get_def list_update_same_conv split: option.splits prod.splits if_splits)
    ultimately show ?thesis using False k t1 a by simp
  next
    case True
    then obtain r c where g: "vt_get i x = Ok (VOwn r c)" "x' = vt_set i (VOwn r (Suc c)) x"
      using x(2) slot by (cases slot) (auto simp: and_then_Ok_iff u32_checked_add_def split: if_splits)
    have l: "vt_lookup x (raw_index i) = Some (VOwn r c)"
      using g(1) by (auto simp: vt_get_eq split: option.splits)
    have x': "vt_inv x'" "vt_lookup x' = (vt_lookup x)(raw_index i \<mapsto> VOwn r (Suc c))"
      using vt_set_live [OF wf(2) l, of "VOwn r (Suc c)"] g(2) by auto
    have key: "rts_lookup t (loc, raw_index i) = Some (VOwn r c)" "lender_key t i = (loc, raw_index i)"
      using x(1) l loc by (auto simp: rts_lookup_def lender_key_def)
    from k True have ne: "rts_calls t \<noteq> []" by (auto simp: t1 calls_push_lender_def split: if_splits)
    define cs cx where "cs = butlast (rts_calls t)" and "cx = last (rts_calls t)"
    have calls: "rts_calls t = cs @ [cx]" using ne by (simp add: cs_def cx_def)
    have t': "t' = t1\<lparr>rts_calls := cs @ [cx\<lparr>cc_lenders := cc_lenders cx @ [i]\<rparr>]\<rparr>"
      using k True ne by (auto simp: t1 calls_push_lender_def cs_def cx_def Let_def)
    have "acct ((rts_lookup t)((loc, raw_index i) \<mapsto> VOwn r (Suc c))) (map cc_borrow_count (cs @ [cx]))
       (map (lender_key t) (concat (map cc_lenders (cs @ [cx]))) @ [(loc, raw_index i)])"
      using acct_lend [OF acct_of [OF a] key(1)] by (simp add: calls)
    with a x(1) x' wf loc key(2) show ?thesis
      unfolding rts_acct_def t' t1 by (simp add: rts_wf_put rts_lookup_put calls)
  qed
qed

lemma resource_lower_borrow_acct:
  assumes a: "accounts_ok t" and eq: "resource_lower_borrow r t = (Ok idx, t')"
  shows "accounts_ok t'"
proof -
  from eq have ne: "rts_calls t \<noteq> []" by (auto simp: resource_lower_borrow_def split: if_splits)
  define cs cx where "cs = butlast (rts_calls t)" and "cx = last (rts_calls t)"
  have calls: "rts_calls t = cs @ [cx]" using ne by (simp add: cs_def cx_def)
  let ?t1 = "t\<lparr>rts_calls := cs @ [cx\<lparr>cc_borrow_count := Suc (cc_borrow_count cx)\<rparr>]\<rparr>"
  from eq have "on_table (table_for_resource r ?t1) (vt_insert (VBorrow r (length cs))) ?t1 = (Ok idx, t')"
    by (auto simp: resource_lower_borrow_def calls Let_def u32_checked_add_def split: if_splits)
  then obtain loc x x' where "rts_get loc ?t1 = Some x" "vt_insert (VBorrow r (length cs)) x = (Ok idx, x')"
    and t': "t' = rts_put loc x' ?t1" by (rule on_table_OkE)
  then have x: "rts_get loc t = Some x" "vt_insert (VBorrow r (length cs)) x = (Ok idx, x')" by simp_all
  have wf: "rts_wf t" "vt_inv x" using a x(1) by (auto simp: rts_acct_def rts_wf_def)
  then have x': "vt_inv x'" "vt_lookup x idx = None" "vt_lookup x' = (vt_lookup x)(idx \<mapsto> VBorrow r (length cs))"
    using vm_arena.insert_Ok [of x "VBorrow r (length cs)" idx x'] x(2) by (auto simp: vt_insert_live_def)
  have none: "rts_lookup t (loc, idx) = None" using x(1) x'(2) by (simp add: rts_lookup_def)
  have "acct ((rts_lookup t)((loc, idx) \<mapsto> VBorrow r (length cs))) (map cc_borrow_count cs @ [Suc (cc_borrow_count cx)])
     (map (lender_key t) (concat (map cc_lenders (cs @ [cx]))))"
    using acct_insert_borrow [OF acct_of [OF a] none, of "length cs" r]
    by (simp add: calls list_update_append nth_append)
  moreover have "rts_get loc ?t1 = Some x" using x(1) by simp
  ultimately show ?thesis
    using a x'(1,3) wf rts_wf_put [of ?t1 loc x x'] rts_lookup_put [of loc ?t1 x x' idx]
    unfolding rts_acct_def t' by (simp add: calls)
qed


text \<open>Returning what the scope borrowed never fails while the accounts hold.\<close>

lemma return_lenders_acct:
  "rts_acct ls t \<Longrightarrow> \<exists>t'. return_lenders ls t = (Ok (), t') \<and> accounts_ok t' \<and> rts_calls t' = rts_calls t"
proof (induction ls arbitrary: t)
  case Nil
  then show ?case by simp
next
  case (Cons i ls)
  have "is_ok (table_for_index i t)" using Cons.prems by (simp add: rts_acct_def)
  then obtain loc where loc: "table_for_index i t = Ok loc" by (cases "table_for_index i t") auto
  with table_for_get(1) obtain x where x: "rts_get loc t = Some x" by blast
  have inv: "rts_wf t" "vt_inv x" using Cons.prems x by (auto simp: rts_acct_def rts_wf_def)
  have key: "lender_key t i = (loc, raw_index i)" using loc by (simp add: lender_key_def)
  from acct_of [OF Cons.prems] have "acct (rts_lookup t) (map cc_borrow_count (rts_calls t))
      ((loc, raw_index i) # map (lender_key t) (ls @ concat (map cc_lenders (rts_calls t))))"
    by (simp add: key)
  then obtain r c where rc: "rts_lookup t (loc, raw_index i) = Some (VOwn r (Suc c))"
    and acct': "acct ((rts_lookup t)((loc, raw_index i) \<mapsto> VOwn r c)) (map cc_borrow_count (rts_calls t))
      (map (lender_key t) (ls @ concat (map cc_lenders (rts_calls t))))" by (rule acct_return)
  from rc x have l: "vt_lookup x (raw_index i) = Some (VOwn r (Suc c))" by (simp add: rts_lookup_def)
  let ?x = "vt_set i (VOwn r c) x"
  have x': "vt_inv ?x" "vt_lookup ?x = (vt_lookup x)(raw_index i \<mapsto> VOwn r c)"
    using vt_set_live [OF inv(2) l, of "VOwn r c"] by auto
  let ?t = "rts_put loc ?x t"
  have acct1: "rts_acct ls ?t"
    using Cons.prems x x' inv acct' unfolding rts_acct_def by (simp add: rts_wf_put rts_lookup_put)
  have "return_lenders (i # ls) t = return_lenders ls ?t"
    using l by (simp add: on_table_run [OF loc x] vt_get_eq u32_checked_sub_def)
  with Cons.IH [OF acct1] show ?case by simp
qed

lemma exit_call_acct:
  assumes a: "accounts_ok t" and ne: "rts_calls t \<noteq> []"
  shows "if cc_borrow_count (last (rts_calls t)) = 0
    then \<exists>t'. exit_call t = (Ok (), t') \<and> accounts_ok t' \<and> rts_calls t' = butlast (rts_calls t)
    else \<exists>t'. exit_call t = (Err BorrowsRemain, t')"
proof (cases "cc_borrow_count (last (rts_calls t)) = 0")
  case True
  define cs cx where "cs = butlast (rts_calls t)" and "cx = last (rts_calls t)"
  have calls: "rts_calls t = cs @ [cx]" using ne by (simp add: cs_def cx_def)
  have zero: "cc_borrow_count cx = 0" using True by (simp add: cx_def)
  let ?t = "t\<lparr>rts_calls := cs\<rparr>"
  have "acct (rts_lookup t) (map cc_borrow_count cs) (map (lender_key t) (concat (map cc_lenders (cs @ [cx]))))"
    using acct_of [OF a] zero by (simp add: calls acct_pop)
  then have "acct (rts_lookup t) (map cc_borrow_count cs) (map (lender_key t) (cc_lenders cx @ concat (map cc_lenders cs)))"
    by (rule acct_perm) simp
  then have "rts_acct (cc_lenders cx) ?t"
    using a unfolding rts_acct_def by (auto simp: calls)
  from return_lenders_acct [OF this] show ?thesis
    using zero by (auto simp: exit_call_def calls Let_def)
next
  case False
  with ne show ?thesis by (simp add: exit_call_def Let_def)
qed


section \<open>Properties\<close>


definition rts_example :: resource_tables where
  "rts_example = \<lparr>rts_guest = None, rts_host = Some vt_default, rts_calls = []\<rparr>"

lemma rts_example_ok: "accounts_ok rts_example"
proof -
  have "rts_lookup rts_example k = None" for k
    by (cases k; cases "fst k") (auto simp: rts_lookup_def rts_example_def)
  then have "rts_lookup rts_example = Map.empty" by blast
  moreover have "rts_wf rts_example"
    unfolding rts_wf_def
  proof (intro allI impI)
    fix loc x assume "rts_get loc rts_example = Some x"
    then show "vt_inv x" by (cases loc) (auto simp: rts_example_def)
  qed
  ultimately show ?thesis by (simp add: rts_acct_def acct_def) (simp add: rts_example_def)
qed

lemmas handle_eval = rts_example_def enter_call_def resource_lower_own_def on_table_def host_loc_def
  vt_insert_def vt_default_def u32_checked_add_def u32_checked_sub_def u32_max_def vec_get_def
  MAX_RESOURCE_HANDLE_def Let_def resource_lift_borrow_def vt_get_def vt_slot_at_def vt_set_def
  calls_push_lender_def call_context_default_def resource_drop_def vt_remove_def exit_call_def





end
