(* ===== verification/Host_Resources.thy ===== *)
theory Host_Resources
  imports Handle_Table Host_Handle
begin

text \<open>
  The host's access to the resource tables,
  \<open>crates/wasmtime/src/runtime/component/resources.rs\<close>: indices with a
  generation that guards against reuse of a freed slot, and the conversions of
  \<open>Resource<T>\<close> and \<open>ResourceAny\<close> to and from guest handles.  Instance flags,
  destructors and resource types are opaque numbers; what the component type
  information says about a resource type is a parameter.
\<close>

section \<open>Data\<close>

datatype host_error =
    HandleErr handle_error
  | WrongGeneration
  | CannotLowerBorrow
  | AlreadyConsumed
  | MismatchedResourceTypes
  | CannotEnterComponent

record host_table_slot =
  tsl_generation :: "32 word"
  tsl_flags :: "nat option"
  tsl_dtor :: "nat option"

record host_resource_data =
  cur_generation :: "32 word"
  table_slot_metadata :: "host_table_slot list"

record host_resource_tables =
  hrt_tables :: resource_tables
  hrt_data :: host_resource_data

text \<open>An operation of the VM tables inside the host's tables.\<close>

definition in_tables ::
    "(resource_tables \<Rightarrow> (handle_error, 'r, resource_tables) result) \<Rightarrow> host_resource_tables
     \<Rightarrow> (host_error, 'r, host_resource_tables) result" where
  "in_tables f h = (case f (hrt_tables h) of (r, t) \<Rightarrow> (map_err HandleErr r, h\<lparr>hrt_tables := t\<rparr>))"

definition from_parts :: "resource_tables \<Rightarrow> host_resource_data \<Rightarrow> host_resource_tables" where
  "from_parts tables d = \<lparr>hrt_tables = tables, hrt_data = d\<rparr>"

definition new_host :: "call_context list \<Rightarrow> vm_table \<Rightarrow> host_resource_data \<Rightarrow> host_resource_tables" where
  "new_host calls host_table d =
     from_parts \<lparr>rts_guest = None, rts_host = Some host_table, rts_calls = calls\<rparr> d"


section \<open>Host-owned handles\<close>

definition validate_host_index ::
    "host_resource_index \<Rightarrow> bool \<Rightarrow> host_resource_tables
     \<Rightarrow> (host_error, nat \<times> host_table_slot option, host_resource_tables) result" where
  "validate_host_index idx is_removal h =
     (let i = unat (hri_index idx); actual = vec_get (table_slot_metadata (hrt_data h)) i in
      if (case actual of Some a \<Rightarrow> tsl_generation a \<noteq> hri_generation idx | None \<Rightarrow> False)
      then (Err WrongGeneration, h)
      else if is_removal then
        (if cur_generation (hrt_data h) = 0xffffffff then (Panic ''attempt to add with overflow'', h)
         else (Ok (i, actual),
               h\<lparr>hrt_data := (hrt_data h)\<lparr>cur_generation := cur_generation (hrt_data h) + 1\<rparr>\<rparr>))
      else (Ok (i, actual), h))"

definition new_host_index ::
    "nat \<Rightarrow> nat option \<Rightarrow> nat option \<Rightarrow> host_resource_tables
     \<Rightarrow> (host_error, host_resource_index, host_resource_tables) result" where
  "new_host_index idx dtor flags h =
     (let list = table_slot_metadata (hrt_data h);
          info = \<lparr>tsl_generation = cur_generation (hrt_data h), tsl_flags = flags, tsl_dtor = dtor\<rparr>;
          store = (\<lambda>l. h\<lparr>hrt_data := (hrt_data h)\<lparr>table_slot_metadata := l\<rparr>\<rparr>);
          ret = hri_new (of_nat idx) (tsl_generation info)
      in if idx < length list then (Ok ret, store (list[idx := info]))
         else if list = [] \<and> idx \<noteq> 1 then (Panic ''assertion failed: idx == 1'', h)
         else (let list = (if list = [] then [\<lparr>tsl_generation = 0, tsl_flags = None, tsl_dtor = None\<rparr>] else list)
               in if idx \<noteq> length list then (Panic ''assertion failed: idx == list.len()'', store list)
                  else (Ok ret, store (list @ [info]))))"

definition host_resource_lift_own ::
    "host_resource_index \<Rightarrow> host_resource_tables \<Rightarrow> (host_error, nat, host_resource_tables) result" where
  "host_resource_lift_own idx h =
     and_then (validate_host_index idx True h) (\<lambda>(i, _) h. in_tables (resource_lift_own (HostIdx i)) h)"

definition host_resource_lift_borrow ::
    "host_resource_index \<Rightarrow> host_resource_tables \<Rightarrow> (host_error, nat, host_resource_tables) result" where
  "host_resource_lift_borrow idx h =
     and_then (validate_host_index idx False h) (\<lambda>(i, _) h. in_tables (resource_lift_borrow (HostIdx i)) h)"

definition host_resource_lower_own ::
    "nat \<Rightarrow> nat option \<Rightarrow> nat option \<Rightarrow> host_resource_tables
     \<Rightarrow> (host_error, host_resource_index, host_resource_tables) result" where
  "host_resource_lower_own rep dtor flags h =
     and_then (in_tables (resource_lower_own (HostRes rep)) h) (\<lambda>idx h. new_host_index idx dtor flags h)"

definition host_resource_lower_borrow ::
    "nat \<Rightarrow> host_resource_tables \<Rightarrow> (host_error, host_resource_index, host_resource_tables) result" where
  "host_resource_lower_borrow rep h =
     and_then (in_tables (resource_lower_borrow (HostRes rep)) h) (\<lambda>idx h. new_host_index idx None None h)"

definition host_resource_drop ::
    "host_resource_index \<Rightarrow> host_resource_tables
     \<Rightarrow> (host_error, (nat \<times> host_table_slot) option, host_resource_tables) result" where
  "host_resource_drop idx h =
     and_then (validate_host_index idx True h) (\<lambda>(i, slot) h.
     and_then (in_tables (resource_drop (HostIdx i)) h) (\<lambda>r h. case r of
         Some rep \<Rightarrow> (case slot of
             Some s \<Rightarrow> (Ok (Some (rep, s)), h)
           | None \<Rightarrow> (Panic ''unwrap on None'', h))
       | None \<Rightarrow> (Ok None, h)))"


section \<open>Guest handles\<close>

definition guest_resource_lower_own ::
    "nat \<Rightarrow> nat \<Rightarrow> host_resource_tables \<Rightarrow> (host_error, nat, host_resource_tables) result" where
  "guest_resource_lower_own rep ty h = in_tables (resource_lower_own (ComponentRes rep ty)) h"

definition guest_resource_lower_borrow ::
    "nat \<Rightarrow> nat \<Rightarrow> host_resource_tables \<Rightarrow> (host_error, nat, host_resource_tables) result" where
  "guest_resource_lower_borrow rep ty h = in_tables (resource_lower_borrow (ComponentRes rep ty)) h"

definition guest_resource_lift_own ::
    "nat \<Rightarrow> nat \<Rightarrow> host_resource_tables \<Rightarrow> (host_error, nat, host_resource_tables) result" where
  "guest_resource_lift_own index ty h = in_tables (resource_lift_own (ComponentIdx index ty)) h"

definition guest_resource_lift_borrow ::
    "nat \<Rightarrow> nat \<Rightarrow> host_resource_tables \<Rightarrow> (host_error, nat, host_resource_tables) result" where
  "guest_resource_lift_borrow index ty h = in_tables (resource_lift_borrow (ComponentIdx index ty)) h"

definition host_enter_call :: "host_resource_tables \<Rightarrow> host_resource_tables" where
  "host_enter_call h = h\<lparr>hrt_tables := enter_call (hrt_tables h)\<rparr>"

definition host_exit_call :: "host_resource_tables \<Rightarrow> (host_error, unit, host_resource_tables) result" where
  "host_exit_call h = in_tables exit_call h"

text \<open>
  The lowering context: \<open>own_instance ty\<close> says whether the instance of the table
  \<open>ty\<close> implements the resource, in which case a borrow is passed as its
  representation and not tracked.
\<close>

definition cx_guest_lower_borrow ::
    "(nat \<Rightarrow> bool) \<Rightarrow> nat \<Rightarrow> nat \<Rightarrow> host_resource_tables \<Rightarrow> (host_error, nat, host_resource_tables) result" where
  "cx_guest_lower_borrow own_instance ty rep h =
     (if own_instance ty then (Ok rep, h) else guest_resource_lower_borrow rep ty h)"

text \<open>The lifting context looks up the destructor and the flags of the resource type.\<close>

definition cx_guest_lift_own ::
    "(nat \<Rightarrow> nat option \<times> nat option) \<Rightarrow> nat \<Rightarrow> nat \<Rightarrow> host_resource_tables
     \<Rightarrow> (host_error, nat \<times> nat option \<times> nat option, host_resource_tables) result" where
  "cx_guest_lift_own dtor_and_flags ty index h =
     and_then (guest_resource_lift_own index ty h) (\<lambda>rep h.
       case dtor_and_flags ty of (dtor, flags) \<Rightarrow> (Ok (rep, dtor, flags), h))"


section \<open>Typed resources\<close>

datatype iface_type = OwnTy nat | BorrowTy nat | OtherTy

definition resource_swap :: "resource_state \<Rightarrow> resource \<Rightarrow> resource_state \<times> resource" where
  "resource_swap new r = (case ars_swap new (res_state r) of (prev, a) \<Rightarrow> (prev, r\<lparr>res_state := a\<rparr>))"

text \<open>\<open>Resource<T>::lower_to_index\<close>; the resource's own state is updated in place.\<close>

definition resource_take_own ::
    "resource \<times> host_resource_tables \<Rightarrow> (host_error, nat, resource \<times> host_resource_tables) result" where
  "resource_take_own s = (case s of (r, h) \<Rightarrow> (case ars_get (res_state r) of
      Borrow \<Rightarrow> (Err CannotLowerBorrow, s)
    | NotInTable \<Rightarrow> (case resource_swap Taken r of (prev, r) \<Rightarrow>
        if prev \<noteq> NotInTable then (Panic ''assertion failed: prev == NotInTable'', (r, h))
        else (Ok (res_rep r), (r, h)))
    | Taken \<Rightarrow> (Err AlreadyConsumed, s)
    | Index idx \<Rightarrow> (case host_resource_lift_own idx h of (x, h) \<Rightarrow> (x, (r, h)))))"

definition resource_take_borrow ::
    "resource \<times> host_resource_tables \<Rightarrow> (host_error, nat, resource \<times> host_resource_tables) result" where
  "resource_take_borrow s = (case s of (r, h) \<Rightarrow> (case ars_get (res_state r) of
      Borrow \<Rightarrow> (Ok (res_rep r), s)
    | Taken \<Rightarrow> (Err AlreadyConsumed, s)
    | NotInTable \<Rightarrow> (case host_resource_lower_own (res_rep r) None None h of
          (Ok idx, h) \<Rightarrow> (case resource_swap (Index idx) r of (prev, r) \<Rightarrow>
              if prev \<noteq> NotInTable then (Panic ''assertion failed: prev == NotInTable'', (r, h))
              else (case host_resource_lift_borrow idx h of (x, h) \<Rightarrow> (x, (r, h))))
        | (Err e, h) \<Rightarrow> (Err e, (r, h))
        | (Panic p, h) \<Rightarrow> (Panic p, (r, h)))
    | Index idx \<Rightarrow> (case host_resource_lift_borrow idx h of (x, h) \<Rightarrow> (x, (r, h)))))"

definition resource_lower_to_index ::
    "(nat \<Rightarrow> bool) \<Rightarrow> iface_type \<Rightarrow> resource \<times> host_resource_tables
     \<Rightarrow> (host_error, nat, resource \<times> host_resource_tables) result" where
  "resource_lower_to_index own_instance ty s = (case ty of
      OwnTy t \<Rightarrow> and_then (resource_take_own s) (\<lambda>rep (r, h).
        case guest_resource_lower_own rep t h of (x, h) \<Rightarrow> (x, (r, h)))
    | BorrowTy t \<Rightarrow> and_then (resource_take_borrow s) (\<lambda>rep (r, h).
        case cx_guest_lower_borrow own_instance t rep h of (x, h) \<Rightarrow> (x, (r, h)))
    | OtherTy \<Rightarrow> (Panic ''bad type info'', s))"

text \<open>
  \<open>Resource<T>::lift_from_index\<close>: \<open>is_host ty\<close> says that the type of the table is
  the host type \<open>T\<close>.
\<close>

definition resource_lift_from_index ::
    "(nat \<Rightarrow> bool) \<Rightarrow> (nat \<Rightarrow> nat option \<times> nat option) \<Rightarrow> iface_type \<Rightarrow> nat \<Rightarrow> host_resource_tables
     \<Rightarrow> (host_error, resource, host_resource_tables) result" where
  "resource_lift_from_index is_host dtor_and_flags ty index h = (case ty of
      OwnTy t \<Rightarrow>
        if \<not> is_host t then (Panic ''assertion failed: resource_type'', h)
        else and_then (cx_guest_lift_own dtor_and_flags t index h) (\<lambda>(rep, dtor, flags) h.
          if dtor = None then (Panic ''assertion failed: dtor.is_some()'', h)
          else if flags \<noteq> None then (Panic ''assertion failed: flags.is_none()'', h)
          else (Ok (resource_new_own rep), h))
    | BorrowTy t \<Rightarrow>
        if \<not> is_host t then (Panic ''assertion failed: resource_type'', h)
        else and_then (guest_resource_lift_borrow index t h) (\<lambda>rep h. (Ok (resource_new_borrow rep), h))
    | OtherTy \<Rightarrow> (Panic ''bad type info'', h))"


section \<open>Untyped resources\<close>

record resource_any =
  ra_idx :: host_resource_index
  ra_ty :: nat
  ra_owned :: bool

definition resource_try_from_any ::
    "nat \<Rightarrow> resource_any \<Rightarrow> host_resource_tables \<Rightarrow> (host_error, resource, host_resource_tables) result" where
  "resource_try_from_any host_ty ra h =
     (if ra_ty ra \<noteq> host_ty then (Err MismatchedResourceTypes, h)
      else if ra_owned ra then
        and_then (host_resource_lift_own (ra_idx ra) h) (\<lambda>rep h. (Ok (resource_new_own rep), h))
      else
        and_then (host_resource_lift_borrow (ra_idx ra) h) (\<lambda>rep h.
        and_then (host_resource_drop (ra_idx ra) h) (\<lambda>res h.
          if res \<noteq> None then (Panic ''assertion failed: res.is_none()'', h)
          else (Ok (resource_new_borrow rep), h))))"

definition any_try_from_resource ::
    "nat \<Rightarrow> resource \<Rightarrow> host_resource_tables \<Rightarrow> (host_error, resource_any, host_resource_tables) result" where
  "any_try_from_resource host_ty r h =
     and_then (case ars_get (res_state r) of
         Borrow \<Rightarrow> and_then (host_resource_lower_borrow (res_rep r) h) (\<lambda>idx h. (Ok (idx, False), h))
       | NotInTable \<Rightarrow> and_then (host_resource_lower_own (res_rep r) None None h) (\<lambda>idx h. (Ok (idx, True), h))
       | Taken \<Rightarrow> (Err AlreadyConsumed, h)
       | Index idx \<Rightarrow> (Ok (idx, True), h))
     (\<lambda>(idx, owned) h. (Ok \<lparr>ra_idx = idx, ra_ty = host_ty, ra_owned = owned\<rparr>, h))"

text \<open>
  \<open>resource_drop_impl\<close>: \<open>may_enter\<close> reads the instance flags; the result is the
  destructor to call and the representation to pass to it, if there is one.
\<close>

definition any_resource_drop_impl ::
    "(nat \<Rightarrow> bool) \<Rightarrow> resource_any \<Rightarrow> host_resource_tables
     \<Rightarrow> (host_error, (nat \<times> nat) option, host_resource_tables) result" where
  "any_resource_drop_impl may_enter ra h =
     and_then (host_resource_drop (ra_idx ra) h) (\<lambda>pair h. case (pair, ra_owned ra) of
         (Some (rep, slot), True) \<Rightarrow>
           if (case tsl_flags slot of Some f \<Rightarrow> \<not> may_enter f | None \<Rightarrow> False)
           then (Err CannotEnterComponent, h)
           else (Ok (map_option (\<lambda>dtor. (dtor, rep)) (tsl_dtor slot)), h)
       | (None, False) \<Rightarrow> (Ok None, h)
       | _ \<Rightarrow> (Panic ''unreachable'', h))"

definition any_lower_to_index ::
    "(nat \<Rightarrow> nat) \<Rightarrow> (nat \<Rightarrow> bool) \<Rightarrow> iface_type \<Rightarrow> resource_any \<Rightarrow> host_resource_tables
     \<Rightarrow> (host_error, nat, host_resource_tables) result" where
  "any_lower_to_index resource_type own_instance ty ra h = (case ty of
      OwnTy t \<Rightarrow>
        if resource_type t \<noteq> ra_ty ra then (Err MismatchedResourceTypes, h)
        else and_then (host_resource_lift_own (ra_idx ra) h) (\<lambda>rep h. guest_resource_lower_own rep t h)
    | BorrowTy t \<Rightarrow>
        if resource_type t \<noteq> ra_ty ra then (Err MismatchedResourceTypes, h)
        else and_then (host_resource_lift_borrow (ra_idx ra) h) (\<lambda>rep h. cx_guest_lower_borrow own_instance t rep h)
    | OtherTy \<Rightarrow> (Panic ''bad type info'', h))"

definition any_lift_from_index ::
    "(nat \<Rightarrow> nat) \<Rightarrow> (nat \<Rightarrow> nat option \<times> nat option) \<Rightarrow> iface_type \<Rightarrow> nat \<Rightarrow> host_resource_tables
     \<Rightarrow> (host_error, resource_any, host_resource_tables) result" where
  "any_lift_from_index resource_type dtor_and_flags ty index h = (case ty of
      OwnTy t \<Rightarrow>
        and_then (cx_guest_lift_own dtor_and_flags t index h) (\<lambda>(rep, dtor, flags) h.
        and_then (host_resource_lower_own rep dtor flags h) (\<lambda>idx h.
          (Ok \<lparr>ra_idx = idx, ra_ty = resource_type t, ra_owned = True\<rparr>, h)))
    | BorrowTy t \<Rightarrow>
        and_then (guest_resource_lift_borrow index t h) (\<lambda>rep h.
        and_then (host_resource_lower_borrow rep h) (\<lambda>idx h.
          (Ok \<lparr>ra_idx = idx, ra_ty = resource_type t, ra_owned = False\<rparr>, h)))
    | OtherTy \<Rightarrow> (Panic ''bad type info'', h))"



section \<open>The host table under the operations\<close>

lemma vt_insert_length:
  assumes inv: "vt_inv t" and eq: "vt_insert new t = (Ok idx, t')"
  shows "idx \<le> Suc (length (vt_slots t)) \<and> length (vt_slots t') = max (length (vt_slots t)) idx"
proof (cases "vt_next t = length (vt_slots t)")
  case True
  then have len: "length (vt_slots t) < MAX_RESOURCE_HANDLE" using inv by (simp add: vt_inv_def)
  from eq True len MAX_RESOURCE_HANDLE_lt
  have "idx = Suc (length (vt_slots t))" "vt_slots t' = vt_slots t @ [new]"
    by (auto simp: vt_insert_def u32_checked_add_def vec_get_def Let_def split: if_splits)
  then show ?thesis by simp
next
  case False
  from inv have "tail_list_ok vt_link_of (vt_slots t) (vt_next t)" by (simp add: vt_inv_def)
  then obtain n where k: "vt_next t < length (vt_slots t)" "vt_link_of (vt_slots t ! vt_next t) = Some n"
    using False by (rule tail_list_pop)
  then have ent: "vt_slots t ! vt_next t = VFree n" by (cases "vt_slots t ! vt_next t") auto
  from eq False k(1) ent have "idx = Suc (vt_next t)" "vt_slots t' = (vt_slots t)[vt_next t := new]"
    by (auto simp: vt_insert_def u32_checked_add_def vec_get_def Let_def split: if_splits)
  then show ?thesis using k(1) by simp
qed

text \<open>Same live handles, same number of slots.\<close>

definition same_handles :: "vm_table \<Rightarrow> vm_table \<Rightarrow> bool" where
  "same_handles x x' \<longleftrightarrow> vt_inv x' \<and> dom (vt_lookup x') = dom (vt_lookup x) \<and>
     length (vt_slots x') = length (vt_slots x)"

lemma same_handles_refl: "vt_inv x \<Longrightarrow> same_handles x x"
  by (simp add: same_handles_def)

lemma same_handles_trans: "same_handles x y \<Longrightarrow> same_handles y z \<Longrightarrow> same_handles x z"
  by (simp add: same_handles_def)

lemma same_handles_set:
  assumes "vt_inv x" and "vt_lookup x (raw_index i) = Some old" and "vt_link_of new = None"
  shows "same_handles x (vt_set i new x)"
  using vt_set_live [OF assms] assms(2) by (auto simp: same_handles_def vt_set_def)

lemma on_host:
  assumes "rts_host t = Some x"
  shows "on_table (host_loc t) f t = (fst (f x), t\<lparr>rts_host := Some (snd (f x))\<rparr>)"
  using assms by (simp add: on_table_def host_loc_def split: prod.splits)

lemma guest_loc_not_host [simp]: "guest_loc ty t \<noteq> Ok HostLoc"
  by (auto simp: guest_loc_def split: option.splits prod.splits if_splits)

lemma on_guest_host:
  assumes "at \<noteq> Ok HostLoc"
  shows "rts_host (snd (on_table at f t)) = rts_host t"
proof (cases at)
  case (Ok loc)
  with assms have "rts_host (rts_put loc x t) = rts_host t" for x
    by (cases loc) (auto split: option.splits prod.splits)
  with Ok show ?thesis by (auto simp: on_table_def split: option.splits prod.splits)
qed (simp_all add: on_table_def)

lemma and_then_host:
  assumes "rts_host (snd m) = h" and "\<And>x s. m = (Ok x, s) \<Longrightarrow> rts_host (snd (k x s)) = rts_host s"
  shows "rts_host (snd (and_then m k)) = h"
  using assms by (auto simp: and_then_def split: prod.splits outcome.splits)

lemma calls_push_lender_host: "rts_host (snd (calls_push_lender i t)) = rts_host t"
  by (simp add: calls_push_lender_def Let_def)

lemma guest_lower_own_host: "rts_host (snd (resource_lower_own (ComponentRes rep ty) t)) = rts_host t"
  by (simp add: resource_lower_own_def on_guest_host)

lemma guest_lower_borrow_host: "rts_host (snd (resource_lower_borrow (ComponentRes rep ty) t)) = rts_host t"
  by (simp add: resource_lower_borrow_def Let_def on_guest_host del: calls_update split: option.split)

lemma guest_lift_own_host: "rts_host (snd (resource_lift_own (ComponentIdx i ty) t)) = rts_host t"
  unfolding resource_lift_own_def
  by (rule and_then_host) (simp add: on_guest_host, simp split: vm_slot.split)

lemma guest_lift_borrow_host: "rts_host (snd (resource_lift_borrow (ComponentIdx i ty) t)) = rts_host t"
  unfolding resource_lift_borrow_def
proof (rule and_then_host)
  fix y :: "nat \<times> bool" and s
  show "rts_host (snd ((case y of (rep, owned) \<Rightarrow> \<lambda>t.
      if owned then and_then (calls_push_lender (ComponentIdx i ty) t) (\<lambda>_ t. (Ok rep, t)) else (Ok rep, t)) s)) = rts_host s"
    by (cases y) (auto intro!: and_then_host simp: calls_push_lender_host)
qed (simp add: on_guest_host)

lemmas guest_ops_host = guest_lower_own_host guest_lower_borrow_host guest_lift_own_host guest_lift_borrow_host

text \<open>What the host's own operations do to the host table.\<close>

lemma host_lower_own:
  assumes "rts_host t = Some x" and "vt_inv x" and "resource_lower_own (HostRes rep) t = (Ok idx, t')"
  shows "\<exists>x'. rts_host t' = Some x' \<and> vt_inv x' \<and> idx \<notin> dom (vt_lookup x) \<and> 0 < idx \<and> idx < MAX_RESOURCE_HANDLE \<and>
     dom (vt_lookup x') = insert idx (dom (vt_lookup x)) \<and> idx \<le> Suc (length (vt_slots x)) \<and>
     length (vt_slots x') = max (length (vt_slots x)) idx"
proof -
  let ?v = "VOwn (HostRes rep) 0"
  from assms(1,3) obtain x' where ins: "vt_insert ?v x = (Ok idx, x')" and t': "rts_host t' = Some x'"
    by (cases "vt_insert ?v x") (auto simp: resource_lower_own_def on_host)
  from assms(2) show ?thesis
    by (cases rule: vt_insert_cases [where new = ?v])
       (use ins t' vt_insert_length [OF assms(2) ins] in auto)
qed

lemma host_lower_borrow:
  assumes "rts_host t = Some x" and "vt_inv x" and "resource_lower_borrow (HostRes rep) t = (Ok idx, t')"
  shows "\<exists>x'. rts_host t' = Some x' \<and> vt_inv x' \<and> idx \<notin> dom (vt_lookup x) \<and> 0 < idx \<and> idx < MAX_RESOURCE_HANDLE \<and>
     dom (vt_lookup x') = insert idx (dom (vt_lookup x)) \<and> idx \<le> Suc (length (vt_slots x)) \<and>
     length (vt_slots x') = max (length (vt_slots x)) idx"
proof -
  let ?v = "VBorrow (HostRes rep) (length (rts_calls t) - 1)"
  from assms(1,3) obtain x' where ins: "vt_insert ?v x = (Ok idx, x')" and t': "rts_host t' = Some x'"
    by (cases "vt_insert ?v x")
       (auto simp: resource_lower_borrow_def on_table_def host_loc_def Let_def u32_checked_add_def split: if_splits)
  from assms(2) show ?thesis
    by (cases rule: vt_insert_cases [where new = ?v])
       (use ins t' vt_insert_length [OF assms(2) ins] in auto)
qed


definition handle_removed :: "nat \<Rightarrow> vm_table \<Rightarrow> vm_table \<Rightarrow> bool" where
  "handle_removed i x x' \<longleftrightarrow> vt_inv x' \<and> dom (vt_lookup x') = dom (vt_lookup x) - {i} \<and>
     length (vt_slots x') = length (vt_slots x)"

lemma vt_remove_removed:
  assumes "vt_inv x" and "vt_remove i x = (r, x')"
  shows "handle_removed (raw_index i) x x'" and "is_ok r \<longleftrightarrow> raw_index i \<in> dom (vt_lookup x)" and "\<not> panics r"
proof -
  have len: "length (vt_slots x') = length (vt_slots x)"
    using assms(2) by (auto simp: vt_remove_def vt_set_def and_then_def split: outcome.splits)
  show "handle_removed (raw_index i) x x'" "is_ok r \<longleftrightarrow> raw_index i \<in> dom (vt_lookup x)" "\<not> panics r"
    using vt_remove_eq [OF assms(1), of i] assms len
    by (auto simp: handle_removed_def domIff split: option.splits)
qed

lemma host_lift_own:
  assumes x: "rts_host t = Some x" "vt_inv x" and eq: "resource_lift_own (HostIdx i) t = (r, t')"
  shows "\<exists>x'. rts_host t' = Some x' \<and> handle_removed i x x' \<and> (is_ok r \<longrightarrow> i \<in> dom (vt_lookup x))"
proof -
  obtain r1 x1 where rm: "vt_remove (HostIdx i) x = (r1, x1)" by fastforce
  have "rts_host t' = Some x1 \<and> (is_ok r \<longrightarrow> is_ok r1)"
    using eq x rm
    by (cases r1) (auto simp: resource_lift_own_def on_host split: vm_slot.splits if_splits)
  with vt_remove_removed [OF x(2) rm] show ?thesis by simp
qed

lemma calls_decr_borrow_host: "rts_host (snd (calls_decr_borrow s t)) = rts_host t"
  by (simp add: calls_decr_borrow_def split: option.split)

lemma host_drop:
  assumes x: "rts_host t = Some x" "vt_inv x" and eq: "resource_drop (HostIdx i) t = (r, t')"
  shows "\<exists>x'. rts_host t' = Some x' \<and> handle_removed i x x' \<and> (is_ok r \<longrightarrow> i \<in> dom (vt_lookup x))"
proof -
  obtain r1 x1 where rm: "vt_remove (HostIdx i) x = (r1, x1)" by fastforce
  let ?t = "t\<lparr>rts_host := Some x1\<rparr>"
  have run: "on_table (table_for_index (HostIdx i) t) (vt_remove (HostIdx i)) t = (r1, ?t)"
    using x rm by (simp add: on_host)
  have "rts_host t' = Some x1 \<and> (is_ok r \<longrightarrow> is_ok r1)"
  proof (cases r1)
    case (Ok slot)
    have "rts_host (snd (resource_drop (HostIdx i) t)) = Some x1"
      unfolding resource_drop_def run Ok
      by (cases slot) (auto intro!: and_then_host simp: calls_decr_borrow_host)
    with eq Ok show ?thesis by simp
  qed (use eq run in \<open>auto simp: resource_drop_def\<close>)
  with vt_remove_removed [OF x(2) rm] show ?thesis by simp
qed

lemma host_lift_borrow:
  assumes x: "rts_host t = Some x" "vt_inv x" and eq: "resource_lift_borrow (HostIdx i) t = (r, t')"
  shows "\<exists>x'. rts_host t' = Some x' \<and> same_handles x x' \<and> (is_ok r \<longrightarrow> i \<in> dom (vt_lookup x))"
proof -
  let ?f = "\<lambda>x. and_then (vt_get (HostIdx i) x, x) (\<lambda>slot x. case slot of
            VOwn r c \<Rightarrow>
              and_then (typed_resource_rep (HostIdx i) r, x) (\<lambda>rep x. case u32_checked_add c 1 of
                  Some c' \<Rightarrow> (Ok (rep, True), vt_set (HostIdx i) (VOwn r c') x)
                | None \<Rightarrow> (Panic ''unwrap on None'', x))
          | VBorrow r scope \<Rightarrow> (map_ok (\<lambda>rep. (rep, False)) (typed_resource_rep (HostIdx i) r), x)
          | VFree n \<Rightarrow> (Panic ''unreachable'', x))"
  let ?k = "\<lambda>(rep, owned) t. if owned then and_then (calls_push_lender (HostIdx i) t) (\<lambda>_ t. (Ok rep, t)) else (Ok rep, t)"
  have run: "(r, t') = and_then (fst (?f x), t\<lparr>rts_host := Some (snd (?f x))\<rparr>) ?k"
    using eq x by (simp add: resource_lift_borrow_def on_host)
  have keep: "rts_host (snd (?k y s)) = rts_host s" for y :: "nat \<times> bool" and s
    by (cases y) (auto intro!: and_then_host simp: calls_push_lender_host)
  have "rts_host (snd (and_then (fst (?f x), t\<lparr>rts_host := Some (snd (?f x))\<rparr>) ?k)) = Some (snd (?f x))"
    by (rule and_then_host) (simp_all add: keep del: split_paired_All)
  then have t': "rts_host t' = Some (snd (?f x))" by (simp add: run [symmetric])
  show ?thesis
  proof (cases "vt_lookup x i")
    case None
    with run x show ?thesis unfolding t' by (auto simp: vt_get_eq same_handles_refl)
  next
    case (Some old)
    have "same_handles x (snd (?f x))"
    proof (cases old)
      case (VOwn res c)
      show ?thesis
      proof (cases "typed_resource_rep (HostIdx i) res")
        case (Ok rep)
        with Some VOwn x(2) show ?thesis
          using same_handles_set [of x "HostIdx i" old "VOwn res (Suc c)"]
          by (auto simp: vt_get_eq u32_checked_add_def same_handles_refl)
      qed (use Some VOwn x(2) in \<open>simp_all add: vt_get_eq same_handles_refl\<close>)
    qed (use Some x(2) in \<open>simp_all add: vt_get_eq same_handles_refl\<close>)
    with t' Some show ?thesis by auto
  qed
qed

lemma return_lenders_host:
  "rts_host t = Some x \<Longrightarrow> vt_inv x \<Longrightarrow>
   \<exists>x'. rts_host (snd (return_lenders ls t)) = Some x' \<and> same_handles x x'"
proof (induction ls arbitrary: t x)
  case Nil
  then show ?case by (simp add: same_handles_refl)
next
  case (Cons i ls)
  let ?f = "(\<lambda>x. case vt_get i x of
         Ok (VOwn r c) \<Rightarrow> (case u32_checked_sub c 1 of
             Some c' \<Rightarrow> (Ok (), vt_set i (VOwn r c') x)
           | None \<Rightarrow> (Panic ''attempt to subtract with overflow'', x))
       | Ok _ \<Rightarrow> (Panic ''unreachable'', x)
       | _ \<Rightarrow> (Panic ''unwrap on Err'', x)) :: vm_table \<Rightarrow> (handle_error, unit, vm_table) result"
  have f: "same_handles x (snd (?f x))"
  proof (cases "vt_lookup x (raw_index i)")
    case (Some old)
    then show ?thesis using same_handles_set [OF Cons.prems(2) Some] Cons.prems(2)
      by (cases old) (auto simp: vt_get_eq same_handles_refl u32_checked_sub_def)
  qed (simp add: vt_get_eq same_handles_refl Cons.prems(2))
  obtain r1 t1 where run: "on_table (table_for_index i t) ?f t = (r1, t1)" by fastforce
  have "\<exists>x1. rts_host t1 = Some x1 \<and> same_handles x x1"
  proof (cases i)
    case (HostIdx j)
    with run Cons.prems(1) have "rts_host t1 = Some (snd (?f x))" by (auto simp: on_host)
    with f show ?thesis by simp
  next
    case (ComponentIdx j ty)
    with run have "rts_host t1 = rts_host t"
      using on_guest_host [of "guest_loc ty t" ?f t] by simp
    with Cons.prems show ?thesis by (simp add: same_handles_refl)
  qed
  then obtain x1 where x1: "rts_host t1 = Some x1" "same_handles x x1" by blast
  show ?case
  proof (cases r1)
    case (Ok u)
    from Cons.IH [OF x1(1)] x1(2) obtain x' where "rts_host (snd (return_lenders ls t1)) = Some x'" "same_handles x1 x'"
      by (auto simp: same_handles_def)
    with run Ok x1(2) show ?thesis by (auto intro: same_handles_trans)
  qed (use run x1 in auto)
qed

lemma host_exit:
  assumes "rts_host t = Some x" "vt_inv x"
  shows "\<exists>x'. rts_host (snd (exit_call t)) = Some x' \<and> same_handles x x'"
  using return_lenders_host [of "t\<lparr>rts_calls := butlast (rts_calls t)\<rparr>" x] assms
  by (auto simp: exit_call_def Let_def same_handles_refl)



section \<open>Generations\<close>

lemma word32_less_Suc: "x \<noteq> 0xffffffff \<Longrightarrow> (x :: 32 word) < x + 1"
proof -
  assume x: "x \<noteq> 0xffffffff"
  have "uint x \<noteq> 0xffffffff" using x by (metis word_of_int_uint word_of_int_numeral)
  moreover have "uint x < 2 ^ 32" using uint_lt2p [of x] by simp
  ultimately have "uint x + 1 < 2 ^ 32" by simp
  then have "uint (x + 1) = uint x + 1" by (simp add: uint_word_ariths)
  then show ?thesis by (simp add: word_less_def)
qed

abbreviation h_table :: "host_resource_tables \<Rightarrow> vm_table option" where
  "h_table h \<equiv> rts_host (hrt_tables h)"

abbreviation h_meta :: "host_resource_tables \<Rightarrow> host_table_slot list" where
  "h_meta h \<equiv> table_slot_metadata (hrt_data h)"

abbreviation h_gen :: "host_resource_tables \<Rightarrow> 32 word" where
  "h_gen h \<equiv> cur_generation (hrt_data h)"

text \<open>
  The host table is well formed, the list of generations runs parallel to it, and
  no recorded generation is ahead of the current one.
\<close>

definition meta_ok :: "vm_table \<Rightarrow> host_resource_data \<Rightarrow> bool" where
  "meta_ok x d \<longleftrightarrow> (\<forall>m \<in> set (table_slot_metadata d). tsl_generation m \<le> cur_generation d) \<and>
     (if vt_slots x = [] then table_slot_metadata d = []
      else length (table_slot_metadata d) = Suc (length (vt_slots x)))"

definition host_inv :: "host_resource_tables \<Rightarrow> bool" where
  "host_inv h \<longleftrightarrow> (\<exists>x. h_table h = Some x \<and> vt_inv x \<and> meta_ok x (hrt_data h))"

definition host_live :: "host_resource_tables \<Rightarrow> nat \<Rightarrow> bool" where
  "host_live h i \<longleftrightarrow> (\<exists>x. h_table h = Some x \<and> i \<in> dom (vt_lookup x))"

text \<open>An index is stale when its generation is over and no live slot carries it.\<close>

definition stale :: "host_resource_index \<Rightarrow> host_resource_tables \<Rightarrow> bool" where
  "stale idx h \<longleftrightarrow> hri_generation idx < h_gen h \<and>
     (host_live h (unat (hri_index idx)) \<longrightarrow>
       (\<exists>m. vec_get (h_meta h) (unat (hri_index idx)) = Some m \<and> tsl_generation m \<noteq> hri_generation idx))"

inductive host_step :: "host_resource_tables \<Rightarrow> host_resource_tables \<Rightarrow> bool" where
  hs_lower_own: "host_resource_lower_own rep dtor flags h = (Ok idx, h') \<Longrightarrow> host_step h h'"
| hs_lower_borrow: "host_resource_lower_borrow rep h = (Ok idx, h') \<Longrightarrow> host_step h h'"
| hs_lift_own: "host_resource_lift_own idx h = (r, h') \<Longrightarrow> \<not> panics r \<Longrightarrow> host_step h h'"
| hs_lift_borrow: "host_resource_lift_borrow idx h = (r, h') \<Longrightarrow> \<not> panics r \<Longrightarrow> host_step h h'"
| hs_drop: "host_resource_drop idx h = (r, h') \<Longrightarrow> \<not> panics r \<Longrightarrow> host_step h h'"
| hs_guest_lower_own: "guest_resource_lower_own rep ty h = (r, h') \<Longrightarrow> host_step h h'"
| hs_guest_lower_borrow: "guest_resource_lower_borrow rep ty h = (r, h') \<Longrightarrow> host_step h h'"
| hs_guest_lift_own: "guest_resource_lift_own index ty h = (r, h') \<Longrightarrow> host_step h h'"
| hs_guest_lift_borrow: "guest_resource_lift_borrow index ty h = (r, h') \<Longrightarrow> host_step h h'"
| hs_enter: "host_step h (host_enter_call h)"
| hs_exit: "host_exit_call h = (r, h') \<Longrightarrow> \<not> panics r \<Longrightarrow> host_step h h'"

text \<open>Three ways in which the host's state moves.\<close>

lemma keeps_same:
  assumes inv: "host_inv h" and x: "h_table h = Some x" "h_table h' = Some x'" "same_handles x x'"
    and d: "hrt_data h' = hrt_data h"
  shows "host_inv h'" and "stale idx h \<Longrightarrow> stale idx h'"
proof -
  have "(vt_slots x' = []) = (vt_slots x = [])" "length (vt_slots x') = length (vt_slots x)"
    using x(3) by (auto simp: same_handles_def)
  then show "host_inv h'"
    using inv x d by (simp add: host_inv_def same_handles_def meta_ok_def)
  show "stale idx h \<Longrightarrow> stale idx h'"
    using x d by (simp add: stale_def host_live_def same_handles_def)
qed

lemma keeps_removed:
  assumes inv: "host_inv h" and x: "h_table h = Some x" "h_table h' = Some x'" "handle_removed i x x'"
    and d: "hrt_data h' = (hrt_data h)\<lparr>cur_generation := h_gen h + 1\<rparr>" and gen: "h_gen h \<noteq> 0xffffffff"
  shows "host_inv h'" and "stale idx h \<Longrightarrow> stale idx h'"
proof -
  have lt: "h_gen h < h_gen h + 1" using gen by (rule word32_less_Suc)
  have "(vt_slots x' = []) = (vt_slots x = [])" "length (vt_slots x') = length (vt_slots x)"
    using x(3) by (auto simp: handle_removed_def)
  then show "host_inv h'"
    using inv x d lt by (auto simp: host_inv_def handle_removed_def meta_ok_def)
  show "stale idx h \<Longrightarrow> stale idx h'"
    using x d lt by (auto simp: stale_def host_live_def handle_removed_def)
qed

lemma keeps_inserted:
  assumes inv: "host_inv h" and x: "h_table h = Some x" "h_table h1 = Some x'" "vt_inv x'"
      "dom (vt_lookup x') = insert i (dom (vt_lookup x))" "i \<le> Suc (length (vt_slots x))" "0 < i"
      "length (vt_slots x') = max (length (vt_slots x)) i"
    and d: "hrt_data h1 = hrt_data h"
  shows "\<exists>h'. new_host_index i dtor flags h1 = (Ok (hri_new (of_nat i) (h_gen h)), h') \<and> host_inv h' \<and>
     hrt_tables h' = hrt_tables h1 \<and> (stale idx h \<longrightarrow> stale idx h')"
proof -
  let ?info = "\<lparr>tsl_generation = h_gen h, tsl_flags = flags, tsl_dtor = dtor\<rparr>"
  let ?zero = "\<lparr>tsl_generation = 0, tsl_flags = None, tsl_dtor = None\<rparr> :: host_table_slot"
  let ?l = "if i < length (h_meta h) then (h_meta h)[i := ?info]
     else (if h_meta h = [] then [?zero] else h_meta h) @ [?info]"
  let ?h = "h1\<lparr>hrt_data := (hrt_data h)\<lparr>table_slot_metadata := ?l\<rparr>\<rparr>"
  have shape: "if vt_slots x = [] then h_meta h = [] else length (h_meta h) = Suc (length (vt_slots x))"
    and gens: "\<forall>m \<in> set (h_meta h). tsl_generation m \<le> h_gen h"
    using inv x(1) by (auto simp: host_inv_def meta_ok_def)
  have i: "i < length (h_meta h) \<or> i = length (if h_meta h = [] then [?zero] else h_meta h)"
    using shape x(5,6) by (auto split: if_splits)
  then have run: "new_host_index i dtor flags h1 = (Ok (hri_new (of_nat i) (h_gen h)), ?h)"
    using d by (auto simp: new_host_index_def Let_def split: if_splits)
  have "vt_slots x' \<noteq> []" "length ?l = Suc (length (vt_slots x'))"
    using shape i x(5,6,7) by (auto split: if_splits)
  moreover have "\<forall>m \<in> set ?l. tsl_generation m \<le> h_gen h"
    using gens set_update_subset_insert [of "h_meta h" i ?info] by auto
  ultimately have "host_inv ?h" using x(2,3) by (simp add: host_inv_def meta_ok_def)
  moreover have "stale idx ?h" if st: "stale idx h"
  proof -
    let ?j = "unat (hri_index idx)"
    have "\<exists>m. vec_get ?l ?j = Some m \<and> tsl_generation m \<noteq> hri_generation idx" if "?j \<in> dom (vt_lookup x')"
    proof (cases "?j = i")
      case True
      with i st show ?thesis by (auto simp: vec_get_def nth_append stale_def split: if_splits)
    next
      case False
      with that x(1,4) have "host_live h ?j" by (simp add: host_live_def)
      with st obtain m where "vec_get (h_meta h) ?j = Some m" "tsl_generation m \<noteq> hri_generation idx"
        by (auto simp: stale_def)
      with False show ?thesis by (auto simp: vec_get_def nth_append split: if_splits)
    qed
    with st x(2) show ?thesis by (simp add: stale_def host_live_def)
  qed
  ultimately show ?thesis using run by auto
qed


lemma validate_cases:
  assumes "validate_host_index idx rm h = (r, h')"
  obtains (wrong) "r = Err WrongGeneration" "h' = h"
      "\<exists>m. vec_get (h_meta h) (unat (hri_index idx)) = Some m \<and> tsl_generation m \<noteq> hri_generation idx"
    | (overflow) "panics r" "h' = h"
    | (valid) "r = Ok (unat (hri_index idx), vec_get (h_meta h) (unat (hri_index idx)))"
        "\<And>m. vec_get (h_meta h) (unat (hri_index idx)) = Some m \<Longrightarrow> tsl_generation m = hri_generation idx"
        "if rm then h_gen h \<noteq> 0xffffffff \<and> h' = h\<lparr>hrt_data := (hrt_data h)\<lparr>cur_generation := h_gen h + 1\<rparr>\<rparr> else h' = h"
  using assms
  by (auto simp: validate_host_index_def Let_def split: option.splits if_splits
      intro: wrong overflow valid)

lemma in_tables_run:
  "f (hrt_tables h) = (r, t) \<Longrightarrow> in_tables f h = (map_err HandleErr r, h\<lparr>hrt_tables := t\<rparr>)"
  by (simp add: in_tables_def)

lemma is_ok_map_err [simp]: "is_ok (map_err f r) = is_ok r"
  by (cases r) auto

text \<open>The two removals: what is removed is stale afterwards.\<close>

definition removes :: "(nat \<Rightarrow> resource_tables \<Rightarrow> (handle_error, 'r, resource_tables) result) \<Rightarrow> bool" where
  "removes f \<longleftrightarrow> (\<forall>i t x r t'. rts_host t = Some x \<longrightarrow> vt_inv x \<longrightarrow> f i t = (r, t') \<longrightarrow>
     (\<exists>x'. rts_host t' = Some x' \<and> handle_removed i x x' \<and> (is_ok r \<longrightarrow> i \<in> dom (vt_lookup x))))"

lemma removes_ops: "removes (\<lambda>i. resource_lift_own (HostIdx i))" "removes (\<lambda>i. resource_drop (HostIdx i))"
  unfolding removes_def using host_lift_own host_drop by blast+

lemma removal_stale:
  assumes f: "removes f" and inv: "host_inv h"
    and eq: "and_then (validate_host_index idx True h) (\<lambda>(i, _) h. in_tables (f i) h) = (r, h')" and np: "\<not> panics r"
  shows "host_inv h'" and "stale i h \<Longrightarrow> stale i h'" and "is_ok r \<Longrightarrow> stale idx h'"
    and "is_ok r \<Longrightarrow> \<not> stale idx h"
proof -
  obtain v h1 where val: "validate_host_index idx True h = (v, h1)" by fastforce
  let ?i = "unat (hri_index idx)"
  have "host_inv h' \<and> (stale i h \<longrightarrow> stale i h') \<and> (is_ok r \<longrightarrow> stale idx h' \<and> \<not> stale idx h)"
    using val
  proof (cases rule: validate_cases)
    case wrong
    with val eq inv show ?thesis by auto
  next
    case overflow
    with val eq np show ?thesis by (cases v) auto
  next
    case valid
    obtain r1 t1 where lift: "f ?i (hrt_tables h1) = (r1, t1)" by fastforce
    with val eq valid have r: "r = map_err HandleErr r1" "h' = h1\<lparr>hrt_tables := t1\<rparr>"
      by (auto simp: in_tables_def)
    have h1: "h1 = h\<lparr>hrt_data := (hrt_data h)\<lparr>cur_generation := h_gen h + 1\<rparr>\<rparr>" and gen: "h_gen h \<noteq> 0xffffffff"
      using valid by auto
    from inv obtain x where x: "h_table h = Some x" "vt_inv x" "meta_ok x (hrt_data h)" by (auto simp: host_inv_def)
    have "rts_host (hrt_tables h1) = Some x" using x(1) h1 by simp
    with f x(2) lift obtain x' where "rts_host t1 = Some x'" and
      removed: "handle_removed ?i x x'" "is_ok r1 \<longrightarrow> ?i \<in> dom (vt_lookup x)"
      unfolding removes_def by blast
    then have x': "h_table h' = Some x'" "handle_removed ?i x x'" "is_ok r1 \<Longrightarrow> ?i \<in> dom (vt_lookup x)"
      by (auto simp: r)
    have d: "hrt_data h' = (hrt_data h)\<lparr>cur_generation := h_gen h + 1\<rparr>" by (simp add: r h1)
    note keeps = keeps_removed [OF inv x(1) x'(1,2) d gen]
    have "stale idx h' \<and> \<not> stale idx h" if ok: "is_ok r"
    proof -
      have dom: "?i \<in> dom (vt_lookup x)" using x'(3) ok r by simp
      then have "?i \<le> length (vt_slots x)" "vt_slots x \<noteq> []"
        by (cases ?i; auto simp: vt_lookup_Suc)+
      then have "?i < length (h_meta h)" using x(3) by (simp add: meta_ok_def)
      then have m: "vec_get (h_meta h) ?i = Some (h_meta h ! ?i)" "h_meta h ! ?i \<in> set (h_meta h)"
        by (auto simp: vec_get_def)
      with valid(2) have g: "tsl_generation (h_meta h ! ?i) = hri_generation idx" by simp
      with m x(3) have "hri_generation idx \<le> h_gen h" by (auto simp: meta_ok_def)
      with word32_less_Suc [OF gen] have "hri_generation idx < h_gen h + 1" by simp
      then have "stale idx h'" using x' d by (auto simp: stale_def host_live_def handle_removed_def)
      moreover have "\<not> stale idx h" using dom x(1) m g by (auto simp: stale_def host_live_def)
      ultimately show ?thesis by simp
    qed
    with keeps show ?thesis by simp
  qed
  then show "host_inv h'" "stale i h \<Longrightarrow> stale i h'" "is_ok r \<Longrightarrow> stale idx h'" "is_ok r \<Longrightarrow> \<not> stale idx h"
    by auto
qed


lemma lift_own_stale:
  assumes "host_inv h" and "host_resource_lift_own idx h = (r, h')" and "\<not> panics r"
  shows "host_inv h'" and "stale i h \<Longrightarrow> stale i h'" and "is_ok r \<Longrightarrow> stale idx h'" and "is_ok r \<Longrightarrow> \<not> stale idx h"
  using removal_stale [OF removes_ops(1) assms(1) _ assms(3)] assms(2)
  by (auto simp: host_resource_lift_own_def)

lemma drop_stale:
  assumes "host_inv h" and eq: "host_resource_drop idx h = (r, h')" and np: "\<not> panics r"
  shows "host_inv h'" and "stale i h \<Longrightarrow> stale i h'" and "is_ok r \<Longrightarrow> stale idx h'" and "is_ok r \<Longrightarrow> \<not> stale idx h"
proof -
  let ?m = "and_then (validate_host_index idx True h) (\<lambda>(i, _) h. in_tables (resource_drop (HostIdx i)) h)"
  obtain r1 where m: "?m = (r1, h')" and ok: "is_ok r \<longrightarrow> is_ok r1" and np1: "\<not> panics r1"
  proof (cases "validate_host_index idx True h")
    case (Pair v h1)
    show thesis
    proof (cases v)
      case (Ok y)
      obtain i slot where y: "y = (i, slot)" by (cases y)
      show thesis
      proof (cases "in_tables (resource_drop (HostIdx i)) h1")
        fix r2 h2 assume inner: "in_tables (resource_drop (HostIdx i)) h1 = (r2, h2)"
        then have "h2 = h'" "is_ok r \<longrightarrow> is_ok r2" "\<not> panics r2"
          using eq np Pair Ok y
          by (cases r2; auto simp: host_resource_drop_def split: option.splits)+
        with inner Pair Ok y show thesis by (intro that [of r2]) auto
      qed
    qed (use eq np Pair in \<open>auto simp: host_resource_drop_def intro!: that\<close>)
  qed
  from removal_stale [OF removes_ops(2) assms(1) m np1] ok
  show "host_inv h'" "stale i h \<Longrightarrow> stale i h'" "is_ok r \<Longrightarrow> stale idx h'" "is_ok r \<Longrightarrow> \<not> stale idx h" by auto
qed

lemma lift_borrow_stale:
  assumes inv: "host_inv h" and eq: "host_resource_lift_borrow idx h = (r, h')" and np: "\<not> panics r"
  shows "host_inv h'" and "stale i h \<Longrightarrow> stale i h'" and "is_ok r \<Longrightarrow> \<not> stale idx h"
proof -
  obtain v h1 where val: "validate_host_index idx False h = (v, h1)" by fastforce
  let ?i = "unat (hri_index idx)"
  have "host_inv h' \<and> (stale i h \<longrightarrow> stale i h') \<and> (is_ok r \<longrightarrow> \<not> stale idx h)"
    using val
  proof (cases rule: validate_cases)
    case wrong
    with val eq inv show ?thesis by (auto simp: host_resource_lift_borrow_def)
  next
    case overflow
    with val eq np show ?thesis by (cases v) (auto simp: host_resource_lift_borrow_def)
  next
    case valid
    obtain r1 t1 where lift: "resource_lift_borrow (HostIdx ?i) (hrt_tables h) = (r1, t1)" by fastforce
    with val eq valid have r: "r = map_err HandleErr r1" "h' = h\<lparr>hrt_tables := t1\<rparr>"
      by (auto simp: host_resource_lift_borrow_def in_tables_def)
    from inv obtain x where x: "h_table h = Some x" "vt_inv x" by (auto simp: host_inv_def)
    from host_lift_borrow [OF x lift] obtain x' where
      x': "h_table h' = Some x'" "same_handles x x'" "is_ok r1 \<Longrightarrow> ?i \<in> dom (vt_lookup x)" by (auto simp: r)
    have "\<not> stale idx h" if "is_ok r"
      using that x' x valid(2) r by (auto simp: stale_def host_live_def)
    with keeps_same [OF inv x(1) x'(1,2)] r show ?thesis by simp
  qed
  then show "host_inv h'" "stale i h \<Longrightarrow> stale i h'" "is_ok r \<Longrightarrow> \<not> stale idx h" by auto
qed


lemma lower_own_run:
  assumes inv: "host_inv h" and eq: "host_resource_lower_own rep dtor flags h = (r, h')"
    and no: "r \<noteq> Err (HandleErr HandleIndexOverflow)"
  shows "\<not> panics r" and "host_inv h'" and "stale i h \<Longrightarrow> stale i h'"
    and "\<exists>j. r = Ok (hri_new (of_nat j) (h_gen h)) \<and> \<not> host_live h j \<and> host_live h' j \<and> j < MAX_RESOURCE_HANDLE"
proof -
  from inv obtain x where x: "h_table h = Some x" "vt_inv x" by (auto simp: host_inv_def)
  obtain r1 t1 where low: "resource_lower_own (HostRes rep) (hrt_tables h) = (r1, t1)" by fastforce
  let ?v = "VOwn (HostRes rep) 0"
  from low x have "\<exists>j. r1 = Ok j"
    by (cases rule: vt_insert_cases [OF x(2), of ?v])
       (use no eq in \<open>auto simp: resource_lower_own_def on_host host_resource_lower_own_def in_tables_def\<close>)
  then obtain j where j: "r1 = Ok j" by blast
  from host_lower_own [OF x low [unfolded j]] obtain x' where x': "rts_host t1 = Some x'" "vt_inv x'"
    "j \<notin> dom (vt_lookup x)" "0 < j" "j < MAX_RESOURCE_HANDLE" "dom (vt_lookup x') = insert j (dom (vt_lookup x))"
    "j \<le> Suc (length (vt_slots x))" "length (vt_slots x') = max (length (vt_slots x)) j" by blast
  let ?h1 = "h\<lparr>hrt_tables := t1\<rparr>"
  have x1: "h_table ?h1 = Some x'" using x'(1) by simp
  note ki = keeps_inserted [OF inv x(1) x1 x'(2,6,7,4,8), simplified, of dtor flags]
  from ki obtain h2 where h2: "new_host_index j dtor flags ?h1 = (Ok (hri_new (of_nat j) (h_gen h)), h2)"
    "host_inv h2" "hrt_tables h2 = t1" by auto
  from eq low j h2(1) have r: "r = Ok (hri_new (of_nat j) (h_gen h))" "h' = h2"
    by (auto simp: host_resource_lower_own_def in_tables_def)
  show "\<not> panics r" "host_inv h'" using r h2 by auto
  show "stale i h \<Longrightarrow> stale i h'" using ki [of i] h2(1) r by auto
  show "\<exists>j. r = Ok (hri_new (of_nat j) (h_gen h)) \<and> \<not> host_live h j \<and> host_live h' j \<and> j < MAX_RESOURCE_HANDLE"
    using r h2(3) x x' by (intro exI [of _ j]) (auto simp: host_live_def)
qed

lemma lower_borrow_step:
  assumes inv: "host_inv h" and eq: "host_resource_lower_borrow rep h = (Ok idx, h')"
  shows "host_inv h'" and "stale i h \<Longrightarrow> stale i h'"
proof -
  from inv obtain x where x: "h_table h = Some x" "vt_inv x" by (auto simp: host_inv_def)
  from eq obtain j h1 where low: "in_tables (resource_lower_borrow (HostRes rep)) h = (Ok j, h1)"
    and new: "new_host_index j None None h1 = (Ok idx, h')"
    unfolding host_resource_lower_borrow_def by (rule and_then_OkE)
  then obtain t1 where t1: "resource_lower_borrow (HostRes rep) (hrt_tables h) = (Ok j, t1)" "h1 = h\<lparr>hrt_tables := t1\<rparr>"
    by (auto simp: in_tables_def split: prod.splits)
  from host_lower_borrow [OF x t1(1)] obtain x' where x': "rts_host t1 = Some x'" "vt_inv x'"
    "0 < j" "dom (vt_lookup x') = insert j (dom (vt_lookup x))"
    "j \<le> Suc (length (vt_slots x))" "length (vt_slots x') = max (length (vt_slots x)) j" by blast
  have x1: "h_table h1 = Some x'" "hrt_data h1 = hrt_data h" using x'(1) t1 by simp_all
  from keeps_inserted [OF inv x(1) x1(1) x'(2,4,5,3,6) x1(2), of None None i] new
  show "host_inv h'" "stale i h \<Longrightarrow> stale i h'" by auto
qed

lemma host_step_keeps:
  assumes "host_step h h'" and inv: "host_inv h"
  shows "host_inv h' \<and> (stale i h \<longrightarrow> stale i h')"
proof -
  from inv obtain x where x: "h_table h = Some x" "vt_inv x" by (auto simp: host_inv_def)
  have guest: "host_inv h' \<and> (stale i h \<longrightarrow> stale i h')"
    if "in_tables f h = (r, h')" "rts_host (snd (f (hrt_tables h))) = rts_host (hrt_tables h)"
    for f :: "resource_tables \<Rightarrow> (handle_error, nat, resource_tables) result" and r h'
  proof -
    have "h_table h' = Some x" "hrt_data h' = hrt_data h"
      using that x by (auto simp: in_tables_def split: prod.splits)
    with keeps_same [OF inv x(1) _ same_handles_refl [OF x(2)]] show ?thesis by auto
  qed
  from assms(1) show ?thesis
  proof (cases rule: host_step.cases)
    case (hs_lower_own rep dtor flags idx)
    with lower_own_run [OF inv hs_lower_own] show ?thesis by auto
  next
    case (hs_lower_borrow rep idx)
    with lower_borrow_step [OF inv] show ?thesis by blast
  next
    case (hs_lift_own idx r)
    with lift_own_stale [OF inv] show ?thesis by blast
  next
    case (hs_lift_borrow idx r)
    with lift_borrow_stale [OF inv] show ?thesis by blast
  next
    case (hs_drop idx r)
    with drop_stale [OF inv] show ?thesis by blast
  next
    case (hs_enter)
    then have "h_table h' = Some x" "hrt_data h' = hrt_data h"
      using x by (auto simp: host_enter_call_def enter_call_def)
    with keeps_same [OF inv x(1) _ same_handles_refl [OF x(2)]] show ?thesis by auto
  next
    case (hs_exit r)
    from host_exit [OF x] obtain x' where "h_table h' = Some x'" "same_handles x x'"
      using hs_exit(1) by (auto simp: host_exit_call_def in_tables_def split: prod.splits)
    moreover have "hrt_data h' = hrt_data h"
      using hs_exit(1) by (auto simp: host_exit_call_def in_tables_def split: prod.splits)
    ultimately show ?thesis using keeps_same [OF inv x(1)] by blast
  qed (auto simp: guest_resource_lower_own_def guest_resource_lower_borrow_def guest_resource_lift_own_def
        guest_resource_lift_borrow_def guest_ops_host dest!: guest)
qed

text \<open>A store with an empty host table.\<close>

definition host_initial :: "(vm_table list \<times> nat list) option \<Rightarrow> host_resource_tables" where
  "host_initial guest = \<lparr>hrt_tables = \<lparr>rts_guest = guest, rts_host = Some vt_default, rts_calls = []\<rparr>,
     hrt_data = \<lparr>cur_generation = 0, table_slot_metadata = []\<rparr>\<rparr>"

lemma host_inv_initial: "host_inv (host_initial guest)"
  by (simp add: host_inv_def host_initial_def meta_ok_def vt_default_def [of] vt_inv_default [unfolded vt_default_def])

lemma host_steps_keep:
  assumes "host_step\<^sup>*\<^sup>* h h'" and "host_inv h"
  shows "host_inv h'" and "stale i h \<Longrightarrow> stale i h'"
proof -
  from assms(1) have "host_inv h' \<and> (stale i h \<longrightarrow> stale i h')"
    by (induction rule: rtranclp_induct) (use assms(2) host_step_keeps in auto)
  then show "host_inv h'" "stale i h \<Longrightarrow> stale i h'" by auto
qed


section \<open>Properties\<close>

text \<open>
  C16: Once a host index has been used to take or to drop its resource, it is dead
  for good: whatever the host and the guests do next, including reusing the same
  table slot for another resource, lifting it, borrowing from it and dropping it
  never succeed again.
\<close>

theorem host_index_never_revived:
  assumes start: "host_step\<^sup>*\<^sup>* (host_initial guest) h"
    and used: "(\<exists>rep. host_resource_lift_own idx h = (Ok rep, h1)) \<or> (\<exists>res. host_resource_drop idx h = (Ok res, h1))"
    and later: "host_step\<^sup>*\<^sup>* h1 h2"
  shows "\<not> is_ok (fst (host_resource_lift_own idx h2)) \<and> \<not> is_ok (fst (host_resource_lift_borrow idx h2)) \<and>
    \<not> is_ok (fst (host_resource_drop idx h2))"
proof -
  have inv: "host_inv h" using start host_inv_initial by (rule host_steps_keep(1))
  have st: "host_inv h1 \<and> stale idx h1"
    using used lift_own_stale(1,3) [OF inv] drop_stale(1,3) [OF inv] by fastforce
  then have inv2: "host_inv h2" and st2: "stale idx h2" using host_steps_keep [OF later] by auto
  have "\<not> is_ok (fst (host_resource_lift_own idx h2))"
    using lift_own_stale(4) [OF inv2, of idx] st2 by (cases "host_resource_lift_own idx h2"; cases "fst (host_resource_lift_own idx h2)") fastforce+
  moreover have "\<not> is_ok (fst (host_resource_lift_borrow idx h2))"
    using lift_borrow_stale(3) [OF inv2, of idx] st2 by (cases "host_resource_lift_borrow idx h2"; cases "fst (host_resource_lift_borrow idx h2)") fastforce+
  moreover have "\<not> is_ok (fst (host_resource_drop idx h2))"
    using drop_stale(4) [OF inv2, of idx] st2 by (cases "host_resource_drop idx h2"; cases "fst (host_resource_drop idx h2)") fastforce+
  ultimately show ?thesis by blast
qed


text \<open>The slot of the first resource is reused by a second one; the old index stays dead.\<close>

theorem host_index_never_revived_witness:
  "\<exists>h h1 h2. host_resource_lower_own 7 None None (host_initial None) = (Ok (hri_new 1 0), h) \<and>
     host_resource_lift_own (hri_new 1 0) h = (Ok 7, h1) \<and>
     host_resource_lower_own 8 None None h1 = (Ok (hri_new 1 1), h2) \<and>
     \<not> is_ok (fst (host_resource_lift_own (hri_new 1 0) h2))"
proof -
  let ?s0 = "\<lparr>tsl_generation = 0, tsl_flags = None, tsl_dtor = None\<rparr> :: host_table_slot"
  let ?s1 = "\<lparr>tsl_generation = 1, tsl_flags = None, tsl_dtor = None\<rparr> :: host_table_slot"
  let ?h = "\<lparr>hrt_tables = \<lparr>rts_guest = None, rts_host = Some \<lparr>vt_next = 1, vt_slots = [VOwn (HostRes 7) 0]\<rparr>, rts_calls = []\<rparr>,
     hrt_data = \<lparr>cur_generation = 0, table_slot_metadata = [?s0, ?s0]\<rparr>\<rparr>"
  let ?h1 = "\<lparr>hrt_tables = \<lparr>rts_guest = None, rts_host = Some \<lparr>vt_next = 0, vt_slots = [VFree 1]\<rparr>, rts_calls = []\<rparr>,
     hrt_data = \<lparr>cur_generation = 1, table_slot_metadata = [?s0, ?s0]\<rparr>\<rparr>"
  let ?h2 = "\<lparr>hrt_tables = \<lparr>rts_guest = None, rts_host = Some \<lparr>vt_next = 1, vt_slots = [VOwn (HostRes 8) 0]\<rparr>, rts_calls = []\<rparr>,
     hrt_data = \<lparr>cur_generation = 1, table_slot_metadata = [?s0, ?s1]\<rparr>\<rparr>"
  have a: "host_resource_lower_own 7 None None (host_initial None) = (Ok (hri_new 1 0), ?h)"
    by (simp add: host_resource_lower_own_def host_initial_def in_tables_def new_host_index_def handle_eval)
  have b: "host_resource_lift_own (hri_new 1 0) ?h = (Ok 7, ?h1)"
    by (simp add: host_resource_lift_own_def validate_host_index_def in_tables_def resource_lift_own_def handle_eval)
  have c: "host_resource_lower_own 8 None None ?h1 = (Ok (hri_new 1 1), ?h2)"
    by (simp add: host_resource_lower_own_def in_tables_def new_host_index_def handle_eval)
  have "host_step\<^sup>*\<^sup>* (host_initial None) ?h" using hs_lower_own [OF a] by blast
  moreover have "host_step\<^sup>*\<^sup>* ?h1 ?h2" using hs_lower_own [OF c] by blast
  ultimately have "\<not> is_ok (fst (host_resource_lift_own (hri_new 1 0) ?h2))"
    using host_index_never_revived [of None ?h "hri_new 1 0" ?h1 ?h2] b by blast
  with a b c show ?thesis by blast
qed

end
