(* ===== verification/Async_Table.thy ===== *)
theory Async_Table
  imports Free_List Family
begin

text \<open>
  The heterogeneous table of the concurrent runtime,
  \<open>crates/wasmtime/src/runtime/component/concurrent/table.rs\<close>: boxed entries
  addressed by a \<open>u32\<close>, each with an optional parent and a set of children.
  The theory is generic in the type of what is boxed; \<open>downcast_ref\<close> to a Rust
  type is a partial function on it, given by the caller that names the type.
  The invariant says that the free list is well formed and that parents and
  children agree, and every method keeps it.
\<close>

section \<open>Data\<close>

datatype table_error = Full | NotPresent | WrongType | HasChildren

text \<open>\<open>Box<dyn Any>\<close>: an entry, or the tombstone that debug mode leaves behind.\<close>

datatype 'a any = Boxed 'a | Tombstone

record 'a table_entry =
  te_entry :: "'a any"
  te_parent :: "nat option"
  te_children :: "nat set"

datatype 'a table_slot = TFree "nat option" | TOccupied "'a table_entry"

record 'a table =
  tb_entries :: "'a table_slot list"
  tb_free_head :: "nat option"
  tb_debug :: bool

fun slot_occupied :: "'a table_slot \<Rightarrow> 'a table_entry option" where
  "slot_occupied (TOccupied e) = Some e"
| "slot_occupied (TFree n) = None"

fun any_downcast :: "('a \<Rightarrow> 'b option) \<Rightarrow> 'a any \<Rightarrow> 'b option" where
  "any_downcast down (Boxed x) = down x"
| "any_downcast down Tombstone = None"


section \<open>Operations\<close>

definition table_entry_new :: "'a any \<Rightarrow> nat option \<Rightarrow> 'a table_entry" where
  "table_entry_new x p = \<lparr>te_entry = x, te_parent = p, te_children = {}\<rparr>"

definition entry_add_child :: "nat \<Rightarrow> 'a table_entry \<Rightarrow> (table_error, unit, 'a table_entry) result" where
  "entry_add_child child e =
     (if child \<in> te_children e then (Panic ''assertion failed: self.children.insert(child)'', e)
      else (Ok (), e\<lparr>te_children := insert child (te_children e)\<rparr>))"

definition entry_remove_child :: "nat \<Rightarrow> 'a table_entry \<Rightarrow> (table_error, unit, 'a table_entry) result" where
  "entry_remove_child child e =
     (if child \<notin> te_children e then (Panic ''assertion failed: self.children.remove(&child)'', e)
      else (Ok (), e\<lparr>te_children := te_children e - {child}\<rparr>))"

definition table_new :: "'a table" where
  "table_new = \<lparr>tb_entries = [], tb_free_head = None, tb_debug = False\<rparr>"

fun slot_is_empty :: "'a table_slot \<Rightarrow> bool" where
  "slot_is_empty (TFree n) = True"
| "slot_is_empty (TOccupied e) = (te_entry e = Tombstone)"

definition table_is_empty :: "'a table \<Rightarrow> bool" where
  "table_is_empty t = list_all slot_is_empty (tb_entries t)"

definition table_enable_debug :: "bool \<Rightarrow> 'a table \<Rightarrow> 'a table" where
  "table_enable_debug enable t = t\<lparr>tb_debug := enable\<rparr>"

definition table_pop_free_list :: "'a table \<Rightarrow> (table_error, nat option, 'a table) result" where
  "table_pop_free_list t = (case tb_free_head t of
      None \<Rightarrow> (Ok None, t)
    | Some ix \<Rightarrow> (case vec_get (tb_entries t) ix of
          None \<Rightarrow> (Panic ''index out of bounds'', t)
        | Some (TFree n) \<Rightarrow> (Ok (Some ix), t\<lparr>tb_free_head := n\<rparr>)
        | Some (TOccupied e) \<Rightarrow> (Panic ''unreachable'', t)))"

definition table_free_entry :: "nat \<Rightarrow> 'a table \<Rightarrow> (table_error, 'a table_entry, 'a table) result" where
  "table_free_entry ix t = (case vec_get (tb_entries t) ix of
      None \<Rightarrow> (Panic ''index out of bounds'', t)
    | Some slot \<Rightarrow>
        if tb_debug t then
          (let t' = t\<lparr>tb_entries := (tb_entries t)[ix := TOccupied (table_entry_new Tombstone None)]\<rparr> in
           case slot of TOccupied e \<Rightarrow> (Ok e, t') | TFree n \<Rightarrow> (Panic ''unreachable'', t'))
        else
          (let t' = t\<lparr>tb_entries := (tb_entries t)[ix := TFree (tb_free_head t)]\<rparr> in
           case slot of TOccupied e \<Rightarrow> (Ok e, t'\<lparr>tb_free_head := Some ix\<rparr>)
                      | TFree n \<Rightarrow> (Panic ''unreachable'', t')))"

definition table_push_entry :: "'a table_entry \<Rightarrow> 'a table \<Rightarrow> (table_error, nat, 'a table) result" where
  "table_push_entry e t = and_then (table_pop_free_list t) (\<lambda>free t. case free of
      Some ix \<Rightarrow>
        (case u32_try_from ix of
           Some k \<Rightarrow> (Ok k, t\<lparr>tb_entries := (tb_entries t)[ix := TOccupied e]\<rparr>)
         | None \<Rightarrow> (Panic ''unwrap on Err'', t\<lparr>tb_entries := (tb_entries t)[ix := TOccupied e]\<rparr>))
    | None \<Rightarrow>
        (case u32_try_from (length (tb_entries t)) of
           Some k \<Rightarrow> (Ok k, t\<lparr>tb_entries := tb_entries t @ [TOccupied e]\<rparr>)
         | None \<Rightarrow> (Err Full, t)))"

definition table_push :: "'a \<Rightarrow> 'a table \<Rightarrow> (table_error, nat, 'a table) result" where
  "table_push x t = table_push_entry (table_entry_new (Boxed x) None) t"

definition table_occupied :: "nat \<Rightarrow> 'a table \<Rightarrow> (table_error, 'a table_entry) outcome" where
  "table_occupied key t = ok_or NotPresent (Option.bind (vec_get (tb_entries t) key) slot_occupied)"

text \<open>\<open>occupied_mut\<close>, with what the caller does to the borrowed entry.\<close>

definition table_occupied_mut ::
    "nat \<Rightarrow> ('a table_entry \<Rightarrow> (table_error, 'r, 'a table_entry) result) \<Rightarrow> 'a table
     \<Rightarrow> (table_error, 'r, 'a table) result" where
  "table_occupied_mut key f t = and_then (table_occupied key t, t) (\<lambda>e t.
     case f e of (r, e') \<Rightarrow> (r, t\<lparr>tb_entries := (tb_entries t)[key := TOccupied e']\<rparr>))"

definition table_add_child :: "nat \<Rightarrow> nat \<Rightarrow> 'a table \<Rightarrow> (table_error, unit, 'a table) result" where
  "table_add_child child parent t =
     and_then (table_occupied_mut child (\<lambda>e.
         if te_parent e \<noteq> None then (Panic ''assertion failed: entry.parent.is_none()'', e)
         else (Ok (), e\<lparr>te_parent := Some parent\<rparr>)) t)
       (\<lambda>_ t. table_occupied_mut parent (entry_add_child child) t)"

definition table_remove_child :: "nat \<Rightarrow> nat \<Rightarrow> 'a table \<Rightarrow> (table_error, unit, 'a table) result" where
  "table_remove_child child parent t =
     and_then (table_occupied_mut child (\<lambda>e.
         if te_parent e \<noteq> Some parent then (Panic ''assertion failed: entry.parent == Some(parent)'', e)
         else (Ok (), e\<lparr>te_parent := None\<rparr>)) t)
       (\<lambda>_ t. table_occupied_mut parent (entry_remove_child child) t)"

definition table_get_any :: "nat \<Rightarrow> 'a table \<Rightarrow> (table_error, 'a any) outcome" where
  "table_get_any key t = map_ok te_entry (table_occupied key t)"

definition table_get :: "('a \<Rightarrow> 'b option) \<Rightarrow> nat \<Rightarrow> 'a table \<Rightarrow> (table_error, 'b) outcome" where
  "table_get down key t =
     and_then_pure (table_get_any key t) (\<lambda>x. ok_or WrongType (any_downcast down x))"

text \<open>
  \<open>get_mut\<close>, with what the caller does to the borrowed value: \<open>up\<close> rebuilds the
  box and the value borrowed is returned as it was before the update.
\<close>

definition table_get_mut ::
    "('a \<Rightarrow> 'b option) \<Rightarrow> ('b \<Rightarrow> 'a) \<Rightarrow> nat \<Rightarrow> ('b \<Rightarrow> 'b) \<Rightarrow> 'a table \<Rightarrow> (table_error, 'b, 'a table) result" where
  "table_get_mut down up key f t = table_occupied_mut key (\<lambda>e.
     case any_downcast down (te_entry e) of
       None \<Rightarrow> (Err WrongType, e)
     | Some x \<Rightarrow> (Ok x, e\<lparr>te_entry := Boxed (up (f x))\<rparr>)) t"

definition table_delete_entry :: "nat \<Rightarrow> 'a table \<Rightarrow> (table_error, 'a table_entry, 'a table) result" where
  "table_delete_entry key t = and_then (table_occupied key t, t) (\<lambda>e t.
     if te_children e \<noteq> {} then (Err HasChildren, t)
     else and_then (table_free_entry key t) (\<lambda>e t.
       case te_parent e of
         None \<Rightarrow> (Ok e, t)
       | Some parent \<Rightarrow>
           (case table_occupied_mut parent (entry_remove_child key) t of
              (Ok _, t) \<Rightarrow> (Ok e, t)
            | (Err _, t) \<Rightarrow> (Panic ''missing parent'', t)
            | (Panic p, t) \<Rightarrow> (Panic p, t))))"

definition table_delete :: "('a \<Rightarrow> 'b option) \<Rightarrow> nat \<Rightarrow> 'a table \<Rightarrow> (table_error, 'b, 'a table) result" where
  "table_delete down key t = and_then (table_delete_entry key t) (\<lambda>e t.
     (ok_or WrongType (any_downcast down (te_entry e)), t))"

text \<open>\<open>iter_mut\<close>: the boxes of the occupied slots in order, with what the caller does to each.\<close>

fun slot_iter_mut :: "('a any \<Rightarrow> 'a any) \<Rightarrow> 'a table_slot \<Rightarrow> 'a table_slot" where
  "slot_iter_mut f (TFree n) = TFree n"
| "slot_iter_mut f (TOccupied e) = TOccupied (e\<lparr>te_entry := f (te_entry e)\<rparr>)"

definition table_iter_mut :: "('a any \<Rightarrow> 'a any) \<Rightarrow> 'a table \<Rightarrow> 'a any list \<times> 'a table" where
  "table_iter_mut f t =
     (map te_entry (List.map_filter slot_occupied (tb_entries t)),
      t\<lparr>tb_entries := map (slot_iter_mut f) (tb_entries t)\<rparr>)"


section \<open>The invariant\<close>

definition table_occ :: "'a table \<Rightarrow> nat \<Rightarrow> 'a table_entry option" where
  "table_occ t k = Option.bind (vec_get (tb_entries t) k) slot_occupied"

text \<open>Parents and children agree.\<close>

definition parent_of :: "(nat \<Rightarrow> 'a table_entry option) \<Rightarrow> nat \<Rightarrow> nat option" where
  "parent_of occ c = Option.bind (occ c) te_parent"

definition children_of :: "(nat \<Rightarrow> 'a table_entry option) \<Rightarrow> nat \<Rightarrow> nat set" where
  "children_of occ p = (case occ p of None \<Rightarrow> {} | Some e \<Rightarrow> te_children e)"

definition links_ok :: "(nat \<Rightarrow> 'a table_entry option) \<Rightarrow> bool" where
  "links_ok occ \<longleftrightarrow> family_ok (parent_of occ) (children_of occ)"

fun table_next_of :: "'a table_slot \<Rightarrow> nat option option" where
  "table_next_of (TFree n) = Some n"
| "table_next_of (TOccupied e) = None"

definition table_inv :: "'a table \<Rightarrow> bool" where
  "table_inv t \<longleftrightarrow> free_list_ok table_next_of (tb_entries t) (tb_free_head t) \<and>
     length (tb_entries t) \<le> Suc u32_max \<and> links_ok (table_occ t)"

text \<open>The table as a finite map from representations to boxed values.\<close>

definition table_lookup :: "'a table \<Rightarrow> nat \<Rightarrow> 'a option" where
  "table_lookup t k = Option.bind (table_occ t k) (\<lambda>e. any_downcast Some (te_entry e))"

abbreviation table_set :: "nat \<Rightarrow> 'a table_entry \<Rightarrow> 'a table \<Rightarrow> 'a table" where
  "table_set k e t \<equiv> t\<lparr>tb_entries := (tb_entries t)[k := TOccupied e]\<rparr>"

lemma slot_occupied_Some [simp]: "slot_occupied s = Some e \<longleftrightarrow> s = TOccupied e"
  by (cases s) auto

lemma slot_occupied_None: "slot_occupied s = None \<longleftrightarrow> table_next_of s \<noteq> None"
  by (cases s) auto

lemma any_downcast_Some [simp]: "any_downcast Some x = Some y \<longleftrightarrow> x = Boxed y"
  by (cases x) auto

lemma table_occ_Some:
  "table_occ t k = Some e \<longleftrightarrow> k < length (tb_entries t) \<and> tb_entries t ! k = TOccupied e"
  by (auto simp: table_occ_def vec_get_def)

lemma table_occ_bound: "table_occ t k = Some e \<Longrightarrow> k < length (tb_entries t)"
  by (simp add: table_occ_Some)

lemma table_lookup_Some:
  "table_lookup t k = Some x \<longleftrightarrow> (\<exists>e. table_occ t k = Some e \<and> te_entry e = Boxed x)"
  by (auto simp: table_lookup_def bind_eq_Some_conv)

lemma finite_dom_table_occ: "finite (dom (table_occ t))"
  by (rule finite_subset [of _ "{..<length (tb_entries t)}"]) (auto simp: table_occ_Some)

lemma finite_dom_table_lookup: "finite (dom (table_lookup t))"
  by (rule finite_subset [OF _ finite_dom_table_occ [of t]]) (auto simp: table_lookup_Some)

lemma table_occ_update:
  "k < length (tb_entries t) \<Longrightarrow> tb_entries t' = (tb_entries t)[k := s] \<Longrightarrow>
   table_occ t' = (table_occ t)(k := slot_occupied s)"
  by (auto simp: table_occ_def vec_get_def nth_update_if fun_eq_iff)

lemma table_occ_append:
  "tb_entries t' = tb_entries t @ [s] \<Longrightarrow>
   table_occ t' = (table_occ t)(length (tb_entries t) := slot_occupied s)"
  by (auto simp: table_occ_def vec_get_def nth_append fun_eq_iff)

lemma table_occ_set [simp]:
  "table_occ t k = Some e \<Longrightarrow> table_occ (table_set k e' t) = (table_occ t)(k \<mapsto> e')"
  by (subst table_occ_update [of k t]) (auto simp: table_occ_Some)

lemma table_occ_cong: "tb_entries t' = tb_entries t \<Longrightarrow> table_occ t' = table_occ t"
  by (simp add: table_occ_def fun_eq_iff)

lemma table_occupied_eq:
  "table_occupied k t = (case table_occ t k of None \<Rightarrow> Err NotPresent | Some e \<Rightarrow> Ok e)"
  by (auto simp: table_occupied_def table_occ_def split: option.splits)

lemma table_occupied_mut_eq:
  "table_occupied_mut k f t = (case table_occ t k of
      None \<Rightarrow> (Err NotPresent, t)
    | Some e \<Rightarrow> (fst (f e), table_set k (snd (f e)) t))"
  by (auto simp: table_occupied_mut_def table_occupied_eq split: option.splits prod.splits)

lemma free_list_table_set:
  assumes "free_list_ok table_next_of (tb_entries t) h" and "table_occ t k = Some e"
  shows "free_list_ok table_next_of ((tb_entries t)[k := TOccupied e']) h"
  using assms by (intro free_list_ok_update) (auto simp: table_occ_Some)


subsection \<open>Parents and children under updates\<close>

lemma parent_of_upd [simp]:
  "parent_of (occ(k := x)) = (parent_of occ)(k := Option.bind x te_parent)"
  by (auto simp: parent_of_def)

lemma children_of_upd [simp]:
  "children_of (occ(k := x)) = (children_of occ)(k := (case x of None \<Rightarrow> {} | Some e \<Rightarrow> te_children e))"
  by (auto simp: children_of_def fun_eq_iff)

lemma parent_of_occ: "occ k = Some e \<Longrightarrow> parent_of occ k = te_parent e"
  by (simp add: parent_of_def)

lemma children_of_occ: "occ k = Some e \<Longrightarrow> children_of occ k = te_children e"
  by (simp add: children_of_def)

lemma links_ok_empty [simp]: "links_ok (\<lambda>_. None)"
  by (simp add: links_ok_def parent_of_def [abs_def] children_of_def [abs_def])

lemma links_okD: "links_ok occ \<Longrightarrow> c \<in> children_of occ p \<longleftrightarrow> parent_of occ c = Some p"
  by (simp add: links_ok_def family_okD)

text \<open>An entry may be replaced by one with the same links.\<close>

lemma links_ok_same:
  assumes "links_ok occ" and "Option.bind x te_parent = parent_of occ k"
    and "(case x of None \<Rightarrow> {} | Some e \<Rightarrow> te_children e) = children_of occ k"
  shows "links_ok (occ(k := x))"
  using assms by (simp add: links_ok_def)

text \<open>Unlinking a child from its parent, and linking an entry that has none.\<close>

lemma links_ok_unlink:
  assumes "links_ok occ" and "parent_of occ k = Some p"
    and "parent_of occ' = (parent_of occ)(k := None)"
    and "children_of occ' = (children_of occ)(p := children_of occ p - {k})"
  shows "links_ok occ'"
  using assms by (simp add: links_ok_def family_ok_unlink)

lemma links_ok_link:
  assumes "links_ok occ" and "parent_of occ k = None"
    and "parent_of occ' = (parent_of occ)(k := Some p)"
    and "children_of occ' = (children_of occ)(p := insert k (children_of occ p))"
  shows "links_ok occ'"
  using assms by (simp add: links_ok_def family_ok_link)


subsection \<open>Every operation keeps the invariant\<close>

lemma table_inv_new [simp]: "table_inv table_new"
  by (simp add: table_inv_def table_new_def table_occ_def [abs_def] vec_get_def)

lemma table_push_entry_cases:
  assumes inv: "table_inv t" and e: "te_parent e = None" "te_children e = {}"
  obtains (done_) k t' where "table_push_entry e t = (Ok k, t')" "table_occ t k = None"
      "table_occ t' = (table_occ t)(k \<mapsto> e)" "table_inv t'" "tb_debug t' = tb_debug t"
    | (full) "table_push_entry e t = (Err Full, t)" "tb_free_head t = None" "length (tb_entries t) = Suc u32_max"
proof (cases "tb_free_head t")
  case (Some k)
  from inv Some have fl: "free_list_ok table_next_of (tb_entries t) (Some k)" by (simp add: table_inv_def)
  then obtain n where k: "k < length (tb_entries t)" and "table_next_of (tb_entries t ! k) = Some n"
    by (rule free_list_ok_SomeE)
  then have ent: "tb_entries t ! k = TFree n" by (cases "tb_entries t ! k") auto
  let ?t = "t\<lparr>tb_free_head := n, tb_entries := (tb_entries t)[k := TOccupied e]\<rparr>"
  have none: "table_occ t k = None" using ent by (simp add: table_occ_def vec_get_def)
  have occ: "table_occ ?t = (table_occ t)(k \<mapsto> e)"
    using k by (subst table_occ_update [of k t]) auto
  have "links_ok ((table_occ t)(k \<mapsto> e))"
    using inv none e by (intro links_ok_same) (auto simp: table_inv_def parent_of_def children_of_def)
  then have "table_inv ?t"
    using inv occ free_list_ok_pop [OF fl, of n "TOccupied e"] ent by (simp add: table_inv_def)
  moreover have "table_push_entry e t = (Ok k, ?t)"
    using Some k ent inv
    by (simp add: table_push_entry_def table_pop_free_list_def vec_get_def u32_try_from_def table_inv_def)
  ultimately show ?thesis using none occ by (auto intro: done_)
next
  case None
  show ?thesis
  proof (cases "length (tb_entries t) \<le> u32_max")
    case True
    let ?k = "length (tb_entries t)"
    let ?t = "t\<lparr>tb_entries := tb_entries t @ [TOccupied e]\<rparr>"
    have none: "table_occ t ?k = None" by (simp add: table_occ_def vec_get_def)
    have occ: "table_occ ?t = (table_occ t)(?k \<mapsto> e)"
      by (subst table_occ_append [of _ t]) auto
    have "links_ok ((table_occ t)(?k \<mapsto> e))"
      using inv none e by (intro links_ok_same) (auto simp: table_inv_def parent_of_def children_of_def)
    moreover have "free_list_ok table_next_of (tb_entries t @ [TOccupied e]) None"
      using inv None by (intro free_list_ok_grow) (auto simp: table_inv_def)
    ultimately have "table_inv ?t" using inv occ None True by (simp add: table_inv_def)
    moreover have "table_push_entry e t = (Ok ?k, ?t)"
      using None True by (simp add: table_push_entry_def table_pop_free_list_def u32_try_from_def)
    ultimately show ?thesis using none occ by (auto intro: done_)
  next
    case False
    with inv None show ?thesis
      by (intro full) (auto simp: table_push_entry_def table_pop_free_list_def u32_try_from_def table_inv_def)
  qed
qed

lemma table_add_child_Ok:
  assumes inv: "table_inv t" and c: "table_occ t c = Some ce" "te_parent ce = None"
    and p: "table_occ t p = Some pe"
  shows "\<exists>t'. table_add_child c p t = (Ok (), t') \<and> table_inv t' \<and>
     parent_of (table_occ t') = (parent_of (table_occ t))(c := Some p) \<and>
     table_lookup t' = table_lookup t"
proof -
  have lk: "links_ok (table_occ t)" using inv by (simp add: table_inv_def)
  let ?t1 = "table_set c (ce\<lparr>te_parent := Some p\<rparr>) t"
  let ?occ1 = "(table_occ t)(c \<mapsto> ce\<lparr>te_parent := Some p\<rparr>)"
  have occ1: "table_occ ?t1 = ?occ1" using c(1) by simp
  define pe1 where "pe1 = (if c = p then ce\<lparr>te_parent := Some p\<rparr> else pe)"
  then have pe1: "?occ1 p = Some pe1" and chi: "te_children pe1 = te_children pe"
    and ent: "te_entry pe1 = te_entry pe" and par: "c \<noteq> p \<longrightarrow> pe1 = pe"
    "c = p \<longrightarrow> pe1 = ce\<lparr>te_parent := Some p\<rparr>"
    using p c by auto
  have notin: "c \<notin> te_children pe1"
    using links_okD [OF lk, of c p] c p chi by (simp add: parent_of_occ children_of_occ)
  let ?pe2 = "pe1\<lparr>te_children := insert c (te_children pe1)\<rparr>"
  let ?t2 = "table_set p ?pe2 ?t1"
  have occ2: "table_occ ?t2 = ?occ1(p \<mapsto> ?pe2)"
    using pe1 occ1 by (metis table_occ_set)
  have run: "table_add_child c p t = (Ok (), ?t2)"
    using c pe1 occ1 notin by (simp add: table_add_child_def table_occupied_mut_eq entry_add_child_def)
  have par2: "parent_of (table_occ ?t2) = (parent_of (table_occ t))(c := Some p)"
    unfolding occ2 using p par by (auto simp: fun_eq_iff parent_of_occ)
  have chi2: "children_of (table_occ ?t2) =
      (children_of (table_occ t))(p := insert c (children_of (table_occ t) p))"
    unfolding occ2 using p c chi by (auto simp: fun_eq_iff children_of_occ)
  have "links_ok (table_occ ?t2)"
    using lk _ par2 chi2 by (rule links_ok_link) (simp add: c parent_of_occ)
  moreover have "free_list_ok table_next_of (tb_entries ?t2) (tb_free_head t)"
    using inv c(1) pe1 occ1 free_list_table_set [of ?t1 _ p pe1]
    by (auto simp: table_inv_def intro!: free_list_table_set)
  ultimately have "table_inv ?t2" using inv by (simp add: table_inv_def)
  moreover have "table_lookup ?t2 = table_lookup t"
    unfolding table_lookup_def occ2 using c(1) p par ent by (auto simp: fun_eq_iff)
  ultimately show ?thesis using run par2 by blast
qed


lemma table_unlink_parent:
  assumes inv: "table_inv t" and k: "table_occ t k = Some e" and p: "te_parent e = Some p"
    and occ1: "table_occ t1 = (table_occ t)(k := x)" and x: "Option.bind x te_parent = None"
      "(case x of None \<Rightarrow> {} | Some e \<Rightarrow> te_children e) = te_children e"
    and fl: "free_list_ok table_next_of (tb_entries t1) (tb_free_head t1)" "length (tb_entries t1) \<le> Suc u32_max"
  shows "\<exists>t'. table_occupied_mut p (entry_remove_child k) t1 = (Ok (), t') \<and> table_inv t' \<and>
     parent_of (table_occ t') = (parent_of (table_occ t))(k := None) \<and>
     table_lookup t' = table_lookup t1 \<and> tb_debug t' = tb_debug t1"
proof -
  have lk: "links_ok (table_occ t)" using inv by (simp add: table_inv_def)
  have kp: "k \<in> children_of (table_occ t) p"
    using links_okD [OF lk, of k p] k p by (simp add: parent_of_occ)
  have "children_of (table_occ t1) p = children_of (table_occ t) p"
    using k x by (simp add: occ1 children_of_occ)
  with kp obtain pe where pe: "table_occ t1 p = Some pe" "te_children pe = children_of (table_occ t) p"
    by (cases "table_occ t1 p") (auto simp: children_of_def)
  let ?pe = "pe\<lparr>te_children := te_children pe - {k}\<rparr>"
  let ?t = "table_set p ?pe t1"
  have run: "table_occupied_mut p (entry_remove_child k) t1 = (Ok (), ?t)"
    using pe kp by (simp add: table_occupied_mut_eq entry_remove_child_def)
  have occ: "table_occ ?t = (table_occ t1)(p \<mapsto> ?pe)" using pe by simp
  have par: "parent_of (table_occ ?t) = (parent_of (table_occ t))(k := None)"
    using x(1) parent_of_occ [of "table_occ t1", OF pe(1)]
    unfolding occ by (auto simp: occ1 fun_eq_iff)
  have "children_of (table_occ ?t) =
      (children_of (table_occ t))(p := children_of (table_occ t) p - {k})"
    unfolding occ occ1 using k x(2) pe(2) by (auto simp: fun_eq_iff children_of_occ)
  with lk _ par have "links_ok (table_occ ?t)"
    by (rule links_ok_unlink) (simp add: k p parent_of_occ)
  moreover have "free_list_ok table_next_of ((tb_entries t1)[p := TOccupied ?pe]) (tb_free_head t1)"
    using fl(1) pe(1) by (rule free_list_table_set)
  ultimately have "table_inv ?t" using fl(2) by (simp add: table_inv_def)
  moreover have "table_lookup ?t = table_lookup t1"
    unfolding table_lookup_def occ using pe by (auto simp: fun_eq_iff)
  ultimately show ?thesis using run par by auto
qed

lemma table_remove_child_Ok:
  assumes inv: "table_inv t" and c: "table_occ t c = Some ce" "te_parent ce = Some p"
  shows "\<exists>t'. table_remove_child c p t = (Ok (), t') \<and> table_inv t' \<and>
     parent_of (table_occ t') = (parent_of (table_occ t))(c := None) \<and> table_lookup t' = table_lookup t"
proof -
  let ?t1 = "table_set c (ce\<lparr>te_parent := None\<rparr>) t"
  have occ1: "table_occ ?t1 = (table_occ t)(c := Some (ce\<lparr>te_parent := None\<rparr>))" using c(1) by simp
  have fl: "free_list_ok table_next_of (tb_entries ?t1) (tb_free_head ?t1)"
    using inv c(1) by (auto simp: table_inv_def intro!: free_list_table_set)
  have len: "length (tb_entries ?t1) \<le> Suc u32_max" using inv by (simp add: table_inv_def)
  have "table_lookup ?t1 = table_lookup t"
    unfolding table_lookup_def occ1 using c by (auto simp: fun_eq_iff)
  moreover have "table_remove_child c p t = table_occupied_mut p (entry_remove_child c) ?t1"
    using c by (simp add: table_remove_child_def table_occupied_mut_eq [of c])
  ultimately show ?thesis
    using table_unlink_parent [OF inv c occ1 _ _ fl len] by auto
qed

lemma table_free_entry_live:
  assumes inv: "table_inv t" and k: "table_occ t k = Some e"
  obtains t1 x where "table_free_entry k t = (Ok e, t1)" "table_occ t1 = (table_occ t)(k := x)"
    "x = None \<or> x = Some (table_entry_new Tombstone None)" "tb_debug t \<or> x = None"
    "free_list_ok table_next_of (tb_entries t1) (tb_free_head t1)"
    "length (tb_entries t1) = length (tb_entries t)" "tb_debug t1 = tb_debug t"
proof -
  from k have lt: "k < length (tb_entries t)" and ent: "tb_entries t ! k = TOccupied e"
    by (auto simp: table_occ_Some)
  have fl: "free_list_ok table_next_of (tb_entries t) (tb_free_head t)" using inv by (simp add: table_inv_def)
  show thesis
  proof (cases "tb_debug t")
    case True
    let ?t = "table_set k (table_entry_new Tombstone None) t"
    have "table_free_entry k t = (Ok e, ?t)"
      using True lt ent by (simp add: table_free_entry_def vec_get_def)
    moreover have "table_occ ?t = (table_occ t)(k \<mapsto> table_entry_new Tombstone None)" using k by simp
    ultimately show thesis using True
      by (intro that [of ?t "Some (table_entry_new Tombstone None)"])
         (auto intro: free_list_table_set [OF fl k])
  next
    case False
    let ?t = "t\<lparr>tb_entries := (tb_entries t)[k := TFree (tb_free_head t)], tb_free_head := Some k\<rparr>"
    have "table_free_entry k t = (Ok e, ?t)"
      using False lt ent by (simp add: table_free_entry_def vec_get_def)
    moreover have "table_occ ?t = (table_occ t)(k := None)"
      using lt by (subst table_occ_update [of k t]) auto
    moreover have "free_list_ok table_next_of ((tb_entries t)[k := TFree (tb_free_head t)]) (Some k)"
      using fl lt ent by (intro free_list_ok_push) auto
    ultimately show thesis by (intro that [of ?t None]) auto
  qed
qed

lemma table_delete_entry_live:
  assumes inv: "table_inv t" and k: "table_occ t k = Some e" and ch: "te_children e = {}"
  shows "\<exists>t'. table_delete_entry k t = (Ok e, t') \<and> table_inv t' \<and>
     table_lookup t' = (table_lookup t)(k := None) \<and> tb_debug t' = tb_debug t \<and>
     (\<not> tb_debug t \<longrightarrow> table_occ t' k = None) \<and>
     parent_of (table_occ t') = (parent_of (table_occ t))(k := None)"
proof -
  from inv k obtain t1 x where fr: "table_free_entry k t = (Ok e, t1)"
    and occ1: "table_occ t1 = (table_occ t)(k := x)"
    and x: "x = None \<or> x = Some (table_entry_new Tombstone None)" and xd: "tb_debug t \<or> x = None"
    and fl: "free_list_ok table_next_of (tb_entries t1) (tb_free_head t1)"
    and len: "length (tb_entries t1) = length (tb_entries t)" and dbg: "tb_debug t1 = tb_debug t"
    by (rule table_free_entry_live)
  from x have x': "Option.bind x te_parent = None"
    "(case x of None \<Rightarrow> {} | Some e \<Rightarrow> te_children e) = te_children e"
    using ch by (auto simp: table_entry_new_def)
  have look: "table_lookup t1 = (table_lookup t)(k := None)"
    unfolding table_lookup_def occ1 using x by (auto simp: fun_eq_iff table_entry_new_def)
  have len': "length (tb_entries t1) \<le> Suc u32_max" using len inv by (simp add: table_inv_def)
  have free: "table_occ t1 k = None" if "\<not> tb_debug t"
    using that xd occ1 by simp
  have del: "table_delete_entry k t = (case te_parent e of
         None \<Rightarrow> (Ok e, t1)
       | Some parent \<Rightarrow>
           (case table_occupied_mut parent (entry_remove_child k) t1 of
              (Ok _, t) \<Rightarrow> (Ok e, t)
            | (Err _, t) \<Rightarrow> (Panic ''missing parent'', t)
            | (Panic p, t) \<Rightarrow> (Panic p, t)))"
    using k ch fr by (simp add: table_delete_entry_def table_occupied_eq)
  show ?thesis
  proof (cases "te_parent e")
    case None
    have "links_ok (table_occ t1)"
      unfolding occ1 using inv x' None k ch
      by (intro links_ok_same) (auto simp: table_inv_def parent_of_occ children_of_occ)
    then have "table_inv t1" using fl len' by (simp add: table_inv_def)
    moreover have "parent_of (table_occ t1) = (parent_of (table_occ t))(k := None)"
      unfolding occ1 using x'(1) by (simp add: fun_eq_iff)
    ultimately show ?thesis using None del look dbg free by auto
  next
    case (Some p)
    from table_unlink_parent [OF inv k Some occ1 x' fl len']
    obtain t2 where t2: "table_occupied_mut p (entry_remove_child k) t1 = (Ok (), t2)" "table_inv t2"
      "table_lookup t2 = table_lookup t1" "tb_debug t2 = tb_debug t1"
      "parent_of (table_occ t2) = (parent_of (table_occ t))(k := None)" by blast
    have "p \<noteq> k"
      using links_okD [of "table_occ t" k p] inv k Some ch
      by (auto simp: table_inv_def parent_of_occ children_of_occ)
    with t2(1) have "table_occ t2 k = table_occ t1 k"
      by (auto simp: table_occupied_mut_eq split: option.splits)
    with Some del t2 look dbg free show ?thesis by auto
  qed
qed


lemma table_get_mut_eq:
  "table_get_mut down up k f t = (case table_occ t k of
      None \<Rightarrow> (Err NotPresent, t)
    | Some e \<Rightarrow> (case any_downcast down (te_entry e) of
        None \<Rightarrow> (Err WrongType, t)
      | Some x \<Rightarrow> (Ok x, table_set k (e\<lparr>te_entry := Boxed (up (f x))\<rparr>) t)))"
proof (cases "table_occ t k")
  case (Some e)
  then have "table_set k e t = t" by (auto simp: table_occ_Some list_update_same_conv)
  with Some show ?thesis by (auto simp: table_get_mut_def table_occupied_mut_eq split: option.splits)
qed (simp add: table_get_mut_def table_occupied_mut_eq)

lemma table_get_eq:
  "table_get down k t = (case table_occ t k of
      None \<Rightarrow> Err NotPresent
    | Some e \<Rightarrow> (case any_downcast down (te_entry e) of None \<Rightarrow> Err WrongType | Some x \<Rightarrow> Ok x))"
  by (auto simp: table_get_def table_get_any_def table_occupied_eq split: option.splits)

lemma table_set_payload:
  assumes inv: "table_inv t" and k: "table_occ t k = Some e"
  shows "table_inv (table_set k (e\<lparr>te_entry := x\<rparr>) t)"
    and "parent_of (table_occ (table_set k (e\<lparr>te_entry := x\<rparr>) t)) = parent_of (table_occ t)"
    and "children_of (table_occ (table_set k (e\<lparr>te_entry := x\<rparr>) t)) = children_of (table_occ t)"
proof -
  show par: "parent_of (table_occ (table_set k (e\<lparr>te_entry := x\<rparr>) t)) = parent_of (table_occ t)"
    using k by (auto simp: fun_eq_iff parent_of_occ)
  show chi: "children_of (table_occ (table_set k (e\<lparr>te_entry := x\<rparr>) t)) = children_of (table_occ t)"
    using k by (auto simp: fun_eq_iff children_of_occ)
  show "table_inv (table_set k (e\<lparr>te_entry := x\<rparr>) t)"
    using inv k par chi free_list_table_set [of t _ k e]
    unfolding table_inv_def links_ok_def by simp
qed

lemma table_delete_Some_cases:
  assumes inv: "table_inv t" and eq: "table_delete Some k t = (r, t')"
  obtains (absent) "table_occ t k = None" "r = Err NotPresent" "t' = t"
    | (parent) e where "table_occ t k = Some e" "te_children e \<noteq> {}" "r = Err HasChildren" "t' = t"
    | (tombstone) e where "table_occ t k = Some e" "te_children e = {}" "te_entry e = Tombstone"
        "r = Err WrongType" "table_inv t'" "table_lookup t' = table_lookup t"
    | (live) e x where "table_occ t k = Some e" "te_children e = {}" "te_entry e = Boxed x"
        "r = Ok x" "table_inv t'" "table_lookup t' = (table_lookup t)(k := None)"
proof (cases "table_occ t k")
  case None
  with eq show ?thesis
    by (intro absent) (auto simp: table_delete_def table_delete_entry_def table_occupied_eq)
next
  case (Some e)
  show ?thesis
  proof (cases "te_children e = {}")
    case False
    with Some eq show ?thesis
      by (intro parent) (auto simp: table_delete_def table_delete_entry_def table_occupied_eq)
  next
    case True
    from table_delete_entry_live [OF inv Some True] obtain t2 where
      t2: "table_delete_entry k t = (Ok e, t2)" "table_inv t2" "table_lookup t2 = (table_lookup t)(k := None)"
      by blast
    with eq have r: "r = ok_or WrongType (any_downcast Some (te_entry e))" "t' = t2"
      by (auto simp: table_delete_def)
    show ?thesis
    proof (cases "te_entry e")
      case (Boxed x)
      with r t2 Some True show ?thesis by (intro live) auto
    next
      case Tombstone
      then have "table_lookup t k = None" using Some by (simp add: table_lookup_def)
      with t2(3) have "table_lookup t2 = table_lookup t" by (simp add: fun_upd_idem)
      with Tombstone r t2 Some True show ?thesis by (intro tombstone) auto
    qed
  qed
qed

definition table_pinned :: "'a table \<Rightarrow> nat \<Rightarrow> bool" where
  "table_pinned t k \<longleftrightarrow> children_of (table_occ t) k \<noteq> {}"

lemma table_push_cases:
  assumes "table_inv t"
  obtains (done_) k t' where "table_push x t = (Ok k, t')" "table_occ t k = None"
      "table_occ t' = (table_occ t)(k \<mapsto> table_entry_new (Boxed x) None)" "table_inv t'"
    | (full) "table_push x t = (Err Full, t)" "length (tb_entries t) = Suc u32_max"
  using assms
  by (rule table_push_entry_cases [of t "table_entry_new (Boxed x) None"])
     (auto simp: table_push_def table_entry_new_def intro: that)

interpretation async_table: atomic_arena table_inv table_lookup table_push "table_delete Some" table_pinned
proof
  fix t t' :: "'a table" and x k e
  show "finite (dom (table_lookup t))" by (rule finite_dom_table_lookup)
  show "table_inv t' \<and> table_lookup t k = None \<and> table_lookup t' = (table_lookup t)(k \<mapsto> x) \<and>
        \<not> table_pinned t' k"
    if "table_inv t" "table_push x t = (Ok k, t')"
    using that(1)
  proof (cases rule: table_push_cases [where x = x])
    case (done_ k2 t2)
    with that show ?thesis
      by (auto simp: table_lookup_def table_pinned_def children_of_def table_entry_new_def fun_eq_iff)
  next
    case full
    with that show ?thesis by simp
  qed
  show "table_inv t' \<and> table_lookup t' = table_lookup t"
    if "table_inv t" "table_push x t = (Err e, t')"
    using that(1)
  proof (cases rule: table_push_cases [where x = x])
    case (done_ k2 t2)
    with that show ?thesis by simp
  next
    case full
    with that show ?thesis by simp
  qed
  show "table_inv t' \<and> table_lookup t k = Some x \<and> table_lookup t' = (table_lookup t)(k := None)"
    if "table_inv t" "table_delete Some k t = (Ok x, t')"
    using that by (cases rule: table_delete_Some_cases) (auto simp: table_lookup_Some)
  show "\<exists>t'. table_delete Some k t = (Ok x, t')"
    if "table_inv t" "table_lookup t k = Some x" "\<not> table_pinned t k"
  proof -
    obtain r t' where eq: "table_delete Some k t = (r, t')" by fastforce
    from that(1) eq show ?thesis
    proof (cases rule: table_delete_Some_cases)
      case absent
      with that show ?thesis by (simp add: table_lookup_Some)
    next
      case (parent e)
      with that show ?thesis by (simp add: table_pinned_def children_of_occ)
    next
      case (tombstone e)
      with that show ?thesis by (simp add: table_lookup_Some)
    next
      case (live e y)
      with that eq show ?thesis by (simp add: table_lookup_Some)
    qed
  qed
  show "table_inv t' \<and> table_lookup t' = table_lookup t"
    if "table_inv t" "table_delete Some k t = (Err e, t')"
    using that(1,2)
    by (cases rule: table_delete_Some_cases) (use that in auto)
qed


section \<open>Reachable tables\<close>

text \<open>
  The tables that clients build: any sequence of method calls from an empty
  table, as long as an entry is only ever linked to a parent that is present.
\<close>

inductive table_reach :: "'a table \<Rightarrow> bool" where
  reach_new: "table_reach table_new"
| reach_debug: "table_reach t \<Longrightarrow> table_reach (table_enable_debug b t)"
| reach_push: "table_reach t \<Longrightarrow> table_push x t = (r, t') \<Longrightarrow> table_reach t'"
| reach_add_child: "table_reach t \<Longrightarrow> is_ok (table_occupied p t) \<Longrightarrow>
    table_add_child c p t = (r, t') \<Longrightarrow> \<not> panics r \<Longrightarrow> table_reach t'"
| reach_remove_child: "table_reach t \<Longrightarrow> table_remove_child c p t = (r, t') \<Longrightarrow> \<not> panics r \<Longrightarrow> table_reach t'"
| reach_get_mut: "table_reach t \<Longrightarrow> table_get_mut (down :: 'a \<Rightarrow> 'a option) up k f t = (r, t') \<Longrightarrow> table_reach t'"
| reach_delete: "table_reach t \<Longrightarrow> table_delete (down :: 'a \<Rightarrow> 'a option) k t = (r, t') \<Longrightarrow> table_reach t'"

lemma table_add_child_occ:
  assumes c: "table_occ t c = Some ce" "te_parent ce = None" and p: "table_occ t p = Some pe"
    and ne: "c \<noteq> p" "c \<notin> te_children pe"
  shows "\<exists>t1. table_add_child c p t = (Ok (), t1) \<and>
     table_occ t1 = (table_occ t)(c \<mapsto> ce\<lparr>te_parent := Some p\<rparr>, p \<mapsto> pe\<lparr>te_children := insert c (te_children pe)\<rparr>)"
proof -
  let ?t1 = "table_set c (ce\<lparr>te_parent := Some p\<rparr>) t"
  let ?t2 = "table_set p (pe\<lparr>te_children := insert c (te_children pe)\<rparr>) ?t1"
  have occ1: "table_occ ?t1 = (table_occ t)(c \<mapsto> ce\<lparr>te_parent := Some p\<rparr>)" using c(1) by (rule table_occ_set)
  then have p1: "table_occ ?t1 p = Some pe" using p ne by simp
  from table_occ_set [OF this] occ1
  have "table_occ ?t2 = (table_occ t)(c \<mapsto> ce\<lparr>te_parent := Some p\<rparr>, p \<mapsto> pe\<lparr>te_children := insert c (te_children pe)\<rparr>)"
    by simp
  moreover have "table_add_child c p t = (Ok (), ?t2)"
    using c p1 ne by (simp add: table_add_child_def table_occupied_mut_eq entry_add_child_def)
  ultimately show ?thesis by blast
qed

lemma table_occupied_ok: "is_ok (table_occupied p t) \<longleftrightarrow> table_occ t p \<noteq> None"
  by (auto simp: table_occupied_eq split: option.splits)

lemma table_add_child_inv:
  assumes inv: "table_inv t" and p: "table_occ t p = Some pe"
    and eq: "table_add_child c p t = (r, t')" and np: "\<not> panics r"
  shows "table_inv t'"
proof (cases "table_occ t c")
  case None
  with eq inv show ?thesis by (auto simp: table_add_child_def table_occupied_mut_eq [of c])
next
  case (Some ce)
  show ?thesis
  proof (cases "te_parent ce")
    case None
    from table_add_child_Ok [OF inv Some None p] eq show ?thesis by auto
  next
    case (Some q)
    with \<open>table_occ t c = Some ce\<close> eq np show ?thesis
      by (auto simp: table_add_child_def table_occupied_mut_eq [of c])
  qed
qed

lemma table_remove_child_inv:
  assumes inv: "table_inv t" and eq: "table_remove_child c p t = (r, t')" and np: "\<not> panics r"
  shows "table_inv t'"
proof (cases "table_occ t c")
  case None
  with eq inv show ?thesis by (auto simp: table_remove_child_def table_occupied_mut_eq [of c])
next
  case (Some ce)
  show ?thesis
  proof (cases "te_parent ce = Some p")
    case True
    from table_remove_child_Ok [OF inv Some True] eq show ?thesis by auto
  next
    case False
    with Some eq np show ?thesis by (auto simp: table_remove_child_def table_occupied_mut_eq [of c])
  qed
qed

lemma table_delete_inv:
  assumes inv: "table_inv t" and eq: "table_delete down k t = (r, t')"
  shows "table_inv t'" and "\<not> panics r"
proof -
  obtain r2 where any: "table_delete Some k t = (r2, t')"
    using eq by (auto simp: table_delete_def and_then_def split: prod.splits outcome.splits)
  show "table_inv t'" using inv any by (cases rule: table_delete_Some_cases) (use inv in auto)
  show "\<not> panics r"
  proof (cases "table_occ t k")
    case None
    with eq show ?thesis by (auto simp: table_delete_def table_delete_entry_def table_occupied_eq)
  next
    case (Some e)
    with eq table_delete_entry_live [OF inv Some] show ?thesis
      by (cases "te_children e = {}")
         (auto simp: table_delete_def table_delete_entry_def table_occupied_eq split: option.splits)
  qed
qed

lemma table_reach_inv: "table_reach t \<Longrightarrow> table_inv t"
proof (induction rule: table_reach.induct)
  case (reach_debug t b)
  moreover have "table_occ (table_enable_debug b t) = table_occ t"
    by (rule table_occ_cong) (simp add: table_enable_debug_def)
  ultimately show ?case by (simp add: table_inv_def table_enable_debug_def)
next
  case (reach_push t x r t')
  from reach_push.IH show ?case
    by (cases rule: table_push_cases [where x = x]) (use reach_push in auto)
next
  case (reach_add_child t p c r t')
  then show ?case by (auto simp: table_occupied_ok intro: table_add_child_inv)
next
  case (reach_get_mut t down up k f r t')
  then show ?case
    by (auto simp: table_get_mut_eq split: option.splits intro: table_set_payload(1))
qed (auto intro: table_remove_child_inv table_delete_inv(1))


section \<open>Properties\<close>

text \<open>Two small tables, built by \<open>push\<close>.\<close>

definition example_one :: "nat table" where
  "example_one = \<lparr>tb_entries = [TOccupied (table_entry_new (Boxed 7) None)],
     tb_free_head = None, tb_debug = False\<rparr>"

definition example_two :: "nat table" where
  "example_two = \<lparr>tb_entries = [TOccupied (table_entry_new (Boxed 7) None), TOccupied (table_entry_new (Boxed 8) None)],
     tb_free_head = None, tb_debug = False\<rparr>"

lemmas example_defs = example_one_def example_two_def table_lookup_def table_occ_def vec_get_def
  table_entry_new_def

lemma example_one_reach: "table_reach example_one"
proof -
  have "table_push 7 table_new = (Ok 0, example_one)"
    by (simp add: table_push_def table_push_entry_def table_pop_free_list_def table_new_def
          u32_try_from_def example_one_def)
  then show ?thesis by (rule reach_push [OF reach_new])
qed

lemma example_two_reach: "table_reach example_two"
proof -
  have "table_push 8 example_one = (Ok 1, example_two)"
    by (simp add: table_push_def table_push_entry_def table_pop_free_list_def
          u32_try_from_def u32_max_def example_one_def example_two_def)
  then show ?thesis by (rule reach_push [OF example_one_reach])
qed



text \<open>
  Linking a childless entry to a parent that is present succeeds and makes
  the parent undeletable; deleting the child succeeds and is enough to make the
  parent deletable again.
\<close>

theorem table_child_pins_parent:
  assumes inv: "table_inv t" and c: "table_occ t c = Some ce" "te_parent ce = None" "te_children ce = {}"
    and p: "table_occ t p = Some pe" "te_children pe = {}" and ne: "c \<noteq> p"
  shows "\<exists>t1 t2 t3 e e'. table_add_child c p t = (Ok (), t1) \<and>
      table_delete_entry p t1 = (Err HasChildren, t1) \<and>
      table_delete_entry c t1 = (Ok e, t2) \<and> te_entry e = te_entry ce \<and>
      table_delete_entry p t2 = (Ok e', t3) \<and> te_entry e' = te_entry pe \<and> table_inv t3"
proof -
  let ?occ1 = "(table_occ t)(c \<mapsto> ce\<lparr>te_parent := Some p\<rparr>, p \<mapsto> pe\<lparr>te_children := {c}\<rparr>)"
  from table_add_child_Ok [OF inv c(1,2) p(1)] obtain t1 where
    add: "table_add_child c p t = (Ok (), t1)" and inv1: "table_inv t1" by auto
  have occ1: "table_occ t1 = ?occ1"
    using table_add_child_occ [OF c(1,2) p(1) ne] add p(2) by auto
  then have pin: "table_delete_entry p t1 = (Err HasChildren, t1)"
    by (simp add: table_delete_entry_def table_occupied_eq)
  have c1: "table_occ t1 c = Some (ce\<lparr>te_parent := Some p\<rparr>)" using occ1 ne by simp
  from table_delete_entry_live [OF inv1 c1] c obtain t2 where
    d: "table_delete_entry c t1 = (Ok (ce\<lparr>te_parent := Some p\<rparr>), t2)" "table_inv t2" by auto
  from inv1 c1 obtain t3 x where fr: "table_free_entry c t1 = (Ok (ce\<lparr>te_parent := Some p\<rparr>), t3)"
    "table_occ t3 = (table_occ t1)(c := x)" by (rule table_free_entry_live)
  then have "table_occ t3 p = Some (pe\<lparr>te_children := {c}\<rparr>)" using occ1 ne by simp
  with d(1) fr(1) c1 c have p2: "table_occ t2 p = Some (pe\<lparr>te_children := {}\<rparr>)"
    by (auto simp: table_delete_entry_def table_occupied_eq table_occupied_mut_eq entry_remove_child_def)
  from table_delete_entry_live [OF d(2) p2] obtain t4 where
    "table_delete_entry p t2 = (Ok (pe\<lparr>te_children := {}\<rparr>), t4)" "table_inv t4" by auto
  with add pin d show ?thesis by fastforce
qed


theorem table_child_pins_parent_witness:
  "table_inv example_two \<and>
   (\<exists>t1 t2 t3 e e'. table_add_child 1 0 example_two = (Ok (), t1) \<and>
      table_delete_entry 0 t1 = (Err HasChildren, t1) \<and>
      table_delete_entry 1 t1 = (Ok e, t2) \<and> te_entry e = Boxed 8 \<and>
      table_delete_entry 0 t2 = (Ok e', t3) \<and> te_entry e' = Boxed 7 \<and> table_inv t3)"
proof -
  have inv: "table_inv example_two" by (rule table_reach_inv [OF example_two_reach])
  have occ: "table_occ example_two 1 = Some (table_entry_new (Boxed 8) None)"
    "table_occ example_two 0 = Some (table_entry_new (Boxed 7) None)" by (simp_all add: example_defs)
  from table_child_pins_parent [OF inv occ(1) _ _ occ(2)] inv show ?thesis
    by (simp add: table_entry_new_def)
qed

text \<open>
  Linking a child to a parent that is not in the table reports the error but
  leaves the child pointing at the missing parent: from a reachable table, the
  next deletion of that child panics.
\<close>

theorem table_add_child_dangling:
  "\<exists>t :: nat table. table_reach t \<and> fst (table_add_child 0 1 t) = Err NotPresent \<and>
     parent_of (table_occ (snd (table_add_child 0 1 t))) 0 = Some 1 \<and>
     fst (table_delete (Some :: nat \<Rightarrow> nat option) 0 (snd (table_add_child 0 1 t))) = Panic ''missing parent''"
  by (intro exI [of _ example_one] conjI example_one_reach)
     (simp_all add: table_add_child_def table_occupied_mut_eq example_defs parent_of_def
        table_delete_def table_delete_entry_def table_occupied_eq table_free_entry_def)

text \<open>
  Deleting a childless entry under the wrong type reports \<open>WrongType\<close>, but the
  entry is gone: a second deletion under the right type does not return it.
\<close>

theorem table_delete_wrong_type:
  assumes inv: "table_inv t" and e: "table_occ t k = Some e" "te_entry e = Boxed x" "te_children e = {}"
    and wrong: "down x = None"
  shows "\<exists>t'. table_delete down k t = (Err WrongType, t') \<and> table_lookup t' k = None \<and> table_inv t' \<and>
     \<not> is_ok (fst (table_delete Some k t'))"
proof -
  from table_delete_entry_live [OF inv e(1,3)] obtain t' where
    d: "table_delete_entry k t = (Ok e, t')" "table_inv t'" "table_lookup t' = (table_lookup t)(k := None)"
    by blast
  have no: "\<not> is_ok (fst (table_delete Some k t'))"
  proof
    assume "is_ok (fst (table_delete Some k t'))"
    then obtain y t2 where "table_delete Some k t' = (Ok y, t2)"
      by (cases "table_delete Some k t'"; cases "fst (table_delete Some k t')") auto
    with async_table.remove_Ok [OF d(2)] d(3) show False by fastforce
  qed
  with d wrong e(2) show ?thesis by (simp add: table_delete_def)
qed

theorem table_delete_wrong_type_witness:
  "\<exists>t'. table_delete (\<lambda>_. None :: bool option) 0 example_one = (Err WrongType, t') \<and> table_lookup t' 0 = None"
  using table_delete_wrong_type [OF table_reach_inv [OF example_one_reach], of 0
      "table_entry_new (Boxed 7) None" 7 "\<lambda>_. None :: bool option"]
  by (auto simp: example_defs)

end
