(* ===== verification/State_Table.thy ===== *)
theory State_Table
  imports Free_List
begin

text \<open>
  The per-component handle table of the concurrent runtime,
  \<open>crates/wasmtime/src/runtime/component/concurrent/states.rs\<close>: handle indices
  handed to a guest, each with the representation it stands for and a state, and
  the inverse map from representations to handle indices.  The free list is
  terminated by the length of the vector; index 0 is never handed out.
\<close>

section \<open>Data and operations\<close>

definition MAX_HANDLE :: nat where
  "MAX_HANDLE = 2 ^ 30"

datatype state_error = RepExists nat | HandleOverflow | UnknownHandle nat

datatype 's state_slot = StFree nat | StOccupied nat 's

record 's state_table =
  st_next :: nat
  st_slots :: "'s state_slot list"
  st_reps :: "nat list"

definition st_default :: "'s state_table" where
  "st_default = \<lparr>st_next = 0, st_slots = [], st_reps = []\<rparr>"

fun st_slot_free :: "'s state_slot \<Rightarrow> bool" where
  "st_slot_free (StFree n) = True"
| "st_slot_free (StOccupied r s) = False"

definition st_is_empty :: "'s state_table \<Rightarrow> bool" where
  "st_is_empty t = list_all st_slot_free (st_slots t)"

text \<open>Extending the vector when the free list is empty.\<close>

definition st_grow :: "'s state_table \<Rightarrow> (state_error, unit, 's state_table) result" where
  "st_grow t =
     (if st_next t = length (st_slots t) then
        (case u32_checked_add (st_next t) 1 of
           Some n \<Rightarrow> (Ok (), t\<lparr>st_slots := st_slots t @ [StFree n]\<rparr>)
         | None \<Rightarrow> (Panic ''unwrap on None'', t))
      else (Ok (), t))"

text \<open>Occupying the slot at the head of the free list.\<close>

definition st_occupy :: "nat \<Rightarrow> 's \<Rightarrow> 's state_table \<Rightarrow> (state_error, nat, 's state_table) result" where
  "st_occupy rep state t =
     (case vec_get (st_slots t) (st_next t) of
        None \<Rightarrow> (Panic ''index out of bounds'', t)
      | Some slot \<Rightarrow>
          (let t' = t\<lparr>st_slots := (st_slots t)[st_next t := StOccupied rep state]\<rparr> in
           case slot of
             StFree n \<Rightarrow> (Ok (st_next t), t'\<lparr>st_next := n\<rparr>)
           | StOccupied r s \<Rightarrow> (Panic ''unreachable'', t')))"

text \<open>Recording the inverse map, growing it with zeros.\<close>

definition st_record :: "nat \<Rightarrow> nat \<Rightarrow> 's state_table \<Rightarrow> 's state_table" where
  "st_record rep ret t =
     (let r = (if length (st_reps t) \<le> rep
               then st_reps t @ replicate (rep + 1 - length (st_reps t)) 0 else st_reps t)
      in t\<lparr>st_reps := r[rep := ret]\<rparr>)"

definition st_insert :: "nat \<Rightarrow> 's \<Rightarrow> 's state_table \<Rightarrow> (state_error, nat, 's state_table) result" where
  "st_insert rep state t =
     (case vec_get (st_reps t) rep of
        Some (Suc idx) \<Rightarrow> (Err (RepExists rep), t)
      | _ \<Rightarrow>
         and_then (st_grow t) (\<lambda>_ t.
         and_then (st_occupy rep state t) (\<lambda>ret t.
         case u32_checked_add ret 1 of
           None \<Rightarrow> (Panic ''attempt to add with overflow'', t)
         | Some ret \<Rightarrow>
             if ret \<ge> MAX_HANDLE then (Err HandleOverflow, t)
             else (Ok ret, st_record rep ret t))))"

definition st_table_index :: "nat \<Rightarrow> nat option" where
  "st_table_index idx = u32_checked_sub idx 1"

definition st_slot_at :: "nat \<Rightarrow> 's state_table \<Rightarrow> 's state_slot option" where
  "st_slot_at idx t = Option.bind (st_table_index idx) (vec_get (st_slots t))"

definition st_has_handle :: "nat \<Rightarrow> 's state_table \<Rightarrow> bool" where
  "st_has_handle idx t = (case st_slot_at idx t of Some (StOccupied r s) \<Rightarrow> True | _ \<Rightarrow> False)"

text \<open>\<open>get_mut_by_index\<close>: the representation and the state as they are.\<close>

definition st_get_by_index :: "nat \<Rightarrow> 's state_table \<Rightarrow> (state_error, nat \<times> 's) outcome" where
  "st_get_by_index idx t = (case st_slot_at idx t of
      None \<Rightarrow> Err (UnknownHandle idx)
    | Some (StFree n) \<Rightarrow> Err (UnknownHandle idx)
    | Some (StOccupied rep state) \<Rightarrow> Ok (rep, state))"

text \<open>\<open>get_mut_by_index\<close>, with what the caller stores in the borrowed state.\<close>

definition st_get_mut_by_index ::
    "nat \<Rightarrow> ('s \<Rightarrow> 's) \<Rightarrow> 's state_table \<Rightarrow> (state_error, nat \<times> 's, 's state_table) result" where
  "st_get_mut_by_index idx f t = (case st_slot_at idx t of
      None \<Rightarrow> (Err (UnknownHandle idx), t)
    | Some (StFree n) \<Rightarrow> (Err (UnknownHandle idx), t)
    | Some (StOccupied rep state) \<Rightarrow>
        (Ok (rep, state), t\<lparr>st_slots := (st_slots t)[idx - 1 := StOccupied rep (f state)]\<rparr>))"

definition st_get_mut_by_rep ::
    "nat \<Rightarrow> ('s \<Rightarrow> 's) \<Rightarrow> 's state_table \<Rightarrow> (state_error, (nat \<times> 's) option, 's state_table) result" where
  "st_get_mut_by_rep rep f t = (case vec_get (st_reps t) rep of
      None \<Rightarrow> (Ok None, t)
    | Some 0 \<Rightarrow> (Ok None, t)
    | Some (Suc i) \<Rightarrow> (case st_get_mut_by_index (Suc i) f t of
          (Ok (r, state), t) \<Rightarrow> (Ok (Some (Suc i, state)), t)
        | (_, t) \<Rightarrow> (Panic ''unwrap on Err'', t)))"

definition st_remove_by_index :: "nat \<Rightarrow> 's state_table \<Rightarrow> (state_error, nat \<times> 's, 's state_table) result" where
  "st_remove_by_index idx t = (case st_slot_at idx t of
      None \<Rightarrow> (Err (UnknownHandle idx), t)
    | Some (StFree n) \<Rightarrow> (Err (UnknownHandle idx), t)
    | Some (StOccupied rep state) \<Rightarrow>
        (let t' = t\<lparr>st_slots := (st_slots t)[idx - 1 := StFree (st_next t)], st_next := idx - 1\<rparr> in
         case vec_get (st_reps t') rep of
           None \<Rightarrow> (Panic ''index out of bounds'', t')
         | Some i \<Rightarrow>
             if i \<noteq> idx then (Panic ''assertion failed: idx == self.reps_to_indexes[rep]'', t')
             else (Ok (rep, state), t'\<lparr>st_reps := (st_reps t')[rep := 0]\<rparr>)))"


section \<open>The invariant\<close>

fun st_link_of :: "'s state_slot \<Rightarrow> nat option" where
  "st_link_of (StFree n) = Some n"
| "st_link_of (StOccupied r s) = None"

definition st_lookup :: "'s state_table \<Rightarrow> nat \<Rightarrow> (nat \<times> 's) option" where
  "st_lookup t idx = (case st_slot_at idx t of Some (StOccupied r s) \<Rightarrow> Some (r, s) | _ \<Rightarrow> None)"

text \<open>The inverse map, as a function; zero means that there is no entry.\<close>

definition st_index_of :: "'s state_table \<Rightarrow> nat \<Rightarrow> nat" where
  "st_index_of t rep = (case vec_get (st_reps t) rep of Some i \<Rightarrow> i | None \<Rightarrow> 0)"

definition st_inv :: "'s state_table \<Rightarrow> bool" where
  "st_inv t \<longleftrightarrow>
     tail_list_ok st_link_of (st_slots t) (st_next t) \<and>
     length (st_slots t) < MAX_HANDLE \<and>
     (\<forall>idx rep. idx \<noteq> 0 \<longrightarrow> (\<exists>s. st_lookup t idx = Some (rep, s)) \<longleftrightarrow> st_index_of t rep = idx)"

lemma MAX_HANDLE_lt: "MAX_HANDLE < u32_max"
  by (simp add: MAX_HANDLE_def u32_max_def)


lemma st_table_index_simps [simp]: "st_table_index 0 = None" "st_table_index (Suc i) = Some i"
  by (simp_all add: st_table_index_def u32_checked_sub_def)

lemma st_slot_at_simps [simp]: "st_slot_at 0 t = None" "st_slot_at (Suc i) t = vec_get (st_slots t) i"
  by (simp_all add: st_slot_at_def)

lemma st_lookup_0 [simp]: "st_lookup t 0 = None"
  by (simp add: st_lookup_def)

lemma st_lookup_Suc:
  "st_lookup t (Suc i) = Some (r, s) \<longleftrightarrow> i < length (st_slots t) \<and> st_slots t ! i = StOccupied r s"
  by (auto simp: st_lookup_def vec_get_def split: state_slot.splits)

lemma st_lookup_cases:
  "st_lookup t idx = Some (r, s) \<Longrightarrow>
   \<exists>i. idx = Suc i \<and> i < length (st_slots t) \<and> st_slots t ! i = StOccupied r s"
  by (cases idx) (auto simp: st_lookup_Suc)

lemma finite_dom_st_lookup [simp]: "finite (dom (st_lookup t))"
  by (rule finite_subset [of _ "Suc ` {..<length (st_slots t)}"]) (auto dest!: st_lookup_cases)

fun slot_view :: "'s state_slot \<Rightarrow> (nat \<times> 's) option" where
  "slot_view (StFree n) = None"
| "slot_view (StOccupied r s) = Some (r, s)"

lemma st_lookup_view: "st_lookup t (Suc i) = Option.bind (vec_get (st_slots t) i) slot_view"
  by (auto simp: st_lookup_def split: option.splits state_slot.splits)

lemma st_lookup_update:
  "i < length (st_slots t) \<Longrightarrow> st_slots t' = (st_slots t)[i := x] \<Longrightarrow>
   st_lookup t' = (st_lookup t)(Suc i := slot_view x)"
proof (rule ext)
  fix k assume "i < length (st_slots t)" "st_slots t' = (st_slots t)[i := x]"
  then show "st_lookup t' k = ((st_lookup t)(Suc i := slot_view x)) k"
    by (cases k) (auto simp: st_lookup_view vec_get_def nth_update_if)
qed

lemma st_lookup_append:
  "st_slots t' = st_slots t @ [x] \<Longrightarrow>
   st_lookup t' = (st_lookup t)(Suc (length (st_slots t)) := slot_view x)"
proof (rule ext)
  fix k assume "st_slots t' = st_slots t @ [x]"
  then show "st_lookup t' k = ((st_lookup t)(Suc (length (st_slots t)) := slot_view x)) k"
    by (cases k) (auto simp: st_lookup_view vec_get_def nth_append)
qed

lemma st_index_of_record: "st_index_of (st_record rep ret t) = (st_index_of t)(rep := ret)"
  by (auto simp: st_index_of_def st_record_def vec_get_def Let_def nth_append nth_update_if fun_eq_iff)

lemma st_record_simps [simp]:
  "st_slots (st_record rep ret t) = st_slots t" "st_next (st_record rep ret t) = st_next t"
  "st_lookup (st_record rep ret t) = st_lookup t"
  by (auto simp: st_record_def Let_def st_lookup_def st_slot_at_def fun_eq_iff)

lemma st_inv_default [simp]: "st_inv st_default"
proof -
  have "st_lookup (st_default :: 'a state_table) k = None" for k
    by (cases k) (auto simp: st_lookup_view st_default_def vec_get_def)
  then show ?thesis
    by (simp add: st_inv_def st_default_def st_index_of_def vec_get_def MAX_HANDLE_def)
qed

text \<open>Growing and occupying, up to the bound on handles.\<close>

lemma st_grow_occupy:
  assumes inv: "st_inv t"
  shows "\<exists>t1. and_then (st_grow t) (\<lambda>_ t. st_occupy rep s t) = (Ok (st_next t), t1) \<and>
     tail_list_ok st_link_of (st_slots t1) (st_next t1) \<and>
     st_lookup t (Suc (st_next t)) = None \<and>
     st_lookup t1 = (st_lookup t)(Suc (st_next t) \<mapsto> (rep, s)) \<and> st_reps t1 = st_reps t \<and>
     length (st_slots t1) \<le> Suc (length (st_slots t)) \<and> st_next t < length (st_slots t1)"
proof (cases "st_next t = length (st_slots t)")
  case True
  let ?n = "length (st_slots t)"
  from inv True have full: "tail_list_ok st_link_of (st_slots t) ?n"
    and len: "?n < MAX_HANDLE" by (auto simp: st_inv_def)
  let ?t1 = "t\<lparr>st_slots := st_slots t @ [StOccupied rep s], st_next := Suc ?n\<rparr>"
  have "and_then (st_grow t) (\<lambda>_ t. st_occupy rep s t) = (Ok (st_next t), ?t1)"
    using True len MAX_HANDLE_lt
    by (simp add: st_grow_def u32_checked_add_def st_occupy_def vec_get_def)
  moreover have "tail_list_ok st_link_of (st_slots ?t1) (st_next ?t1)"
    using tail_list_grow [OF full] by simp
  moreover have "st_lookup ?t1 = (st_lookup t)(Suc ?n \<mapsto> (rep, s))"
    by (subst st_lookup_append [of _ t]) auto
  moreover have "st_lookup t (Suc ?n) = None" by (simp add: st_lookup_view vec_get_def)
  ultimately show ?thesis using True by auto
next
  case False
  let ?k = "st_next t"
  from inv have "tail_list_ok st_link_of (st_slots t) ?k" by (simp add: st_inv_def)
  then obtain n where k: "?k < length (st_slots t)" and link: "st_link_of (st_slots t ! ?k) = Some n"
    and pop: "\<forall>e. st_link_of e = None \<longrightarrow> tail_list_ok st_link_of ((st_slots t)[?k := e]) n"
    using False by (rule tail_list_pop)
  from link have ent: "st_slots t ! ?k = StFree n" by (cases "st_slots t ! ?k") auto
  let ?t1 = "t\<lparr>st_slots := (st_slots t)[?k := StOccupied rep s], st_next := n\<rparr>"
  have "and_then (st_grow t) (\<lambda>_ t. st_occupy rep s t) = (Ok ?k, ?t1)"
    using False k ent by (simp add: st_grow_def st_occupy_def vec_get_def)
  moreover have "tail_list_ok st_link_of (st_slots ?t1) (st_next ?t1)"
    using pop by simp
  moreover have "st_lookup ?t1 = (st_lookup t)(Suc ?k \<mapsto> (rep, s))"
    using k by (subst st_lookup_update [of ?k t]) auto
  moreover have "st_lookup t (Suc ?k) = None" using k ent by (simp add: st_lookup_view vec_get_def)
  ultimately show ?thesis using k by auto
qed

lemma st_insert_cases:
  assumes inv: "st_inv t"
  obtains (exists_) "st_insert rep s t = (Err (RepExists rep), t)" "st_index_of t rep \<noteq> 0"
    | (done_) idx t' where "st_insert rep s t = (Ok idx, t')" "st_index_of t rep = 0" "0 < idx" "idx < MAX_HANDLE"
        "idx = Suc (st_next t)" "st_inv t'" "st_lookup t idx = None" "st_lookup t' = (st_lookup t)(idx \<mapsto> (rep, s))"
        "st_index_of t' = (st_index_of t)(rep := idx)"
    | (overflow) t' where "st_insert rep s t = (Err HandleOverflow, t')" "st_index_of t rep = 0"
        "MAX_HANDLE \<le> Suc (st_next t)" "st_lookup t' = (st_lookup t)(Suc (st_next t) \<mapsto> (rep, s))"
        "st_index_of t' rep = 0"
proof (cases "st_index_of t rep")
  case (Suc i)
  then show ?thesis
    by (intro exists_) (auto simp: st_insert_def st_index_of_def split: option.splits nat.splits)
next
  case 0
  from st_grow_occupy [OF inv, of rep s] obtain t1 where
    t1: "and_then (st_grow t) (\<lambda>_ t. st_occupy rep s t) = (Ok (st_next t), t1)"
    "tail_list_ok st_link_of (st_slots t1) (st_next t1)"
    "st_lookup t (Suc (st_next t)) = None"
    "st_lookup t1 = (st_lookup t)(Suc (st_next t) \<mapsto> (rep, s))" "st_reps t1 = st_reps t"
    "length (st_slots t1) \<le> Suc (length (st_slots t))" "st_next t < length (st_slots t1)" by blast
  let ?i = "Suc (st_next t)"
  have le: "?i \<le> u32_max"
    using t1(6,7) inv MAX_HANDLE_lt by (auto simp: st_inv_def)
  obtain tg where g: "st_grow t = (Ok (), tg)" "st_occupy rep s tg = (Ok (st_next t), t1)"
    using t1(1) by (auto simp: and_then_Ok_iff)
  have ins: "st_insert rep s t =
      (if MAX_HANDLE \<le> ?i then (Err HandleOverflow, t1) else (Ok ?i, st_record rep ?i t1))"
    using 0 g le
    by (auto simp: st_insert_def st_index_of_def u32_checked_add_def split: option.splits nat.splits)
  have idx1: "st_index_of t1 = st_index_of t" using t1(5) by (simp add: st_index_of_def fun_eq_iff)
  show ?thesis
  proof (cases "MAX_HANDLE \<le> ?i")
    case True
    with ins t1 0 idx1 show ?thesis by (intro overflow [of t1]) auto
  next
    case False
    let ?t = "st_record rep ?i t1"
    have corr: "(\<exists>s. st_lookup t idx = Some (r, s)) \<longleftrightarrow> st_index_of t r = idx" if "idx \<noteq> 0" for idx r
      using inv that by (auto simp: st_inv_def)
    have "st_index_of t r \<noteq> ?i" for r using corr [of ?i r] t1(3) by simp
    moreover have "\<not> (\<exists>s. st_lookup t idx = Some (rep, s))" if "idx \<noteq> 0" for idx
      using corr [OF that, of rep] 0 that by simp
    ultimately have "\<forall>idx r. idx \<noteq> 0 \<longrightarrow> (\<exists>s. st_lookup ?t idx = Some (r, s)) \<longleftrightarrow> st_index_of ?t r = idx"
      using corr by (auto simp: t1(4) st_index_of_record idx1)
    moreover have "length (st_slots t1) < MAX_HANDLE"
    proof (cases "st_next t = length (st_slots t)")
      case True
      with False t1(6) show ?thesis by simp
    next
      case False
      with g have "length (st_slots t1) = length (st_slots t)"
        by (auto simp: st_grow_def st_occupy_def Let_def split: option.splits state_slot.splits)
      with inv show ?thesis by (simp add: st_inv_def)
    qed
    ultimately have "st_inv ?t" using t1(2) unfolding st_inv_def by simp
    with False ins t1 0 idx1 show ?thesis by (intro done_ [of ?i ?t]) (auto simp: st_index_of_record)
  qed
qed


lemma st_get_mut_by_index_live:
  assumes inv: "st_inv t" and l: "st_lookup t idx = Some (rep, s)"
  shows "\<exists>t'. st_get_mut_by_index idx f t = (Ok (rep, s), t') \<and> st_inv t' \<and>
     st_lookup t' = (st_lookup t)(idx \<mapsto> (rep, f s)) \<and> st_index_of t' = st_index_of t"
proof -
  from st_lookup_cases [OF l] obtain i where i: "idx = Suc i" "i < length (st_slots t)"
    "st_slots t ! i = StOccupied rep s" by blast
  let ?t = "t\<lparr>st_slots := (st_slots t)[i := StOccupied rep (f s)]\<rparr>"
  have run: "st_get_mut_by_index idx f t = (Ok (rep, s), ?t)"
    using i by (simp add: st_get_mut_by_index_def vec_get_def)
  have look: "st_lookup ?t = (st_lookup t)(idx \<mapsto> (rep, f s))"
    using i by (subst st_lookup_update [of i t]) auto
  have idx: "st_index_of ?t = st_index_of t" by (simp add: st_index_of_def fun_eq_iff)
  have "tail_list_ok st_link_of ((st_slots t)[i := StOccupied rep (f s)]) (st_next t)"
    using inv i unfolding st_inv_def by (intro tail_list_update) auto
  moreover have "(\<exists>s. st_lookup ?t j = Some (r, s)) \<longleftrightarrow> (\<exists>s. st_lookup t j = Some (r, s))" for j r
    using l by (auto simp: look)
  ultimately have "st_inv ?t" using inv unfolding st_inv_def idx by simp
  with run look idx show ?thesis by blast
qed

lemma st_get_by_index_eq:
  "st_get_by_index idx t = (case st_lookup t idx of None \<Rightarrow> Err (UnknownHandle idx) | Some x \<Rightarrow> Ok x)"
  by (auto simp: st_get_by_index_def st_lookup_def split: option.splits state_slot.splits)

lemma st_remove_dead:
  "st_lookup t idx = None \<Longrightarrow> st_remove_by_index idx t = (Err (UnknownHandle idx), t)"
  "st_lookup t idx = None \<Longrightarrow> st_get_mut_by_index idx f t = (Err (UnknownHandle idx), t)"
  by (auto simp: st_remove_by_index_def st_get_mut_by_index_def st_lookup_def split: option.splits state_slot.splits)

lemma st_remove_live:
  assumes inv: "st_inv t" and l: "st_lookup t idx = Some (rep, s)"
  shows "\<exists>t'. st_remove_by_index idx t = (Ok (rep, s), t') \<and> st_inv t' \<and>
     st_lookup t' = (st_lookup t)(idx := None) \<and> st_index_of t' = (st_index_of t)(rep := 0) \<and>
     Suc (st_next t') = idx"
proof -
  from st_lookup_cases [OF l] obtain i where i: "idx = Suc i" "i < length (st_slots t)"
    "st_slots t ! i = StOccupied rep s" by blast
  have corr: "(\<exists>s. st_lookup t j = Some (r, s)) \<longleftrightarrow> st_index_of t r = j" if "j \<noteq> 0" for j r
    using inv that by (auto simp: st_inv_def)
  have ix: "st_index_of t rep = idx" using corr [of idx rep] l i(1) by auto
  then have rep: "rep < length (st_reps t)" "st_reps t ! rep = idx"
    using i(1) by (auto simp: st_index_of_def vec_get_def split: if_splits)
  let ?t1 = "t\<lparr>st_slots := (st_slots t)[i := StFree (st_next t)], st_next := i\<rparr>"
  let ?t = "?t1\<lparr>st_reps := (st_reps t)[rep := 0]\<rparr>"
  have run: "st_remove_by_index idx t = (Ok (rep, s), ?t)"
    using i rep by (simp add: st_remove_by_index_def vec_get_def Let_def)
  have look: "st_lookup ?t = (st_lookup t)(idx := None)"
    using i by (subst st_lookup_update [of i t]) auto
  have index: "st_index_of ?t = (st_index_of t)(rep := 0)"
    using rep by (auto simp: st_index_of_def vec_get_def fun_eq_iff nth_update_if)
  have "tail_list_ok st_link_of ((st_slots t)[i := StFree (st_next t)]) i"
    using inv i unfolding st_inv_def by (intro tail_list_push [of _ _ "st_next t"]) auto
  moreover have "(\<exists>s. st_lookup ?t j = Some (r, s)) \<longleftrightarrow> st_index_of ?t r = j" if "j \<noteq> 0" for j r
    unfolding look index using corr [OF that, of r] ix l that i(1) corr [of idx r] by auto
  ultimately have "st_inv ?t" using inv i unfolding st_inv_def by simp
  with run look index i show ?thesis by auto
qed

text \<open>The arena interface: a handle stands for a representation and a state.\<close>

definition st_insert_pair :: "nat \<times> 's \<Rightarrow> 's state_table \<Rightarrow> (state_error, nat, 's state_table) result" where
  "st_insert_pair v t = st_insert (fst v) (snd v) t"

interpretation handle_arena: arena st_inv st_lookup st_insert_pair st_remove_by_index "\<lambda>_ _. False"
proof
  fix t t' :: "'s state_table" and v k e
  show "finite (dom (st_lookup t))" by simp
  show "st_inv t' \<and> st_lookup t k = None \<and> st_lookup t' = (st_lookup t)(k \<mapsto> v) \<and> \<not> False"
    if "st_inv t" "st_insert_pair v t = (Ok k, t')"
    using that(1)
    by (cases rule: st_insert_cases [where rep = "fst v" and s = "snd v"])
       (use that in \<open>auto simp: st_insert_pair_def\<close>)
  show "st_inv t' \<and> st_lookup t k = Some v \<and> st_lookup t' = (st_lookup t)(k := None)"
    if "st_inv t" "st_remove_by_index k t = (Ok v, t')"
  proof (cases "st_lookup t k")
    case None
    with that show ?thesis by (simp add: st_remove_dead)
  next
    case (Some w)
    with that st_remove_live [OF that(1), of k "fst w" "snd w"] show ?thesis by auto
  qed
  show "\<exists>t'. st_remove_by_index k t = (Ok v, t')"
    if "st_inv t" "st_lookup t k = Some v"
    using st_remove_live [OF that(1), of k "fst v" "snd v"] that by auto
  show "st_inv t' \<and> st_lookup t' = st_lookup t"
    if "st_inv t" "st_remove_by_index k t = (Err e, t')"
  proof (cases "st_lookup t k")
    case None
    with that show ?thesis by (simp add: st_remove_dead)
  next
    case (Some w)
    with that st_remove_live [OF that(1), of k "fst w" "snd w"] show ?thesis by auto
  qed
qed



section \<open>Reachable tables and properties\<close>

text \<open>The tables that any sequence of calls builds, as long as no insertion overflows.\<close>

inductive st_reach :: "'s state_table \<Rightarrow> bool" where
  st_reach_default: "st_reach st_default"
| st_reach_insert: "st_reach t \<Longrightarrow> st_insert rep s t = (r, t') \<Longrightarrow> r \<noteq> Err HandleOverflow \<Longrightarrow> st_reach t'"
| st_reach_get_mut: "st_reach t \<Longrightarrow> st_get_mut_by_index idx f t = (r, t') \<Longrightarrow> st_reach t'"
| st_reach_remove: "st_reach t \<Longrightarrow> st_remove_by_index idx t = (r, t') \<Longrightarrow> st_reach t'"

lemma st_reach_inv: "st_reach t \<Longrightarrow> st_inv t"
proof (induction rule: st_reach.induct)
  case (st_reach_insert t rep s r t')
  from st_reach_insert.IH show ?case
    by (cases rule: st_insert_cases [where rep = rep and s = s]) (use st_reach_insert in auto)
next
  case (st_reach_get_mut t idx f r t')
  then show ?case
    using st_get_mut_by_index_live [of t idx _ _ f] st_remove_dead(2) [of t idx f]
    by (cases "st_lookup t idx") fastforce+
next
  case (st_reach_remove t idx r t')
  then show ?case
    using st_remove_live [of t idx] st_remove_dead(1) [of t idx]
    by (cases "st_lookup t idx") fastforce+
qed simp

lemma st_get_mut_by_rep_eq:
  assumes inv: "st_inv t"
  shows "\<exists>t'. st_get_mut_by_rep rep f t = (Ok (if st_index_of t rep = 0 then None
     else map_option (\<lambda>(r, s). (st_index_of t rep, s)) (st_lookup t (st_index_of t rep))), t') \<and> st_inv t'"
proof (cases "st_index_of t rep")
  case 0
  then show ?thesis using inv
    by (auto simp: st_get_mut_by_rep_def st_index_of_def split: option.splits nat.splits)
next
  case (Suc i)
  then obtain s where l: "st_lookup t (Suc i) = Some (rep, s)" using inv by (auto simp: st_inv_def)
  have "vec_get (st_reps t) rep = Some (Suc i)"
    using Suc by (auto simp: st_index_of_def split: option.splits)
  with st_get_mut_by_index_live [OF inv l, of f] Suc l show ?thesis by (auto simp: st_get_mut_by_rep_def)
qed

text \<open>
  C12: In every reachable handle table, looking a handle up by index and looking
  it up by representation are inverse to each other, every live index is between
  1 and the maximum handle, and no call panics: not an insertion, not a removal
  and not a lookup by representation.
\<close>

theorem st_handle_bijection:
  assumes "st_reach t"
  shows "(idx \<noteq> 0 \<longrightarrow> (st_get_by_index idx t = Ok (rep, s) \<longleftrightarrow>
            fst (st_get_mut_by_rep rep f t) = Ok (Some (idx, s)))) \<and>
    (st_has_handle idx t \<longrightarrow> 0 < idx \<and> idx < MAX_HANDLE) \<and>
    \<not> panics (fst (st_insert rep s t)) \<and> \<not> panics (fst (st_remove_by_index idx t)) \<and>
    \<not> panics (fst (st_get_mut_by_rep rep f t))"
proof -
  have inv: "st_inv t" using assms by (rule st_reach_inv)
  from st_get_mut_by_rep_eq [OF inv, of rep f] obtain t' where
    g: "st_get_mut_by_rep rep f t = (Ok (if st_index_of t rep = 0 then None
     else map_option (\<lambda>(r, s). (st_index_of t rep, s)) (st_lookup t (st_index_of t rep))), t')" by blast
  have corr: "(\<exists>s. st_lookup t j = Some (r, s)) \<longleftrightarrow> st_index_of t r = j" if "j \<noteq> 0" for j r
    using inv that by (auto simp: st_inv_def)
  have "st_get_by_index idx t = Ok (rep, s) \<longleftrightarrow> fst (st_get_mut_by_rep rep f t) = Ok (Some (idx, s))"
    if "idx \<noteq> 0"
    using corr [OF that, of rep] corr [of "st_index_of t rep" rep] that
    by (auto simp: g st_get_by_index_eq split: option.splits if_splits)
  moreover have "0 < idx \<and> idx < MAX_HANDLE" if "st_has_handle idx t"
    using that inv by (cases idx)
      (auto simp: st_has_handle_def st_inv_def vec_get_def split: if_splits)
  moreover have "\<not> panics (fst (st_insert rep s t))"
    using inv by (cases rule: st_insert_cases [where rep = rep and s = s]) auto
  moreover have "\<not> panics (fst (st_remove_by_index idx t))"
    using st_remove_live [OF inv, of idx] st_remove_dead(1) [of t idx]
    by (cases "st_lookup t idx") fastforce+
  ultimately show ?thesis by (simp add: g)
qed

theorem st_handle_bijection_witness:
  "\<exists>t :: bool state_table. st_reach t \<and> st_get_by_index 1 t = Ok (0, True) \<and>
     fst (st_get_mut_by_rep 0 id t) = Ok (Some (1, True))"
proof -
  let ?t = "\<lparr>st_next = 1, st_slots = [StOccupied 0 True], st_reps = [1]\<rparr>"
  have "st_insert 0 True st_default = (Ok 1, ?t)"
    by (simp add: st_insert_def st_default_def vec_get_def st_grow_def st_occupy_def st_record_def
          u32_checked_add_def u32_max_def MAX_HANDLE_def)
  then have reach: "st_reach ?t" by (rule st_reach_insert [OF st_reach_default]) simp
  moreover have get: "st_get_by_index 1 ?t = Ok (0, True)"
    by (simp add: st_get_by_index_def st_slot_at_def st_table_index_def u32_checked_sub_def vec_get_def)
  moreover have "fst (st_get_mut_by_rep 0 id ?t) = Ok (Some (1, True))"
    using st_handle_bijection [OF reach, of 1 0 True id] get by simp
  ultimately show ?thesis by blast
qed

text \<open>
  An insertion that would exceed the maximum handle reports the overflow but
  leaves the slot occupied and unknown to the inverse map: the new handle is
  live, no representation leads to it, and removing it panics.
\<close>

theorem st_insert_overflow_leaks:
  assumes "st_inv t" and "st_index_of t rep = 0" and "MAX_HANDLE \<le> Suc (st_next t)"
  shows "\<exists>t'. st_insert rep s t = (Err HandleOverflow, t') \<and>
     st_get_by_index (Suc (st_next t)) t' = Ok (rep, s) \<and>
     fst (st_get_mut_by_rep rep f t') = Ok None \<and>
     panics (fst (st_remove_by_index (Suc (st_next t)) t'))"
  using assms(1)
proof (cases rule: st_insert_cases [where rep = rep and s = s])
  case (overflow t')
  have l: "st_lookup t' (Suc (st_next t)) = Some (rep, s)" using overflow by simp
  then have slot: "st_slots t' ! st_next t = StOccupied rep s" "st_next t < length (st_slots t')"
    by (auto simp: st_lookup_Suc)
  have "panics (fst (st_remove_by_index (Suc (st_next t)) t'))"
    using slot overflow(5)
    by (auto simp: st_remove_by_index_def vec_get_def Let_def st_index_of_def)
  moreover have "fst (st_get_mut_by_rep rep f t') = Ok None"
    using overflow(5) by (auto simp: st_get_mut_by_rep_def st_index_of_def split: option.splits nat.splits)
  moreover have "st_get_by_index (Suc (st_next t)) t' = Ok (rep, s)"
    using l by (simp add: st_get_by_index_eq)
  ultimately show ?thesis using overflow(1) by blast
qed (use assms in auto)

text \<open>A table with as many handles as there can be.\<close>

definition st_full :: "nat \<Rightarrow> bool state_table" where
  "st_full n = \<lparr>st_next = n, st_slots = map (\<lambda>i. StOccupied i True) [0..<n], st_reps = map Suc [0..<n]\<rparr>"

lemma st_full_inv: "n < MAX_HANDLE \<Longrightarrow> st_inv (st_full n)"
proof -
  assume n: "n < MAX_HANDLE"
  have "(\<exists>s. st_lookup (st_full n) idx = Some (rep, s)) \<longleftrightarrow> st_index_of (st_full n) rep = idx" if "idx \<noteq> 0" for idx rep
    using that by (cases idx) (auto simp: st_lookup_Suc st_full_def st_index_of_def vec_get_def)
  with n show ?thesis
    by (auto simp: st_inv_def st_full_def tail_list_ok_def tail_link_def intro!: free_list_ok_fullI)
qed

theorem st_insert_overflow_leaks_witness:
  "st_inv (st_full (MAX_HANDLE - 1)) \<and> (\<exists>t'. st_insert MAX_HANDLE True (st_full (MAX_HANDLE - 1)) = (Err HandleOverflow, t') \<and>
     panics (fst (st_remove_by_index MAX_HANDLE t')))"
proof -
  let ?t = "st_full (MAX_HANDLE - 1)"
  have pos: "0 < MAX_HANDLE" by (simp add: MAX_HANDLE_def)
  then have inv: "st_inv ?t" by (intro st_full_inv) simp
  have "st_index_of ?t MAX_HANDLE = 0" "Suc (st_next ?t) = MAX_HANDLE"
    using pos by (auto simp: st_full_def st_index_of_def vec_get_def)
  with st_insert_overflow_leaks [OF inv, of MAX_HANDLE True id] inv show ?thesis by auto
qed

end
