(* ===== verification/Abi_Codes.thy ===== *)
theory Abi_Codes
  imports Prelude
begin

text \<open>
  The integers through which the runtime and the guest exchange call states,
  events and copy results, from \<open>concurrent.rs\<close> (\<open>Status\<close>, \<open>Event\<close>, callback
  codes) and \<open>concurrent/futures_and_streams.rs\<close> (\<open>ReturnCode\<close>).  Payload counts
  are \<open>u32\<close> values, kept as natural numbers; the packed results are 32-bit words.
  Debug assertions are part of the model.
\<close>

unbundle bit_operations_syntax

section \<open>Definitions\<close>

definition BLOCKED :: "32 word" where
  "BLOCKED = 0xffffffff"

datatype status = Starting | Started | Returned | StartCancelled | ReturnCancelled

text \<open>\<open>self as u32\<close>.\<close>

fun status_code :: "status \<Rightarrow> 32 word" where
  "status_code Starting = 0"
| "status_code Started = 1"
| "status_code Returned = 2"
| "status_code StartCancelled = 3"
| "status_code ReturnCancelled = 4"

definition status_pack :: "status \<Rightarrow> nat option \<Rightarrow> ('e, 32 word) outcome" where
  "status_pack s waitable =
     (if (s = Returned) \<noteq> (waitable = None) then Panic ''assertion failed: Returned == waitable.is_none()''
      else (let w = (case waitable of Some w \<Rightarrow> w | None \<Rightarrow> 0) in
        if \<not> w < 2 ^ 28 then Panic ''assertion failed: waitable < (1 << 28)''
        else Ok (push_bit 4 (of_nat w) OR status_code s)))"

datatype transmit_kind = Stream | Future

datatype return_code = Blocked | Completed nat | Dropped nat | Cancelled nat

definition pack_copy_result :: "nat \<Rightarrow> 32 word \<Rightarrow> ('e, 32 word) outcome" where
  "pack_copy_result n tag =
     (if n < 2 ^ 28 then Ok (push_bit 4 (of_nat n) OR tag)
      else Panic ''assertion failed: *n < (1 << 28)'')"

fun return_code_encode :: "return_code \<Rightarrow> ('e, 32 word) outcome" where
  "return_code_encode Blocked = Ok 0xffffffff"
| "return_code_encode (Completed n) = pack_copy_result n 0"
| "return_code_encode (Dropped n) = pack_copy_result n 1"
| "return_code_encode (Cancelled n) = pack_copy_result n 2"

definition return_code_completed :: "transmit_kind \<Rightarrow> nat \<Rightarrow> return_code" where
  "return_code_completed kind count = Completed (case kind of Future \<Rightarrow> 0 | Stream \<Rightarrow> count)"

text \<open>The pending operation that an event completes: a type and a handle.\<close>

datatype event =
    EvNone
  | EvCancelled
  | EvSubtask status
  | StreamRead return_code "(nat \<times> nat) option"
  | StreamWrite return_code "(nat \<times> nat) option"
  | FutureRead return_code "(nat \<times> nat) option"
  | FutureWrite return_code "(nat \<times> nat) option"

fun event_parts :: "event \<Rightarrow> ('e, 32 word \<times> 32 word) outcome" where
  "event_parts EvNone = Ok (0, 0)"
| "event_parts EvCancelled = Ok (6, 0)"
| "event_parts (EvSubtask s) = Ok (1, status_code s)"
| "event_parts (StreamRead c p) = map_ok (\<lambda>w. (2, w)) (return_code_encode c)"
| "event_parts (StreamWrite c p) = map_ok (\<lambda>w. (3, w)) (return_code_encode c)"
| "event_parts (FutureRead c p) = map_ok (\<lambda>w. (4, w)) (return_code_encode c)"
| "event_parts (FutureWrite c p) = map_ok (\<lambda>w. (5, w)) (return_code_encode c)"

definition cb_EXIT :: "32 word" where "cb_EXIT = 0"
definition cb_YIELD :: "32 word" where "cb_YIELD = 1"
definition cb_WAIT :: "32 word" where "cb_WAIT = 2"
definition cb_POLL :: "32 word" where "cb_POLL = 3"

definition unpack_callback_code :: "32 word \<Rightarrow> 32 word \<times> 32 word" where
  "unpack_callback_code code = (code AND 0xF, drop_bit 4 code)"


section \<open>Packing and unpacking\<close>

text \<open>Every packed result is a 28-bit payload above a 4-bit tag.\<close>

definition pack :: "nat \<Rightarrow> 32 word \<Rightarrow> 32 word" where
  "pack n tag = push_bit 4 (of_nat n) OR tag"

lemma mask4: "(0xF :: 32 word) = mask 4"
  by (simp add: mask_eq_exp_minus_1)

lemma take_bit_word_id:
  assumes "unat (w :: 32 word) < 2 ^ k"
  shows "take_bit k w = w"
proof (rule word_unat_eq_iff [THEN iffD2])
  show "unat (take_bit k w) = unat w"
    using assms by (simp add: unsigned_take_bit_eq take_bit_nat_eq_self)
qed

lemma unpack_pack:
  assumes "n < 2 ^ 28" and "tag < 16"
  shows "unpack_callback_code (pack n tag) = (tag, of_nat n)"
proof -
  have tag: "take_bit 4 tag = tag"
    using assms(2) by (intro take_bit_word_id) (simp add: word_less_nat_alt)
  have "unat (drop_bit 4 tag) = 0"
    using assms(2) by (simp add: unsigned_drop_bit_eq drop_bit_eq_div word_less_nat_alt unat_div)
  then have hi: "drop_bit 4 tag = 0" by (simp add: unat_eq_0)
  have n: "take_bit 28 (of_nat n :: 32 word) = of_nat n"
    using assms(1) by (intro take_bit_word_id) (simp add: unat_of_nat)
  have "pack n tag AND 0xF = tag"
    unfolding mask4 take_bit_eq_mask [symmetric] pack_def using tag
    by (simp add: take_bit_or take_bit_push_bit)
  moreover have "drop_bit 4 (pack n tag) = of_nat n"
  proof (rule bit_word_eqI)
    fix k assume k: "k < LENGTH(32)"
    have "\<not> bit (drop_bit 4 tag) k" using hi by simp
    then have "\<not> bit tag (k + 4)" by (simp add: bit_drop_bit_eq add.commute)
    moreover have "bit (of_nat n :: 32 word) k \<longleftrightarrow> k < 28 \<and> bit (of_nat n :: 32 word) k"
      using n by (metis bit_take_bit_iff)
    ultimately show "bit (drop_bit 4 (pack n tag)) k = bit (of_nat n :: 32 word) k"
      using k by (auto simp: pack_def bit_simps add.commute)
  qed
  ultimately show ?thesis by (simp add: unpack_callback_code_def)
qed


lemma pack_eq_iff:
  assumes "n < 2 ^ 28" "tag < 16" "n' < 2 ^ 28" "tag' < 16"
  shows "pack n tag = pack n' tag' \<longleftrightarrow> n = n' \<and> tag = tag'"
proof
  assume eq: "pack n tag = pack n' tag'"
  have "(tag, of_nat n :: 32 word) = (tag', of_nat n')"
    using eq unpack_pack [OF assms(1,2)] unpack_pack [OF assms(3,4)] by simp
  then have "tag = tag'" "unat (of_nat n :: 32 word) = unat (of_nat n' :: 32 word)" by simp_all
  with assms(1,3) show "n = n' \<and> tag = tag'" by (simp add: unat_of_nat)
qed simp

text \<open>No packed result with a tag below 15 is the blocked code.\<close>

lemma pack_not_blocked: "n < 2 ^ 28 \<Longrightarrow> tag < 15 \<Longrightarrow> pack n tag \<noteq> BLOCKED"
proof
  assume n: "n < 2 ^ 28" and tag: "tag < 15" and eq: "pack n tag = BLOCKED"
  have "tag < 16" using tag by (rule less_trans) simp
  with eq unpack_pack [OF n this] have "tag = BLOCKED AND 0xF" by (simp add: unpack_callback_code_def)
  with tag show False by (simp add: BLOCKED_def)
qed

lemma return_code_encode_Ok:
  "return_code_encode c = Ok w \<longleftrightarrow> (case c of
      Blocked \<Rightarrow> w = BLOCKED
    | Completed n \<Rightarrow> n < 2 ^ 28 \<and> w = pack n 0
    | Dropped n \<Rightarrow> n < 2 ^ 28 \<and> w = pack n 1
    | Cancelled n \<Rightarrow> n < 2 ^ 28 \<and> w = pack n 2)"
  by (cases c) (auto simp: pack_copy_result_def pack_def BLOCKED_def)


section \<open>Properties\<close>

text \<open>
  C17: A copy result is packed without loss: two results with the same encoding
  are the same result, and only \<open>Blocked\<close> is encoded as the blocked code.  The
  encoding is defined exactly for counts below \<open>2 ^ 28\<close>; beyond it the debug
  assertion fails.
\<close>

theorem return_code_encode_faithful:
  "(return_code_encode c = Ok w \<and> return_code_encode c' = Ok w \<longrightarrow> c = c') \<and>
   (return_code_encode c = Ok BLOCKED \<longleftrightarrow> c = Blocked) \<and>
   (panics (return_code_encode c) \<longleftrightarrow>
      (case c of Blocked \<Rightarrow> False | Completed n \<Rightarrow> 2 ^ 28 \<le> n | Dropped n \<Rightarrow> 2 ^ 28 \<le> n | Cancelled n \<Rightarrow> 2 ^ 28 \<le> n))"
proof (intro conjI impI)
  assume "return_code_encode c = Ok w \<and> return_code_encode c' = Ok w"
  then show "c = c'"
    by (cases c; cases c')
       (auto simp: return_code_encode_Ok pack_eq_iff pack_not_blocked pack_not_blocked [symmetric]
          simp del: return_code_encode.simps)
next
  show "return_code_encode c = Ok BLOCKED \<longleftrightarrow> c = Blocked"
    by (cases c) (auto simp: return_code_encode_Ok pack_not_blocked pack_not_blocked [symmetric]
          simp del: return_code_encode.simps)
next
  show "panics (return_code_encode c) \<longleftrightarrow>
      (case c of Blocked \<Rightarrow> False | Completed n \<Rightarrow> 2 ^ 28 \<le> n | Dropped n \<Rightarrow> 2 ^ 28 \<le> n | Cancelled n \<Rightarrow> 2 ^ 28 \<le> n)"
    by (cases c) (auto simp: pack_copy_result_def)
qed


theorem return_code_encode_faithful_witness:
  "{c. return_code_encode c = (Ok 0x31 :: (unit, 32 word) outcome)} = {Dropped 3}"
proof -
  have "return_code_encode (Dropped 3) = (Ok 0x31 :: (unit, 32 word) outcome)"
    by (simp add: pack_copy_result_def push_bit_eq_mult)
  with return_code_encode_faithful [of _ "0x31 :: 32 word" "Dropped 3", where 'c = unit and 'd = unit]
  show ?thesis by blast
qed

text \<open>
  C18: Packing a call state with the waitable of the call is lossless where it is
  defined: the low four bits are the state and the remaining bits the waitable,
  as the guest unpacks them; it is defined exactly when the waitable is present
  unless the call has returned, and below \<open>2 ^ 28\<close>.
\<close>

theorem status_pack_faithful:
  "status_pack s waitable = Ok w \<longleftrightarrow>
     ((s = Returned) = (waitable = None)) \<and> (case waitable of Some i \<Rightarrow> i < 2 ^ 28 | None \<Rightarrow> True) \<and>
     unpack_callback_code w = (status_code s, of_nat (case waitable of Some i \<Rightarrow> i | None \<Rightarrow> 0))"
proof -
  let ?n = "case waitable of Some i \<Rightarrow> i | None \<Rightarrow> 0"
  have "status_code s < 16" by (cases s) simp_all
  have inv: "pack ?n (status_code s) = w" if "?n < 2 ^ 28" "unpack_callback_code w = (status_code s, of_nat ?n)"
  proof (rule bit_word_eqI)
    fix k assume k: "k < LENGTH(32)"
    have parts: "w AND 0xF = status_code s" "drop_bit 4 w = of_nat ?n"
      using that(2) by (simp_all add: unpack_callback_code_def)
    show "bit (pack ?n (status_code s)) k = bit w k"
    proof (cases "k < 4")
      case True
      then show ?thesis
        unfolding pack_def parts(1) [symmetric] mask4 using k by (auto simp: bit_simps)
    next
      case False
      then show ?thesis
        unfolding pack_def parts [symmetric] mask4 using k by (auto simp: bit_simps)
    qed
  qed
  have bound: "(case waitable of Some i \<Rightarrow> i < 2 ^ 28 | None \<Rightarrow> True) \<longleftrightarrow> ?n < 2 ^ 28"
    by (cases waitable) simp_all
  have "status_pack s waitable = Ok w \<longleftrightarrow>
      ((s = Returned) = (waitable = None)) \<and> ?n < 2 ^ 28 \<and> pack ?n (status_code s) = w"
    by (auto simp: status_pack_def Let_def pack_def)
  then show ?thesis
    unfolding bound using inv unpack_pack [OF _ \<open>status_code s < 16\<close>, of ?n] by blast
qed

text \<open>
  The handle tables hand out indices up to \<open>2 ^ 30\<close>, but the packed state has
  28 bits for them: there are waitable indices that the tables may produce and
  with which packing panics.
\<close>

theorem status_pack_narrower_than_handles:
  "\<exists>i. i < 2 ^ 30 \<and> panics (status_pack Starting (Some i))"
  by (intro exI [of _ "2 ^ 28"]) (simp add: status_pack_def)

end
