(* ===== verification/Buffers.thy ===== *)
theory Buffers
  imports Slab
begin

text \<open>
  The host-side buffers of streams and futures,
  \<open>concurrent/futures_and_streams/buffers.rs\<close>: the \<open>WriteBuffer\<close> and
  \<open>ReadBuffer\<close> traits on \<open>Option\<close>, \<open>VecBuffer\<close> and \<open>Vec\<close>.  \<open>take\<close> hands a slice
  of items to a closure; it is a function that returns the slice together with
  the buffer it leaves behind, and \<open>move_from\<close> of the reading side is that
  closure.
\<close>

section \<open>Buffers to write from\<close>

record 'a vec_buffer =
  vb_buffer :: "'a list"
  vb_offset :: nat

definition vec_buffer_from :: "'a list \<Rightarrow> 'a vec_buffer" where
  "vec_buffer_from xs = \<lparr>vb_buffer = xs, vb_offset = 0\<rparr>"

definition vec_buffer_remaining :: "'a vec_buffer \<Rightarrow> 'a list" where
  "vec_buffer_remaining b = drop (vb_offset b) (vb_buffer b)"

definition vec_buffer_skip :: "nat \<Rightarrow> 'a vec_buffer \<Rightarrow> ('e, unit, 'a vec_buffer) result" where
  "vec_buffer_skip count b =
     (if count \<le> length (vec_buffer_remaining b) then (Ok (), b\<lparr>vb_offset := vb_offset b + count\<rparr>)
      else (Panic ''assertion failed: count <= self.remaining_().len()'', b))"

definition vec_buffer_reset :: "'a vec_buffer \<Rightarrow> ('e, unit, 'a vec_buffer) result" where
  "vec_buffer_reset b = and_then (vec_buffer_skip (length (vec_buffer_remaining b)) b) (\<lambda>_ b.
     (Ok (), b\<lparr>vb_buffer := [], vb_offset := 0\<rparr>))"

text \<open>The slice starts at the old offset and runs to the end of the vector.\<close>

definition vec_buffer_take :: "nat \<Rightarrow> 'a vec_buffer \<Rightarrow> ('e, 'a list, 'a vec_buffer) result" where
  "vec_buffer_take count b =
     (if count \<le> length (vec_buffer_remaining b)
      then (let b = b\<lparr>vb_offset := vb_offset b + count\<rparr>
            in (Ok (drop (vb_offset b - count) (vb_buffer b)), b))
      else (Panic ''assertion failed: count <= self.remaining().len()'', b))"

fun option_remaining :: "'a option \<Rightarrow> 'a list" where
  "option_remaining (Some x) = [x]"
| "option_remaining None = []"

definition option_skip :: "nat \<Rightarrow> 'a option \<Rightarrow> ('e, unit, 'a option) result" where
  "option_skip count b =
     (if count = 0 then (Ok (), b)
      else if count = 1 then
        (if b \<noteq> None then (Ok (), None) else (Panic ''assertion failed: self.is_some()'', b))
      else (Panic ''cannot skip more than the remaining items'', b))"

definition option_take :: "nat \<Rightarrow> 'a option \<Rightarrow> ('e, 'a list, 'a option) result" where
  "option_take count b =
     (if count = 0 then (Ok [], b)
      else if count = 1 then
        (case b of Some x \<Rightarrow> (Ok [x], None) | None \<Rightarrow> (Panic ''unwrap on None'', None))
      else (Panic ''cannot forget more than the remaining items'', b))"

text \<open>A \<open>dyn WriteBuffer<T>\<close> is one of the implementations.\<close>

datatype 'a write_buffer = WbOption "'a option" | WbVec "'a vec_buffer"

fun wb_remaining :: "'a write_buffer \<Rightarrow> 'a list" where
  "wb_remaining (WbOption b) = option_remaining b"
| "wb_remaining (WbVec b) = vec_buffer_remaining b"

fun wb_skip :: "nat \<Rightarrow> 'a write_buffer \<Rightarrow> ('e, unit, 'a write_buffer) result" where
  "wb_skip n (WbOption b) = map_prod id WbOption (option_skip n b)"
| "wb_skip n (WbVec b) = map_prod id WbVec (vec_buffer_skip n b)"

fun wb_take :: "nat \<Rightarrow> 'a write_buffer \<Rightarrow> ('e, 'a list, 'a write_buffer) result" where
  "wb_take n (WbOption b) = map_prod id WbOption (option_take n b)"
| "wb_take n (WbVec b) = map_prod id WbVec (vec_buffer_take n b)"


section \<open>Buffers to read into\<close>

text \<open>A \<open>Vec\<close> is its items and its capacity; it grows as the standard library grows it.\<close>

record 'a vec =
  vec_items :: "'a list"
  vec_capacity :: nat

definition vec_reserve :: "nat \<Rightarrow> 'a vec \<Rightarrow> 'a vec" where
  "vec_reserve n v = v\<lparr>vec_capacity := amortized_grow (vec_capacity v) (length (vec_items v)) n\<rparr>"

definition vec_push :: "'a \<Rightarrow> 'a vec \<Rightarrow> 'a vec" where
  "vec_push x v = (let v = vec_reserve 1 v in v\<lparr>vec_items := vec_items v @ [x]\<rparr>)"

datatype 'a read_buffer = RbOption "'a option" | RbVec "'a vec"

fun rb_items :: "'a read_buffer \<Rightarrow> 'a list" where
  "rb_items (RbOption b) = option_remaining b"
| "rb_items (RbVec v) = vec_items v"

fun rb_remaining_capacity :: "'a read_buffer \<Rightarrow> ('e, nat) outcome" where
  "rb_remaining_capacity (RbOption b) = Ok (if b = None then 1 else 0)"
| "rb_remaining_capacity (RbVec v) =
     (if length (vec_items v) \<le> vec_capacity v then Ok (vec_capacity v - length (vec_items v))
      else Panic ''unwrap on None'')"

fun rb_extend :: "'a list \<Rightarrow> 'a read_buffer \<Rightarrow> ('e, unit, 'a read_buffer) result" where
  "rb_extend xs (RbOption b) =
     (let (b', rest) = (case b of
          None \<Rightarrow> (case xs of [] \<Rightarrow> (None, []) | x # ys \<Rightarrow> (Some x, ys))
        | Some y \<Rightarrow> (Some y, xs))
      in if rest = [] then (Ok (), RbOption b')
         else (Panic ''assertion failed: iter.next().is_none()'', RbOption b'))"
| "rb_extend xs (RbVec v) =
     (Ok (), RbVec (let v = vec_reserve (length xs) v in v\<lparr>vec_items := vec_items v @ xs\<rparr>))"

text \<open>\<open>move_from\<close>, on the two buffers it mutates.\<close>

fun rb_move_from ::
    "nat \<Rightarrow> 'a read_buffer \<times> 'a write_buffer \<Rightarrow> ('e, unit, 'a read_buffer \<times> 'a write_buffer) result" where
  "rb_move_from count (RbOption b, input) =
     (if count = 0 then (Ok (), (RbOption b, input))
      else if count = 1 then
        (if b \<noteq> None then (Panic ''assertion failed: self.is_none()'', (RbOption b, input))
         else (case wb_take 1 input of
             (Ok (x # xs), input) \<Rightarrow> (Ok (), (RbOption (Some x), input))
           | (Ok [], input) \<Rightarrow> (Panic ''index out of bounds'', (RbOption b, input))
           | (Err e, input) \<Rightarrow> (Err e, (RbOption b, input))
           | (Panic p, input) \<Rightarrow> (Panic p, (RbOption b, input))))
      else (Panic ''cannot take more than the remaining capacity'', (RbOption b, input)))"
| "rb_move_from count (RbVec v, input) =
     (case rb_remaining_capacity (RbVec v) of
        Ok cap \<Rightarrow>
          (if count \<le> cap then
             (case wb_take count input of
                (Ok items, input) \<Rightarrow> (Ok (), (RbVec (fold vec_push items v), input))
              | (Err e, input) \<Rightarrow> (Err e, (RbVec v, input))
              | (Panic p, input) \<Rightarrow> (Panic p, (RbVec v, input)))
           else (Panic ''assertion failed: count <= self.remaining_capacity()'', (RbVec v, input)))
      | Err e \<Rightarrow> (Err e, (RbVec v, input))
      | Panic p \<Rightarrow> (Panic p, (RbVec v, input)))"


section \<open>Facts about the buffers\<close>

fun wb_ok :: "'a write_buffer \<Rightarrow> bool" where
  "wb_ok (WbOption b) = True"
| "wb_ok (WbVec b) = (vb_offset b \<le> length (vb_buffer b))"

fun rb_ok :: "'a read_buffer \<Rightarrow> bool" where
  "rb_ok (RbOption b) = True"
| "rb_ok (RbVec v) = (length (vec_items v) \<le> vec_capacity v)"

text \<open>The slice \<open>take\<close> hands to its closure.\<close>

fun take_slice :: "nat \<Rightarrow> 'a write_buffer \<Rightarrow> 'a list" where
  "take_slice n (WbOption b) = take n (option_remaining b)"
| "take_slice n (WbVec b) = vec_buffer_remaining b"

lemma length_option_remaining: "length (option_remaining b) = (if b = None then 0 else 1)"
  by (cases b) auto

lemma wb_take_spec:
  assumes "n \<le> length (wb_remaining w)"
  obtains w' where "wb_take n w = ((Ok (take_slice n w) :: ('e, 'a list) outcome), w')" and "wb_remaining w' = drop n (wb_remaining w)"
    and "wb_ok w \<Longrightarrow> wb_ok w'"
proof (cases w)
  case (WbOption b)
  with assms have "n = 0 \<or> n = 1 \<and> b \<noteq> None" by (cases b) auto
  with WbOption that show ?thesis by (cases b) (auto simp: option_take_def)
next
  case (WbVec b)
  show ?thesis
  proof
    show "wb_take n w = (Ok (take_slice n w), WbVec (b\<lparr>vb_offset := vb_offset b + n\<rparr>))"
      using WbVec assms by (simp add: vec_buffer_take_def vec_buffer_remaining_def)
    show "wb_remaining (WbVec (b\<lparr>vb_offset := vb_offset b + n\<rparr>)) = drop n (wb_remaining w)"
      using WbVec by (simp add: vec_buffer_remaining_def add.commute)
    show "wb_ok (WbVec (b\<lparr>vb_offset := vb_offset b + n\<rparr>))" if "wb_ok w"
      using WbVec assms that by (simp add: vec_buffer_remaining_def)
  qed
qed

lemma wb_skip_spec:
  assumes "n \<le> length (wb_remaining w)"
  obtains w' where "wb_skip n w = ((Ok () :: ('e, unit) outcome), w')" and "wb_remaining w' = drop n (wb_remaining w)"
    and "wb_ok w \<Longrightarrow> wb_ok w'"
proof (cases w)
  case (WbOption b)
  with assms have "n = 0 \<or> n = 1 \<and> b \<noteq> None" by (cases b) auto
  with WbOption that show ?thesis by (cases b) (auto simp: option_skip_def)
next
  case (WbVec b)
  show ?thesis
  proof
    show "wb_skip n w = (Ok (), WbVec (b\<lparr>vb_offset := vb_offset b + n\<rparr>))"
      using WbVec assms by (simp add: vec_buffer_skip_def)
    show "wb_remaining (WbVec (b\<lparr>vb_offset := vb_offset b + n\<rparr>)) = drop n (wb_remaining w)"
      using WbVec by (simp add: vec_buffer_remaining_def add.commute)
    show "wb_ok (WbVec (b\<lparr>vb_offset := vb_offset b + n\<rparr>))" if "wb_ok w"
      using WbVec assms that by (simp add: vec_buffer_remaining_def)
  qed
qed

lemma vec_push_items [simp]: "vec_items (vec_push x v) = vec_items v @ [x]"
  by (simp add: vec_push_def vec_reserve_def)

lemma vec_push_ok:
  "length (vec_items v) \<le> vec_capacity v \<Longrightarrow> length (vec_items (vec_push x v)) \<le> vec_capacity (vec_push x v)"
  by (auto simp: vec_push_def vec_reserve_def amortized_grow_def Let_def)

lemma fold_vec_push_items [simp]: "vec_items (fold vec_push xs v) = vec_items v @ xs"
  by (induction xs arbitrary: v) auto

lemma fold_vec_push_ok:
  "length (vec_items v) \<le> vec_capacity v \<Longrightarrow>
   length (vec_items v) + length xs \<le> vec_capacity (fold vec_push xs v)"
proof (induction xs arbitrary: v)
  case (Cons x xs)
  from Cons.IH [OF vec_push_ok [OF Cons.prems]] show ?case by simp
qed simp

text \<open>Moving into a buffer that has room, from one that has the items.\<close>

lemma rb_move_from_spec:
  assumes cap: "rb_remaining_capacity r = (Ok cap :: ('e, nat) outcome)"
    and n: "n \<le> cap" "n \<le> length (wb_remaining w)"
  obtains r' w' where "rb_move_from n (r, w) = ((Ok () :: ('e, unit) outcome), (r', w'))"
    and "wb_remaining w' = drop n (wb_remaining w)" and "wb_ok w \<Longrightarrow> wb_ok w'" and "rb_ok r \<Longrightarrow> rb_ok r'"
    and "rb_items r' = rb_items r @
      (case r of RbVec v \<Rightarrow> take_slice n w | RbOption b \<Rightarrow> take n (take_slice n w))"
proof (cases r)
  case (RbVec v)
  from wb_take_spec [OF n(2), where 'e = 'e] obtain w'
    where w': "wb_take n w = ((Ok (take_slice n w) :: ('e, _) outcome), w')"
      "wb_remaining w' = drop n (wb_remaining w)" "wb_ok w \<Longrightarrow> wb_ok w'" by blast
  from RbVec cap have c: "length (vec_items v) \<le> vec_capacity v" "cap = vec_capacity v - length (vec_items v)"
    by (auto split: if_splits)
  show ?thesis
    using RbVec c n(1) w' fold_vec_push_ok [OF c(1)]
    by (intro that [of "RbVec (fold vec_push (take_slice n w) v)" w']) auto
next
  case (RbOption b)
  with cap n(1) have "n = 0 \<or> n = 1 \<and> b = None" by (auto split: if_splits)
  then show ?thesis
  proof
    assume "n = 0"
    with RbOption show ?thesis by (intro that [of r w]) auto
  next
    assume nb: "n = 1 \<and> b = None"
    from wb_take_spec [OF n(2), where 'e = 'e] obtain w'
      where w': "wb_take n w = ((Ok (take_slice n w) :: ('e, _) outcome), w')"
        "wb_remaining w' = drop n (wb_remaining w)" "wb_ok w \<Longrightarrow> wb_ok w'" by blast
    have "take_slice n w \<noteq> []" using n(2) nb by (cases w) auto
    then obtain x xs where x: "take_slice n w = x # xs" by (cases "take_slice n w") auto
    show ?thesis
      using RbOption nb w' x by (intro that [of "RbOption (Some x)" w']) auto
  qed
qed

declare rb_move_from.simps [simp del]


section \<open>Properties\<close>

text \<open>
  C19: Moving \<open>n\<close> items from a write buffer into a read buffer with room for them
  takes exactly the first \<open>n\<close> items away from the writer.  What the reader gains
  is those \<open>n\<close> items when the reader is an \<open>Option\<close>, when the writer is an
  \<open>Option\<close>, or when \<open>n\<close> is everything the writer has left.
\<close>

theorem move_from_transfers:
  assumes cap: "rb_remaining_capacity r = (Ok cap :: (unit, nat) outcome)" and wok: "wb_ok w"
    and n: "n \<le> cap" "n \<le> length (wb_remaining w)"
    and fit: "n = length (wb_remaining w) \<or> (\<exists>b. r = RbOption b) \<or> (\<exists>b. w = WbOption b)"
  shows "\<exists>r' w'. rb_move_from n (r, w) = ((Ok () :: (unit, unit) outcome), (r', w')) \<and>
     rb_items r' = rb_items r @ take n (wb_remaining w) \<and>
     wb_remaining w' = drop n (wb_remaining w) \<and> wb_ok w'"
proof -
  from rb_move_from_spec [OF cap n] obtain r' w'
    where m: "rb_move_from n (r, w) = ((Ok () :: (unit, unit) outcome), (r', w'))"
      "wb_remaining w' = drop n (wb_remaining w)" "wb_ok w \<Longrightarrow> wb_ok w'"
      "rb_items r' = rb_items r @
        (case r of RbVec v \<Rightarrow> take_slice n w | RbOption b \<Rightarrow> take n (take_slice n w))" by blast
  have "take n (take_slice n w) = take n (wb_remaining w)" by (cases w) auto
  moreover have "take_slice n w = take n (wb_remaining w)" if "\<not> (\<exists>b. r = RbOption b)"
    using fit that by (cases w) auto
  ultimately have "rb_items r' = rb_items r @ take n (wb_remaining w)"
    using m(4) by (cases r) auto
  with m wok show ?thesis by blast
qed

theorem move_from_transfers_witness:
  "\<exists>r' w'. rb_move_from 1 (RbOption None, WbVec (vec_buffer_from [7, 8 :: nat])) =
      ((Ok () :: (unit, unit) outcome), (r', w')) \<and> rb_items r' = [7] \<and> wb_remaining w' = [8]"
  using move_from_transfers [of "RbOption None" 1 "WbVec (vec_buffer_from [7, 8 :: nat])" 1]
  by (auto simp: vec_buffer_from_def vec_buffer_remaining_def)

text \<open>
  C20: \<open>VecBuffer::take\<close> hands its closure every remaining item, not the \<open>count\<close>
  it was asked for, so moving fewer items than a \<open>VecBuffer\<close> holds into a \<open>Vec\<close>
  copies all of them: the reader ends up with items the writer still owns, and
  beyond the capacity it announced.
\<close>

theorem move_from_duplicates:
  assumes cap: "length (vec_items v) + n \<le> vec_capacity v"
    and n: "n < length (vec_buffer_remaining b)" and off: "vb_offset b \<le> length (vb_buffer b)"
  shows "\<exists>r' w'. rb_move_from n (RbVec v, WbVec b) = ((Ok () :: (unit, unit) outcome), (r', w')) \<and>
     rb_items r' = vec_items v @ vec_buffer_remaining b \<and>
     wb_remaining w' = drop n (vec_buffer_remaining b) \<and>
     length (rb_items r') + length (wb_remaining w') >
       length (vec_items v) + length (vec_buffer_remaining b)"
proof -
  have c: "rb_remaining_capacity (RbVec v) = (Ok (vec_capacity v - length (vec_items v)) :: (unit, nat) outcome)"
    using cap by simp
  have le: "n \<le> vec_capacity v - length (vec_items v)" "n \<le> length (wb_remaining (WbVec b))"
    using cap n by auto
  from rb_move_from_spec [OF c le] obtain r' w'
    where m: "rb_move_from n (RbVec v, WbVec b) = ((Ok () :: (unit, unit) outcome), (r', w'))"
      "wb_remaining w' = drop n (wb_remaining (WbVec b))"
      "rb_items r' = rb_items (RbVec v) @ take_slice n (WbVec b)" by (metis read_buffer.simps(6))
  with n show ?thesis by auto
qed

theorem move_from_duplicates_witness:
  "\<exists>r' w'. rb_move_from 1 (RbVec \<lparr>vec_items = [], vec_capacity = 1\<rparr>, WbVec (vec_buffer_from [7, 8 :: nat])) =
      ((Ok () :: (unit, unit) outcome), (r', w')) \<and> rb_items r' = [7, 8] \<and> wb_remaining w' = [8]"
  using move_from_duplicates [of "\<lparr>vec_items = [], vec_capacity = 1\<rparr>" 1 "vec_buffer_from [7, 8 :: nat]"]
  by (auto simp: vec_buffer_from_def vec_buffer_remaining_def)

end
