(* ===== verification/Unicode.thy ===== *)
theory Unicode
  imports Prelude
begin

text \<open>
  What the string code uses of the Rust standard library: the type \<open>char\<close> of
  Unicode scalar values, \<open>str::from_utf8\<close>, \<open>char::encode_utf8\<close>,
  \<open>char::encode_utf16\<close> and \<open>char::decode_utf16\<close>.  A \<open>char\<close> is its number, a
  \<open>str\<close> the list of its characters, whose UTF-8 bytes are computed.  The locale
  \<open>codec\<close> is the contract of an encoding: encoding and decoding are inverse to
  each other.  UTF-8, UTF-16 and Latin-1 are its interpretations.
\<close>

section \<open>Characters\<close>

text \<open>The string encodings that the canonical ABI options choose from.\<close>

datatype string_encoding = Utf8 | Utf16 | CompactUtf16

type_synonym uchar = nat
type_synonym ustr = "uchar list"
type_synonym u8 = "8 word"
type_synonym u16 = "16 word"

text \<open>The casts \<open>as u8\<close> and \<open>as u16\<close>.\<close>

definition as_u8 :: "nat \<Rightarrow> u8" where
  "as_u8 n = of_nat n"

definition as_u16 :: "nat \<Rightarrow> u16" where
  "as_u16 n = of_nat n"

definition is_char :: "uchar \<Rightarrow> bool" where
  "is_char c \<longleftrightarrow> c < 0xD800 \<or> 0xE000 \<le> c \<and> c < 0x110000"

definition is_latin1 :: "uchar \<Rightarrow> bool" where
  "is_latin1 c \<longleftrightarrow> c < 0x100"

lemma latin1_char: "is_latin1 c \<Longrightarrow> is_char c"
  by (simp add: is_latin1_def is_char_def)


section \<open>UTF-8\<close>

definition len_utf8 :: "uchar \<Rightarrow> nat" where
  "len_utf8 c = (if c < 0x80 then 1 else if c < 0x800 then 2 else if c < 0x10000 then 3 else 4)"

definition encode_utf8 :: "uchar \<Rightarrow> u8 list" where
  "encode_utf8 c =
     (if c < 0x80 then [as_u8 c]
      else if c < 0x800 then [as_u8 (0xC0 + c div 0x40), as_u8 (0x80 + c mod 0x40)]
      else if c < 0x10000 then
        [as_u8 (0xE0 + c div 0x1000), as_u8 (0x80 + c div 0x40 mod 0x40), as_u8 (0x80 + c mod 0x40)]
      else [as_u8 (0xF0 + c div 0x40000), as_u8 (0x80 + c div 0x1000 mod 0x40),
        as_u8 (0x80 + c div 0x40 mod 0x40), as_u8 (0x80 + c mod 0x40)])"

definition str_bytes :: "ustr \<Rightarrow> u8 list" where
  "str_bytes s = concat (map encode_utf8 s)"

text \<open>The ranges that \<open>from_utf8\<close> accepts of the bytes after the first.\<close>

definition is_cont :: "nat \<Rightarrow> bool" where
  "is_cont y \<longleftrightarrow> 0x80 \<le> y \<and> y \<le> 0xBF"

definition second_of_three :: "nat \<Rightarrow> nat \<Rightarrow> bool" where
  "second_of_three x y \<longleftrightarrow> (if x = 0xE0 then 0xA0 \<le> y \<and> y \<le> 0xBF else if x = 0xED then 0x80 \<le> y \<and> y \<le> 0x9F else is_cont y)"

definition second_of_four :: "nat \<Rightarrow> nat \<Rightarrow> bool" where
  "second_of_four x y \<longleftrightarrow> (if x = 0xF0 then 0x90 \<le> y \<and> y \<le> 0xBF else if x = 0xF4 then 0x80 \<le> y \<and> y \<le> 0x8F else is_cont y)"

text \<open>The first character, and how many bytes follow its first one.\<close>

definition utf8_next :: "u8 \<Rightarrow> u8 list \<Rightarrow> (uchar \<times> nat) option" where
  "utf8_next b bs = (let x = unat b; r = map unat (take 3 bs) in
     if x < 0x80 then Some (x, 0)
     else if 0xC2 \<le> x \<and> x \<le> 0xDF then
       (case r of y # _ \<Rightarrow> if is_cont y then Some ((x - 0xC0) * 0x40 + (y - 0x80), 1) else None | _ \<Rightarrow> None)
     else if 0xE0 \<le> x \<and> x \<le> 0xEF then
       (case r of y # z # _ \<Rightarrow>
          if second_of_three x y \<and> is_cont z then Some ((x - 0xE0) * 0x1000 + (y - 0x80) * 0x40 + (z - 0x80), 2) else None
        | _ \<Rightarrow> None)
     else if 0xF0 \<le> x \<and> x \<le> 0xF4 then
       (case r of [y, z, w] \<Rightarrow>
          if second_of_four x y \<and> is_cont z \<and> is_cont w
          then Some ((x - 0xF0) * 0x40000 + (y - 0x80) * 0x1000 + (z - 0x80) * 0x40 + (w - 0x80), 3) else None
        | _ \<Rightarrow> None)
     else None)"

function from_utf8 :: "u8 list \<Rightarrow> ustr option" where
  "from_utf8 [] = Some []"
| "from_utf8 (b # bs) = (case utf8_next b bs of
      None \<Rightarrow> None
    | Some (c, n) \<Rightarrow> map_option (Cons c) (from_utf8 (drop n bs)))"
  by pat_completeness auto
termination by (relation "measure length") auto


section \<open>UTF-16 and Latin-1\<close>

definition encode_utf16 :: "uchar \<Rightarrow> u16 list" where
  "encode_utf16 c = (if c < 0x10000 then [as_u16 c]
     else [as_u16 (0xD800 + (c - 0x10000) div 0x400), as_u16 (0xDC00 + (c - 0x10000) mod 0x400)])"

definition str_units :: "ustr \<Rightarrow> u16 list" where
  "str_units s = concat (map encode_utf16 s)"

text \<open>
  The items of the iterator \<open>decode_utf16\<close>: a character or an unpaired surrogate,
  each with the number of code units it takes.
\<close>

fun decode_utf16 :: "u16 list \<Rightarrow> (uchar option \<times> nat) list" where
  "decode_utf16 [] = []"
| "decode_utf16 [u] = [(if 0xD800 \<le> unat u \<and> unat u \<le> 0xDFFF then None else Some (unat u), 1)]"
| "decode_utf16 (u # v # us) =
     (if \<not> (0xD800 \<le> unat u \<and> unat u \<le> 0xDFFF) then (Some (unat u), 1) # decode_utf16 (v # us)
      else if 0xDC00 \<le> unat u then (None, 1) # decode_utf16 (v # us)
      else if 0xDC00 \<le> unat v \<and> unat v \<le> 0xDFFF
      then (Some (0x10000 + (unat u - 0xD800) * 0x400 + (unat v - 0xDC00)), 2) # decode_utf16 us
      else (None, 1) # decode_utf16 (v # us))"

definition from_utf16 :: "u16 list \<Rightarrow> ustr option" where
  "from_utf16 us = those (map fst (decode_utf16 us))"

definition encode_latin1 :: "uchar \<Rightarrow> u8 list" where
  "encode_latin1 c = [as_u8 c]"

definition from_latin1 :: "u8 list \<Rightarrow> ustr option" where
  "from_latin1 bs = Some (map unat bs)"



section \<open>The contract of an encoding\<close>

locale codec =
  fixes valid :: "uchar \<Rightarrow> bool" and enc :: "uchar \<Rightarrow> 'u list" and dec :: "'u list \<Rightarrow> ustr option"
  assumes dec_Nil: "dec [] = Some []"
    and dec_step: "valid c \<Longrightarrow> dec (enc c @ us) = map_option (Cons c) (dec us)"
    and dec_sound: "dec us = Some s \<Longrightarrow> list_all valid s \<and> concat (map enc s) = us"
begin

lemma dec_append: "list_all valid s \<Longrightarrow> dec (concat (map enc s) @ us) = map_option (append s) (dec us)"
  by (induction s) (cases "dec us"; simp add: dec_step)+

lemma dec_enc: "list_all valid s \<Longrightarrow> dec (concat (map enc s)) = Some s"
  using dec_append [of s "[]"] by (simp add: dec_Nil)

lemma dec_iff: "dec us = Some s \<longleftrightarrow> list_all valid s \<and> us = concat (map enc s)"
  using dec_sound [of us s] dec_enc [of s] by metis

lemma enc_inj: "list_all valid s \<Longrightarrow> list_all valid s' \<Longrightarrow> concat (map enc s) = concat (map enc s') \<Longrightarrow> s = s'"
  using dec_enc [of s] dec_enc [of s'] by (metis option.inject)

end

lemma unat_u8 [simp]: "n < 256 \<Longrightarrow> unat (as_u8 n) = n"
  by (simp add: as_u8_def unat_of_nat take_bit_eq_mod)

lemma unat_u16 [simp]: "n < 65536 \<Longrightarrow> unat (as_u16 n) = n"
  by (simp add: as_u16_def unat_of_nat take_bit_eq_mod)

lemma unat_u8_lt: "unat (b :: u8) < 256"
  using unsigned_less [of b] by simp

lemma unat_u16_lt: "unat (u :: u16) < 65536"
  using unsigned_less [of u] by simp

lemma length_encode_utf8: "length (encode_utf8 c) = len_utf8 c"
  by (simp add: encode_utf8_def len_utf8_def)

lemma split_base:
  "(c :: nat) div 4096 * 4096 + c div 64 mod 64 * 64 + c mod 64 = c"
  "(c :: nat) div 262144 * 262144 + c div 4096 mod 64 * 4096 + c div 64 mod 64 * 64 + c mod 64 = c"
proof -
  have "c = c div 64 * 64 + c mod 64" "c div 64 = c div 64 div 64 * 64 + c div 64 mod 64"
    "c div 4096 = c div 4096 div 64 * 64 + c div 4096 mod 64" by (simp_all add: div_mult_mod_eq)
  moreover have "c div 64 div 64 = c div 4096" "c div 4096 div 64 = c div 262144" by (simp_all add: div_mult2_eq [symmetric])
  ultimately show "(c :: nat) div 4096 * 4096 + c div 64 mod 64 * 64 + c mod 64 = c"
    "(c :: nat) div 262144 * 262144 + c div 4096 mod 64 * 4096 + c div 64 mod 64 * 64 + c mod 64 = c" by linarith+
qed

lemma utf8_next_encode:
  assumes "is_char c" and "encode_utf8 c = b # bs"
  shows "utf8_next b (bs @ r) = Some (c, length bs)"
proof -
  consider "c < 0x80" | "0x80 \<le> c" "c < 0x800" | "0x800 \<le> c" "c < 0x10000" | "0x10000 \<le> c" "c < 0x110000"
    using assms(1) by (fastforce simp: is_char_def)
  then show ?thesis
  proof cases
    case 1
    with assms(2) show ?thesis by (auto simp: encode_utf8_def utf8_next_def)
  next
    case 2
    then have d: "2 \<le> c div 64" "c div 64 < 32" "c mod 64 < 64" "c div 64 * 64 + c mod 64 = c"
      by (simp_all add: div_mult_mod_eq)
    with 2 assms(2) show ?thesis
      by (auto simp: encode_utf8_def utf8_next_def is_cont_def)
  next
    case 3
    let ?a = "c div 4096" and ?b = "c div 64 mod 64" and ?d = "c mod 64"
    have d: "?b < 64" "?d < 64" "?a < 16" using 3 by simp_all
    have e: "c = ?a * 4096 + ?b * 64 + ?d" by (simp add: split_base)
    have "?a = 0 \<Longrightarrow> 32 \<le> ?b" using e d 3 by linarith
    moreover have "?a = 13 \<Longrightarrow> ?b < 32" using e d assms(1) by (simp only: is_char_def) linarith
    ultimately have "second_of_three (224 + ?a) (128 + ?b)" using d by (auto simp: second_of_three_def is_cont_def)
    with 3 assms(2) d e show ?thesis by (auto simp: encode_utf8_def utf8_next_def is_cont_def)
  next
    case 4
    let ?a = "c div 262144" and ?b = "c div 4096 mod 64" and ?d = "c div 64 mod 64" and ?f = "c mod 64"
    have d: "?b < 64" "?d < 64" "?f < 64" "?a < 5" using 4 by simp_all
    have e: "c = ?a * 262144 + ?b * 4096 + ?d * 64 + ?f" by (simp add: split_base)
    have "?a = 0 \<Longrightarrow> 16 \<le> ?b" using e d 4 by linarith
    moreover have "?a = 4 \<Longrightarrow> ?b < 16" using e d 4 by linarith
    ultimately have "second_of_four (240 + ?a) (128 + ?b)" using d by (auto simp: second_of_four_def is_cont_def)
    with 4 assms(2) d e show ?thesis by (auto simp: encode_utf8_def utf8_next_def is_cont_def)
  qed
qed

lemma as_u8_unat [simp]: "as_u8 (unat b) = b"
  by (simp add: as_u8_def)

lemma as_u16_unat [simp]: "as_u16 (unat u) = u"
  by (simp add: as_u16_def)

lemma mult_add_div: "y < (m :: nat) \<Longrightarrow> (x * m + y) div m = x" "y < (m :: nat) \<Longrightarrow> (x * m + y) mod m = y"
  by (simp_all add: div_mult_self4)

lemma utf8_next_sound:
  assumes "utf8_next b bs = Some (c, n)"
  shows "is_char c \<and> n \<le> length bs \<and> encode_utf8 c = b # take n bs"
proof -
  let ?x = "unat b"
  consider (one) "?x < 0x80" "c = ?x" "n = 0"
    | (two) y r where "bs = y # r" "0xC2 \<le> ?x" "?x \<le> 0xDF" "is_cont (unat y)" "c = (?x - 0xC0) * 0x40 + (unat y - 0x80)" "n = 1"
    | (three) y z r where "bs = y # z # r" "0xE0 \<le> ?x" "?x \<le> 0xEF" "second_of_three ?x (unat y)" "is_cont (unat z)"
        "c = (?x - 0xE0) * 0x1000 + (unat y - 0x80) * 0x40 + (unat z - 0x80)" "n = 2"
    | (four) y z w r where "bs = y # z # w # r" "0xF0 \<le> ?x" "?x \<le> 0xF4" "second_of_four ?x (unat y)" "is_cont (unat z)" "is_cont (unat w)"
        "c = (?x - 0xF0) * 0x40000 + (unat y - 0x80) * 0x1000 + (unat z - 0x80) * 0x40 + (unat w - 0x80)" "n = 3"
    using assms by (cases bs rule: list.exhaust; cases "tl bs"; cases "tl (tl bs)"; cases "tl (tl (tl bs))")
      (auto simp: utf8_next_def Let_def split: if_splits)
  then show ?thesis
  proof cases
    case one
    then show ?thesis by (simp add: is_char_def encode_utf8_def)
  next
    case (two y r)
    obtain a d where e: "?x = 0xC0 + a" "unat y = 0x80 + d" "2 \<le> a" "a < 32" "d < 64"
      using two(2-4) le_Suc_ex [of "0xC0" ?x] le_Suc_ex [of "0x80" "unat y"] by (auto simp: is_cont_def)
    have c: "c = a * 64 + d" using two(5) e by simp
    have "c div 64 = a" "c mod 64 = d" unfolding c using e(5) by (rule mult_add_div)+
    moreover have "0x80 \<le> c" "c < 0x800" using c e by linarith+
    ultimately show ?thesis using e(1,2) [symmetric] two(1,6) by (simp add: is_char_def encode_utf8_def)
  next
    case (three y z r)
    have y: "0x80 \<le> unat y" "unat y \<le> 0xBF" using three(4) by (auto simp: second_of_three_def is_cont_def split: if_splits)
    obtain a d f where e: "?x = 0xE0 + a" "unat y = 0x80 + d" "unat z = 0x80 + f" "a < 16" "d < 64" "f < 64"
      using three(2,3,5) y le_Suc_ex [of "0xE0" ?x] le_Suc_ex [of "0x80" "unat y"] le_Suc_ex [of "0x80" "unat z"]
      by (auto simp: is_cont_def)
    have s: "a = 0 \<Longrightarrow> 32 \<le> d" "a = 13 \<Longrightarrow> d < 32" using three(4) e by (auto simp: second_of_three_def)
    have c: "c = a * 4096 + d * 64 + f" using three(6) e by simp
    have c': "c = (a * 64 + d) * 64 + f" using c by simp
    have v: "c div 64 = a * 64 + d" "c mod 64 = f" unfolding c' using e(6) by (rule mult_add_div)+
    moreover have "c div 64 mod 64 = d" "c div 64 div 64 = a" unfolding v(1) using e(5) by (rule mult_add_div)+
    moreover have "c div 4096 = c div 64 div 64" by (simp add: div_mult2_eq [symmetric])
    moreover have "0x800 \<le> c" "c < 0x10000" using c e s(1) by (cases "a = 0"; simp)+
    moreover have "is_char c" using c e s(2) by (cases "a < 13"; cases "a = 13") (auto simp: is_char_def)
    ultimately show ?thesis using e(1-3) [symmetric] three(1,7) by (simp add: encode_utf8_def)
  next
    case (four y z w r)
    have y: "0x80 \<le> unat y" "unat y \<le> 0xBF" using four(4) by (auto simp: second_of_four_def is_cont_def split: if_splits)
    obtain a d f g where e: "?x = 0xF0 + a" "unat y = 0x80 + d" "unat z = 0x80 + f" "unat w = 0x80 + g" "a < 5" "d < 64" "f < 64" "g < 64"
      using four(2,3,5,6) y le_Suc_ex [of "0xF0" ?x] le_Suc_ex [of "0x80" "unat y"] le_Suc_ex [of "0x80" "unat z"] le_Suc_ex [of "0x80" "unat w"]
      by (auto simp: is_cont_def)
    have s: "a = 0 \<Longrightarrow> 16 \<le> d" "a = 4 \<Longrightarrow> d < 16" using four(4) e by (auto simp: second_of_four_def)
    have c: "c = a * 262144 + d * 4096 + f * 64 + g" using four(7) e by simp
    have c': "c = ((a * 64 + d) * 64 + f) * 64 + g" using c by simp
    have v: "c div 64 = (a * 64 + d) * 64 + f" "c mod 64 = g" unfolding c' using e(8) by (rule mult_add_div)+
    have w: "c div 64 mod 64 = f" "c div 64 div 64 = a * 64 + d" unfolding v(1) using e(7) by (rule mult_add_div)+
    moreover have "c div 64 div 64 mod 64 = d" "c div 64 div 64 div 64 = a" unfolding w(2) using e(6) by (rule mult_add_div)+
    moreover have "c div 4096 = c div 64 div 64" "c div 262144 = c div 64 div 64 div 64" by (simp_all add: div_mult2_eq [symmetric])
    moreover have "0x10000 \<le> c" "c < 0x110000" using c e s by (cases "a = 0"; cases "a = 4"; simp)+
    ultimately show ?thesis using e(1-4) [symmetric] v(2) four(1,8) by (simp add: encode_utf8_def is_char_def)
  qed
qed

interpretation utf8: codec is_char encode_utf8 from_utf8
proof
  show "from_utf8 [] = Some []" by simp
next
  fix c us assume c: "is_char c"
  obtain b bs where b: "encode_utf8 c = b # bs" by (cases "encode_utf8 c") (auto simp: encode_utf8_def split: if_splits)
  show "from_utf8 (encode_utf8 c @ us) = map_option (Cons c) (from_utf8 us)"
    using utf8_next_encode [OF c b, of us] b by simp
next
  fix us s assume "from_utf8 us = Some s"
  then show "list_all is_char s \<and> concat (map encode_utf8 s) = us"
  proof (induction us arbitrary: s rule: from_utf8.induct)
    case (2 b bs)
    then obtain c n s' where n: "utf8_next b bs = Some (c, n)" "from_utf8 (drop n bs) = Some s'" "s = c # s'"
      by (auto split: option.splits prod.splits)
    with 2(1) [OF n(1) refl n(2)] utf8_next_sound [OF n(1)] show ?case by simp
  qed simp
qed


lemma decode_utf16_encode:
  assumes "is_char c"
  shows "decode_utf16 (encode_utf16 c @ us) = (Some c, length (encode_utf16 c)) # decode_utf16 us"
proof (cases "c < 0x10000")
  case True
  with assms show ?thesis by (cases us) (auto simp: encode_utf16_def is_char_def)
next
  case False
  let ?d = "c - 0x10000"
  have "?d < 0x100000" using assms by (auto simp: is_char_def)
  then have "?d div 0x400 < 0x400" by simp
  moreover have "?d mod 0x400 < 0x400" by simp
  moreover have "?d div 0x400 * 0x400 + ?d mod 0x400 = ?d" by (rule div_mult_mod_eq)
  ultimately show ?thesis using False by (simp add: encode_utf16_def)
qed

lemma decode_utf16_sound:
  "those (map fst (decode_utf16 us)) = Some s \<Longrightarrow> list_all is_char s \<and> concat (map encode_utf16 s) = us"
proof (induction us arbitrary: s rule: decode_utf16.induct)
  case (2 u)
  then show ?case using unat_u16_lt [of u] by (auto simp: is_char_def encode_utf16_def split: if_splits)
next
  case (3 u v us)
  show ?case
  proof (cases "0xD800 \<le> unat u \<and> unat u \<le> 0xDFFF")
    case False
    with 3 show ?thesis using unat_u16_lt [of u]
      by (auto simp: is_char_def encode_utf16_def simp del: decode_utf16.simps(2) split: if_splits)
  next
    case True
    with 3(5) have s: "0xDC00 \<le> unat v" "unat v \<le> 0xDFFF" "unat u < 0xDC00" by (auto split: if_splits)
    obtain a d where e: "unat u = 0xD800 + a" "unat v = 0xDC00 + d" "a < 0x400" "d < 0x400"
      using True s le_Suc_ex [of "0xD800" "unat u"] le_Suc_ex [of "0xDC00" "unat v"] by auto
    let ?c = "0x10000 + a * 0x400 + d"
    from 3(5) True s e obtain s' where s': "those (map fst (decode_utf16 us)) = Some s'" "s = ?c # s'" by auto
    have c: "(?c - 0x10000) div 0x400 = a" "(?c - 0x10000) mod 0x400 = d" using mult_add_div [OF e(4), of a] by simp_all
    have "is_char ?c" using e by (simp add: is_char_def)
    moreover have "encode_utf16 ?c = [u, v]" using c e(1,2) [symmetric] by (simp add: encode_utf16_def)
    moreover have "list_all is_char s' \<and> concat (map encode_utf16 s') = us" using 3(3) True s s'(1) by simp
    ultimately show ?thesis using s'(2) by simp
  qed
qed simp

interpretation utf16: codec is_char encode_utf16 from_utf16
proof
  show "from_utf16 [] = Some []" by (simp add: from_utf16_def)
next
  fix c us assume "is_char c"
  then show "from_utf16 (encode_utf16 c @ us) = map_option (Cons c) (from_utf16 us)"
    by (simp add: from_utf16_def decode_utf16_encode)
next
  fix us s assume "from_utf16 us = Some s"
  then show "list_all is_char s \<and> concat (map encode_utf16 s) = us"
    unfolding from_utf16_def by (rule decode_utf16_sound)
qed

interpretation latin1: codec is_latin1 encode_latin1 from_latin1
proof
  fix us s assume "from_latin1 us = Some s"
  then show "list_all is_latin1 s \<and> concat (map encode_latin1 s) = us"
    by (auto simp: from_latin1_def is_latin1_def encode_latin1_def list_all_iff unat_u8_lt comp_def)
qed (simp_all add: from_latin1_def encode_latin1_def is_latin1_def)

end
