(* ===== verification/Concurrent_State.thy ===== *)
theory Concurrent_State
  imports Async_Table State_Table Handle_Table Abi_Codes Buffers Unicode "HOL-Library.Product_Lexorder"
begin

text \<open>
  The state of a component instance's event loop, \<open>concurrent.rs\<close>: guest and
  host tasks, waitable sets, the ends and states of streams and futures and
  error contexts, all boxed in one \<open>Table\<close>, with the handle tables of the
  component instances, the work queues and the state of each instance.
  Fibers, host futures and the closures that run guest code are opaque names;
  the closures that end a host-owned read or write are kept as the data they
  capture.  The theory also holds the operations on the state as a whole:
  access to the table, the queues, backpressure and reentrance.
\<close>

section \<open>Data\<close>

text \<open>Handles as an instance sees them, and the pending ends of a transfer.\<close>

datatype table_index = StreamIndex nat | FutureIndex nat

datatype stream_future_state = SfWrite bool | SfRead bool | SfBusy

datatype waitable_state =
    WsHostTask
  | WsGuestTask
  | WsStream nat stream_future_state
  | WsFuture nat stream_future_state
  | WsSet

datatype post_write = PwContinue | PwDrop

record flat_abi =
  fa_size :: nat
  fa_align :: nat

record options =
  opt_async :: bool
  opt_memory :: "nat option"
  opt_string_encoding :: string_encoding

text \<open>What the canonical ABI says of the Rust type of a host-owned end.\<close>

record host_type =
  ht_size32 :: nat
  ht_align32 :: nat
  ht_may_require_realloc :: bool
  ht_is_unit :: bool

text \<open>A value of the host, which only the canonical ABI looks into.\<close>

type_synonym host_val = nat

record guest_pending =
  gp_ty :: table_index
  gp_flat_abi :: "flat_abi option"
  gp_options :: options
  gp_address :: nat
  gp_count :: nat
  gp_handle :: nat

record host_writer =
  hw_buffer :: "host_val write_buffer"
  hw_type :: host_type
  hw_kind :: transmit_kind
  hw_channel :: nat

record host_reader =
  hr_buffer :: "host_val read_buffer"
  hr_type :: host_type
  hr_kind :: transmit_kind
  hr_channel :: nat

datatype write_state =
    WrOpen
  | WrGuestReady guest_pending post_write
  | WrHostReady host_writer post_write
  | WrDropped

datatype read_state =
    RdOpen
  | RdGuestReady guest_pending
  | RdHostReady host_reader
  | RdDropped

record waitable_common =
  wc_event :: "event option"
  wc_set :: "nat option"

definition waitable_common_default :: waitable_common where
  "waitable_common_default = \<lparr>wc_event = None, wc_set = None\<rparr>"

record transmit_handle =
  th_common :: waitable_common
  th_state :: nat

definition transmit_handle_new :: "nat \<Rightarrow> transmit_handle" where
  "transmit_handle_new state = \<lparr>th_common = waitable_common_default, th_state = state\<rparr>"

record transmit_state =
  ts_write_handle :: nat
  ts_read_handle :: nat
  ts_write :: write_state
  ts_read :: read_state
  ts_writer_watcher :: "nat option"
  ts_reader_watcher :: "nat option"
  ts_done :: bool

definition transmit_state_default :: transmit_state where
  "transmit_state_default =
     \<lparr>ts_write_handle = 0, ts_read_handle = 0, ts_write = WrOpen, ts_read = RdOpen,
      ts_writer_watcher = None, ts_reader_watcher = None, ts_done = False\<rparr>"

text \<open>Tasks, and who called them.\<close>

record host_task =
  ht_common :: waitable_common
  ht_caller_instance :: nat
  ht_join_handle :: "nat option"

definition host_task_new :: "nat \<Rightarrow> nat option \<Rightarrow> host_task" where
  "host_task_new caller_instance join_handle =
     \<lparr>ht_common = waitable_common_default, ht_caller_instance = caller_instance,
      ht_join_handle = join_handle\<rparr>"

datatype caller =
    CallerHost "nat option" bool bool
  | CallerGuest nat nat

text \<open>
  The bits of a core WebAssembly value as a number.  How the caller of a fused
  adapter passes its parameters and takes its result.
\<close>

type_synonym val_raw = nat

datatype caller_info =
    CallAsync "val_raw list" bool
  | CallSync "val_raw list" nat

datatype result_info = ResultHeap "32 word" | ResultStack nat

text \<open>
  The closures a task carries, as the data they capture: those of a call from
  the host are named, those of a call between guests are the functions of the
  fused adapter with the caller's data.
\<close>

datatype raw_lower = LowerHost nat | LowerAdapter nat caller_info

datatype raw_lift = LiftHost nat | LiftAdapter nat bool result_info

record callback_fn =
  cf_function :: nat
  cf_may_enter_after_call :: bool

record lift_result =
  lr_lift :: raw_lift
  lr_ty :: nat
  lr_memory :: "nat option"
  lr_string_encoding :: string_encoding

record guest_task =
  gt_common :: waitable_common
  gt_lower_params :: "raw_lower option"
  gt_lift_result :: "lift_result option"
  gt_result :: "nat option"
  gt_callback :: "callback_fn option"
  gt_caller :: caller
  gt_call_context :: "call_context option"
  gt_sync_result :: "val_raw option option"
  gt_cancel_sent :: bool
  gt_starting_sent :: bool
  gt_context :: "32 word list"
  gt_subtasks :: "nat set"
  gt_sync_call_set :: nat
  gt_instance :: nat
  gt_event :: "event option"
  gt_wake_on_cancel :: "nat option"
  gt_function_index :: "nat option"
  gt_exited :: bool

definition call_post_return_automatically :: "guest_task \<Rightarrow> bool" where
  "call_post_return_automatically t = (case gt_caller t of
      CallerGuest task i \<Rightarrow> True
    | CallerHost tx remove post \<Rightarrow> post)"

text \<open>Waitables are ordered by kind first, then by identifier.\<close>

datatype waitable = WHost nat | WGuest nat | WTransmit nat

fun waitable_rep :: "waitable \<Rightarrow> nat" where
  "waitable_rep (WHost i) = i"
| "waitable_rep (WGuest i) = i"
| "waitable_rep (WTransmit i) = i"

fun waitable_key :: "waitable \<Rightarrow> nat \<times> nat" where
  "waitable_key (WHost i) = (0, i)"
| "waitable_key (WGuest i) = (1, i)"
| "waitable_key (WTransmit i) = (2, i)"

lemma waitable_key_inj: "waitable_key v = waitable_key w \<Longrightarrow> v = w"
  by (cases v; cases w) auto

instantiation waitable :: linorder
begin

definition less_eq_waitable :: "waitable \<Rightarrow> waitable \<Rightarrow> bool" where
  "less_eq_waitable v w \<longleftrightarrow> waitable_key v \<le> waitable_key w"

definition less_waitable :: "waitable \<Rightarrow> waitable \<Rightarrow> bool" where
  "less_waitable v w \<longleftrightarrow> waitable_key v < waitable_key w"

instance
  by standard
    (auto simp: less_eq_waitable_def less_waitable_def less_le_not_le
      intro: waitable_key_inj order_trans antisym simp: linear)

end

datatype wait_mode = WaitFiber nat | WaitCallback nat

record waitable_set =
  ws_ready :: "waitable set"
  ws_waiting :: "(nat \<times> wait_mode) list"

definition waitable_set_default :: waitable_set where
  "waitable_set_default = \<lparr>ws_ready = {}, ws_waiting = []\<rparr>"

text \<open>What the table boxes.\<close>

datatype obj =
    ObjHostTask host_task
  | ObjGuestTask guest_task
  | ObjTransmitHandle transmit_handle
  | ObjTransmitState transmit_state
  | ObjWaitableSet waitable_set
  | ObjErrorContext ustr

fun as_host_task :: "obj \<Rightarrow> host_task option" where
  "as_host_task (ObjHostTask x) = Some x" | "as_host_task _ = None"

fun as_guest_task :: "obj \<Rightarrow> guest_task option" where
  "as_guest_task (ObjGuestTask x) = Some x" | "as_guest_task _ = None"

fun as_transmit_handle :: "obj \<Rightarrow> transmit_handle option" where
  "as_transmit_handle (ObjTransmitHandle x) = Some x" | "as_transmit_handle _ = None"

fun as_transmit_state :: "obj \<Rightarrow> transmit_state option" where
  "as_transmit_state (ObjTransmitState x) = Some x" | "as_transmit_state _ = None"

fun as_waitable_set :: "obj \<Rightarrow> waitable_set option" where
  "as_waitable_set (ObjWaitableSet x) = Some x" | "as_waitable_set _ = None"

fun as_error_context :: "obj \<Rightarrow> ustr option" where
  "as_error_context (ObjErrorContext x) = Some x" | "as_error_context _ = None"

text \<open>Work items.\<close>

datatype suspend_reason = Waiting nat nat | NeedWork | Yielding nat

text \<open>The closure that \<open>queue_call\<close> queues to start a call.\<close>

record start_fn =
  sf_callee :: nat
  sf_param_count :: nat
  sf_result_count :: nat
  sf_flags :: bool
  sf_async :: bool
  sf_callback :: bool
  sf_post_return :: "nat option"
  sf_instance :: nat

datatype guest_call_kind = DeliverEvent nat "nat option" | StartCall start_fn

record guest_call =
  gc_task :: nat
  gc_kind :: guest_call_kind

text \<open>
  A call of a host function by a guest, and a future of the host as what it does
  when it completes: a named one, the call of an async-lowered import, with the
  task, the handle to abort it and the call scope it keeps between polls, and the
  call of a sync-lowered import, with the caller and the task.
\<close>

record import_call =
  ic_function :: nat
  ic_options :: nat

datatype host_future =
    NamedFuture nat
  | FirstPollFuture nat import_call nat "call_context option"
  | BlockFuture nat nat

text \<open>
  A worker function is a closure: a named one, the one \<open>host_write\<close> leaves
  behind to lower its items once the guest may be called, or the output of a
  host call with its result, which is missing when the host function failed.
\<close>

datatype worker_function =
    NamedFunction nat
  | AcceptReader host_writer guest_pending nat
  | FirstPollOutput nat import_call "nat option"
  | BlockOutput nat nat "nat option"

datatype worker_item = WorkerGuestCall guest_call | WorkerItemFunction worker_function

record poll_params =
  pp_task :: nat
  pp_set :: nat
  pp_instance :: nat

datatype work_item =
    PushFuture host_future
  | ResumeFiber nat
  | GuestCallItem guest_call
  | PollItem poll_params
  | WorkerFunction worker_function

record instance_state =
  is_backpressure :: bool
  is_do_not_enter :: bool
  is_pending :: "(nat \<times> guest_call_kind) list"

definition instance_state_default :: instance_state where
  "instance_state_default = \<lparr>is_backpressure = False, is_do_not_enter = False, is_pending = []\<rparr>"

text \<open>The metadata of the component that the event loop consults.\<close>

record component =
  num_runtime_component_instances :: nat
  num_error_context_tables :: nat
  stream_instance :: "nat \<Rightarrow> nat"
  future_instance :: "nat \<Rightarrow> nat"
  stream_payload :: "nat \<Rightarrow> nat option"
  future_payload :: "nat \<Rightarrow> nat option"
  abi_size32 :: "nat \<Rightarrow> nat"
  abi_align32 :: "nat \<Rightarrow> nat"

record concurrent_state =
  cs_guest_task :: "nat option"
  cs_futures :: "host_future list option"
  cs_table :: "obj table"
  cs_instance_states :: "nat \<Rightarrow> instance_state"
  cs_waitable_tables :: "waitable_state state_table list"
  cs_high_priority :: "work_item list"
  cs_low_priority :: "work_item list"
  cs_suspend_reason :: "suspend_reason option"
  cs_worker :: "nat option"
  cs_worker_item :: "worker_item option"
  cs_error_context_tables :: "nat state_table list"
  cs_global_ref_counts :: "nat \<Rightarrow> nat option"
  cs_component :: component

datatype conc_error =
    TableError table_error
  | StateError state_error
  | ResourceError handle_error
  | Trap string
  | Bail string

type_synonym 'a conc = "(conc_error, 'a, concurrent_state) result"


section \<open>Operations on the state as a whole\<close>

definition concurrent_state_new :: "component \<Rightarrow> concurrent_state" where
  "concurrent_state_new c =
     \<lparr>cs_guest_task = None, cs_futures = Some [], cs_table = table_new,
      cs_instance_states = (\<lambda>_. instance_state_default),
      cs_waitable_tables = replicate (num_runtime_component_instances c) st_default,
      cs_high_priority = [], cs_low_priority = [], cs_suspend_reason = None, cs_worker = None,
      cs_worker_item = None,
      cs_error_context_tables = replicate (num_error_context_tables c) st_default,
      cs_global_ref_counts = (\<lambda>_. None), cs_component = c\<rparr>"

text \<open>Access to the table; the type an identifier carries is the pair of its casts.\<close>

definition cs_push :: "obj \<Rightarrow> concurrent_state \<Rightarrow> nat conc" where
  "cs_push x s = (case table_push x (cs_table s) of (r, t) \<Rightarrow> (map_err TableError r, s\<lparr>cs_table := t\<rparr>))"

definition cs_get :: "(obj \<Rightarrow> 'a option) \<Rightarrow> nat \<Rightarrow> concurrent_state \<Rightarrow> (conc_error, 'a) outcome" where
  "cs_get down k s = map_err TableError (table_get down k (cs_table s))"

definition cs_get_mut ::
    "(obj \<Rightarrow> 'a option) \<Rightarrow> ('a \<Rightarrow> obj) \<Rightarrow> nat \<Rightarrow> ('a \<Rightarrow> 'a) \<Rightarrow> concurrent_state \<Rightarrow> 'a conc" where
  "cs_get_mut down up k f s =
     (case table_get_mut down up k f (cs_table s) of (r, t) \<Rightarrow> (map_err TableError r, s\<lparr>cs_table := t\<rparr>))"

definition cs_add_child :: "nat \<Rightarrow> nat \<Rightarrow> concurrent_state \<Rightarrow> unit conc" where
  "cs_add_child child parent s =
     (case table_add_child child parent (cs_table s) of (r, t) \<Rightarrow> (map_err TableError r, s\<lparr>cs_table := t\<rparr>))"

definition cs_remove_child :: "nat \<Rightarrow> nat \<Rightarrow> concurrent_state \<Rightarrow> unit conc" where
  "cs_remove_child child parent s =
     (case table_remove_child child parent (cs_table s) of (r, t) \<Rightarrow> (map_err TableError r, s\<lparr>cs_table := t\<rparr>))"

definition cs_delete :: "(obj \<Rightarrow> 'a option) \<Rightarrow> nat \<Rightarrow> concurrent_state \<Rightarrow> 'a conc" where
  "cs_delete down k s =
     (case table_delete down k (cs_table s) of (r, t) \<Rightarrow> (map_err TableError r, s\<lparr>cs_table := t\<rparr>))"

abbreviation get_host_task :: "nat \<Rightarrow> concurrent_state \<Rightarrow> (conc_error, host_task) outcome" where
  "get_host_task \<equiv> cs_get as_host_task"

abbreviation get_guest_task :: "nat \<Rightarrow> concurrent_state \<Rightarrow> (conc_error, guest_task) outcome" where
  "get_guest_task \<equiv> cs_get as_guest_task"

abbreviation get_transmit_handle :: "nat \<Rightarrow> concurrent_state \<Rightarrow> (conc_error, transmit_handle) outcome" where
  "get_transmit_handle \<equiv> cs_get as_transmit_handle"

abbreviation get_transmit_state :: "nat \<Rightarrow> concurrent_state \<Rightarrow> (conc_error, transmit_state) outcome" where
  "get_transmit_state \<equiv> cs_get as_transmit_state"

abbreviation get_waitable_set :: "nat \<Rightarrow> concurrent_state \<Rightarrow> (conc_error, waitable_set) outcome" where
  "get_waitable_set \<equiv> cs_get as_waitable_set"

abbreviation mut_host_task :: "nat \<Rightarrow> (host_task \<Rightarrow> host_task) \<Rightarrow> concurrent_state \<Rightarrow> host_task conc" where
  "mut_host_task \<equiv> cs_get_mut as_host_task ObjHostTask"

abbreviation mut_guest_task :: "nat \<Rightarrow> (guest_task \<Rightarrow> guest_task) \<Rightarrow> concurrent_state \<Rightarrow> guest_task conc" where
  "mut_guest_task \<equiv> cs_get_mut as_guest_task ObjGuestTask"

abbreviation mut_transmit_handle ::
    "nat \<Rightarrow> (transmit_handle \<Rightarrow> transmit_handle) \<Rightarrow> concurrent_state \<Rightarrow> transmit_handle conc" where
  "mut_transmit_handle \<equiv> cs_get_mut as_transmit_handle ObjTransmitHandle"

abbreviation mut_transmit_state ::
    "nat \<Rightarrow> (transmit_state \<Rightarrow> transmit_state) \<Rightarrow> concurrent_state \<Rightarrow> transmit_state conc" where
  "mut_transmit_state \<equiv> cs_get_mut as_transmit_state ObjTransmitState"

abbreviation mut_waitable_set ::
    "nat \<Rightarrow> (waitable_set \<Rightarrow> waitable_set) \<Rightarrow> concurrent_state \<Rightarrow> waitable_set conc" where
  "mut_waitable_set \<equiv> cs_get_mut as_waitable_set ObjWaitableSet"

text \<open>Indexing the handle table of a component instance.\<close>

definition in_waitables ::
    "nat \<Rightarrow> (waitable_state state_table \<Rightarrow> (state_error, 'a, waitable_state state_table) result)
     \<Rightarrow> concurrent_state \<Rightarrow> 'a conc" where
  "in_waitables i f s = (case vec_get (cs_waitable_tables s) i of
      None \<Rightarrow> (Panic ''index out of bounds'', s)
    | Some t \<Rightarrow> (case f t of (r, t) \<Rightarrow>
        (map_err StateError r, s\<lparr>cs_waitable_tables := (cs_waitable_tables s)[i := t]\<rparr>)))"

definition waitables_get :: "nat \<Rightarrow> nat \<Rightarrow> concurrent_state \<Rightarrow> (conc_error, nat \<times> waitable_state) outcome" where
  "waitables_get i idx s = (case vec_get (cs_waitable_tables s) i of
      None \<Rightarrow> Panic ''index out of bounds''
    | Some t \<Rightarrow> map_err StateError (st_get_by_index idx t))"

text \<open>The queues.\<close>

definition push_high_priority :: "work_item \<Rightarrow> concurrent_state \<Rightarrow> concurrent_state" where
  "push_high_priority item s = s\<lparr>cs_high_priority := cs_high_priority s @ [item]\<rparr>"

definition push_low_priority :: "work_item \<Rightarrow> concurrent_state \<Rightarrow> concurrent_state" where
  "push_low_priority item s = s\<lparr>cs_low_priority := cs_low_priority s @ [item]\<rparr>"

definition push_future :: "host_future \<Rightarrow> concurrent_state \<Rightarrow> concurrent_state" where
  "push_future future s = push_high_priority (PushFuture future) s"

text \<open>\<open>instance_state\<close>, with what the caller stores in the borrowed entry.\<close>

definition mut_instance_state ::
    "nat \<Rightarrow> (instance_state \<Rightarrow> instance_state) \<Rightarrow> concurrent_state \<Rightarrow> concurrent_state" where
  "mut_instance_state i f s = s\<lparr>cs_instance_states := (cs_instance_states s)(i := f (cs_instance_states s i))\<rparr>"

text \<open>The fibers and futures that \<open>take_fibers_and_futures\<close> collects from a list of work items.\<close>

fun mode_fibers :: "(nat \<times> wait_mode) list \<Rightarrow> nat list" where
  "mode_fibers [] = []"
| "mode_fibers ((task, WaitFiber fiber) # ms) = fiber # mode_fibers ms"
| "mode_fibers ((task, WaitCallback i) # ms) = mode_fibers ms"

fun any_fibers :: "obj any \<Rightarrow> nat list" where
  "any_fibers (Boxed (ObjWaitableSet ws)) = mode_fibers (ws_waiting ws)"
| "any_fibers _ = []"

fun any_clear_waiting :: "obj any \<Rightarrow> obj any" where
  "any_clear_waiting (Boxed (ObjWaitableSet ws)) = Boxed (ObjWaitableSet (ws\<lparr>ws_waiting := []\<rparr>))"
| "any_clear_waiting x = x"

fun take_items ::
    "work_item list \<Rightarrow> nat list \<Rightarrow> host_future list option \<Rightarrow> (conc_error, nat list \<times> host_future list option) outcome" where
  "take_items [] fibers futures = Ok (fibers, futures)"
| "take_items (ResumeFiber fiber # items) fibers futures = take_items items (fibers @ [fiber]) futures"
| "take_items (PushFuture future # items) fibers futures = (case futures of
      None \<Rightarrow> Panic ''unwrap on None''
    | Some fs \<Rightarrow> take_items items fibers (Some (fs @ [future])))"
| "take_items (_ # items) fibers futures = take_items items fibers futures"

definition take_fibers_and_futures ::
    "concurrent_state \<Rightarrow> (conc_error, nat list \<times> host_future list list, concurrent_state) result" where
  "take_fibers_and_futures s =
     (case table_iter_mut any_clear_waiting (cs_table s) of (entries, t) \<Rightarrow>
      (let fibers = concat (map any_fibers entries);
           s = s\<lparr>cs_table := t\<rparr>;
           fibers = fibers @ (case cs_worker s of Some fiber \<Rightarrow> [fiber] | None \<Rightarrow> []);
           s = s\<lparr>cs_worker := None\<rparr>;
           high = cs_high_priority s; s = s\<lparr>cs_high_priority := []\<rparr>
       in and_then (take_items high fibers (cs_futures s), s) (\<lambda>(fibers, futures) s.
          let s = s\<lparr>cs_futures := futures\<rparr>; low = cs_low_priority s; s = s\<lparr>cs_low_priority := []\<rparr> in
          and_then (take_items low fibers (cs_futures s), s) (\<lambda>(fibers, futures) s.
          (Ok (fibers, (case futures of Some them \<Rightarrow> [them] | None \<Rightarrow> [])), s\<lparr>cs_futures := None\<rparr>)))))"


section \<open>The table as a map of objects\<close>

text \<open>
  What the table holds, the parent each entry is linked to, and the state with
  one object replaced.  Access through an identifier is described in these
  terms, so that the components built on the table never look into it.
\<close>

definition obj_at :: "concurrent_state \<Rightarrow> nat \<Rightarrow> obj option" where
  "obj_at s = table_lookup (cs_table s)"

definition parent_at :: "concurrent_state \<Rightarrow> nat \<Rightarrow> nat option" where
  "parent_at s = parent_of (table_occ (cs_table s))"

definition cs_put :: "nat \<Rightarrow> obj \<Rightarrow> concurrent_state \<Rightarrow> concurrent_state" where
  "cs_put k x s = s\<lparr>cs_table := (case table_occ (cs_table s) k of
      Some e \<Rightarrow> table_set k (e\<lparr>te_entry := Boxed x\<rparr>) (cs_table s)
    | None \<Rightarrow> cs_table s)\<rparr>"

lemma obj_at_cong: "cs_table s' = cs_table s \<Longrightarrow> obj_at s' = obj_at s \<and> parent_at s' = parent_at s"
  by (simp add: obj_at_def parent_at_def)

lemma finite_dom_obj_at: "finite (dom (obj_at s))"
  unfolding obj_at_def by (rule finite_dom_table_lookup)

lemma cs_put_fields [simp]:
  "cs_guest_task (cs_put k x s) = cs_guest_task s"
  "cs_futures (cs_put k x s) = cs_futures s"
  "cs_instance_states (cs_put k x s) = cs_instance_states s"
  "cs_waitable_tables (cs_put k x s) = cs_waitable_tables s"
  "cs_high_priority (cs_put k x s) = cs_high_priority s"
  "cs_low_priority (cs_put k x s) = cs_low_priority s"
  "cs_suspend_reason (cs_put k x s) = cs_suspend_reason s"
  "cs_worker (cs_put k x s) = cs_worker s"
  "cs_worker_item (cs_put k x s) = cs_worker_item s"
  "cs_error_context_tables (cs_put k x s) = cs_error_context_tables s"
  "cs_global_ref_counts (cs_put k x s) = cs_global_ref_counts s"
  "cs_component (cs_put k x s) = cs_component s"
  by (simp_all add: cs_put_def)

lemma obj_at_Some_occ: "obj_at s k = Some x \<Longrightarrow> \<exists>e. table_occ (cs_table s) k = Some e \<and> te_entry e = Boxed x"
  by (auto simp: obj_at_def table_lookup_Some)

lemma obj_at_put [simp]: "obj_at s k \<noteq> None \<Longrightarrow> obj_at (cs_put k x s) = (obj_at s)(k \<mapsto> x)"
proof -
  assume "obj_at s k \<noteq> None"
  then obtain e where e: "table_occ (cs_table s) k = Some e" using obj_at_Some_occ by blast
  then show ?thesis by (auto simp: obj_at_def table_lookup_def cs_put_def fun_eq_iff)
qed

lemma parent_at_put [simp]: "parent_at (cs_put k x s) = parent_at s"
  by (auto simp: parent_at_def cs_put_def fun_eq_iff parent_of_occ split: option.splits)

lemma table_inv_put [simp]: "table_inv (cs_table s) \<Longrightarrow> table_inv (cs_table (cs_put k x s))"
  by (auto simp: cs_put_def intro: table_set_payload split: option.splits)

lemma cs_get_Ok: "cs_get down k s = Ok y \<longleftrightarrow> (\<exists>x. obj_at s k = Some x \<and> down x = Some y)"
proof (cases "table_occ (cs_table s) k")
  case (Some e)
  then show ?thesis
    by (cases "te_entry e")
       (auto simp: cs_get_def obj_at_def table_get_eq table_lookup_def split: option.splits)
qed (simp add: cs_get_def obj_at_def table_get_eq table_lookup_def)

lemma cs_get_found [simp]: "obj_at s k = Some x \<Longrightarrow> down x = Some y \<Longrightarrow> cs_get down k s = Ok y"
  by (simp add: cs_get_Ok)

lemma cs_get_no_panic [simp]: "cs_get down k s \<noteq> Panic p"
  by (auto simp: cs_get_def table_get_eq split: option.splits)

lemma cs_get_cases:
  obtains (found) x y where "obj_at s k = Some x" "down x = Some y" "cs_get down k s = Ok y"
    | (missing) e where "cs_get down k s = Err e" "\<forall>x. obj_at s k = Some x \<longrightarrow> down x = None"
proof (cases "cs_get down k s")
  case (Ok y)
  then show thesis using found by (auto simp: cs_get_Ok)
next
  case (Err e)
  then have "\<forall>x. obj_at s k = Some x \<longrightarrow> down x = None"
    by (metis cs_get_Ok not_Some_eq outcome.distinct(1))
  with Err show thesis by (rule missing)
qed simp

lemma cs_get_mut_eq:
  "cs_get_mut down up k f s = (case cs_get down k s of
      Ok y \<Rightarrow> (Ok y, cs_put k (up (f y)) s)
    | Err e \<Rightarrow> (Err e, s)
    | Panic p \<Rightarrow> (Panic p, s))"
  by (auto simp: cs_get_mut_def cs_get_def table_get_mut_eq table_get_eq cs_put_def split: option.splits)

lemma cs_get_mut_found [simp]:
  "obj_at s k = Some x \<Longrightarrow> down x = Some y \<Longrightarrow> cs_get_mut down up k f s = (Ok y, cs_put k (up (f y)) s)"
proof -
  assume "obj_at s k = Some x" "down x = Some y"
  then have "cs_get down k s = Ok y" by simp
  then show ?thesis by (simp add: cs_get_mut_eq)
qed

lemma cs_get_mut_no_panic [simp]: "fst (cs_get_mut down up k f s) \<noteq> Panic p"
  by (auto simp: cs_get_mut_eq split: outcome.splits)

lemma as_obj_Some [simp]:
  "as_host_task x = Some h \<longleftrightarrow> x = ObjHostTask h"
  "as_guest_task x = Some g \<longleftrightarrow> x = ObjGuestTask g"
  "as_transmit_handle x = Some th \<longleftrightarrow> x = ObjTransmitHandle th"
  "as_transmit_state x = Some ts \<longleftrightarrow> x = ObjTransmitState ts"
  "as_waitable_set x = Some ws \<longleftrightarrow> x = ObjWaitableSet ws"
  "as_error_context x = Some ec \<longleftrightarrow> x = ObjErrorContext ec"
  by (cases x; auto)+

lemma cs_push_cases:
  assumes "table_inv (cs_table s)"
  obtains (pushed) k s' where "cs_push x s = (Ok k, s')" "s' = s\<lparr>cs_table := cs_table s'\<rparr>"
      "obj_at s k = None" "obj_at s' = (obj_at s)(k \<mapsto> x)" "parent_at s k = None" "parent_at s' = parent_at s"
      "table_inv (cs_table s')" "\<forall>c. parent_at s c \<noteq> Some k"
    | (full) "cs_push x s = (Err (TableError Full), s)"
  using assms
proof (cases rule: table_push_cases [where x = x])
  case (done_ k t')
  have lk: "links_ok (table_occ (cs_table s))" using assms by (simp add: table_inv_def)
  have nochild: "parent_at s c \<noteq> Some k" for c
    using links_okD [OF lk, of c k] done_(2) by (auto simp: parent_at_def children_of_def)
  show thesis
  proof (rule pushed [of k "s\<lparr>cs_table := t'\<rparr>"])
    show "obj_at (s\<lparr>cs_table := t'\<rparr>) = (obj_at s)(k \<mapsto> x)"
      using done_ by (auto simp: obj_at_def table_lookup_def table_entry_new_def fun_eq_iff)
    show "parent_at (s\<lparr>cs_table := t'\<rparr>) = parent_at s"
      using done_ by (auto simp: parent_at_def parent_of_def table_entry_new_def fun_eq_iff)
  qed (use done_ nochild in \<open>auto simp: cs_push_def obj_at_def parent_at_def table_lookup_def parent_of_def\<close>)
next
  case full
  then show thesis using that(2) by (simp add: cs_push_def)
qed

lemma cs_add_child_live:
  assumes inv: "table_inv (cs_table s)" and c: "obj_at s c \<noteq> None" "parent_at s c = None"
    and p: "obj_at s p \<noteq> None"
  obtains s' where "cs_add_child c p s = (Ok (), s')" "s' = s\<lparr>cs_table := cs_table s'\<rparr>"
    "obj_at s' = obj_at s" "parent_at s' = (parent_at s)(c := Some p)" "table_inv (cs_table s')"
proof -
  from c(1) p obtain ce pe where e: "table_occ (cs_table s) c = Some ce" "table_occ (cs_table s) p = Some pe"
    using obj_at_Some_occ by blast
  with c(2) have "te_parent ce = None" by (simp add: parent_at_def parent_of_occ)
  from table_add_child_Ok [OF inv e(1) this e(2)] obtain t' where
    "table_add_child c p (cs_table s) = (Ok (), t')" "table_inv t'"
    "parent_of (table_occ t') = (parent_of (table_occ (cs_table s)))(c := Some p)"
    "table_lookup t' = table_lookup (cs_table s)" by blast
  then show thesis
    by (intro that [of "s\<lparr>cs_table := t'\<rparr>"]) (auto simp: cs_add_child_def obj_at_def parent_at_def)
qed

lemma cs_remove_child_live:
  assumes inv: "table_inv (cs_table s)" and c: "parent_at s c = Some p"
  obtains s' where "cs_remove_child c p s = (Ok (), s')" "s' = s\<lparr>cs_table := cs_table s'\<rparr>"
    "obj_at s' = obj_at s" "parent_at s' = (parent_at s)(c := None)" "table_inv (cs_table s')"
proof -
  from c obtain ce where e: "table_occ (cs_table s) c = Some ce" "te_parent ce = Some p"
    by (cases "table_occ (cs_table s) c") (auto simp: parent_at_def parent_of_def)
  from table_remove_child_Ok [OF inv e] obtain t' where
    "table_remove_child c p (cs_table s) = (Ok (), t')" "table_inv t'"
    "parent_of (table_occ t') = (parent_of (table_occ (cs_table s)))(c := None)"
    "table_lookup t' = table_lookup (cs_table s)" by blast
  then show thesis
    by (intro that [of "s\<lparr>cs_table := t'\<rparr>"]) (auto simp: cs_remove_child_def obj_at_def parent_at_def)
qed

lemma cs_delete_live:
  assumes inv: "table_inv (cs_table s)" and k: "obj_at s k = Some x" and ch: "\<forall>c. parent_at s c \<noteq> Some k"
  obtains s' where "cs_delete down k s = (map_err TableError (ok_or WrongType (down x)), s')"
    "s' = s\<lparr>cs_table := cs_table s'\<rparr>" "obj_at s' = (obj_at s)(k := None)"
    "parent_at s' = (parent_at s)(k := None)" "table_inv (cs_table s')"
proof -
  from obj_at_Some_occ [OF k] obtain e where e: "table_occ (cs_table s) k = Some e" "te_entry e = Boxed x"
    by blast
  have lk: "links_ok (table_occ (cs_table s))" using inv by (simp add: table_inv_def)
  have "te_children e = {}"
    using links_okD [OF lk, of _ k] ch e(1) by (auto simp: parent_at_def children_of_occ)
  from table_delete_entry_live [OF inv e(1) this] obtain t' where
    "table_delete_entry k (cs_table s) = (Ok e, t')" "table_inv t'"
    "table_lookup t' = (table_lookup (cs_table s))(k := None)"
    "parent_of (table_occ t') = (parent_of (table_occ (cs_table s)))(k := None)" by blast
  with e(2) show thesis
    by (intro that [of "s\<lparr>cs_table := t'\<rparr>"]) (auto simp: cs_delete_def table_delete_def obj_at_def parent_at_def)
qed

lemma cs_delete_inv:
  assumes inv: "table_inv (cs_table s)" and eq: "cs_delete down k s = (r, s')"
  shows "table_inv (cs_table s')" and "\<not> panics r"
proof -
  obtain r' t' where d: "table_delete down k (cs_table s) = (r', t')" by fastforce
  with eq have "r = map_err TableError r'" "s' = s\<lparr>cs_table := t'\<rparr>" by (auto simp: cs_delete_def)
  with table_delete_inv [OF inv d] show "table_inv (cs_table s')" and "\<not> panics r" by auto
qed

lemma queue_simps [simp]:
  "obj_at (push_high_priority i s) = obj_at s" "parent_at (push_high_priority i s) = parent_at s"
  "cs_table (push_high_priority i s) = cs_table s"
  "obj_at (push_low_priority i s) = obj_at s" "parent_at (push_low_priority i s) = parent_at s"
  "cs_table (push_low_priority i s) = cs_table s"
  "cs_high_priority (push_high_priority i s) = cs_high_priority s @ [i]"
  "cs_low_priority (push_high_priority i s) = cs_low_priority s"
  "cs_high_priority (push_low_priority i s) = cs_high_priority s"
  "cs_low_priority (push_low_priority i s) = cs_low_priority s @ [i]"
  "cs_waitable_tables (push_high_priority i s) = cs_waitable_tables s"
  "cs_waitable_tables (push_low_priority i s) = cs_waitable_tables s"
  "cs_component (push_high_priority i s) = cs_component s"
  "cs_component (push_low_priority i s) = cs_component s"
  "cs_instance_states (push_high_priority i s) = cs_instance_states s"
  "cs_instance_states (push_low_priority i s) = cs_instance_states s"
  by (simp_all add: push_high_priority_def push_low_priority_def obj_at_def parent_at_def)

lemma instance_simps [simp]:
  "obj_at (mut_instance_state i f s) = obj_at s" "parent_at (mut_instance_state i f s) = parent_at s"
  "cs_table (mut_instance_state i f s) = cs_table s"
  "cs_high_priority (mut_instance_state i f s) = cs_high_priority s"
  "cs_low_priority (mut_instance_state i f s) = cs_low_priority s"
  "cs_instance_states (mut_instance_state i f s) = (cs_instance_states s)(i := f (cs_instance_states s i))"
  "cs_waitable_tables (mut_instance_state i f s) = cs_waitable_tables s"
  by (simp_all add: mut_instance_state_def obj_at_def parent_at_def)

end
