(* ===== verification/Admission.thy ===== *)
theory Admission
  imports Concurrent_State "HOL-Library.Multiset"
begin

text \<open>
  When a call may enter a component instance, \<open>concurrent.rs\<close>: the reentrance
  check along the chain of callers (\<open>may_enter\<close>), the test whether a queued call
  may run (\<open>GuestCall::is_ready\<close>), and the pending calls of an instance, which
  \<open>exit_instance\<close> and \<open>backpressure_set\<close> move to the work queue once the
  instance admits them.  The context-local slots of a task are here as well.
\<close>

section \<open>Operations\<close>

definition is_ready :: "guest_call \<Rightarrow> concurrent_state \<Rightarrow> (conc_error, bool) outcome" where
  "is_ready call s = and_then_pure (get_guest_task (gc_task call) s) (\<lambda>t.
     let st = cs_instance_states s (gt_instance t) in
     Ok (case gc_kind call of
           DeliverEvent i set_id \<Rightarrow> \<not> is_do_not_enter st
         | StartCall fun_id \<Rightarrow> \<not> (is_do_not_enter st \<or> is_backpressure st)))"

text \<open>The loop of \<open>may_enter\<close>: \<open>None\<close> is a chain of callers that never ends.\<close>

partial_function (option) may_enter_from ::
    "nat \<Rightarrow> nat \<Rightarrow> concurrent_state \<Rightarrow> (conc_error, bool) outcome option" where
  "may_enter_from guest_instance guest_task s =
     (case get_guest_task guest_task s of
        Ok t \<Rightarrow>
          (case gt_caller t of
             CallerHost tx remove post \<Rightarrow> Some (Ok True)
           | CallerGuest task i \<Rightarrow>
               if i = guest_instance then Some (Ok False)
               else may_enter_from guest_instance task s)
      | Err e \<Rightarrow> Some (Panic ''unwrap on Err'')
      | Panic p \<Rightarrow> Some (Panic p))"

definition may_enter :: "nat \<Rightarrow> concurrent_state \<Rightarrow> (conc_error, bool) outcome option" where
  "may_enter guest_task s = (case get_guest_task guest_task s of
      Ok t \<Rightarrow> may_enter_from (gt_instance t) guest_task s
    | Err e \<Rightarrow> Some (Panic ''unwrap on Err'')
    | Panic p \<Rightarrow> Some (Panic p))"

definition enter_instance :: "nat \<Rightarrow> concurrent_state \<Rightarrow> concurrent_state" where
  "enter_instance i s = mut_instance_state i (\<lambda>st. st\<lparr>is_do_not_enter := True\<rparr>) s"

fun partition_calls :: "nat \<Rightarrow> (nat \<times> guest_call_kind) list \<Rightarrow> concurrent_state \<Rightarrow> unit conc" where
  "partition_calls i [] s = (Ok (), s)"
| "partition_calls i ((task, kind) # rest) s =
     (let call = \<lparr>gc_task = task, gc_kind = kind\<rparr> in
      and_then (is_ready call s, s) (\<lambda>ready s.
        if ready then partition_calls i rest (push_high_priority (GuestCallItem call) s)
        else partition_calls i rest
          (mut_instance_state i (\<lambda>st. st\<lparr>is_pending := bt_insert task kind (is_pending st)\<rparr>) s)))"

definition partition_pending :: "nat \<Rightarrow> concurrent_state \<Rightarrow> unit conc" where
  "partition_pending i s =
     partition_calls i (is_pending (cs_instance_states s i))
       (mut_instance_state i (\<lambda>st. st\<lparr>is_pending := []\<rparr>) s)"

definition exit_instance :: "nat \<Rightarrow> concurrent_state \<Rightarrow> unit conc" where
  "exit_instance i s = partition_pending i (mut_instance_state i (\<lambda>st. st\<lparr>is_do_not_enter := False\<rparr>) s)"

definition backpressure_set :: "nat \<Rightarrow> 32 word \<Rightarrow> concurrent_state \<Rightarrow> unit conc" where
  "backpressure_set caller_instance enabled s =
     (let old = is_backpressure (cs_instance_states s caller_instance);
          new = (enabled \<noteq> 0);
          s = mut_instance_state caller_instance (\<lambda>st. st\<lparr>is_backpressure := new\<rparr>) s
      in if old \<and> \<not> new then partition_pending caller_instance s else (Ok (), s))"

definition context_get :: "32 word \<Rightarrow> concurrent_state \<Rightarrow> (conc_error, 32 word) outcome" where
  "context_get slot s = (case cs_guest_task s of
      None \<Rightarrow> Panic ''unwrap on None''
    | Some task \<Rightarrow> and_then_pure (get_guest_task task s) (\<lambda>t.
        (case vec_get (gt_context t) (unat slot) of
           Some val \<Rightarrow> Ok val
         | None \<Rightarrow> Panic ''index out of bounds'')))"

definition context_set :: "32 word \<Rightarrow> 32 word \<Rightarrow> concurrent_state \<Rightarrow> unit conc" where
  "context_set slot val s = (case cs_guest_task s of
      None \<Rightarrow> (Panic ''unwrap on None'', s)
    | Some task \<Rightarrow> and_then (get_guest_task task s, s) (\<lambda>t s.
        if unat slot < length (gt_context t)
        then map_prod (map_ok (\<lambda>_. ())) id
               (mut_guest_task task (\<lambda>t. t\<lparr>gt_context := (gt_context t)[unat slot := val]\<rparr>) s)
        else (Panic ''index out of bounds'', s)))"


section \<open>Pending calls\<close>

text \<open>
  Whether an instance admits a call, and the calls of an instance that are
  pending: their tasks are alive and belong to the instance.
\<close>

fun admits :: "instance_state \<Rightarrow> guest_call_kind \<Rightarrow> bool" where
  "admits st (DeliverEvent i set_id) = (\<not> is_do_not_enter st)"
| "admits st (StartCall fun_id) = (\<not> (is_do_not_enter st \<or> is_backpressure st))"

definition task_in :: "concurrent_state \<Rightarrow> nat \<Rightarrow> nat \<Rightarrow> bool" where
  "task_in s i task \<longleftrightarrow> (\<exists>t. obj_at s task = Some (ObjGuestTask t) \<and> gt_instance t = i)"

definition pending_wf :: "nat \<Rightarrow> concurrent_state \<Rightarrow> bool" where
  "pending_wf i s \<longleftrightarrow> bt_ok (is_pending (cs_instance_states s i)) \<and>
     (\<forall>(task, kind) \<in> set (is_pending (cs_instance_states s i)). task_in s i task)"

text \<open>No call is pending that could run.\<close>

definition pending_blocked :: "nat \<Rightarrow> concurrent_state \<Rightarrow> bool" where
  "pending_blocked i s \<longleftrightarrow>
     (\<forall>(task, kind) \<in> set (is_pending (cs_instance_states s i)). \<not> admits (cs_instance_states s i) kind)"

lemma admits_pending [simp]: "admits (st\<lparr>is_pending := p\<rparr>) kind = admits st kind"
  by (cases kind) auto

lemma is_ready_task_in:
  "task_in s i task \<Longrightarrow> is_ready \<lparr>gc_task = task, gc_kind = kind\<rparr> s = Ok (admits (cs_instance_states s i) kind)"
  by (cases kind) (auto simp: task_in_def is_ready_def Let_def)

lemma task_in_simps [simp]:
  "task_in (push_high_priority item s) i task = task_in s i task"
  "task_in (mut_instance_state j f s) i task = task_in s i task"
  by (simp_all add: task_in_def)

definition as_item :: "nat \<times> guest_call_kind \<Rightarrow> work_item" where
  "as_item c = GuestCallItem \<lparr>gc_task = fst c, gc_kind = snd c\<rparr>"

lemma as_item_eq: "GuestCallItem \<lparr>gc_task = task, gc_kind = kind\<rparr> = as_item (task, kind)"
  by (simp add: as_item_def)

lemma partition_calls_eq:
  assumes "\<forall>(task, kind) \<in> set calls. task_in s i task"
    and "bt_ok (is_pending (cs_instance_states s i) @ calls)"
  shows "partition_calls i calls s =
     (Ok (), s\<lparr>cs_high_priority := cs_high_priority s @
          map as_item (filter (\<lambda>c. admits (cs_instance_states s i) (snd c)) calls),
       cs_instance_states := (cs_instance_states s)(i := (cs_instance_states s i)\<lparr>is_pending :=
          is_pending (cs_instance_states s i) @
            filter (\<lambda>c. \<not> admits (cs_instance_states s i) (snd c)) calls\<rparr>)\<rparr>)"
  using assms
proof (induction i calls s rule: partition_calls.induct)
  case (1 i s)
  then show ?case by simp
next
  case (2 i task kind rest s)
  let ?st = "cs_instance_states s i"
  have r: "is_ready \<lparr>gc_task = task, gc_kind = kind\<rparr> s = Ok (admits ?st kind)"
    using 2(3) by (intro is_ready_task_in) auto
  have ok: "bt_ok (is_pending ?st @ rest)" "\<forall>k' \<in> fst ` set (is_pending ?st). k' < task"
    using 2(4) by (auto simp: bt_ok_def sorted_wrt_append)
  show ?case
  proof (cases "admits ?st kind")
    case True
    have IH: "partition_calls i rest (push_high_priority (as_item (task, kind)) s) =
      (Ok (), (push_high_priority (as_item (task, kind)) s)\<lparr>cs_high_priority :=
          cs_high_priority (push_high_priority (as_item (task, kind)) s) @
            map as_item (filter (\<lambda>c. admits ?st (snd c)) rest),
        cs_instance_states := (cs_instance_states s)(i := ?st\<lparr>is_pending := is_pending ?st @
            filter (\<lambda>c. \<not> admits ?st (snd c)) rest\<rparr>)\<rparr>)"
      using 2(1) [OF refl _ True, of s] r 2(3) ok(1) by (simp add: as_item_eq fun_upd_def)
    show ?thesis using True r IH by (simp add: as_item_eq push_high_priority_def fun_upd_def)
  next
    case False
    let ?s = "mut_instance_state i (\<lambda>st. st\<lparr>is_pending := bt_insert task kind (is_pending st)\<rparr>) s"
    have bi: "bt_insert task kind (is_pending ?st) = is_pending ?st @ [(task, kind)]"
      using ok(2) by (rule bt_insert_last)
    have "partition_calls i rest ?s =
      (Ok (), ?s\<lparr>cs_high_priority := cs_high_priority ?s @
            map as_item (filter (\<lambda>c. admits (cs_instance_states ?s i) (snd c)) rest),
        cs_instance_states := (cs_instance_states ?s)(i := (cs_instance_states ?s i)\<lparr>is_pending :=
            is_pending (cs_instance_states ?s i) @
              filter (\<lambda>c. \<not> admits (cs_instance_states ?s i) (snd c)) rest\<rparr>)\<rparr>)"
      using 2(2) [OF refl _ False, of s] r 2(3,4) bi by (simp add: fun_upd_def)
    then show ?thesis using False r bi by (simp add: mut_instance_state_def fun_upd_def cong: if_cong)
  qed
qed

lemma partition_pending_eq:
  assumes "pending_wf i s"
  shows "partition_pending i s =
     (Ok (), s\<lparr>cs_high_priority := cs_high_priority s @
          map as_item (filter (\<lambda>c. admits (cs_instance_states s i) (snd c)) (is_pending (cs_instance_states s i))),
       cs_instance_states := (cs_instance_states s)(i := (cs_instance_states s i)\<lparr>is_pending :=
          filter (\<lambda>c. \<not> admits (cs_instance_states s i) (snd c)) (is_pending (cs_instance_states s i))\<rparr>)\<rparr>)"
proof -
  let ?s = "mut_instance_state i (\<lambda>st. st\<lparr>is_pending := []\<rparr>) s"
  have "partition_calls i (is_pending (cs_instance_states s i)) ?s =
     (Ok (), ?s\<lparr>cs_high_priority := cs_high_priority ?s @
          map as_item (filter (\<lambda>c. admits (cs_instance_states ?s i) (snd c)) (is_pending (cs_instance_states s i))),
       cs_instance_states := (cs_instance_states ?s)(i := (cs_instance_states ?s i)\<lparr>is_pending :=
          is_pending (cs_instance_states ?s i) @ filter (\<lambda>c. \<not> admits (cs_instance_states ?s i) (snd c))
             (is_pending (cs_instance_states s i))\<rparr>)\<rparr>)"
    using assms by (intro partition_calls_eq) (auto simp: pending_wf_def)
  then show ?thesis by (simp add: partition_pending_def mut_instance_state_def)
qed

lemma pending_wf_mut:
  "(\<And>st. is_pending (f st) = is_pending st) \<Longrightarrow> pending_wf i (mut_instance_state j f s) = pending_wf i s"
  by (auto simp: pending_wf_def)


text \<open>
  The two operations that partition the pending calls: what they release and
  what they keep.
\<close>

definition released :: "nat \<Rightarrow> concurrent_state \<Rightarrow> concurrent_state \<Rightarrow> bool" where
  "released i s s' \<longleftrightarrow>
     (\<exists>calls. cs_high_priority s' = cs_high_priority s @ map as_item calls \<and> bt_ok calls \<and>
        mset (is_pending (cs_instance_states s i)) = mset calls + mset (is_pending (cs_instance_states s' i)))"

lemma partition_pending_spec:
  assumes wf: "pending_wf i s"
  obtains s' where "partition_pending i s = (Ok (), s')" "pending_wf i s'" "pending_blocked i s'" "released i s s'"
    "\<forall>j. j \<noteq> i \<longrightarrow> cs_instance_states s' j = cs_instance_states s j" "obj_at s' = obj_at s"
    "is_do_not_enter (cs_instance_states s' i) = is_do_not_enter (cs_instance_states s i)"
    "is_backpressure (cs_instance_states s' i) = is_backpressure (cs_instance_states s i)"
proof -
  let ?st = "cs_instance_states s i"
  let ?keep = "filter (\<lambda>c. \<not> admits ?st (snd c)) (is_pending ?st)"
  let ?go = "filter (\<lambda>c. admits ?st (snd c)) (is_pending ?st)"
  let ?s = "s\<lparr>cs_high_priority := cs_high_priority s @ map as_item ?go,
       cs_instance_states := (cs_instance_states s)(i := ?st\<lparr>is_pending := ?keep\<rparr>)\<rparr>"
  have sorted: "bt_ok (filter P (is_pending ?st))" for P
    using wf by (auto simp: pending_wf_def bt_ok_def sorted_wrt_map sorted_wrt_filter)
  have obj: "obj_at ?s = obj_at s" by (simp add: obj_at_def)
  show thesis
  proof
    show "partition_pending i s = (Ok (), ?s)" using partition_pending_eq [OF wf] by simp
    show "pending_wf i ?s" using wf sorted by (auto simp: pending_wf_def task_in_def obj)
    show "pending_blocked i ?s" by (auto simp: pending_blocked_def)
    show "released i s ?s"
      unfolding released_def
      by (rule exI [of _ ?go]) (simp add: sorted multiset_partition [of "mset (is_pending ?st)"] mset_filter)
  qed (simp_all add: obj)
qed

lemma exit_instance_spec:
  assumes wf: "pending_wf i s"
  obtains s' where "exit_instance i s = (Ok (), s')" "pending_wf i s'" "pending_blocked i s'" "released i s s'"
    "\<forall>j. j \<noteq> i \<longrightarrow> cs_instance_states s' j = cs_instance_states s j" "obj_at s' = obj_at s"
    "\<not> is_do_not_enter (cs_instance_states s' i)"
    "is_backpressure (cs_instance_states s' i) = is_backpressure (cs_instance_states s i)"
proof -
  let ?s = "mut_instance_state i (\<lambda>st. st\<lparr>is_do_not_enter := False\<rparr>) s"
  have "pending_wf i ?s" using wf by (simp add: pending_wf_mut)
  from partition_pending_spec [OF this] obtain s' where
    "partition_pending i ?s = (Ok (), s')" "pending_wf i s'" "pending_blocked i s'" "released i ?s s'"
    "\<forall>j. j \<noteq> i \<longrightarrow> cs_instance_states s' j = cs_instance_states ?s j" "obj_at s' = obj_at ?s"
    "is_do_not_enter (cs_instance_states s' i) = is_do_not_enter (cs_instance_states ?s i)"
    "is_backpressure (cs_instance_states s' i) = is_backpressure (cs_instance_states ?s i)" by metis
  then show thesis by (intro that [of s']) (auto simp: exit_instance_def released_def)
qed


section \<open>Reachable admission states\<close>

text \<open>
  The moves that change what an instance admits or what waits on it: entering,
  leaving, changing backpressure, and deferring a call that is not ready.
\<close>

inductive admission_reach :: "concurrent_state \<Rightarrow> bool" where
  adm_init: "\<forall>i. is_pending (cs_instance_states s i) = [] \<Longrightarrow> admission_reach s"
| adm_enter: "admission_reach s \<Longrightarrow> admission_reach (enter_instance i s)"
| adm_exit: "admission_reach s \<Longrightarrow> exit_instance i s = (r, s') \<Longrightarrow> admission_reach s'"
| adm_backpressure: "admission_reach s \<Longrightarrow> backpressure_set i v s = (r, s') \<Longrightarrow> admission_reach s'"
| adm_defer: "admission_reach s \<Longrightarrow> task_in s i task \<Longrightarrow>
    is_ready \<lparr>gc_task = task, gc_kind = kind\<rparr> s = Ok False \<Longrightarrow>
    admission_reach (mut_instance_state i (\<lambda>st. st\<lparr>is_pending := bt_insert task kind (is_pending st)\<rparr>) s)"

lemma pending_other:
  assumes "cs_instance_states s' j = cs_instance_states s j" "obj_at s' = obj_at s"
  shows "pending_wf j s' = pending_wf j s" "pending_blocked j s' = pending_blocked j s"
  using assms by (simp_all add: pending_wf_def pending_blocked_def task_in_def)

lemma admits_enter [simp]: "admits (st\<lparr>is_do_not_enter := True\<rparr>) kind = False"
  by (cases kind) auto

lemma admits_backpressure: "admits (st\<lparr>is_backpressure := True\<rparr>) kind \<Longrightarrow> admits st kind"
  by (cases kind) auto

lemma set_bt_insertD: "(a, b) \<in> set (bt_insert k v m) \<Longrightarrow> (a, b) = (k, v) \<or> (a, b) \<in> set m"
  by (induction k v m rule: bt_insert.induct) (auto split: if_splits)

lemma backpressure_set_spec:
  assumes wf: "pending_wf i s" and bl: "pending_blocked i s"
  obtains s' where "backpressure_set i v s = (Ok (), s')" "pending_wf i s'" "pending_blocked i s'" "released i s s'"
    "\<forall>j. j \<noteq> i \<longrightarrow> cs_instance_states s' j = cs_instance_states s j" "obj_at s' = obj_at s"
    "is_backpressure (cs_instance_states s' i) = (v \<noteq> 0)"
    "is_do_not_enter (cs_instance_states s' i) = is_do_not_enter (cs_instance_states s i)"
proof -
  let ?s = "mut_instance_state i (\<lambda>st. st\<lparr>is_backpressure := (v \<noteq> 0)\<rparr>) s"
  have wf': "pending_wf i ?s" using wf by (simp add: pending_wf_mut)
  show thesis
  proof (cases "is_backpressure (cs_instance_states s i) \<and> v = 0")
    case True
    from partition_pending_spec [OF wf'] obtain s' where
      "partition_pending i ?s = (Ok (), s')" "pending_wf i s'" "pending_blocked i s'" "released i ?s s'"
      "\<forall>j. j \<noteq> i \<longrightarrow> cs_instance_states s' j = cs_instance_states ?s j" "obj_at s' = obj_at ?s"
      "is_do_not_enter (cs_instance_states s' i) = is_do_not_enter (cs_instance_states ?s i)"
      "is_backpressure (cs_instance_states s' i) = is_backpressure (cs_instance_states ?s i)" by metis
    then show thesis
      using True by (intro that [of s']) (auto simp: backpressure_set_def Let_def released_def)
  next
    case False
    have "pending_blocked i ?s"
    proof (cases "v = 0")
      case True
      with False have "(cs_instance_states s i)\<lparr>is_backpressure := False\<rparr> = cs_instance_states s i"
        by (cases "cs_instance_states s i") auto
      with True bl show ?thesis by (auto simp: pending_blocked_def)
    next
      case False
      with bl show ?thesis by (auto simp: pending_blocked_def dest: admits_backpressure)
    qed
    moreover have "released i s ?s" by (auto simp: released_def intro: exI [of _ "[]"])
    ultimately show thesis
      using False wf' by (intro that [of ?s]) (auto simp: backpressure_set_def Let_def)
  qed
qed

lemma admission_reach_pending:
  "admission_reach s \<Longrightarrow> pending_wf i s \<and> pending_blocked i s"
proof (induction arbitrary: i rule: admission_reach.induct)
  case (adm_init s)
  then show ?case by (simp add: pending_wf_def pending_blocked_def)
next
  case (adm_enter s j)
  then show ?case
    by (auto simp: enter_instance_def pending_wf_mut) (auto simp: pending_blocked_def)
next
  case (adm_exit s j r s')
  from exit_instance_spec [of j s] adm_exit.IH adm_exit.hyps(2)
  have "pending_wf j s' \<and> pending_blocked j s' \<and> obj_at s' = obj_at s \<and>
    (\<forall>k. k \<noteq> j \<longrightarrow> cs_instance_states s' k = cs_instance_states s k)" by (metis prod.inject)
  with adm_exit.IH [of i] show ?case by (cases "i = j") (auto simp: pending_other [of s' i s])
next
  case (adm_backpressure s j v r s')
  from backpressure_set_spec [of j s v] adm_backpressure.IH adm_backpressure.hyps(2)
  have "pending_wf j s' \<and> pending_blocked j s' \<and> obj_at s' = obj_at s \<and>
    (\<forall>k. k \<noteq> j \<longrightarrow> cs_instance_states s' k = cs_instance_states s k)" by (metis prod.inject)
  with adm_backpressure.IH [of i] show ?case by (cases "i = j") (auto simp: pending_other [of s' i s])
next
  case (adm_defer s j task kind)
  have "\<not> admits (cs_instance_states s j) kind"
    using is_ready_task_in [OF adm_defer.hyps(2), of kind] adm_defer.hyps(3) by simp
  with adm_defer.IH [of i] adm_defer.hyps(2) show ?case
    by (auto simp: pending_wf_def pending_blocked_def dest!: set_bt_insertD)
qed


section \<open>The chain of callers\<close>

text \<open>The instances along the chain of callers of a task, up to the host.\<close>

inductive caller_chain :: "concurrent_state \<Rightarrow> nat \<Rightarrow> nat list \<Rightarrow> bool" for s where
  chain_host: "obj_at s task = Some (ObjGuestTask t) \<Longrightarrow> gt_caller t = CallerHost tx remove post \<Longrightarrow>
    caller_chain s task []"
| chain_guest: "obj_at s task = Some (ObjGuestTask t) \<Longrightarrow> gt_caller t = CallerGuest c i \<Longrightarrow>
    caller_chain s c insts \<Longrightarrow> caller_chain s task (i # insts)"

definition calls :: "concurrent_state \<Rightarrow> (nat \<times> nat) set" where
  "calls s = {(c, task). \<exists>t i. obj_at s task = Some (ObjGuestTask t) \<and> gt_caller t = CallerGuest c i}"

text \<open>Every caller is a live guest task, and nobody is their own ancestor.\<close>

definition callers_ok :: "concurrent_state \<Rightarrow> bool" where
  "callers_ok s \<longleftrightarrow> acyclic (calls s) \<and>
     (\<forall>(c, task) \<in> calls s. \<exists>t. obj_at s c = Some (ObjGuestTask t))"

lemma finite_calls: "callers_ok s \<Longrightarrow> finite (calls s)"
proof (rule finite_subset)
  show "callers_ok s \<Longrightarrow> calls s \<subseteq> dom (obj_at s) \<times> dom (obj_at s)"
    by (fastforce simp: callers_ok_def calls_def)
qed (simp add: finite_dom_obj_at)

lemma caller_chain_exists:
  assumes ok: "callers_ok s" and t: "obj_at s task = Some (ObjGuestTask t)"
  shows "\<exists>insts. caller_chain s task insts"
proof -
  have "wf (calls s)"
    using ok finite_calls [OF ok] by (auto simp: callers_ok_def intro: finite_acyclic_wf)
  then show ?thesis using t
  proof (induction task arbitrary: t rule: wf_induct_rule)
    case (less task)
    show ?case
    proof (cases "gt_caller t")
      case (CallerHost tx remove post)
      with less.prems show ?thesis by (blast intro: chain_host)
    next
      case (CallerGuest c i)
      with less.prems have c: "(c, task) \<in> calls s" by (auto simp: calls_def)
      with ok obtain u where "obj_at s c = Some (ObjGuestTask u)" by (auto simp: callers_ok_def)
      with less.IH [OF c] obtain insts where "caller_chain s c insts" by blast
      with less.prems CallerGuest show ?thesis by (blast intro: chain_guest)
    qed
  qed
qed

lemma may_enter_from_chain:
  "caller_chain s task insts \<Longrightarrow> may_enter_from gi task s = Some (Ok (gi \<notin> set insts))"
proof (induction rule: caller_chain.induct)
  case (chain_host task t tx remove post)
  then show ?case by (simp add: may_enter_from.simps)
next
  case (chain_guest task t c i insts)
  then show ?case by (simp add: may_enter_from.simps [of gi task])
qed


section \<open>An example\<close>

definition example_start :: start_fn where
  "example_start = \<lparr>sf_callee = 7, sf_param_count = 0, sf_result_count = 1, sf_flags = False, sf_async = False,
     sf_callback = False, sf_post_return = None, sf_instance = 3\<rparr>"

definition example_task :: guest_task where
  "example_task = \<lparr>gt_common = waitable_common_default, gt_lower_params = None, gt_lift_result = None,
     gt_result = None, gt_callback = None, gt_caller = CallerHost None True True, gt_call_context = None,
     gt_sync_result = None, gt_cancel_sent = False, gt_starting_sent = False, gt_context = [0, 0],
     gt_subtasks = {}, gt_sync_call_set = 0, gt_instance = 3, gt_event = None, gt_wake_on_cancel = None,
     gt_function_index = None, gt_exited = False\<rparr>"

definition example_component :: component where
  "example_component = \<lparr>num_runtime_component_instances = 1, num_error_context_tables = 2,
     stream_instance = (\<lambda>_. 0), future_instance = (\<lambda>_. 0), stream_payload = (\<lambda>_. Some 0),
     future_payload = (\<lambda>_. Some 0), abi_size32 = (\<lambda>_. 1), abi_align32 = (\<lambda>_. 1)\<rparr>"

definition example_task_state :: concurrent_state where
  "example_task_state = (concurrent_state_new example_component)
     \<lparr>cs_table := snd (table_push (ObjGuestTask example_task) table_new)\<rparr>"

definition example_entered :: concurrent_state where
  "example_entered = enter_instance 3 example_task_state"

definition example_deferred :: concurrent_state where
  "example_deferred = mut_instance_state 3
     (\<lambda>st. st\<lparr>is_pending := bt_insert 0 (StartCall example_start) (is_pending st)\<rparr>) example_entered"

lemma example_obj_at: "obj_at example_task_state = [0 \<mapsto> ObjGuestTask example_task]"
  by (auto simp: example_task_state_def obj_at_def table_push_def table_push_entry_def table_pop_free_list_def
      table_new_def table_lookup_def table_occ_def vec_get_def table_entry_new_def u32_try_from_def fun_eq_iff)

lemma example_deferred_reach: "admission_reach example_deferred"
proof -
  have "admission_reach example_entered" unfolding example_entered_def
    by (intro adm_enter adm_init) (simp add: example_task_state_def concurrent_state_new_def instance_state_default_def)
  moreover have t: "task_in example_entered 3 0"
    using example_obj_at by (simp add: example_entered_def enter_instance_def task_in_def example_task_def)
  moreover have "is_ready \<lparr>gc_task = 0, gc_kind = StartCall example_start\<rparr> example_entered = Ok False"
    using is_ready_task_in [OF t] by (simp add: example_entered_def enter_instance_def)
  ultimately show ?thesis unfolding example_deferred_def by (rule adm_defer)
qed


section \<open>Properties\<close>

text \<open>
  C21: In every state reached by entering and leaving instances, changing
  backpressure and deferring calls, no call waits in an instance that would
  admit it: a pending event delivery means that the instance is entered, and a
  pending start that it is entered or under backpressure.
\<close>

theorem no_admissible_call_waits:
  assumes "admission_reach s" and "(task, kind) \<in> set (is_pending (cs_instance_states s i))"
  shows "is_ready \<lparr>gc_task = task, gc_kind = kind\<rparr> s = Ok False"
proof -
  from admission_reach_pending [OF assms(1), of i] assms(2)
  have "task_in s i task" "\<not> admits (cs_instance_states s i) kind"
    by (auto simp: pending_wf_def pending_blocked_def)
  then show ?thesis by (simp add: is_ready_task_in)
qed

theorem no_admissible_call_waits_witness:
  "is_ready \<lparr>gc_task = 0, gc_kind = StartCall example_start\<rparr> (snd (backpressure_set 3 0 example_deferred)) = Ok False"
proof (rule no_admissible_call_waits [of _ _ _ 3])
  show "admission_reach (snd (backpressure_set 3 0 example_deferred))"
    using example_deferred_reach by (rule adm_backpressure) (rule prod.collapse [symmetric])
  show "(0, StartCall example_start) \<in> set (is_pending (cs_instance_states (snd (backpressure_set 3 0 example_deferred)) 3))"
    by (simp add: example_deferred_def example_entered_def enter_instance_def backpressure_set_def mut_instance_state_def
        example_task_state_def concurrent_state_new_def instance_state_default_def)
qed



text \<open>
  C23: When callers are live tasks and no task is its own ancestor, the walk of
  \<open>may_enter\<close> to the root ends, does not panic, and answers whether the instance of
  the task is absent from the instances of its callers.
\<close>

theorem may_enter_decides:
  assumes "callers_ok s" and "obj_at s task = Some (ObjGuestTask t)"
  shows "\<exists>insts. caller_chain s task insts \<and>
     may_enter task s = Some (Ok (gt_instance t \<notin> set insts))"
proof -
  from caller_chain_exists [OF assms] obtain insts where c: "caller_chain s task insts" by blast
  with assms(2) show ?thesis by (auto simp: may_enter_def may_enter_from_chain intro!: exI [of _ insts])
qed


theorem may_enter_decides_witness:
  "\<exists>insts. caller_chain example_task_state 0 insts \<and>
     may_enter 0 example_task_state = Some (Ok (3 \<notin> set insts))"
proof -
  have "calls example_task_state = {}"
    by (auto simp: calls_def example_obj_at example_task_def split: if_splits)
  then have "callers_ok example_task_state" by (simp add: callers_ok_def acyclic_def)
  then show ?thesis
    using may_enter_decides [of example_task_state 0 example_task] example_obj_at
    by (simp add: example_task_def)
qed

end
