(* ===== verification/Waitables.thy ===== *)
theory Waitables
  imports Admission
begin

text \<open>
  Waitables and waitable sets, \<open>concurrent.rs\<close>: joining a waitable to a set,
  setting, taking and delivering its pending event, waking a task that waits on
  the set, disposing of tasks, and the intrinsics \<open>waitable-set.new\<close>,
  \<open>waitable-set.drop\<close>, \<open>waitable.join\<close> and \<open>subtask.drop\<close>.  The invariant ties
  together what the code keeps in three places: the set a waitable records, the
  parent the table records for it, and the ready set of that waitable set.
\<close>

section \<open>Operations\<close>

definition discard :: "('e, 'a, 's) result \<Rightarrow> ('e, unit, 's) result" where
  "discard m = and_then m (\<lambda>_ s. (Ok (), s))"

fun from_waitable_state :: "nat \<Rightarrow> waitable_state \<Rightarrow> (conc_error, waitable) outcome" where
  "from_waitable_state rep WsHostTask = Ok (WHost rep)"
| "from_waitable_state rep WsGuestTask = Ok (WGuest rep)"
| "from_waitable_state rep (WsStream ty st) = Ok (WTransmit rep)"
| "from_waitable_state rep (WsFuture ty st) = Ok (WTransmit rep)"
| "from_waitable_state rep WsSet = Err (Bail ''invalid waitable handle'')"

definition from_instance :: "nat \<Rightarrow> nat \<Rightarrow> concurrent_state \<Rightarrow> (conc_error, waitable) outcome" where
  "from_instance caller_instance waitable s =
     and_then_pure (waitables_get caller_instance waitable s) (\<lambda>(rep, st). from_waitable_state rep st)"

text \<open>\<open>common\<close>: to read, and with what the caller stores in it (the old value is returned).\<close>

fun common_get :: "waitable \<Rightarrow> concurrent_state \<Rightarrow> (conc_error, waitable_common) outcome" where
  "common_get (WHost i) s = map_ok ht_common (get_host_task i s)"
| "common_get (WGuest i) s = map_ok gt_common (get_guest_task i s)"
| "common_get (WTransmit i) s = map_ok th_common (get_transmit_handle i s)"

fun common_mut :: "waitable \<Rightarrow> (waitable_common \<Rightarrow> waitable_common) \<Rightarrow> concurrent_state \<Rightarrow> waitable_common conc" where
  "common_mut (WHost i) f s =
     map_prod (map_ok ht_common) id (mut_host_task i (\<lambda>t. t\<lparr>ht_common := f (ht_common t)\<rparr>) s)"
| "common_mut (WGuest i) f s =
     map_prod (map_ok gt_common) id (mut_guest_task i (\<lambda>t. t\<lparr>gt_common := f (gt_common t)\<rparr>) s)"
| "common_mut (WTransmit i) f s =
     map_prod (map_ok th_common) id (mut_transmit_handle i (\<lambda>t. t\<lparr>th_common := f (th_common t)\<rparr>) s)"

fun wait_item :: "nat \<Rightarrow> nat \<Rightarrow> wait_mode \<Rightarrow> work_item" where
  "wait_item set_id task (WaitFiber fiber) = ResumeFiber fiber"
| "wait_item set_id task (WaitCallback i) =
     GuestCallItem \<lparr>gc_task = task, gc_kind = DeliverEvent i (Some set_id)\<rparr>"

definition mark_ready :: "waitable \<Rightarrow> concurrent_state \<Rightarrow> unit conc" where
  "mark_ready w s = and_then (common_get w s, s) (\<lambda>c s. case wc_set c of
      None \<Rightarrow> (Ok (), s)
    | Some set_id \<Rightarrow>
        and_then (mut_waitable_set set_id (\<lambda>ws. ws\<lparr>ws_ready := insert w (ws_ready ws)\<rparr>) s) (\<lambda>_ s.
        and_then (mut_waitable_set set_id (\<lambda>ws. ws\<lparr>ws_waiting := tl (ws_waiting ws)\<rparr>) s) (\<lambda>ws s.
        case ws_waiting ws of
          [] \<Rightarrow> (Ok (), s)
        | (task, mode) # rest \<Rightarrow>
            and_then (mut_guest_task task (\<lambda>t. t\<lparr>gt_wake_on_cancel := None\<rparr>) s) (\<lambda>t s.
            if gt_wake_on_cancel t = None \<or> gt_wake_on_cancel t = Some set_id
            then (Ok (), push_high_priority (wait_item set_id task mode) s)
            else (Panic ''assertion failed: wake_on_cancel'', s)))))"

definition join :: "waitable \<Rightarrow> nat option \<Rightarrow> concurrent_state \<Rightarrow> unit conc" where
  "join w set_id s =
     and_then (common_mut w (\<lambda>c. c\<lparr>wc_set := set_id\<rparr>) s) (\<lambda>c s.
     and_then (case wc_set c of
         None \<Rightarrow> (Ok (), s)
       | Some old \<Rightarrow>
           and_then (cs_remove_child (waitable_rep w) old s) (\<lambda>_ s.
           discard (mut_waitable_set old (\<lambda>ws. ws\<lparr>ws_ready := ws_ready ws - {w}\<rparr>) s)))
     (\<lambda>_ s. case set_id of
         None \<Rightarrow> (Ok (), s)
       | Some new \<Rightarrow>
           and_then (cs_add_child (waitable_rep w) new s) (\<lambda>_ s.
           and_then (common_get w s, s) (\<lambda>c s.
           if wc_event c \<noteq> None then mark_ready w s else (Ok (), s)))))"

definition set_event :: "waitable \<Rightarrow> event option \<Rightarrow> concurrent_state \<Rightarrow> unit conc" where
  "set_event w e s =
     and_then (common_mut w (\<lambda>c. c\<lparr>wc_event := e\<rparr>) s) (\<lambda>_ s. mark_ready w s)"

definition take_event :: "waitable \<Rightarrow> concurrent_state \<Rightarrow> event option conc" where
  "take_event w s =
     and_then (common_mut w (\<lambda>c. c\<lparr>wc_event := None\<rparr>) s) (\<lambda>old s.
     and_then (common_get w s, s) (\<lambda>c s.
     and_then (case wc_set c of
         None \<Rightarrow> (Ok (), s)
       | Some set_id \<Rightarrow> discard (mut_waitable_set set_id (\<lambda>ws. ws\<lparr>ws_ready := ws_ready ws - {w}\<rparr>) s))
     (\<lambda>_ s. (Ok (wc_event old), s))))"

text \<open>
  \<open>on_delivery\<close>: the handle named in the event goes from busy to idle, and to
  done when the other end of a stream was dropped.
\<close>

definition deliver_future :: "waitable \<Rightarrow> nat \<Rightarrow> nat \<Rightarrow> stream_future_state \<Rightarrow> concurrent_state \<Rightarrow> unit conc" where
  "deliver_future w ty handle new s =
     (let i = future_instance (cs_component s) ty in
      case waitables_get i handle s of
        Ok (rep, WsFuture actual_ty st) \<Rightarrow>
          if actual_ty \<noteq> ty then (Panic ''assertion failed: *actual_ty == ty'', s)
          else if rep \<noteq> waitable_rep w then (Panic ''assertion failed: rep == self.rep()'', s)
          else if st \<noteq> SfBusy then (Panic ''assertion failed: *state == StreamFutureState::Busy'', s)
          else discard (in_waitables i (st_get_mut_by_index handle (\<lambda>_. WsFuture ty new)) s)
      | Ok _ \<Rightarrow> (Panic ''unreachable'', s)
      | _ \<Rightarrow> (Panic ''unwrap on Err'', s))"

definition deliver_stream :: "waitable \<Rightarrow> nat \<Rightarrow> nat \<Rightarrow> stream_future_state \<Rightarrow> concurrent_state \<Rightarrow> unit conc" where
  "deliver_stream w ty handle new s =
     (let i = stream_instance (cs_component s) ty in
      case waitables_get i handle s of
        Ok (rep, WsStream actual_ty st) \<Rightarrow>
          if actual_ty \<noteq> ty then (Panic ''assertion failed: *actual_ty == ty'', s)
          else if rep \<noteq> waitable_rep w then (Panic ''assertion failed: rep == self.rep()'', s)
          else if st \<noteq> SfBusy then (Panic ''assertion failed: *state == StreamFutureState::Busy'', s)
          else discard (in_waitables i (st_get_mut_by_index handle (\<lambda>_. WsStream ty new)) s)
      | Ok _ \<Rightarrow> (Panic ''unreachable'', s)
      | _ \<Rightarrow> (Panic ''unwrap on Err'', s))"

fun is_dropped :: "return_code \<Rightarrow> bool" where
  "is_dropped (Dropped n) = True"
| "is_dropped _ = False"

fun on_delivery :: "waitable \<Rightarrow> event \<Rightarrow> concurrent_state \<Rightarrow> unit conc" where
  "on_delivery w (FutureRead code (Some (ty, handle))) s = deliver_future w ty handle (SfRead False) s"
| "on_delivery w (FutureWrite code (Some (ty, handle))) s = deliver_future w ty handle (SfWrite False) s"
| "on_delivery w (StreamRead code (Some (ty, handle))) s = deliver_stream w ty handle (SfRead (is_dropped code)) s"
| "on_delivery w (StreamWrite code (Some (ty, handle))) s = deliver_stream w ty handle (SfWrite (is_dropped code)) s"
| "on_delivery w e s = (Ok (), s)"

text \<open>
  Disposing of a task deletes the subtasks whose completion was never delivered,
  which disposes of those in turn.  The depth of that recursion is bounded by the
  number of entries of the table; the first argument counts it down.
\<close>

fun is_completion :: "event option \<Rightarrow> bool" where
  "is_completion (Some (EvSubtask Returned)) = True"
| "is_completion (Some (EvSubtask ReturnCancelled)) = True"
| "is_completion _ = False"

text \<open>
  A waitable set that goes out of scope drops the fibers that wait on it, and a
  fiber in progress must not be dropped.
\<close>

definition drop_set :: "waitable_set \<Rightarrow> (conc_error, unit) outcome" where
  "drop_set ws = (if mode_fibers (ws_waiting ws) = [] then Ok ()
     else Panic ''attempted to drop in-progress fiber'')"

fun dispose_ready :: "(waitable \<Rightarrow> concurrent_state \<Rightarrow> unit conc) \<Rightarrow> waitable list \<Rightarrow> concurrent_state \<Rightarrow> unit conc" where
  "dispose_ready del [] s = (Ok (), s)"
| "dispose_ready del (w # ws) s =
     and_then (common_get w s, s) (\<lambda>c s.
     and_then (if is_completion (wc_event c) then del w s else (Ok (), s)) (\<lambda>_ s.
     dispose_ready del ws s))"

fun reparent :: "caller \<Rightarrow> nat list \<Rightarrow> concurrent_state \<Rightarrow> unit conc" where
  "reparent c [] s = (Ok (), s)"
| "reparent c (subtask # subtasks) s =
     and_then (mut_guest_task subtask (\<lambda>t. t\<lparr>gt_caller := c\<rparr>) s) (\<lambda>_ s. reparent c subtasks s)"

definition dispose ::
    "(waitable \<Rightarrow> concurrent_state \<Rightarrow> unit conc) \<Rightarrow> guest_task \<Rightarrow> nat \<Rightarrow> concurrent_state \<Rightarrow> unit conc" where
  "dispose del self me s =
     and_then (mut_waitable_set (gt_sync_call_set self) (\<lambda>ws. ws\<lparr>ws_ready := {}\<rparr>) s) (\<lambda>ws s.
     and_then (dispose_ready del (sorted_list_of_set (ws_ready ws)) s) (\<lambda>_ s.
     and_then (cs_delete as_waitable_set (gt_sync_call_set self) s) (\<lambda>ws s.
     and_then (drop_set ws, s) (\<lambda>_ s.
     case gt_caller self of
       CallerGuest task i \<Rightarrow>
         and_then (get_guest_task task s, s) (\<lambda>t s.
         if me \<notin> gt_subtasks t then (Panic ''assertion failed: present'', s)
         else
           and_then (mut_guest_task task
               (\<lambda>t. t\<lparr>gt_subtasks := (gt_subtasks t - {me}) \<union> gt_subtasks self\<rparr>) s) (\<lambda>_ s.
           reparent (CallerGuest task i) (sorted_list_of_set (gt_subtasks self)) s))
     | CallerHost tx remove post \<Rightarrow>
         reparent (CallerHost None True True) (sorted_list_of_set (gt_subtasks self)) s))))"

fun delete_from_depth :: "nat \<Rightarrow> waitable \<Rightarrow> concurrent_state \<Rightarrow> unit conc" where
  "delete_from_depth n (WHost task) s = discard (cs_delete as_host_task task s)"
| "delete_from_depth n (WTransmit task) s = discard (cs_delete as_transmit_handle task s)"
| "delete_from_depth 0 (WGuest task) s = (Panic ''recursion depth'', s)"
| "delete_from_depth (Suc n) (WGuest task) s =
     and_then (cs_delete as_guest_task task s) (\<lambda>t s. dispose (delete_from_depth n) t task s)"

definition delete_from :: "waitable \<Rightarrow> concurrent_state \<Rightarrow> unit conc" where
  "delete_from w s = delete_from_depth (Suc (length (tb_entries (cs_table s)))) w s"


text \<open>The next event for a task, from its own slot or from a waitable set.\<close>

fun is_waitable_handle :: "(nat \<times> waitable_state) option \<Rightarrow> bool" where
  "is_waitable_handle None = False"
| "is_waitable_handle (Some (handle, WsSet)) = False"
| "is_waitable_handle (Some (handle, st)) = True"

definition deliver_ready ::
    "nat \<Rightarrow> waitable \<Rightarrow> concurrent_state \<Rightarrow> (event \<times> (waitable \<times> nat) option) option conc" where
  "deliver_ready i w s =
     and_then (common_mut w (\<lambda>c. c\<lparr>wc_event := None\<rparr>) s) (\<lambda>c s.
     case wc_event c of
       None \<Rightarrow> (Panic ''unwrap on None'', s)
     | Some e \<Rightarrow>
         and_then (in_waitables i (st_get_mut_by_rep (waitable_rep w) (\<lambda>x. x)) s) (\<lambda>entry s.
         if is_waitable_handle entry
         then and_then (on_delivery w e s) (\<lambda>_ s. (Ok (Some (e, Some (w, fst (the entry)))), s))
         else (Err (Bail ''handle not found for waitable rep''), s)))"

definition get_event ::
    "nat \<Rightarrow> nat \<Rightarrow> nat option \<Rightarrow> concurrent_state \<Rightarrow> (event \<times> (waitable \<times> nat) option) option conc" where
  "get_event guest_task i set_id s =
     and_then (mut_guest_task guest_task (\<lambda>t. t\<lparr>gt_event := None\<rparr>) s) (\<lambda>t s.
     case gt_event t of
       Some e \<Rightarrow> (Ok (Some (e, None)), s)
     | None \<Rightarrow>
         (case set_id of
            None \<Rightarrow> (Ok None, s)
          | Some k \<Rightarrow>
              and_then (get_waitable_set k s, s) (\<lambda>ws s.
              if ws_ready ws = {} then (Ok None, s)
              else
                (let w = Min (ws_ready ws) in
                 and_then (mut_waitable_set k (\<lambda>ws. ws\<lparr>ws_ready := ws_ready ws - {w}\<rparr>) s) (\<lambda>_ s.
                 deliver_ready i w s)))))"

section \<open>Intrinsics\<close>

definition waitable_set_new :: "nat \<Rightarrow> concurrent_state \<Rightarrow> nat conc" where
  "waitable_set_new caller_instance s =
     and_then (cs_push (ObjWaitableSet waitable_set_default) s) (\<lambda>k s.
     in_waitables caller_instance (st_insert k WsSet) s)"

definition waitable_set_drop :: "nat \<Rightarrow> nat \<Rightarrow> concurrent_state \<Rightarrow> unit conc" where
  "waitable_set_drop caller_instance handle s =
     and_then (in_waitables caller_instance (st_remove_by_index handle) s) (\<lambda>(rep, st) s.
     if st \<noteq> WsSet then (Err (Bail ''invalid waitable-set handle''), s)
     else and_then (cs_delete as_waitable_set rep s) (\<lambda>ws s.
       if ws_waiting ws \<noteq> [] then
         and_then (drop_set ws, s) (\<lambda>_ s. (Err (Bail ''cannot drop waitable set with waiters''), s))
       else (Ok (), s)))"

definition waitable_set_handle :: "nat \<Rightarrow> nat \<Rightarrow> concurrent_state \<Rightarrow> (conc_error, nat) outcome" where
  "waitable_set_handle i handle s =
     and_then_pure (waitables_get i handle s) (\<lambda>(rep, st).
     if st = WsSet then Ok rep else Err (Bail ''invalid waitable-set handle''))"

definition waitable_join :: "nat \<Rightarrow> nat \<Rightarrow> nat \<Rightarrow> concurrent_state \<Rightarrow> unit conc" where
  "waitable_join caller_instance waitable_handle set_handle s =
     and_then (from_instance caller_instance waitable_handle s, s) (\<lambda>w s.
     and_then
       (if set_handle = 0 then Ok None
        else map_ok Some (waitable_set_handle caller_instance set_handle s), s) (\<lambda>set_id s.
     join w set_id s))"

definition subtask_drop_target ::
    "nat \<Rightarrow> waitable_state \<Rightarrow> concurrent_state \<Rightarrow> (conc_error, waitable \<times> nat \<times> bool) outcome" where
  "subtask_drop_target rep st s = (case st of
      WsHostTask \<Rightarrow>
        and_then_pure (get_host_task rep s) (\<lambda>t.
        if ht_join_handle t \<noteq> None then Err (Bail ''cannot drop a subtask which has not yet resolved'')
        else Ok (WHost rep, ht_caller_instance t, True))
    | WsGuestTask \<Rightarrow>
        and_then_pure (get_guest_task rep s) (\<lambda>t.
        if gt_lift_result t \<noteq> None then Err (Bail ''cannot drop a subtask which has not yet resolved'')
        else (case gt_caller t of
            CallerGuest task i \<Rightarrow> Ok (WGuest rep, i, gt_exited t)
          | CallerHost tx remove post \<Rightarrow> Panic ''unreachable''))
    | _ \<Rightarrow> Err (Bail ''invalid task handle''))"

definition subtask_drop :: "nat \<Rightarrow> nat \<Rightarrow> concurrent_state \<Rightarrow> unit conc" where
  "subtask_drop caller_instance task_id s =
     and_then (waitable_join caller_instance task_id 0 s) (\<lambda>_ s.
     and_then (in_waitables caller_instance (st_remove_by_index task_id) s) (\<lambda>(rep, st) s.
     and_then (subtask_drop_target rep st s, s) (\<lambda>(w, expected_caller_instance, delete) s.
     and_then (take_event w s) (\<lambda>e s.
     if e \<noteq> None then (Err (Bail ''cannot drop a subtask with an undelivered event''), s)
     else and_then (if delete then delete_from w s else (Ok (), s)) (\<lambda>_ s.
       if expected_caller_instance = caller_instance then (Ok (), s)
       else (Panic ''assertion failed: expected_caller_instance == caller_instance'', s))))))"

text \<open>The code a task's export or callback returned.\<close>

definition started_event :: "nat \<Rightarrow> 32 word \<Rightarrow> bool \<Rightarrow> concurrent_state \<Rightarrow> unit conc" where
  "started_event guest_task code initial_call s =
     and_then (get_guest_task guest_task s, s) (\<lambda>t s.
     if gt_lift_result t \<noteq> None then
       (if code = cb_EXIT then (Err (Trap ''NoAsyncResult''), s)
        else if initial_call then set_event (WGuest guest_task) (Some (EvSubtask Started)) s
        else (Ok (), s))
     else (Ok (), s))"

definition callback_exit :: "nat \<Rightarrow> concurrent_state \<Rightarrow> unit conc" where
  "callback_exit guest_task s =
     and_then (get_guest_task guest_task s, s) (\<lambda>t s. case gt_caller t of
       CallerHost tx remove_task_automatically post \<Rightarrow>
         if remove_task_automatically then delete_from (WGuest guest_task) s else (Ok (), s)
     | CallerGuest task i \<Rightarrow>
         discard (mut_guest_task guest_task (\<lambda>t. t\<lparr>gt_exited := True, gt_callback := None\<rparr>) s))"

definition callback_yield :: "nat \<Rightarrow> nat \<Rightarrow> concurrent_state \<Rightarrow> unit conc" where
  "callback_yield guest_task i s =
     and_then (get_guest_task guest_task s, s) (\<lambda>t s.
     if gt_event t \<noteq> None then (Panic ''assertion failed: task.event.is_none()'', s)
     else and_then (mut_guest_task guest_task (\<lambda>t. t\<lparr>gt_event := Some EvNone\<rparr>) s) (\<lambda>_ s.
       (Ok (), push_low_priority (GuestCallItem \<lparr>gc_task = guest_task, gc_kind = DeliverEvent i None\<rparr>) s)))"

definition callback_get_set :: "nat \<Rightarrow> nat \<Rightarrow> concurrent_state \<Rightarrow> (conc_error, nat) outcome" where
  "callback_get_set i handle s =
     (if handle = 0 then Err (Bail ''invalid waitable-set handle'') else waitable_set_handle i handle s)"

definition callback_wait :: "nat \<Rightarrow> nat \<Rightarrow> nat \<Rightarrow> concurrent_state \<Rightarrow> unit conc" where
  "callback_wait guest_task i k s =
     and_then (mut_guest_task guest_task (\<lambda>t. t\<lparr>gt_wake_on_cancel := Some k\<rparr>) s) (\<lambda>t s.
     if gt_wake_on_cancel t \<noteq> None then (Panic ''assertion failed: old.is_none()'', s)
     else and_then (mut_waitable_set k
         (\<lambda>ws. ws\<lparr>ws_waiting := bt_insert guest_task (WaitCallback i) (ws_waiting ws)\<rparr>) s) (\<lambda>ws s.
       if map_of (ws_waiting ws) guest_task \<noteq> None then (Panic ''assertion failed: old.is_none()'', s)
       else (Ok (), s)))"

definition callback_wait_or_poll :: "nat \<Rightarrow> nat \<Rightarrow> 32 word \<Rightarrow> nat \<Rightarrow> concurrent_state \<Rightarrow> unit conc" where
  "callback_wait_or_poll guest_task i code handle s =
     and_then (callback_get_set i handle s, s) (\<lambda>k s.
     and_then (get_guest_task guest_task s, s) (\<lambda>t s.
     and_then
       (if gt_event t \<noteq> None then Ok True else map_ok (\<lambda>ws. ws_ready ws \<noteq> {}) (get_waitable_set k s), s)
       (\<lambda>available s.
     if available then
       (Ok (), push_high_priority (GuestCallItem \<lparr>gc_task = guest_task, gc_kind = DeliverEvent i (Some k)\<rparr>) s)
     else if code = cb_POLL then
       (Ok (), push_low_priority (PollItem \<lparr>pp_task = guest_task, pp_set = k, pp_instance = i\<rparr>) s)
     else callback_wait guest_task i k s)))"

definition handle_callback_code :: "nat \<Rightarrow> nat \<Rightarrow> 32 word \<Rightarrow> bool \<Rightarrow> concurrent_state \<Rightarrow> unit conc" where
  "handle_callback_code guest_task i packed initial_call s =
     (case unpack_callback_code packed of (code, handle) \<Rightarrow>
      and_then (started_event guest_task code initial_call s) (\<lambda>_ s.
      if code = cb_EXIT then callback_exit guest_task s
      else if code = cb_YIELD then callback_yield guest_task i s
      else if code = cb_WAIT \<or> code = cb_POLL then callback_wait_or_poll guest_task i code (unat handle) s
      else (Err (Bail ''unsupported callback code''), s)))"


section \<open>Views of the state\<close>

text \<open>
  The parts of the table that waitables read and write: the common part of each
  waitable, the waitable sets, and the set on which cancellation would wake a
  task.  Each primitive access changes one of them.
\<close>

fun obj_common_as :: "waitable \<Rightarrow> obj \<Rightarrow> waitable_common option" where
  "obj_common_as (WHost i) (ObjHostTask t) = Some (ht_common t)"
| "obj_common_as (WGuest i) (ObjGuestTask t) = Some (gt_common t)"
| "obj_common_as (WTransmit i) (ObjTransmitHandle t) = Some (th_common t)"
| "obj_common_as _ _ = None"

fun obj_with_common :: "waitable_common \<Rightarrow> obj \<Rightarrow> obj" where
  "obj_with_common c (ObjHostTask t) = ObjHostTask (t\<lparr>ht_common := c\<rparr>)"
| "obj_with_common c (ObjGuestTask t) = ObjGuestTask (t\<lparr>gt_common := c\<rparr>)"
| "obj_with_common c (ObjTransmitHandle t) = ObjTransmitHandle (t\<lparr>th_common := c\<rparr>)"
| "obj_with_common c x = x"

fun obj_set :: "obj \<Rightarrow> nat option" where
  "obj_set (ObjHostTask t) = wc_set (ht_common t)"
| "obj_set (ObjGuestTask t) = wc_set (gt_common t)"
| "obj_set (ObjTransmitHandle t) = wc_set (th_common t)"
| "obj_set _ = None"

definition common_at :: "concurrent_state \<Rightarrow> waitable \<Rightarrow> waitable_common option" where
  "common_at s w = Option.bind (obj_at s (waitable_rep w)) (obj_common_as w)"

definition set_at :: "concurrent_state \<Rightarrow> nat \<Rightarrow> waitable_set option" where
  "set_at s k = Option.bind (obj_at s k) as_waitable_set"

definition wake_at :: "concurrent_state \<Rightarrow> nat \<Rightarrow> nat option option" where
  "wake_at s k = Option.bind (obj_at s k) (\<lambda>x. map_option gt_wake_on_cancel (as_guest_task x))"

definition joined :: "concurrent_state \<Rightarrow> nat \<Rightarrow> nat option" where
  "joined s k = Option.bind (obj_at s k) obj_set"

lemmas view_defs = common_at_def set_at_def wake_at_def joined_def

lemma views_cong:
  "obj_at s' = obj_at s \<Longrightarrow> common_at s' = common_at s \<and> set_at s' = set_at s \<and> wake_at s' = wake_at s \<and> joined s' = joined s"
  by (simp add: view_defs fun_eq_iff)

lemma common_at_obj: "common_at s w = Some c \<Longrightarrow> \<exists>x. obj_at s (waitable_rep w) = Some x \<and> obj_common_as w x = Some c"
  by (auto simp: common_at_def bind_eq_Some_conv)

lemma common_at_joined: "common_at s w = Some c \<Longrightarrow> joined s (waitable_rep w) = wc_set c"
  by (auto dest!: common_at_obj simp: joined_def elim!: obj_common_as.elims)

lemma common_at_distinct: "common_at s v = Some c \<Longrightarrow> common_at s w = Some d \<Longrightarrow>
   waitable_rep v = waitable_rep w \<longleftrightarrow> v = w"
  by (cases v; cases w) (auto simp: common_at_def bind_eq_Some_conv elim!: obj_common_as.elims)

lemma set_at_Some: "set_at s k = Some ws \<longleftrightarrow> obj_at s k = Some (ObjWaitableSet ws)"
  by (auto simp: set_at_def bind_eq_Some_conv)

lemma set_at_not_common: "set_at s (waitable_rep w) = Some ws \<Longrightarrow> common_at s w = None"
  by (cases w) (auto simp: set_at_Some common_at_def)

definition put_common :: "waitable \<Rightarrow> waitable_common \<Rightarrow> concurrent_state \<Rightarrow> concurrent_state" where
  "put_common w c s = cs_put (waitable_rep w) (obj_with_common c (the (obj_at s (waitable_rep w)))) s"

definition put_set :: "nat \<Rightarrow> waitable_set \<Rightarrow> concurrent_state \<Rightarrow> concurrent_state" where
  "put_set k ws s = cs_put k (ObjWaitableSet ws) s"

lemma common_get_at: "common_at s w = Some c \<Longrightarrow> common_get w s = Ok c"
  by (cases w) (auto simp: common_at_def bind_eq_Some_conv cs_get_Ok elim!: obj_common_as.elims)

lemma common_mut_at: "common_at s w = Some c \<Longrightarrow> common_mut w f s = (Ok c, put_common w (f c) s)"
  by (cases w) (auto simp: common_at_def bind_eq_Some_conv put_common_def elim!: obj_common_as.elims)

lemma common_get_Ok: "common_get w s = Ok c \<longleftrightarrow> common_at s w = Some c"
  by (cases w) (auto simp: common_at_def bind_eq_Some_conv cs_get_Ok elim!: obj_common_as.elims)

lemma put_common_views:
  assumes "common_at s w = Some d"
  shows "common_at (put_common w c s) = (common_at s)(w \<mapsto> c)"
    and "set_at (put_common w c s) = set_at s"
    and "wake_at (put_common w c s) = wake_at s"
    and "joined (put_common w c s) = (joined s)(waitable_rep w := wc_set c)"
    and "parent_at (put_common w c s) = parent_at s"
    and "table_inv (cs_table s) \<Longrightarrow> table_inv (cs_table (put_common w c s))"
proof -
  from common_at_obj [OF assms] obtain x where x: "obj_at s (waitable_rep w) = Some x" "obj_common_as w x = Some d"
    by blast
  then have obj: "obj_at (put_common w c s) = (obj_at s)(waitable_rep w \<mapsto> obj_with_common c x)"
    by (simp add: put_common_def)
  have xc: "obj_common_as w (obj_with_common c x) = Some c" using x(2) by (auto elim!: obj_common_as.elims)
  show "common_at (put_common w c s) = (common_at s)(w \<mapsto> c)"
  proof
    fix v
    show "common_at (put_common w c s) v = ((common_at s)(w \<mapsto> c)) v"
    proof (cases "v = w")
      case True
      with obj xc show ?thesis by (simp add: common_at_def)
    next
      case False
      have "obj_common_as v (obj_with_common c x) = None" "obj_common_as v x = None" if "waitable_rep v = waitable_rep w"
        using False that x(2) by (cases v; cases w; cases x; auto)+
      with False obj x(1) show ?thesis by (auto simp: common_at_def)
    qed
  qed
  show "set_at (put_common w c s) = set_at s"
    using x by (auto simp: set_at_def obj fun_eq_iff elim!: obj_common_as.elims)
  show "wake_at (put_common w c s) = wake_at s"
    using x by (auto simp: wake_at_def obj fun_eq_iff elim!: obj_common_as.elims)
  show "joined (put_common w c s) = (joined s)(waitable_rep w := wc_set c)"
    using x by (auto simp: joined_def obj fun_eq_iff elim!: obj_common_as.elims)
qed (simp_all add: put_common_def)

lemma mut_set_at: "set_at s k = Some ws \<Longrightarrow> mut_waitable_set k f s = (Ok ws, put_set k (f ws) s)"
  by (auto simp: set_at_Some put_set_def)

lemma get_set_at: "set_at s k = Some ws \<Longrightarrow> get_waitable_set k s = Ok ws"
  by (auto simp: set_at_Some)

lemma put_set_views:
  assumes "set_at s k = Some ws"
  shows "common_at (put_set k ws' s) = common_at s"
    and "set_at (put_set k ws' s) = (set_at s)(k \<mapsto> ws')"
    and "wake_at (put_set k ws' s) = wake_at s"
    and "joined (put_set k ws' s) = joined s"
    and "parent_at (put_set k ws' s) = parent_at s"
    and "table_inv (cs_table s) \<Longrightarrow> table_inv (cs_table (put_set k ws' s))"
proof -
  have obj: "obj_at (put_set k ws' s) = (obj_at s)(k \<mapsto> ObjWaitableSet ws')"
    using assms by (simp add: put_set_def set_at_Some)
  have cm: "obj_common_as w (ObjWaitableSet v) = None" for w v by (cases w) auto
  show "common_at (put_set k ws' s) = common_at s"
    using assms cm by (auto simp: common_at_def obj fun_eq_iff set_at_Some)
  show "set_at (put_set k ws' s) = (set_at s)(k \<mapsto> ws')" by (auto simp: set_at_def obj fun_eq_iff)
  show "wake_at (put_set k ws' s) = wake_at s"
    using assms by (auto simp: wake_at_def obj fun_eq_iff set_at_Some)
  show "joined (put_set k ws' s) = joined s"
    using assms by (auto simp: joined_def obj fun_eq_iff set_at_Some)
qed (simp_all add: put_set_def)

text \<open>Updating a guest task outside its common part.\<close>

lemma put_task_views:
  assumes "obj_at s k = Some (ObjGuestTask t)" and "gt_common t' = gt_common t"
  shows "common_at (cs_put k (ObjGuestTask t') s) = common_at s"
    and "set_at (cs_put k (ObjGuestTask t') s) = set_at s"
    and "wake_at (cs_put k (ObjGuestTask t') s) = (wake_at s)(k \<mapsto> gt_wake_on_cancel t')"
    and "joined (cs_put k (ObjGuestTask t') s) = joined s"
proof -
  have obj: "obj_at (cs_put k (ObjGuestTask t') s) = (obj_at s)(k \<mapsto> ObjGuestTask t')"
    using assms by simp
  show "common_at (cs_put k (ObjGuestTask t') s) = common_at s"
  proof
    fix w show "common_at (cs_put k (ObjGuestTask t') s) w = common_at s w"
      using assms by (cases w) (auto simp: common_at_def obj)
  qed
  show "set_at (cs_put k (ObjGuestTask t') s) = set_at s"
    using assms by (auto simp: set_at_def obj fun_eq_iff)
  show "wake_at (cs_put k (ObjGuestTask t') s) = (wake_at s)(k \<mapsto> gt_wake_on_cancel t')"
    by (auto simp: wake_at_def obj fun_eq_iff)
  show "joined (cs_put k (ObjGuestTask t') s) = joined s"
    using assms by (auto simp: joined_def obj fun_eq_iff)
qed

lemma wake_at_Some: "wake_at s k = Some v \<longleftrightarrow> (\<exists>t. obj_at s k = Some (ObjGuestTask t) \<and> gt_wake_on_cancel t = v)"
  by (auto simp: wake_at_def bind_eq_Some_conv)

lemma push_views [simp]:
  "common_at (push_high_priority i s) = common_at s" "set_at (push_high_priority i s) = set_at s"
  "wake_at (push_high_priority i s) = wake_at s" "joined (push_high_priority i s) = joined s"
  "common_at (push_low_priority i s) = common_at s" "set_at (push_low_priority i s) = set_at s"
  "wake_at (push_low_priority i s) = wake_at s" "joined (push_low_priority i s) = joined s"
  by (simp_all add: view_defs fun_eq_iff)


section \<open>The invariant of waitable sets\<close>

text \<open>
  The set a waitable has joined is the parent of its table entry and a live
  waitable set; it is ready in that set exactly when it has a pending event; what
  is ready in a set is a live waitable that joined it; and the tasks waiting on a
  set are live, wait nowhere else, and would be woken by cancellation from no
  other set.  The waitables in \<open>X\<close> may have an event without being ready yet.
\<close>

definition members_ok :: "waitable set \<Rightarrow> concurrent_state \<Rightarrow> bool" where
  "members_ok X s \<longleftrightarrow> (\<forall>w c k. common_at s w = Some c \<longrightarrow> wc_set c = Some k \<longrightarrow>
     (\<exists>ws. set_at s k = Some ws \<and> (w \<in> X \<or> (w \<in> ws_ready ws \<longleftrightarrow> wc_event c \<noteq> None))))"

definition ready_ok :: "concurrent_state \<Rightarrow> bool" where
  "ready_ok s \<longleftrightarrow> (\<forall>k ws w. set_at s k = Some ws \<longrightarrow> w \<in> ws_ready ws \<longrightarrow>
     (\<exists>c. common_at s w = Some c \<and> wc_set c = Some k))"

definition sorted_ok :: "concurrent_state \<Rightarrow> bool" where
  "sorted_ok s \<longleftrightarrow> (\<forall>k ws. set_at s k = Some ws \<longrightarrow> bt_ok (ws_waiting ws))"

definition wake_ok :: "concurrent_state \<Rightarrow> bool" where
  "wake_ok s \<longleftrightarrow> (\<forall>k ws t. set_at s k = Some ws \<longrightarrow> t \<in> fst ` set (ws_waiting ws) \<longrightarrow>
     wake_at s t = Some None \<or> wake_at s t = Some (Some k))"

definition waits_once :: "concurrent_state \<Rightarrow> bool" where
  "waits_once s \<longleftrightarrow> (\<forall>k ws j vs t. set_at s k = Some ws \<longrightarrow> set_at s j = Some vs \<longrightarrow>
     t \<in> fst ` set (ws_waiting ws) \<longrightarrow> t \<in> fst ` set (ws_waiting vs) \<longrightarrow> k = j)"

definition wset_inv_upto :: "waitable set \<Rightarrow> concurrent_state \<Rightarrow> bool" where
  "wset_inv_upto X s \<longleftrightarrow> table_inv (cs_table s) \<and> parent_at s = joined s \<and> members_ok X s \<and>
     ready_ok s \<and> sorted_ok s \<and> wake_ok s \<and> waits_once s"

lemmas wset_inv_defs = wset_inv_upto_def members_ok_def ready_ok_def sorted_ok_def wake_ok_def waits_once_def

abbreviation wset_inv :: "concurrent_state \<Rightarrow> bool" where
  "wset_inv \<equiv> wset_inv_upto {}"

lemma wset_inv_uptoD:
  assumes "wset_inv_upto X s"
  shows "table_inv (cs_table s)" and "parent_at s = joined s"
    and "common_at s w = Some c \<Longrightarrow> wc_set c = Some k \<Longrightarrow>
      \<exists>ws. set_at s k = Some ws \<and> (w \<in> X \<or> (w \<in> ws_ready ws \<longleftrightarrow> wc_event c \<noteq> None))"
    and "set_at s k = Some ws \<Longrightarrow> w \<in> ws_ready ws \<Longrightarrow> \<exists>c. common_at s w = Some c \<and> wc_set c = Some k"
    and "set_at s k = Some ws \<Longrightarrow> bt_ok (ws_waiting ws)"
    and "set_at s k = Some ws \<Longrightarrow> t \<in> fst ` set (ws_waiting ws) \<Longrightarrow>
      wake_at s t = Some None \<or> wake_at s t = Some (Some k)"
    and "set_at s k = Some ws \<Longrightarrow> set_at s j = Some vs \<Longrightarrow> t \<in> fst ` set (ws_waiting ws) \<Longrightarrow>
      t \<in> fst ` set (ws_waiting vs) \<Longrightarrow> k = j"
proof -
  from assms have i: "table_inv (cs_table s)" "parent_at s = joined s" "members_ok X s" "ready_ok s" "sorted_ok s"
    "wake_ok s" "waits_once s" by (simp_all add: wset_inv_upto_def)
  show "table_inv (cs_table s)" "parent_at s = joined s" by fact+
  show "common_at s w = Some c \<Longrightarrow> wc_set c = Some k \<Longrightarrow>
      \<exists>ws. set_at s k = Some ws \<and> (w \<in> X \<or> (w \<in> ws_ready ws \<longleftrightarrow> wc_event c \<noteq> None))"
    using i(3) by (simp add: members_ok_def)
  show "set_at s k = Some ws \<Longrightarrow> w \<in> ws_ready ws \<Longrightarrow> \<exists>c. common_at s w = Some c \<and> wc_set c = Some k"
    using i(4) by (simp add: ready_ok_def)
  show "set_at s k = Some ws \<Longrightarrow> bt_ok (ws_waiting ws)" using i(5) by (simp add: sorted_ok_def)
  show "set_at s k = Some ws \<Longrightarrow> t \<in> fst ` set (ws_waiting ws) \<Longrightarrow>
      wake_at s t = Some None \<or> wake_at s t = Some (Some k)" using i(6) unfolding wake_ok_def by blast
  show "set_at s k = Some ws \<Longrightarrow> set_at s j = Some vs \<Longrightarrow> t \<in> fst ` set (ws_waiting ws) \<Longrightarrow>
      t \<in> fst ` set (ws_waiting vs) \<Longrightarrow> k = j" using i(7) unfolding waits_once_def by blast
qed

lemma wset_inv_uptoI:
  assumes "table_inv (cs_table s)" and "parent_at s = joined s"
    and "\<And>w c k. common_at s w = Some c \<Longrightarrow> wc_set c = Some k \<Longrightarrow>
      \<exists>ws. set_at s k = Some ws \<and> (w \<in> X \<or> (w \<in> ws_ready ws \<longleftrightarrow> wc_event c \<noteq> None))"
    and "\<And>k ws w. set_at s k = Some ws \<Longrightarrow> w \<in> ws_ready ws \<Longrightarrow> \<exists>c. common_at s w = Some c \<and> wc_set c = Some k"
    and "\<And>k ws. set_at s k = Some ws \<Longrightarrow> bt_ok (ws_waiting ws)"
    and "\<And>k ws t. set_at s k = Some ws \<Longrightarrow> t \<in> fst ` set (ws_waiting ws) \<Longrightarrow>
      wake_at s t = Some None \<or> wake_at s t = Some (Some k)"
    and "\<And>k ws j vs t. set_at s k = Some ws \<Longrightarrow> set_at s j = Some vs \<Longrightarrow> t \<in> fst ` set (ws_waiting ws) \<Longrightarrow>
      t \<in> fst ` set (ws_waiting vs) \<Longrightarrow> k = j"
  shows "wset_inv_upto X s"
  unfolding wset_inv_upto_def
proof (intro conjI)
  show "members_ok X s" unfolding members_ok_def using assms(3) by blast
  show "ready_ok s" unfolding ready_ok_def using assms(4) by blast
  show "sorted_ok s" unfolding sorted_ok_def using assms(5) by blast
  show "wake_ok s" unfolding wake_ok_def using assms(6) by blast
  show "waits_once s" unfolding waits_once_def using assms(7) by blast
qed (use assms in simp_all)

lemma wset_inv_upto_cong:
  assumes "common_at s' = common_at s" "set_at s' = set_at s" "wake_at s' = wake_at s" "joined s' = joined s"
    "parent_at s' = parent_at s" "table_inv (cs_table s) \<Longrightarrow> table_inv (cs_table s')" "wset_inv_upto X s"
  shows "wset_inv_upto X s'"
  using assms unfolding wset_inv_defs by simp

text \<open>Replacing one set by another with the same members ready, or one more that may be.\<close>

lemma wset_inv_put_set:
  assumes inv: "wset_inv_upto X s" and k: "set_at s k = Some ws"
    and ready: "\<forall>w \<in> ws_ready ws'. \<exists>c. common_at s w = Some c \<and> wc_set c = Some k"
    and iff: "\<And>w c. common_at s w = Some c \<Longrightarrow> wc_set c = Some k \<Longrightarrow> w \<notin> Y \<Longrightarrow>
      w \<in> ws_ready ws' \<longleftrightarrow> wc_event c \<noteq> None"
    and off: "\<And>w c. w \<in> X \<Longrightarrow> w \<notin> Y \<Longrightarrow> common_at s w = Some c \<Longrightarrow> wc_set c = Some k \<or> wc_set c = None"
    and wait: "bt_ok (ws_waiting ws')" "fst ` set (ws_waiting ws') \<subseteq> fst ` set (ws_waiting ws)"
  shows "wset_inv_upto Y (put_set k ws' s)"
proof (rule wset_inv_uptoI)
  note v = put_set_views [OF k, of ws'] and D = wset_inv_uptoD [OF inv]
  show "table_inv (cs_table (put_set k ws' s))" using D(1) v(6) by simp
  show "parent_at (put_set k ws' s) = joined (put_set k ws' s)" using D(2) v by simp
  show "\<exists>x. set_at (put_set k ws' s) j = Some x \<and> (w \<in> Y \<or> (w \<in> ws_ready x \<longleftrightarrow> wc_event c \<noteq> None))"
    if "common_at (put_set k ws' s) w = Some c" "wc_set c = Some j" for w c j
  proof (cases "j = k")
    case True
    with that v iff show ?thesis by auto
  next
    case False
    with that v D(3) [of w c j] off [of w c] show ?thesis by auto
  qed
  show "\<exists>c. common_at (put_set k ws' s) w = Some c \<and> wc_set c = Some j"
    if "set_at (put_set k ws' s) j = Some x" "w \<in> ws_ready x" for j x w
    using that v ready D(4) [of j x w] by (auto split: if_splits)
  show "bt_ok (ws_waiting x)" if "set_at (put_set k ws' s) j = Some x" for j x
    using that v wait D(5) by (auto split: if_splits)
  show "wake_at (put_set k ws' s) t = Some None \<or> wake_at (put_set k ws' s) t = Some (Some j)"
    if "set_at (put_set k ws' s) j = Some x" "t \<in> fst ` set (ws_waiting x)" for j x t
    using that v(2,3) wait(2) D(6) [of j x t] D(6) [OF k, of t] by (auto split: if_splits)
  show "i = j"
    if "set_at (put_set k ws' s) i = Some x" "set_at (put_set k ws' s) j = Some y"
      "t \<in> fst ` set (ws_waiting x)" "t \<in> fst ` set (ws_waiting y)" for i x j y t
    using that v(2) wait(2) D(7) [of i x j y t] D(7) [OF k, of j y t] D(7) [OF _ k, of i x t]
    by (auto split: if_splits)
qed

lemma wset_inv_put_common:
  assumes inv: "wset_inv_upto X s" and w: "common_at s w = Some c"
    and c': "wc_set c' = wc_set c"
  shows "wset_inv_upto (insert w X) (put_common w c' s)"
proof (rule wset_inv_uptoI)
  note v = put_common_views [OF w, of c'] and D = wset_inv_uptoD [OF inv]
  have j: "joined s (waitable_rep w) = wc_set c" using w by (rule common_at_joined)
  show "table_inv (cs_table (put_common w c' s))" using D(1) v(6) by simp
  show "parent_at (put_common w c' s) = joined (put_common w c' s)"
    using D(2) v(4,5) j c' by (simp add: fun_upd_idem)
  show "\<exists>ws. set_at (put_common w c' s) k = Some ws \<and>
      (u \<in> insert w X \<or> (u \<in> ws_ready ws \<longleftrightarrow> wc_event d \<noteq> None))"
    if "common_at (put_common w c' s) u = Some d" "wc_set d = Some k" for u d k
    using that v(1,2) D(3) [of u d k] D(3) [OF w, of k] c' by (auto split: if_splits)
  show "\<exists>d. common_at (put_common w c' s) u = Some d \<and> wc_set d = Some k"
    if "set_at (put_common w c' s) k = Some ws" "u \<in> ws_ready ws" for k ws u
    using that v(1,2) D(4) [of k ws u] w c' by (auto split: if_splits)
  show "bt_ok (ws_waiting ws)" if "set_at (put_common w c' s) k = Some ws" for k ws
    using that v(2) D(5) by auto
  show "wake_at (put_common w c' s) t = Some None \<or> wake_at (put_common w c' s) t = Some (Some k)"
    if "set_at (put_common w c' s) k = Some ws" "t \<in> fst ` set (ws_waiting ws)" for k ws t
    using that v(2,3) D(6) by auto
  show "k = j" if "set_at (put_common w c' s) k = Some ws" "set_at (put_common w c' s) j = Some vs"
    "t \<in> fst ` set (ws_waiting ws)" "t \<in> fst ` set (ws_waiting vs)" for k ws j vs t
    using that v(2) D(7) [of k ws j vs t] by simp
qed


lemma wset_inv_put_task:
  assumes inv: "wset_inv_upto X s" and t: "obj_at s k = Some (ObjGuestTask t)" "gt_common t' = gt_common t"
    and wk: "\<And>j ws. set_at s j = Some ws \<Longrightarrow> k \<in> fst ` set (ws_waiting ws) \<Longrightarrow>
      gt_wake_on_cancel t' = None \<or> gt_wake_on_cancel t' = Some j"
  shows "wset_inv_upto X (cs_put k (ObjGuestTask t') s)"
proof -
  note v = put_task_views [OF t] and D = wset_inv_uptoD [OF inv]
  have "wake_at (cs_put k (ObjGuestTask t') s) u = Some None \<or> wake_at (cs_put k (ObjGuestTask t') s) u = Some (Some j)"
    if "set_at s j = Some ws" "u \<in> fst ` set (ws_waiting ws)" for j ws u
    using that v(3) D(6) [OF that] wk [of j ws] by (cases "u = k") auto
  then have "wake_ok (cs_put k (ObjGuestTask t') s)" unfolding wake_ok_def v(2) by blast
  then show ?thesis
    using inv v unfolding wset_inv_upto_def members_ok_def ready_ok_def sorted_ok_def waits_once_def by simp
qed

text \<open>What an operation on waitables leaves alone.\<close>

definition same_frame :: "concurrent_state \<Rightarrow> concurrent_state \<Rightarrow> bool" where
  "same_frame s s' \<longleftrightarrow> cs_waitable_tables s' = cs_waitable_tables s \<and> cs_low_priority s' = cs_low_priority s \<and>
     cs_instance_states s' = cs_instance_states s \<and> cs_component s' = cs_component s \<and>
     cs_guest_task s' = cs_guest_task s \<and> cs_error_context_tables s' = cs_error_context_tables s \<and>
     cs_global_ref_counts s' = cs_global_ref_counts s"

lemma same_frame_refl [simp]: "same_frame s s"
  by (simp add: same_frame_def)

lemma same_frame_trans: "same_frame s t \<Longrightarrow> same_frame t u \<Longrightarrow> same_frame s u"
  by (simp add: same_frame_def)

lemma same_frame_put [simp]:
  "same_frame s (cs_put k x s)" "same_frame s (put_common w c s)" "same_frame s (put_set k ws s)"
  "same_frame s (push_high_priority i s)"
  by (simp_all add: same_frame_def put_common_def put_set_def push_high_priority_def)

lemma high_put [simp]:
  "cs_high_priority (put_common w c s) = cs_high_priority s"
  "cs_high_priority (put_set k ws s) = cs_high_priority s"
  by (simp_all add: put_common_def put_set_def)

lemma same_frame_step:
  "same_frame s (cs_put k x t) = same_frame s t" "same_frame s (put_common w c t) = same_frame s t"
  "same_frame s (put_set k ws t) = same_frame s t" "same_frame s (push_high_priority i t) = same_frame s t"
  by (simp_all add: same_frame_def put_common_def put_set_def push_high_priority_def)

lemma same_frame_table: "s' = s\<lparr>cs_table := t\<rparr> \<Longrightarrow> same_frame s s' \<and> cs_high_priority s' = cs_high_priority s"
  by (simp add: same_frame_def)

text \<open>The work items that an event for a member of a set gives rise to: at most one waiter is woken.\<close>

definition wakes :: "concurrent_state \<Rightarrow> nat option \<Rightarrow> work_item list" where
  "wakes s set_id = (case set_id of None \<Rightarrow> [] | Some k \<Rightarrow> (case set_at s k of
      None \<Rightarrow> []
    | Some ws \<Rightarrow> (case ws_waiting ws of [] \<Rightarrow> [] | (task, mode) # rest \<Rightarrow> [wait_item k task mode])))"

lemma wset_inv_upto_mono:
  assumes inv: "wset_inv_upto X s" and sub: "X \<subseteq> Y"
  shows "wset_inv_upto Y s"
proof -
  have "members_ok Y s" unfolding members_ok_def using wset_inv_uptoD(3) [OF inv] sub by blast
  with inv show ?thesis by (simp add: wset_inv_upto_def)
qed

lemma wset_inv_unjoined:
  assumes inv: "wset_inv_upto {w} s" and w: "common_at s w = Some c" "wc_set c = None"
  shows "wset_inv s"
proof -
  have "members_ok {} s" unfolding members_ok_def
  proof (intro allI impI)
    fix u d k assume u: "common_at s u = Some d" "wc_set d = Some k"
    with w have "u \<noteq> w" by auto
    with wset_inv_uptoD(3) [OF inv u]
    show "\<exists>ws. set_at s k = Some ws \<and> (u \<in> {} \<or> (u \<in> ws_ready ws \<longleftrightarrow> wc_event d \<noteq> None))" by simp
  qed
  with inv show ?thesis by (simp add: wset_inv_upto_def)
qed

lemma mark_ready_spec:
  assumes inv: "wset_inv_upto {w} s" and w: "common_at s w = Some c" and e: "wc_event c \<noteq> None"
  obtains s' where "mark_ready w s = (Ok (), s')" "wset_inv s'" "common_at s' = common_at s" "same_frame s s'"
    "cs_high_priority s' = cs_high_priority s @ wakes s (wc_set c)"
    "set_at s' = (case wc_set c of None \<Rightarrow> set_at s | Some k \<Rightarrow>
       (set_at s)(k := map_option (\<lambda>ws. ws\<lparr>ws_ready := insert w (ws_ready ws), ws_waiting := tl (ws_waiting ws)\<rparr>) (set_at s k)))"
proof (cases "wc_set c")
  case None
  have "wset_inv s" using inv w None by (rule wset_inv_unjoined)
  then show thesis
    using w None by (intro that [of s]) (auto simp: mark_ready_def common_get_at wakes_def)
next
  case (Some k)
  note D = wset_inv_uptoD [OF inv]
  from D(3) [OF w Some] obtain ws where ws: "set_at s k = Some ws" by blast
  let ?ws1 = "ws\<lparr>ws_ready := insert w (ws_ready ws)\<rparr>"
  let ?ws2 = "?ws1\<lparr>ws_waiting := tl (ws_waiting ws)\<rparr>"
  let ?s1 = "put_set k ?ws1 s" and ?s2 = "put_set k ?ws2 (put_set k ?ws1 s)"
  note v1 = put_set_views [OF ws, of ?ws1]
  have ws1: "set_at ?s1 k = Some ?ws1" using v1 by simp
  note v2 = put_set_views [OF ws1, of ?ws2]
  have ready: "\<forall>u \<in> insert w (ws_ready ws). \<exists>d. common_at s u = Some d \<and> wc_set d = Some k"
    using D(4) [OF ws] w Some by auto
  have ok: "bt_ok (tl (ws_waiting ws))" "fst ` set (tl (ws_waiting ws)) \<subseteq> fst ` set (ws_waiting ws)"
    using D(5) [OF ws] by (cases "ws_waiting ws"; auto)+
  have inv1: "wset_inv ?s1"
  proof (rule wset_inv_put_set [OF inv ws])
    show "(u \<in> ws_ready ?ws1) = (wc_event d \<noteq> None)"
      if "common_at s u = Some d" "wc_set d = Some k" "u \<notin> {}" for u d
      using that D(3) [of u d k] ws w e by (cases "u = w") auto
    show "wc_set d = Some k \<or> wc_set d = None" if "u \<in> {w}" "common_at s u = Some d" for u d
      using that w Some by auto
  qed (use ready D(5) [OF ws] in auto)
  have inv2: "wset_inv ?s2"
  proof (rule wset_inv_put_set [OF inv1 ws1])
    show "\<forall>u \<in> ws_ready ?ws2. \<exists>d. common_at ?s1 u = Some d \<and> wc_set d = Some k" using ready v1(1) by simp
    show "(u \<in> ws_ready ?ws2) = (wc_event d \<noteq> None)"
      if "common_at ?s1 u = Some d" "wc_set d = Some k" "u \<notin> {}" for u d
      using wset_inv_uptoD(3) [OF inv1 that(1,2)] ws1 by auto
  qed (use ok in auto)
  have run: "mark_ready w s = (case ws_waiting ws of [] \<Rightarrow> (Ok (), ?s2)
      | (task, mode) # rest \<Rightarrow>
          and_then (mut_guest_task task (\<lambda>t. t\<lparr>gt_wake_on_cancel := None\<rparr>) ?s2) (\<lambda>t s.
            if gt_wake_on_cancel t = None \<or> gt_wake_on_cancel t = Some k
            then (Ok (), push_high_priority (wait_item k task mode) s)
            else (Panic ''assertion failed: wake_on_cancel'', s)))"
    using w Some ws ws1 by (simp add: mark_ready_def common_get_at mut_set_at)
  have set2: "set_at ?s2 = (set_at s)(k \<mapsto> ?ws2)" using v1(2) v2(2) by simp
  show thesis
  proof (cases "ws_waiting ws")
    case Nil
    then show thesis
      using run inv2 v1 v2 set2 Some ws by (intro that [of ?s2]) (simp_all add: wakes_def same_frame_step)
  next
    case (Cons tm rest)
    obtain task mode where tm: "tm = (task, mode)" by (cases tm)
    have "wake_at s task = Some None \<or> wake_at s task = Some (Some k)"
      using D(6) [OF ws, of task] Cons tm by auto
    then obtain t where t: "obj_at s task = Some (ObjGuestTask t)"
      "gt_wake_on_cancel t = None \<or> gt_wake_on_cancel t = Some k" by (auto simp: wake_at_Some)
    have "wake_at ?s2 task = wake_at s task" using v1(3) v2(3) by simp
    have tk: "task \<noteq> k" using t ws by (auto simp: set_at_Some)
    then have t2: "obj_at ?s2 task = Some (ObjGuestTask t)"
      using t(1) ws ws1 by (simp add: put_set_def set_at_Some)
    let ?t = "t\<lparr>gt_wake_on_cancel := None\<rparr>"
    let ?s3 = "cs_put task (ObjGuestTask ?t) ?s2"
    have inv3: "wset_inv ?s3" using inv2 t2 by (rule wset_inv_put_task) auto
    note v3 = put_task_views [OF t2, of ?t]
    show thesis
    proof (rule that [of "push_high_priority (wait_item k task mode) ?s3"])
      show "mark_ready w s = (Ok (), push_high_priority (wait_item k task mode) ?s3)"
        using run Cons tm t(2) t2 by simp
      show "wset_inv (push_high_priority (wait_item k task mode) ?s3)"
        using inv3 by (rule wset_inv_upto_cong [rotated -1]) auto
    qed (use v1 v2 v3 set2 Some ws Cons tm in \<open>simp_all add: wakes_def same_frame_step\<close>)
  qed
qed


lemma set_event_spec:
  assumes inv: "wset_inv s" and w: "common_at s w = Some c"
  obtains s' where "set_event w (Some e) s = (Ok (), s')" "wset_inv s'"
    "common_at s' = (common_at s)(w \<mapsto> c\<lparr>wc_event := Some e\<rparr>)" "same_frame s s'"
    "cs_high_priority s' = cs_high_priority s @ wakes s (wc_set c)"
    "set_at s' = (case wc_set c of None \<Rightarrow> set_at s | Some k \<Rightarrow>
       (set_at s)(k := map_option (\<lambda>ws. ws\<lparr>ws_ready := insert w (ws_ready ws), ws_waiting := tl (ws_waiting ws)\<rparr>) (set_at s k)))"
proof -
  let ?c = "c\<lparr>wc_event := Some e\<rparr>" and ?s = "put_common w (c\<lparr>wc_event := Some e\<rparr>) s"
  note v = put_common_views [OF w, of ?c]
  have i: "wset_inv_upto {w} ?s" using wset_inv_put_common [OF inv w, of ?c] by simp
  have c: "common_at ?s w = Some ?c" using v by simp
  show thesis
  proof (rule mark_ready_spec [OF i c])
    show "wc_event ?c \<noteq> None" by simp
    fix s' assume m: "mark_ready w ?s = (Ok (), s')" "wset_inv s'" "common_at s' = common_at ?s" "same_frame ?s s'"
      "cs_high_priority s' = cs_high_priority ?s @ wakes ?s (wc_set ?c)"
      "set_at s' = (case wc_set ?c of None \<Rightarrow> set_at ?s | Some k \<Rightarrow>
       (set_at ?s)(k := map_option (\<lambda>ws. ws\<lparr>ws_ready := insert w (ws_ready ws), ws_waiting := tl (ws_waiting ws)\<rparr>) (set_at ?s k)))"
    show thesis
    proof (rule that)
      show "set_event w (Some e) s = (Ok (), s')" using m(1) w by (simp add: set_event_def common_mut_at)
      show "same_frame s s'" using m(4) by (simp add: same_frame_def put_common_def)
    qed (use m v in \<open>simp_all add: wakes_def cong: option.case_cong\<close>)
  qed
qed

lemma take_event_spec:
  assumes inv: "wset_inv s" and w: "common_at s w = Some c"
  obtains s' where "take_event w s = (Ok (wc_event c), s')" "wset_inv s'"
    "common_at s' = (common_at s)(w \<mapsto> c\<lparr>wc_event := None\<rparr>)" "same_frame s s'"
    "cs_high_priority s' = cs_high_priority s"
    "set_at s' = (case wc_set c of None \<Rightarrow> set_at s | Some k \<Rightarrow>
       (set_at s)(k := map_option (\<lambda>ws. ws\<lparr>ws_ready := ws_ready ws - {w}\<rparr>) (set_at s k)))"
proof -
  let ?c = "c\<lparr>wc_event := None\<rparr>" and ?s = "put_common w (c\<lparr>wc_event := None\<rparr>) s"
  note v = put_common_views [OF w, of ?c]
  have i: "wset_inv_upto {w} ?s" using wset_inv_put_common [OF inv w, of ?c] by simp
  have c: "common_at ?s w = Some ?c" using v by simp
  show thesis
  proof (cases "wc_set c")
    case None
    then have "wset_inv ?s" using wset_inv_unjoined [OF i c] by simp
    then show thesis
      using None w c v by (intro that [of ?s]) (simp_all add: take_event_def common_mut_at common_get_at)
  next
    case (Some k)
    note D = wset_inv_uptoD [OF i]
    from D(3) [OF c, of k] Some obtain ws where ws: "set_at ?s k = Some ws" by auto
    let ?ws = "ws\<lparr>ws_ready := ws_ready ws - {w}\<rparr>"
    have inv': "wset_inv (put_set k ?ws ?s)"
    proof (rule wset_inv_put_set [OF i ws])
      show "\<forall>u \<in> ws_ready ?ws. \<exists>d. common_at ?s u = Some d \<and> wc_set d = Some k" using D(4) [OF ws] by simp
      show "(u \<in> ws_ready ?ws) = (wc_event d \<noteq> None)"
        if "common_at ?s u = Some d" "wc_set d = Some k" "u \<notin> {}" for u d
        using that D(3) [OF that(1,2)] ws c by (cases "u = w") auto
      show "wc_set d = Some k \<or> wc_set d = None" if "u \<in> {w}" "common_at ?s u = Some d" for u d
        using that c Some by auto
    qed (use D(5) [OF ws] in auto)
    note v2 = put_set_views [OF ws, of ?ws]
    show thesis
      using Some w c v v2 inv' ws
      by (intro that [of "put_set k ?ws ?s"])
         (simp_all add: take_event_def common_mut_at common_get_at mut_set_at discard_def same_frame_step)
  qed
qed

text \<open>A waitable that left its old set, not yet ready in its new one.\<close>

lemma wset_inv_moved:
  assumes inv: "wset_inv s" and w: "common_at s w = Some c"
    and tgt: "\<And>k. tgt = Some k \<Longrightarrow> set_at s k \<noteq> None"
    and com: "common_at s' = (common_at s)(w \<mapsto> c\<lparr>wc_set := tgt\<rparr>)"
    and sets: "\<And>k. set_at s' k = map_option (\<lambda>ws. ws\<lparr>ws_ready := ws_ready ws - {w}\<rparr>) (set_at s k)"
    and wake: "wake_at s' = wake_at s" and par: "parent_at s' = joined s'" and tab: "table_inv (cs_table s')"
  shows "wset_inv_upto {w} s'" and "wc_event c = None \<or> tgt = None \<Longrightarrow> wset_inv s'"
proof -
  note D = wset_inv_uptoD [OF inv]
  have mem: "\<exists>ws. set_at s' k = Some ws \<and> (u \<in> (if wc_event c = None \<or> tgt = None then {} else {w}) \<or>
      (u \<in> ws_ready ws \<longleftrightarrow> wc_event d \<noteq> None))"
    if "common_at s' u = Some d" "wc_set d = Some k" for u d k
  proof (cases "u = w")
    case True
    with that com have "d = c\<lparr>wc_set := tgt\<rparr>" "tgt = Some k" by auto
    with tgt [of k] sets [of k] True show ?thesis by auto
  next
    case False
    with that com have "common_at s u = Some d" by simp
    from D(3) [OF this that(2)] sets [of k] False show ?thesis by auto
  qed
  have rdy: "\<exists>d. common_at s' u = Some d \<and> wc_set d = Some k" if "set_at s' k = Some ws" "u \<in> ws_ready ws" for k ws u
  proof -
    from that sets [of k] obtain vs where vs: "set_at s k = Some vs" "u \<in> ws_ready vs" "u \<noteq> w" by auto
    with D(4) [OF vs(1,2)] com show ?thesis by auto
  qed
  have wt: "\<exists>vs. set_at s k = Some vs \<and> ws_waiting vs = ws_waiting ws" if "set_at s' k = Some ws" for k ws
    using that sets [of k] by auto
  have gen: "wset_inv_upto (if wc_event c = None \<or> tgt = None then {} else {w}) s'"
  proof (rule wset_inv_uptoI)
    show "bt_ok (ws_waiting ws)" if "set_at s' k = Some ws" for k ws using wt [OF that] D(5) by metis
    show "wake_at s' t = Some None \<or> wake_at s' t = Some (Some k)"
      if "set_at s' k = Some ws" "t \<in> fst ` set (ws_waiting ws)" for k ws t
      using wt [OF that(1)] D(6) that(2) wake by metis
    show "k = j" if "set_at s' k = Some ws" "set_at s' j = Some vs" "t \<in> fst ` set (ws_waiting ws)"
      "t \<in> fst ` set (ws_waiting vs)" for k ws j vs t
      using wt [OF that(1)] wt [OF that(2)] D(7) that(3,4) by metis
  qed (use tab par mem rdy in blast)+
  then show "wc_event c = None \<or> tgt = None \<Longrightarrow> wset_inv s'" by simp
  show "wset_inv_upto {w} s'"
    using gen by (rule wset_inv_upto_mono) auto
qed

lemma ready_remove_absent [simp]: "w \<notin> ws_ready ws \<Longrightarrow> ws\<lparr>ws_ready := ws_ready ws - {w}\<rparr> = ws"
  by (cases ws) simp

lemma join_spec:
  assumes inv: "wset_inv s" and w: "common_at s w = Some c"
    and tgt: "\<And>k. tgt = Some k \<Longrightarrow> set_at s k \<noteq> None"
  obtains s' where "join w tgt s = (Ok (), s')" "wset_inv s'"
    "common_at s' = (common_at s)(w \<mapsto> c\<lparr>wc_set := tgt\<rparr>)" "same_frame s s'"
    "cs_high_priority s' = cs_high_priority s @ (if wc_event c = None then [] else wakes s tgt)"
proof -
  note D = wset_inv_uptoD [OF inv]
  let ?c = "c\<lparr>wc_set := tgt\<rparr>" and ?r = "waitable_rep w"
  let ?s1 = "put_common w ?c s"
  note v1 = put_common_views [OF w, of ?c]
  have jw: "joined s ?r = wc_set c" using w by (rule common_at_joined)
  let ?rm = "\<lambda>ws. ws\<lparr>ws_ready := ws_ready ws - {w}\<rparr>"
  have untouched: "map_option ?rm (set_at s k) = set_at s k" if "wc_set c \<noteq> Some k" for k
  proof (cases "set_at s k")
    case (Some ws)
    then have "w \<notin> ws_ready ws" using D(4) [OF Some, of w] w that by auto
    with Some show ?thesis by simp
  qed simp
  define leave where "leave = (case wc_set c of None \<Rightarrow> (Ok (), ?s1) | Some old \<Rightarrow>
      and_then (cs_remove_child ?r old ?s1) (\<lambda>_ s. discard (mut_waitable_set old ?rm s)))"
  obtain s3 where s3: "leave = (Ok (), s3)" "common_at s3 = (common_at s)(w \<mapsto> ?c)"
    "\<And>k. set_at s3 k = map_option ?rm (set_at s k)" "wake_at s3 = wake_at s"
    "joined s3 = (joined s)(?r := tgt)" "parent_at s3 = (joined s)(?r := None)" "table_inv (cs_table s3)"
    "same_frame s s3" "cs_high_priority s3 = cs_high_priority s"
  proof (cases "wc_set c")
    case None
    show thesis
    proof (rule that [of ?s1])
      show "set_at ?s1 k = map_option ?rm (set_at s k)" for k using untouched [of k] v1(2) None by simp
      show "parent_at ?s1 = (joined s)(?r := None)" using v1(5) D(2) jw None by (simp add: fun_upd_idem)
    qed (use None v1 D in \<open>simp_all add: leave_def same_frame_step\<close>)
  next
    case (Some old)
    from D(3) [OF w Some] obtain ws where ws: "set_at s old = Some ws" by blast
    have "parent_at ?s1 ?r = Some old" using v1(5) D(2) jw Some by simp
    from cs_remove_child_live [OF _ this] v1(6) D(1) obtain s2 where s2: "cs_remove_child ?r old ?s1 = (Ok (), s2)"
      "s2 = ?s1\<lparr>cs_table := cs_table s2\<rparr>" "obj_at s2 = obj_at ?s1"
      "parent_at s2 = (parent_at ?s1)(?r := None)" "table_inv (cs_table s2)" by blast
    from views_cong [OF s2(3)] have v2: "common_at s2 = common_at ?s1" "set_at s2 = set_at ?s1"
      "wake_at s2 = wake_at ?s1" "joined s2 = joined ?s1" by auto
    have ws2: "set_at s2 old = Some ws" using v2 v1 ws by simp
    note v3 = put_set_views [OF ws2, of "?rm ws"]
    have fr: "same_frame ?s1 s2" "cs_high_priority s2 = cs_high_priority ?s1"
      using same_frame_table [OF s2(2)] by auto
    show thesis
    proof (rule that [of "put_set old (?rm ws) s2"])
      show "leave = (Ok (), put_set old (?rm ws) s2)"
        using Some s2(1) ws2 by (simp add: leave_def mut_set_at discard_def)
      show "set_at (put_set old (?rm ws) s2) k = map_option ?rm (set_at s k)" for k
        using untouched [of k] v1(2) v2(2) v3(2) Some ws by (cases "k = old") auto
      show "same_frame s (put_set old (?rm ws) s2)"
        using fr(1) same_frame_put(2) [of s w ?c] by (metis same_frame_step(3) same_frame_trans)
    qed (use v1 v2 v3 s2 fr D in simp_all)
  qed
  have run: "join w tgt s = and_then leave (\<lambda>_ s. case tgt of
         None \<Rightarrow> (Ok (), s)
       | Some new \<Rightarrow>
           and_then (cs_add_child ?r new s) (\<lambda>_ s.
           and_then (common_get w s, s) (\<lambda>c s.
           if wc_event c \<noteq> None then mark_ready w s else (Ok (), s))))"
    using w by (simp add: join_def common_mut_at leave_def)
  show thesis
  proof (cases tgt)
    case None
    have "wset_inv s3"
      using wset_inv_moved(2) [OF inv w tgt s3(2,3,4) _ s3(7)] s3(5,6) None by simp
    with run s3 None show thesis by (intro that [of s3]) (auto simp: wakes_def)
  next
    case (Some n)
    from tgt [OF Some] obtain ns where ns: "set_at s n = Some ns" by auto
    have on: "obj_at s3 n \<noteq> None" using s3(3) [of n] ns set_at_Some [of s3 n] by auto
    have ow: "obj_at s3 ?r \<noteq> None" using common_at_obj [of s3 w ?c] s3(2) by auto
    from cs_add_child_live [OF s3(7) ow _ on] s3(6) obtain s4 where s4: "cs_add_child ?r n s3 = (Ok (), s4)"
      "s4 = s3\<lparr>cs_table := cs_table s4\<rparr>" "obj_at s4 = obj_at s3"
      "parent_at s4 = (parent_at s3)(?r := Some n)" "table_inv (cs_table s4)" by auto
    from views_cong [OF s4(3)] have v4: "common_at s4 = common_at s3" "set_at s4 = set_at s3"
      "wake_at s4 = wake_at s3" "joined s4 = joined s3" by auto
    have par: "parent_at s4 = joined s4" using s4(4) v4 s3(5,6) Some by simp
    have w4: "common_at s4 w = Some ?c" using v4 s3(2) by simp
    have sets4: "set_at s4 k = map_option ?rm (set_at s k)" for k using v4 s3(3) by simp
    note moved = wset_inv_moved [OF inv w tgt _ sets4 _ par s4(5)]
    have fr: "same_frame s s4" "cs_high_priority s4 = cs_high_priority s"
      using same_frame_table [OF s4(2)] s3(8,9) same_frame_trans by auto
    have wk: "wakes s4 (Some n) = wakes s (Some n)" using sets4 [of n] ns by (simp add: wakes_def)
    show thesis
    proof (cases "wc_event c")
      case None
      with moved(2) v4 s3(2,4) have "wset_inv s4" by simp
      with run s3(1,2) s4(1) w4 None Some fr v4 show thesis
        by (intro that [of s4]) (simp_all add: common_get_at)
    next
      case (Some e)
      have i4: "wset_inv_upto {w} s4" using moved(1) v4 s3(2,4) by simp
      show thesis
      proof (rule mark_ready_spec [OF i4 w4])
        show "wc_event ?c \<noteq> None" using Some by simp
        fix s' assume m: "mark_ready w s4 = (Ok (), s')" "wset_inv s'" "common_at s' = common_at s4" "same_frame s4 s'"
          "cs_high_priority s' = cs_high_priority s4 @ wakes s4 (wc_set ?c)"
        show thesis
        proof (rule that [of s'])
          show "join w tgt s = (Ok (), s')"
            using run s3(1) s4(1) w4 Some \<open>tgt = Some n\<close> m(1) by (simp add: common_get_at)
          show "same_frame s s'" using fr(1) m(4) by (rule same_frame_trans)
        qed (use m v4 s3(2) fr wk Some \<open>tgt = Some n\<close> in simp_all)
      qed
    qed
  qed
qed

end
