(* ===== verification/Waitable_Sets.thy ===== *)
theory Waitable_Sets
  imports Waitables
begin

text \<open>
  What the operations on waitables keep: the states they reach from an empty
  component instance satisfy the invariant of waitable sets, the ready set of a
  waitable set is exactly its members with a pending event, an event wakes the
  first waiter and only that one, delivery hands out the events of a set one by
  one in the order of the waitables, and disposing of a task terminates.
\<close>

section \<open>Steps\<close>

lemma wset_inv_table: "cs_table s' = cs_table s \<Longrightarrow> wset_inv_upto X s' = wset_inv_upto X s"
proof -
  assume eq: "cs_table s' = cs_table s"
  from obj_at_cong [OF eq] have "obj_at s' = obj_at s" "parent_at s' = parent_at s" by auto
  with views_cong [of s' s] eq show ?thesis by (simp add: wset_inv_defs)
qed

lemma in_waitables_table [simp]: "cs_table (snd (in_waitables i f s)) = cs_table s"
  by (auto simp: in_waitables_def split: option.splits prod.splits)

lemma discard_snd [simp]: "snd (discard m) = snd m"
  by (cases m) (auto simp: discard_def and_then_def split: outcome.splits)

lemma on_delivery_table [simp]: "cs_table (snd (on_delivery w e s)) = cs_table s"
proof -
  have f: "cs_table (snd (deliver_future w ty h n s)) = cs_table s" for ty h n
    by (auto simp: deliver_future_def Let_def split: outcome.splits waitable_state.splits)
  have g: "cs_table (snd (deliver_stream w ty h n s)) = cs_table s" for ty h n
    by (auto simp: deliver_stream_def Let_def split: outcome.splits waitable_state.splits)
  show ?thesis by (cases "(w, e, s)" rule: on_delivery.cases) (simp_all add: f g)
qed

lemma finite_ready:
  assumes "wset_inv_upto X s" and "set_at s k = Some ws"
  shows "finite (ws_ready ws)"
proof (rule finite_subset)
  let ?D = "dom (obj_at s)"
  show "ws_ready ws \<subseteq> WHost ` ?D \<union> WGuest ` ?D \<union> WTransmit ` ?D"
  proof
    fix w assume "w \<in> ws_ready ws"
    from wset_inv_uptoD(4) [OF assms this] obtain c where "common_at s w = Some c" by blast
    from common_at_obj [OF this] show "w \<in> WHost ` ?D \<union> WGuest ` ?D \<union> WTransmit ` ?D" by (cases w) auto
  qed
qed (simp add: finite_dom_obj_at)

text \<open>Taking the first ready waitable out of its set, and its event with it.\<close>

lemma deliver_ready_pop:
  assumes inv: "wset_inv s" and k: "set_at s k = Some ws" and ne: "ws_ready ws \<noteq> {}"
  defines "w \<equiv> Min (ws_ready ws)"
  obtains c e s1 where "common_at s w = Some c" "wc_event c = Some e" "wc_set c = Some k"
    "\<And>i. and_then (mut_waitable_set k (\<lambda>ws. ws\<lparr>ws_ready := ws_ready ws - {w}\<rparr>) s) (\<lambda>_ s. deliver_ready i w s) =
       and_then (in_waitables i (st_get_mut_by_rep (waitable_rep w) (\<lambda>x. x)) s1) (\<lambda>entry s.
         if is_waitable_handle entry
         then and_then (on_delivery w e s) (\<lambda>_ s. (Ok (Some (e, Some (w, fst (the entry)))), s))
         else (Err (Bail ''handle not found for waitable rep''), s))"
    "wset_inv s1" "common_at s1 = (common_at s)(w \<mapsto> c\<lparr>wc_event := None\<rparr>)" "same_frame s s1"
    "set_at s1 = (set_at s)(k \<mapsto> ws\<lparr>ws_ready := ws_ready ws - {w}\<rparr>)"
    "cs_high_priority s1 = cs_high_priority s" "w \<in> ws_ready ws"
proof -
  note D = wset_inv_uptoD [OF inv]
  have wr: "w \<in> ws_ready ws" unfolding w_def using finite_ready [OF inv k] ne by (rule Min_in)
  from D(4) [OF k wr] obtain c where c: "common_at s w = Some c" "wc_set c = Some k" by blast
  from D(3) [OF c] k wr obtain e where e: "wc_event c = Some e" by auto
  let ?ws = "ws\<lparr>ws_ready := ws_ready ws - {w}\<rparr>" and ?c = "c\<lparr>wc_event := None\<rparr>"
  let ?s1 = "put_set k ?ws s"
  note v1 = put_set_views [OF k, of ?ws]
  have c1: "common_at ?s1 w = Some c" using v1 c by simp
  let ?s2 = "put_common w ?c ?s1"
  note v2 = put_common_views [OF c1, of ?c]
  have i1: "wset_inv_upto {w} ?s1"
  proof (rule wset_inv_put_set [OF inv k])
    show "\<forall>u \<in> ws_ready ?ws. \<exists>d. common_at s u = Some d \<and> wc_set d = Some k" using D(4) [OF k] by simp
    show "(u \<in> ws_ready ?ws) = (wc_event d \<noteq> None)"
      if "common_at s u = Some d" "wc_set d = Some k" "u \<notin> {w}" for u d
      using that D(3) [OF that(1,2)] k by auto
  qed (use D(5) [OF k] in auto)
  have i2: "wset_inv_upto {w} ?s2" using wset_inv_put_common [OF i1 c1, of ?c] by simp
  have "members_ok {} ?s2" unfolding members_ok_def
  proof (intro allI impI)
    fix u d j assume u: "common_at ?s2 u = Some d" "wc_set d = Some j"
    show "\<exists>x. set_at ?s2 j = Some x \<and> (u \<in> {} \<or> (u \<in> ws_ready x \<longleftrightarrow> wc_event d \<noteq> None))"
    proof (cases "u = w")
      case True
      with u v2(1,2) v1(2) c(2) show ?thesis by auto
    next
      case False
      with wset_inv_uptoD(3) [OF i2 u] show ?thesis by simp
    qed
  qed
  with i2 have inv2: "wset_inv ?s2" by (simp add: wset_inv_upto_def)
  show thesis
  proof (rule that [OF c(1) e c(2) _ inv2])
    show "and_then (mut_waitable_set k (\<lambda>ws. ws\<lparr>ws_ready := ws_ready ws - {w}\<rparr>) s) (\<lambda>_ s. deliver_ready i w s) =
       and_then (in_waitables i (st_get_mut_by_rep (waitable_rep w) (\<lambda>x. x)) ?s2) (\<lambda>entry s.
         if is_waitable_handle entry
         then and_then (on_delivery w e s) (\<lambda>_ s. (Ok (Some (e, Some (w, fst (the entry)))), s))
         else (Err (Bail ''handle not found for waitable rep''), s))" for i
      using k c1 e by (simp add: mut_set_at deliver_ready_def common_mut_at)
  qed (use v1 v2 wr in \<open>simp_all add: same_frame_step\<close>)
qed

text \<open>After taking the task's own event, the state differs in that task only.\<close>

lemma take_task_event:
  assumes "wset_inv s" and "obj_at s task = Some (ObjGuestTask t)"
  defines "s1 \<equiv> cs_put task (ObjGuestTask (t\<lparr>gt_event := None\<rparr>)) s"
  shows "mut_guest_task task (\<lambda>t. t\<lparr>gt_event := None\<rparr>) s = (Ok t, s1)"
    and "wset_inv s1" and "common_at s1 = common_at s" and "set_at s1 = set_at s" and "same_frame s s1"
    and "cs_high_priority s1 = cs_high_priority s"
proof -
  have wk: "gt_wake_on_cancel (t\<lparr>gt_event := None\<rparr>) = None \<or> gt_wake_on_cancel (t\<lparr>gt_event := None\<rparr>) = Some j"
    if "set_at s j = Some ws" "task \<in> fst ` set (ws_waiting ws)" for j ws
    using wset_inv_uptoD(6) [OF assms(1) that] assms(2) by (auto simp: wake_at_Some)
  show "wset_inv s1" unfolding s1_def
    using assms(1,2) _ wk by (rule wset_inv_put_task) auto
qed (use assms(2) put_task_views [OF assms(2)] in \<open>simp_all add: s1_def same_frame_step\<close>)

lemma and_then_snd:
  "(\<And>x s. m = (Ok x, s) \<Longrightarrow> P (snd (k x s))) \<Longrightarrow> (\<And>r s. m = (r, s) \<Longrightarrow> P s) \<Longrightarrow> P (snd (and_then m k))"
  by (cases m) (auto simp: and_then_def split: outcome.splits)

definition finish_delivery ::
    "nat \<Rightarrow> waitable \<Rightarrow> event \<Rightarrow> concurrent_state \<Rightarrow> (event \<times> (waitable \<times> nat) option) option conc" where
  "finish_delivery i w e s =
     and_then (in_waitables i (st_get_mut_by_rep (waitable_rep w) (\<lambda>x. x)) s) (\<lambda>entry s.
       if is_waitable_handle entry
       then and_then (on_delivery w e s) (\<lambda>_ s. (Ok (Some (e, Some (w, fst (the entry)))), s))
       else (Err (Bail ''handle not found for waitable rep''), s))"

lemma finish_delivery_table [simp]: "cs_table (snd (finish_delivery i w e s)) = cs_table s"
proof -
  obtain r s1 where a: "in_waitables i (st_get_mut_by_rep (waitable_rep w) (\<lambda>x. x)) s = (r, s1)" by fastforce
  then have s1: "cs_table s1 = cs_table s" by (metis in_waitables_table snd_conv)
  show ?thesis
  proof (cases r)
    case (Ok entry)
    obtain r2 s2 where b: "on_delivery w e s1 = (r2, s2)" by fastforce
    then have "cs_table s2 = cs_table s1" by (metis on_delivery_table snd_conv)
    with a Ok b s1 show ?thesis by (cases r2) (simp_all add: finish_delivery_def)
  qed (use a s1 in \<open>simp_all add: finish_delivery_def\<close>)
qed

lemma get_event_ready:
  assumes inv: "wset_inv s" and t: "obj_at s task = Some (ObjGuestTask t)" "gt_event t = None"
    and k: "set_at s k = Some ws" "ws_ready ws \<noteq> {}"
  obtains c e s1 where "common_at s (Min (ws_ready ws)) = Some c" "wc_event c = Some e"
    "get_event task i (Some k) s = finish_delivery i (Min (ws_ready ws)) e s1" "wset_inv s1"
    "common_at s1 = (common_at s)(Min (ws_ready ws) \<mapsto> c\<lparr>wc_event := None\<rparr>)" "same_frame s s1"
    "set_at s1 = (set_at s)(k \<mapsto> ws\<lparr>ws_ready := ws_ready ws - {Min (ws_ready ws)}\<rparr>)"
    "cs_high_priority s1 = cs_high_priority s" "Min (ws_ready ws) \<in> ws_ready ws"
proof -
  note T = take_task_event [OF inv t(1)]
  let ?s = "cs_put task (ObjGuestTask (t\<lparr>gt_event := None\<rparr>)) s" and ?w = "Min (ws_ready ws)"
  have k': "set_at ?s k = Some ws" using T(4) k(1) by simp
  show thesis
  proof (rule deliver_ready_pop [OF T(2) k' k(2)])
    fix c e s1
    assume d: "common_at ?s ?w = Some c" "wc_event c = Some e"
      "\<And>i. and_then (mut_waitable_set k (\<lambda>ws'. ws'\<lparr>ws_ready := ws_ready ws' - {?w}\<rparr>) ?s) (\<lambda>_ s. deliver_ready i ?w s) =
       and_then (in_waitables i (st_get_mut_by_rep (waitable_rep ?w) (\<lambda>x. x)) s1) (\<lambda>entry s.
         if is_waitable_handle entry
         then and_then (on_delivery ?w e s) (\<lambda>_ s. (Ok (Some (e, Some (?w, fst (the entry)))), s))
         else (Err (Bail ''handle not found for waitable rep''), s))"
      "wset_inv s1" "common_at s1 = (common_at ?s)(?w \<mapsto> c\<lparr>wc_event := None\<rparr>)" "same_frame ?s s1"
      "set_at s1 = (set_at ?s)(k \<mapsto> ws\<lparr>ws_ready := ws_ready ws - {?w}\<rparr>)"
      "cs_high_priority s1 = cs_high_priority ?s" "?w \<in> ws_ready ws"
    have "get_event task i (Some k) s =
        and_then (mut_waitable_set k (\<lambda>ws'. ws'\<lparr>ws_ready := ws_ready ws' - {?w}\<rparr>) ?s) (\<lambda>_ s. deliver_ready i ?w s)"
      using T(1) t(2) k(2) get_set_at [OF k'] by (simp add: get_event_def Let_def)
    then have g: "get_event task i (Some k) s = finish_delivery i ?w e s1"
      using d(3) [of i] by (simp add: finish_delivery_def)
    show thesis
      by (rule that [OF _ d(2) g d(4)]) (use d T same_frame_trans [OF T(5) d(6)] in simp_all)
  qed
qed

lemma get_event_inv:
  assumes inv: "wset_inv s"
  shows "wset_inv (snd (get_event task i set_id s))"
proof (cases "get_guest_task task s")
  case (Ok t)
  then have t: "obj_at s task = Some (ObjGuestTask t)" by (auto simp: cs_get_Ok)
  note T = take_task_event [OF inv t]
  show ?thesis
  proof (cases "gt_event t = None \<and> set_id \<noteq> None")
    case True
    then obtain k where k: "set_id = Some k" by auto
    let ?s1 = "cs_put task (ObjGuestTask (t\<lparr>gt_event := None\<rparr>)) s"
    show ?thesis
    proof (cases "set_at s k")
      case None
      then have "set_at ?s1 k = None" using T(4) by simp
      then have "\<nexists>ws. get_waitable_set k ?s1 = Ok ws" by (auto simp: cs_get_Ok set_at_def)
      with T True k show ?thesis by (cases "get_waitable_set k ?s1") (simp_all add: get_event_def)
    next
      case (Some ws)
      show ?thesis
      proof (cases "ws_ready ws = {}")
        case empty: True
        have "get_waitable_set k ?s1 = Ok ws" using T(4) Some by (intro get_set_at) simp
        with T True k empty show ?thesis by (simp add: get_event_def)
      next
        case False
        show ?thesis
        proof (rule get_event_ready [OF inv t _ Some False])
          show "gt_event t = None" using True by simp
          fix e s1 assume "get_event task i (Some k) s = finish_delivery i (Min (ws_ready ws)) e s1" "wset_inv s1"
          with k show ?thesis using wset_inv_table [OF finish_delivery_table, of "{}"] by simp
        qed
      qed
    qed
  qed (use T in \<open>auto simp: get_event_def split: option.splits\<close>)
next
  case (Err e)
  then show ?thesis using inv by (simp add: get_event_def cs_get_mut_eq)
qed simp


text \<open>Creating and deleting objects.\<close>

definition fresh_obj :: "obj \<Rightarrow> bool" where
  "fresh_obj x \<longleftrightarrow> obj_set x = None \<and> (\<forall>ws. x = ObjWaitableSet ws \<longrightarrow> ws = waitable_set_default)"

lemma obj_common_as_set: "obj_common_as w x = Some c \<Longrightarrow> obj_set x = wc_set c"
  by (auto elim!: obj_common_as.elims)

lemma wset_inv_push:
  assumes inv: "wset_inv s" and x: "fresh_obj x" and p: "cs_push x s = (r, s')"
  shows "wset_inv s'"
  using wset_inv_uptoD(1) [OF inv]
proof (cases rule: cs_push_cases [where x = x])
  case full
  with p inv show ?thesis by simp
next
  case (pushed k s2)
  note D = wset_inv_uptoD [OF inv]
  have s2: "s' = s2" using p pushed(1) by simp
  have com: "common_at s' w = (if waitable_rep w = k then obj_common_as w x else common_at s w)" for w
    using pushed(4) s2 by (simp add: common_at_def)
  have old: "common_at s w = None" if "waitable_rep w = k" for w using that pushed(3) by (simp add: common_at_def)
  have set': "set_at s' j = (if j = k then as_waitable_set x else set_at s j)" for j
    using pushed(4) s2 by (simp add: set_at_def)
  have setk: "set_at s k = None" using pushed(3) by (simp add: set_at_def)
  have newset: "ws = waitable_set_default" if "as_waitable_set x = Some ws" for ws
    using that x by (simp add: fresh_obj_def)
  have oldset: "set_at s j = Some ws \<or> ws = waitable_set_default" if "set_at s' j = Some ws" for j ws
    using that set' [of j] newset by (auto split: if_splits)
  have wake: "wake_at s' t = wake_at s t" if "wake_at s t \<noteq> None" for t
    using that pushed(3,4) s2 by (auto simp: wake_at_def)
  show ?thesis
  proof (rule wset_inv_uptoI)
    show "table_inv (cs_table s')" using pushed s2 by simp
    show "parent_at s' = joined s'"
      using pushed(3,4,6) s2 D(2) x by (auto simp: joined_def fresh_obj_def fun_eq_iff)
    show "\<exists>ws. set_at s' j = Some ws \<and> (w \<in> {} \<or> (w \<in> ws_ready ws \<longleftrightarrow> wc_event c \<noteq> None))"
      if "common_at s' w = Some c" "wc_set c = Some j" for w c j
    proof -
      have "waitable_rep w \<noteq> k" using that com [of w] x obj_common_as_set [of w x c] by (auto simp: fresh_obj_def)
      with that com [of w] have "common_at s w = Some c" by simp
      from D(3) [OF this that(2)] set' [of j] setk show ?thesis by auto
    qed
    show "\<exists>c. common_at s' w = Some c \<and> wc_set c = Some j" if "set_at s' j = Some ws" "w \<in> ws_ready ws" for j ws w
    proof -
      have "set_at s j = Some ws" using oldset [OF that(1)] that(2) by (auto simp: waitable_set_default_def)
      from D(4) [OF this that(2)] com [of w] old [of w] show ?thesis by auto
    qed
    show "bt_ok (ws_waiting ws)" if "set_at s' j = Some ws" for j ws
      using oldset [OF that] D(5) by (auto simp: waitable_set_default_def)
    show "wake_at s' t = Some None \<or> wake_at s' t = Some (Some j)"
      if "set_at s' j = Some ws" "t \<in> fst ` set (ws_waiting ws)" for j ws t
    proof -
      have "set_at s j = Some ws" using oldset [OF that(1)] that(2) by (auto simp: waitable_set_default_def)
      from D(6) [OF this that(2)] wake [of t] show ?thesis by auto
    qed
    show "i = j" if "set_at s' i = Some ws" "set_at s' j = Some vs" "t \<in> fst ` set (ws_waiting ws)"
      "t \<in> fst ` set (ws_waiting vs)" for i ws j vs t
    proof -
      have "set_at s i = Some ws" "set_at s j = Some vs"
        using oldset [OF that(1)] oldset [OF that(2)] that(3,4) by (auto simp: waitable_set_default_def)
      then show ?thesis using D(7) that(3,4) by blast
    qed
  qed
qed

lemma cs_delete_pinned:
  assumes "table_inv (cs_table s)" and "obj_at s k = Some x" and "parent_at s c = Some k"
  shows "cs_delete down k s = (Err (TableError HasChildren), s)"
proof -
  from obj_at_Some_occ [OF assms(2)] obtain e where e: "table_occ (cs_table s) k = Some e" by blast
  have "links_ok (table_occ (cs_table s))" using assms(1) by (simp add: table_inv_def)
  from links_okD [OF this, of c k] assms(3) e have "te_children e \<noteq> {}"
    by (auto simp: parent_at_def children_of_occ)
  with e show ?thesis
    by (simp add: cs_delete_def table_delete_def table_delete_entry_def table_occupied_eq)
qed

text \<open>An object that is not ready in any set and does not wait on one.\<close>

definition detached :: "concurrent_state \<Rightarrow> nat \<Rightarrow> bool" where
  "detached s k \<longleftrightarrow> (\<forall>j ws. set_at s j = Some ws \<longrightarrow>
     k \<notin> waitable_rep ` ws_ready ws \<and> k \<notin> fst ` set (ws_waiting ws))"

lemma wset_inv_delete:
  assumes inv: "wset_inv s" and k: "obj_at s k = Some x" and det: "detached s k"
    and d: "cs_delete down k s = (r, s')"
  shows "wset_inv s'"
proof (cases "\<exists>c. parent_at s c = Some k")
  case True
  then obtain c where "parent_at s c = Some k" ..
  from cs_delete_pinned [OF wset_inv_uptoD(1) [OF inv] k this, of down] d inv show ?thesis by simp
next
  case False
  note D = wset_inv_uptoD [OF inv]
  from False have nc: "\<forall>c. parent_at s c \<noteq> Some k" by blast
  show ?thesis
  proof (rule cs_delete_live [OF D(1) k nc, of down])
    fix s2 assume s2: "cs_delete down k s = (map_err TableError (ok_or WrongType (down x)), s2)"
      "obj_at s2 = (obj_at s)(k := None)" "parent_at s2 = (parent_at s)(k := None)" "table_inv (cs_table s2)"
    have eq: "s' = s2" using d s2(1) by simp
    have com: "common_at s' w = (if waitable_rep w = k then None else common_at s w)" for w
      using s2(2) eq by (simp add: common_at_def)
    have set': "set_at s' j = (if j = k then None else set_at s j)" for j
      using s2(2) eq by (simp add: set_at_def)
    have wake: "wake_at s' t = (if t = k then None else wake_at s t)" for t
      using s2(2) eq by (simp add: wake_at_def)
    show ?thesis
    proof (rule wset_inv_uptoI)
      show "table_inv (cs_table s')" using s2 eq by simp
      show "parent_at s' = joined s'" using s2 eq D(2) by (auto simp: joined_def fun_eq_iff)
      show "\<exists>ws. set_at s' j = Some ws \<and> (w \<in> {} \<or> (w \<in> ws_ready ws \<longleftrightarrow> wc_event c \<noteq> None))"
        if "common_at s' w = Some c" "wc_set c = Some j" for w c j
      proof -
        from that com [of w] have w: "common_at s w = Some c" by (simp split: if_splits)
        have "joined s (waitable_rep w) = Some j" using common_at_joined [OF w] that(2) by simp
        with nc D(2) have "j \<noteq> k" by auto
        with D(3) [OF w that(2)] set' [of j] show ?thesis by simp
      qed
      show "\<exists>c. common_at s' w = Some c \<and> wc_set c = Some j" if "set_at s' j = Some ws" "w \<in> ws_ready ws" for j ws w
      proof -
        from that set' [of j] have j: "set_at s j = Some ws" by (simp split: if_splits)
        with det that(2) have "waitable_rep w \<noteq> k" by (auto simp: detached_def)
        with D(4) [OF j that(2)] com [of w] show ?thesis by simp
      qed
      show "bt_ok (ws_waiting ws)" if "set_at s' j = Some ws" for j ws
        using that set' [of j] D(5) by (auto split: if_splits)
      show "wake_at s' t = Some None \<or> wake_at s' t = Some (Some j)"
        if "set_at s' j = Some ws" "t \<in> fst ` set (ws_waiting ws)" for j ws t
      proof -
        from that set' [of j] have j: "set_at s j = Some ws" by (simp split: if_splits)
        with det that(2) have "t \<noteq> k" by (auto simp: detached_def)
        with D(6) [OF j that(2)] wake [of t] show ?thesis by simp
      qed
      show "i = j" if "set_at s' i = Some ws" "set_at s' j = Some vs" "t \<in> fst ` set (ws_waiting ws)"
        "t \<in> fst ` set (ws_waiting vs)" for i ws j vs t
        using that set' [of i] set' [of j] D(7) [of i ws j vs t] by (auto split: if_splits)
    qed
  qed
qed

text \<open>A task that waits nowhere registers to wait on a set.\<close>

lemma callback_wait_inv:
  assumes inv: "wset_inv s" and nw: "\<And>j ws. set_at s j = Some ws \<Longrightarrow> task \<notin> fst ` set (ws_waiting ws)"
    and k: "set_at s k \<noteq> None"
  shows "wset_inv (snd (callback_wait task i k s))"
proof (cases "get_guest_task task s")
  case (Ok t)
  then have t: "obj_at s task = Some (ObjGuestTask t)" by (auto simp: cs_get_Ok)
  let ?t = "t\<lparr>gt_wake_on_cancel := Some k\<rparr>"
  let ?s = "cs_put task (ObjGuestTask ?t) s"
  note v = put_task_views [OF t, of ?t]
  have i1: "wset_inv ?s" using inv t by (rule wset_inv_put_task) (use nw in auto)
  from k v obtain ws where ws: "set_at ?s k = Some ws" by auto
  let ?ws = "ws\<lparr>ws_waiting := bt_insert task (WaitCallback i) (ws_waiting ws)\<rparr>"
  note D = wset_inv_uptoD [OF i1]
  note v2 = put_set_views [OF ws, of ?ws]
  have keyw: "u \<in> fst ` set (ws_waiting ?ws) \<longleftrightarrow> u = task \<or> u \<in> fst ` set (ws_waiting ws)" for u
    using keys_bt_insert [of task "WaitCallback i" "ws_waiting ws"] by simp
  have "wset_inv (put_set k ?ws ?s)"
  proof (rule wset_inv_uptoI)
    show "table_inv (cs_table (put_set k ?ws ?s))" using D(1) v2(6) by simp
    show "parent_at (put_set k ?ws ?s) = joined (put_set k ?ws ?s)" using D(2) v2 by simp
    show "\<exists>x. set_at (put_set k ?ws ?s) j = Some x \<and> (w \<in> {} \<or> (w \<in> ws_ready x \<longleftrightarrow> wc_event c \<noteq> None))"
      if "common_at (put_set k ?ws ?s) w = Some c" "wc_set c = Some j" for w c j
      using that D(3) [of w c j] v2(1,2) ws by auto
    show "\<exists>c. common_at (put_set k ?ws ?s) w = Some c \<and> wc_set c = Some j"
      if "set_at (put_set k ?ws ?s) j = Some x" "w \<in> ws_ready x" for j x w
      using that D(4) [of j x w] D(4) [OF ws, of w] v2(1,2) by (auto split: if_splits)
    show "bt_ok (ws_waiting x)" if "set_at (put_set k ?ws ?s) j = Some x" for j x
      using that D(5) [of j x] D(5) [OF ws] v2(2) by (auto split: if_splits)
    show "wake_at (put_set k ?ws ?s) u = Some None \<or> wake_at (put_set k ?ws ?s) u = Some (Some j)"
      if "set_at (put_set k ?ws ?s) j = Some x" "u \<in> fst ` set (ws_waiting x)" for j x u
    proof (cases "j = k")
      case True
      with that(1) v2(2) have "x = ?ws" by simp
      with that(2) keyw have "u = task \<or> u \<in> fst ` set (ws_waiting ws)" by simp
      then show ?thesis
      proof
        assume "u \<in> fst ` set (ws_waiting ws)"
        from D(6) [OF ws this] True v2(3) show ?thesis by simp
      qed (use True v(3) v2(3) in simp)
    next
      case False
      with that D(6) [of j x u] v2(2,3) show ?thesis by simp
    qed
    show "p = q" if "set_at (put_set k ?ws ?s) p = Some x" "set_at (put_set k ?ws ?s) q = Some y"
      "u \<in> fst ` set (ws_waiting x)" "u \<in> fst ` set (ws_waiting y)" for p x q y u
    proof -
      have other: "set_at s m = Some z" "u \<noteq> task" if "m \<noteq> k" "set_at (put_set k ?ws ?s) m = Some z" "u \<in> fst ` set (ws_waiting z)" for m z
        using that v2(2) v(2) nw [of m z] by auto
      show ?thesis
      proof (cases "u = task")
        case True
        with other [of p x] other [of q y] that show ?thesis by blast
      next
        case False
        have bk: "\<exists>x'. set_at ?s m = Some x' \<and> u \<in> fst ` set (ws_waiting x')"
          if "set_at (put_set k ?ws ?s) m = Some z" "u \<in> fst ` set (ws_waiting z)" for m z
        proof (cases "m = k")
          case True
          with that(1) v2(2) have "z = ?ws" by simp
          with that(2) keyw False ws True show ?thesis by simp
        qed (use that v2(2) in simp)
        from bk [OF that(1,3)] bk [OF that(2,4)] obtain x' y' where
          "set_at ?s p = Some x'" "set_at ?s q = Some y'" "u \<in> fst ` set (ws_waiting x')"
          "u \<in> fst ` set (ws_waiting y')" by blast
        then show ?thesis by (rule D(7))
      qed
    qed
  qed
  then show ?thesis
    using t ws i1 by (simp add: callback_wait_def mut_set_at)
next
  case (Err e)
  then show ?thesis using inv by (simp add: callback_wait_def cs_get_mut_eq)
qed simp


text \<open>Changing an object outside the parts that waitables look at.\<close>

fun inert :: "obj \<Rightarrow> obj \<Rightarrow> bool" where
  "inert (ObjHostTask t) (ObjHostTask t') = (ht_common t' = ht_common t)"
| "inert (ObjGuestTask t) (ObjGuestTask t') =
     (gt_common t' = gt_common t \<and> gt_wake_on_cancel t' = gt_wake_on_cancel t)"
| "inert (ObjTransmitHandle t) (ObjTransmitHandle t') = (th_common t' = th_common t)"
| "inert (ObjTransmitState t) (ObjTransmitState t') = True"
| "inert (ObjErrorContext t) (ObjErrorContext t') = True"
| "inert _ _ = False"

lemma wset_inv_inert:
  assumes inv: "wset_inv_upto X s" and k: "obj_at s k = Some x" and x: "inert x x'"
  shows "wset_inv_upto X (cs_put k x' s)"
proof (rule wset_inv_upto_cong [OF _ _ _ _ _ _ inv])
  have o: "obj_at (cs_put k x' s) = (obj_at s)(k \<mapsto> x')" using k by simp
  have c: "obj_common_as w x' = obj_common_as w x" for w using x by (cases w; cases x; cases x') auto
  show "common_at (cs_put k x' s) = common_at s" using k c by (auto simp: common_at_def o fun_eq_iff)
  show "set_at (cs_put k x' s) = set_at s" using k x by (cases x; cases x') (auto simp: set_at_def o fun_eq_iff)
  show "wake_at (cs_put k x' s) = wake_at s" using k x by (cases x; cases x') (auto simp: wake_at_def o fun_eq_iff)
  show "joined (cs_put k x' s) = joined s" using k x by (cases x; cases x') (auto simp: joined_def o fun_eq_iff)
qed simp_all


section \<open>Reachable states\<close>

text \<open>
  The states that creation and deletion of objects, joins, events, deliveries and
  waits build from an empty component instance, whatever happens to the rest of
  the state.  An object is only deleted once it is not ready in a set and does not
  wait on one, and a waitable only joins a set that is alive.
\<close>

inductive wset_reach :: "concurrent_state \<Rightarrow> bool" where
  reach_init: "wset_reach (concurrent_state_new c)"
| reach_other: "wset_reach s \<Longrightarrow> cs_table s' = cs_table s \<Longrightarrow> wset_reach s'"
| reach_create: "wset_reach s \<Longrightarrow> fresh_obj x \<Longrightarrow> cs_push x s = (r, s') \<Longrightarrow> wset_reach s'"
| reach_destroy: "wset_reach s \<Longrightarrow> obj_at s k = Some x \<Longrightarrow> detached s k \<Longrightarrow>
    cs_delete (down :: obj \<Rightarrow> obj option) k s = (r', s') \<Longrightarrow> wset_reach s'"
| reach_change: "wset_reach s \<Longrightarrow> obj_at s k = Some x \<Longrightarrow> inert x x' \<Longrightarrow> wset_reach (cs_put k x' s)"
| reach_join: "wset_reach s \<Longrightarrow> (\<And>k. tgt = Some k \<Longrightarrow> set_at s k \<noteq> None) \<Longrightarrow> join w tgt s = (u, s') \<Longrightarrow> wset_reach s'"
| reach_set_event: "wset_reach s \<Longrightarrow> set_event w (Some e) s = (u, s') \<Longrightarrow> wset_reach s'"
| reach_take_event: "wset_reach s \<Longrightarrow> take_event w s = (v, s') \<Longrightarrow> wset_reach s'"
| reach_get_event: "wset_reach s \<Longrightarrow> get_event task i set_id s = (g, s') \<Longrightarrow> wset_reach s'"
| reach_wait: "wset_reach s \<Longrightarrow> (\<And>j ws. set_at s j = Some ws \<Longrightarrow> task \<notin> fst ` set (ws_waiting ws)) \<Longrightarrow>
    set_at s k \<noteq> None \<Longrightarrow> callback_wait task i k s = (u, s') \<Longrightarrow> wset_reach s'"

lemma wset_inv_new: "wset_inv (concurrent_state_new c)"
proof -
  have "obj_at (concurrent_state_new c) = (\<lambda>_. None)" "parent_at (concurrent_state_new c) = (\<lambda>_. None)"
    by (auto simp: obj_at_def parent_at_def concurrent_state_new_def table_lookup_def table_occ_def table_new_def
        parent_of_def fun_eq_iff)
  then show ?thesis
    by (intro wset_inv_uptoI) (simp_all add: view_defs fun_eq_iff concurrent_state_new_def)
qed

lemma common_dead:
  assumes "common_at s w = None"
  shows "\<exists>e. common_mut w f s = (Err e, s)"
proof -
  have "common_get w s \<noteq> Ok c" for c using assms by (simp add: common_get_Ok)
  then show ?thesis
    by (cases w) (auto simp: cs_get_mut_eq split: outcome.splits)
qed

lemma wset_reach_inv: "wset_reach s \<Longrightarrow> wset_inv s"
proof (induction rule: wset_reach.induct)
  case (reach_init c)
  show ?case by (rule wset_inv_new)
next
  case (reach_other s s')
  then show ?case using wset_inv_table [OF reach_other.hyps(2), of "{}"] by blast
next
  case (reach_create s x r s')
  show ?case using reach_create.IH reach_create.hyps(2,3) by (rule wset_inv_push)
next
  case (reach_destroy s k x down r' s')
  show ?case using reach_destroy.IH reach_destroy.hyps(2-4) by (rule wset_inv_delete)
next
  case (reach_change s k x x')
  show ?case using reach_change.IH reach_change.hyps(2,3) by (rule wset_inv_inert)
next
  case (reach_join s tgt w u s')
  show ?case
  proof (cases "common_at s w")
    case None
    from common_dead [OF this] obtain e where "common_mut w (\<lambda>c. c\<lparr>wc_set := tgt\<rparr>) s = (Err e, s)" by blast
    with reach_join show ?thesis by (simp add: join_def)
  next
    case (Some c)
    show ?thesis
      by (rule join_spec [OF reach_join.IH Some, of tgt]) (use reach_join.hyps(2,3) in auto)
  qed
next
  case (reach_set_event s w e u s')
  show ?case
  proof (cases "common_at s w")
    case None
    from common_dead [OF this] obtain x where "common_mut w (\<lambda>c. c\<lparr>wc_event := Some e\<rparr>) s = (Err x, s)" by blast
    with reach_set_event show ?thesis by (simp add: set_event_def)
  next
    case (Some c)
    show ?thesis by (rule set_event_spec [OF reach_set_event.IH Some, of e]) (use reach_set_event.hyps(2) in auto)
  qed
next
  case (reach_take_event s w v s')
  show ?case
  proof (cases "common_at s w")
    case None
    from common_dead [OF this] obtain x where "common_mut w (\<lambda>c. c\<lparr>wc_event := None\<rparr>) s = (Err x, s)" by blast
    with reach_take_event show ?thesis by (simp add: take_event_def)
  next
    case (Some c)
    show ?thesis by (rule take_event_spec [OF reach_take_event.IH Some]) (use reach_take_event.hyps(2) in auto)
  qed
next
  case (reach_get_event s task i set_id g s')
  then show ?case using get_event_inv [OF reach_get_event.IH, of task i set_id] by simp
next
  case (reach_wait s task k i u s')
  then show ?case using callback_wait_inv [OF reach_wait.IH, of task k i] by simp
qed

lemma ready_exact:
  assumes inv: "wset_inv s" and k: "set_at s k = Some ws"
  shows "ws_ready ws = {w. \<exists>c. common_at s w = Some c \<and> wc_set c = Some k \<and> wc_event c \<noteq> None}"
proof
  show "ws_ready ws \<subseteq> {w. \<exists>c. common_at s w = Some c \<and> wc_set c = Some k \<and> wc_event c \<noteq> None}"
  proof
    fix w assume w: "w \<in> ws_ready ws"
    from wset_inv_uptoD(4) [OF inv k w] obtain c where c: "common_at s w = Some c" "wc_set c = Some k" by blast
    with wset_inv_uptoD(3) [OF inv c] k w
    show "w \<in> {w. \<exists>c. common_at s w = Some c \<and> wc_set c = Some k \<and> wc_event c \<noteq> None}" by auto
  qed
  show "{w. \<exists>c. common_at s w = Some c \<and> wc_set c = Some k \<and> wc_event c \<noteq> None} \<subseteq> ws_ready ws"
    using wset_inv_uptoD(3) [OF inv] k by fastforce
qed


section \<open>Deleting waitables\<close>

text \<open>The recursion through subtasks is bounded by the guest tasks of the table.\<close>

definition tasks :: "concurrent_state \<Rightarrow> nat set" where
  "tasks s = {k. \<exists>t. obj_at s k = Some (ObjGuestTask t)}"

definition shrinks :: "nat set \<Rightarrow> 'a conc \<Rightarrow> bool" where
  "shrinks T m \<longleftrightarrow> fst m \<noteq> Panic ''recursion depth'' \<and> table_inv (cs_table (snd m)) \<and> tasks (snd m) \<subseteq> T"

lemma tasks_bound: "tasks s \<subseteq> {..<length (tb_entries (cs_table s))}"
  by (auto simp: tasks_def obj_at_def table_lookup_def table_occ_def vec_get_def split: bind_splits if_splits)

lemma shrinks_then:
  assumes "shrinks T m" and "\<And>x s. m = (Ok x, s) \<Longrightarrow> table_inv (cs_table s) \<Longrightarrow> tasks s \<subseteq> T \<Longrightarrow> shrinks T (k x s)"
  shows "shrinks T (and_then m k)"
  using assms by (cases m) (auto simp: shrinks_def and_then_def split: outcome.splits)

lemma shrinks_mut:
  assumes "table_inv (cs_table s)" and "tasks s \<subseteq> T" and "\<And>x. (\<exists>t. up x = ObjGuestTask t) = (\<exists>t. up (f x) = ObjGuestTask t)"
    and "\<And>x y. down x = Some y \<Longrightarrow> x = up y"
  shows "shrinks T (cs_get_mut down up k f s)"
proof (cases "cs_get down k s")
  case (Ok x)
  then obtain y where y: "obj_at s k = Some y" "down y = Some x" by (auto simp: cs_get_Ok)
  then have "y = up x" using assms(4) by simp
  have "tasks (cs_put k (up (f x)) s) = tasks s" using y \<open>y = up x\<close> assms(3) [of x]
    by (cases "up x"; cases "up (f x)") (auto simp: tasks_def)
  with assms(1,2) Ok show ?thesis by (simp add: shrinks_def cs_get_mut_eq)
qed (use assms cs_get_no_panic [of down k s] in \<open>auto simp: shrinks_def cs_get_mut_eq\<close>)

lemma any_downcast_bind: "any_downcast down a = Option.bind (any_downcast Some a) down"
  by (cases a) simp_all

lemma table_delete_down:
  "table_delete down k t = (case table_delete Some k t of
     (Ok x, t') \<Rightarrow> (ok_or WrongType (down x), t') | (Err e, t') \<Rightarrow> (Err e, t') | (Panic p, t') \<Rightarrow> (Panic p, t'))"
  by (auto simp: table_delete_def and_then_def any_downcast_bind [of down] split: prod.splits outcome.splits)

lemma cs_delete_dead:
  assumes "table_inv (cs_table s)" and "obj_at s k = None" and "cs_delete down k s = (r, s')"
  shows "obj_at s' = obj_at s" and "\<exists>e. r = Err e"
proof -
  obtain r1 t1 where d: "table_delete Some k (cs_table s) = (r1, t1)" by fastforce
  have "table_lookup t1 = table_lookup (cs_table s) \<and> (\<exists>e. r1 = Err e)"
    by (rule table_delete_Some_cases [OF assms(1) d])
       (use assms(2) in \<open>auto simp: obj_at_def table_lookup_def\<close>)
  with d assms(3) show "obj_at s' = obj_at s" and "\<exists>e. r = Err e"
    by (auto simp: cs_delete_def table_delete_down [of down] obj_at_def)
qed

lemma shrinks_delete:
  assumes inv: "table_inv (cs_table s)"
  shows "shrinks (tasks s) (cs_delete down k s)"
    and "cs_delete as_guest_task k s = (Ok t, s') \<Longrightarrow> k \<in> tasks s \<and> tasks s' = tasks s - {k}"
proof -
  consider (dead) "obj_at s k = None" | (pinned) x c where "obj_at s k = Some x" "parent_at s c = Some k"
    | (live) x where "obj_at s k = Some x" "\<forall>c. parent_at s c \<noteq> Some k" by fastforce
  then have "shrinks (tasks s) (cs_delete down k s) \<and>
      (cs_delete as_guest_task k s = (Ok t, s') \<longrightarrow> k \<in> tasks s \<and> tasks s' = tasks s - {k})"
  proof cases
    case dead
    obtain r1 s1 where a: "cs_delete down k s = (r1, s1)" by fastforce
    from cs_delete_dead [OF inv dead a] cs_delete_dead(2) [OF inv dead, of as_guest_task "Ok t" s']
      cs_delete_inv(1) [OF inv a]
    show ?thesis by (auto simp: a shrinks_def tasks_def)
  next
    case pinned
    then show ?thesis using inv by (simp add: shrinks_def cs_delete_pinned [OF inv pinned])
  next
    case live
    have "shrinks (tasks s) (cs_delete down k s)"
      by (rule cs_delete_live [OF inv live, of down])
         (auto simp: shrinks_def tasks_def split: option.splits)
    moreover have "cs_delete as_guest_task k s = (Ok t, s') \<longrightarrow> k \<in> tasks s \<and> tasks s' = tasks s - {k}"
      by (rule cs_delete_live [OF inv live, of as_guest_task])
         (use live(1) in \<open>cases x; auto simp: tasks_def split: if_splits\<close>)
    ultimately show ?thesis by blast
  qed
  then show "shrinks (tasks s) (cs_delete down k s)"
    and "cs_delete as_guest_task k s = (Ok t, s') \<Longrightarrow> k \<in> tasks s \<and> tasks s' = tasks s - {k}" by blast+
qed

lemmas shrinks_muts =
  shrinks_mut [of _ _ ObjGuestTask _ as_guest_task] shrinks_mut [of _ _ ObjWaitableSet _ as_waitable_set]

lemma shrinks_mono: "shrinks T m \<Longrightarrow> T \<subseteq> U \<Longrightarrow> shrinks U m"
  by (auto simp: shrinks_def)

lemma shrinks_get: "table_inv (cs_table s) \<Longrightarrow> tasks s \<subseteq> T \<Longrightarrow> shrinks T (cs_get down k s, s)"
  using cs_get_no_panic [of down k s] by (auto simp: shrinks_def)

lemma common_get_no_panic: "\<not> panics (common_get w s)"
  using cs_get_no_panic by (cases w; fastforce elim: panics.elims)

lemma shrinks_pure:
  "table_inv (cs_table s) \<Longrightarrow> tasks s \<subseteq> T \<Longrightarrow> r \<noteq> Panic ''recursion depth'' \<Longrightarrow> shrinks T (r, s)"
  by (simp add: shrinks_def)

lemma drop_set_bounded [simp]: "drop_set ws \<noteq> Panic ''recursion depth''"
  by (simp add: drop_set_def)

lemma shrinks_dispose_ready:
  assumes del: "\<And>w s. table_inv (cs_table s) \<Longrightarrow> tasks s \<subseteq> T \<Longrightarrow> shrinks T (del w s)"
  shows "table_inv (cs_table s) \<Longrightarrow> tasks s \<subseteq> T \<Longrightarrow> shrinks T (dispose_ready del ws s)"
proof (induction ws arbitrary: s)
  case (Cons w ws)
  have "common_get w s \<noteq> Panic ''recursion depth''" using common_get_no_panic [of w s] by auto
  with Cons.prems Cons.IH del show ?case
    by (auto intro!: shrinks_then shrinks_pure simp del: common_get.simps)
qed (simp add: shrinks_def)

lemma shrinks_reparent: "table_inv (cs_table s) \<Longrightarrow> tasks s \<subseteq> T \<Longrightarrow> shrinks T (reparent c ks s)"
  by (induction ks arbitrary: s) (auto intro!: shrinks_then shrinks_muts shrinks_pure)

lemma shrinks_dispose:
  assumes del: "\<And>w s. table_inv (cs_table s) \<Longrightarrow> tasks s \<subseteq> T \<Longrightarrow> shrinks T (del w s)"
    and s: "table_inv (cs_table s)" "tasks s \<subseteq> T"
  shows "shrinks T (dispose del self me s)"
  unfolding dispose_def using s
  by (auto intro!: shrinks_then shrinks_muts shrinks_dispose_ready [OF del] shrinks_reparent shrinks_get shrinks_pure
      shrinks_mono [OF shrinks_delete(1)] split: caller.splits)

lemma finite_tasks [simp]: "finite (tasks s)"
  using tasks_bound finite_subset by blast

lemma task_deleted:
  assumes inv: "table_inv (cs_table s)" and d: "cs_delete as_guest_task k s = (Ok t, s1)"
  shows "table_inv (cs_table s1)" and "tasks u \<subseteq> tasks s1 \<Longrightarrow> card (tasks u) < card (tasks s)" and "tasks s1 \<subseteq> tasks s"
proof -
  from shrinks_delete(1) [OF inv, of as_guest_task k] shrinks_delete(2) [OF inv d] d
  have s1: "table_inv (cs_table s1)" "k \<in> tasks s" "tasks s1 = tasks s - {k}" by (simp_all add: shrinks_def)
  then show "table_inv (cs_table s1)" "tasks s1 \<subseteq> tasks s" by auto
  assume "tasks u \<subseteq> tasks s1"
  then have "card (tasks u) \<le> card (tasks s1)" by (intro card_mono) simp_all
  also have "card (tasks s1) < card (tasks s)" using s1(3) card_Diff1_less [OF finite_tasks s1(2)] by simp
  finally show "card (tasks u) < card (tasks s)" .
qed

lemma shrinks_delete_from:
  "table_inv (cs_table s) \<Longrightarrow> card (tasks s) < n \<Longrightarrow> shrinks (tasks s) (delete_from_depth n w s)"
proof (induction n arbitrary: w s)
  case (Suc n)
  show ?case
  proof (cases w)
    case (WGuest k)
    obtain r s1 where d: "cs_delete as_guest_task k s = (r, s1)" by fastforce
    show ?thesis
    proof (cases r)
      case (Ok t)
      note s1 = task_deleted [OF Suc.prems(1) d [unfolded Ok]]
      have "shrinks (tasks s1) (delete_from_depth n v u)" if "table_inv (cs_table u)" "tasks u \<subseteq> tasks s1" for v u
        using s1(2) [OF that(2)] Suc.prems(2) by (intro shrinks_mono [OF Suc.IH [OF that(1)] that(2)]) simp
      from shrinks_dispose [of "tasks s1", OF this s1(1)]
      have "shrinks (tasks s1) (dispose (delete_from_depth n) t k s1)" by simp
      moreover have "delete_from_depth (Suc n) w s = dispose (delete_from_depth n) t k s1" using d Ok WGuest by simp
      ultimately show ?thesis using shrinks_mono s1(3) by simp
    qed (use d WGuest shrinks_delete(1) [OF Suc.prems(1), of as_guest_task k] in \<open>simp_all add: shrinks_def\<close>)
  qed (use shrinks_delete(1) [OF Suc.prems(1)] in \<open>auto simp: discard_def intro!: shrinks_then shrinks_pure\<close>)
qed simp

lemma dispose_ready_cong:
  assumes del: "\<And>w s. table_inv (cs_table s) \<Longrightarrow> tasks s \<subseteq> T \<Longrightarrow> shrinks T (del w s)"
    and eq: "\<And>w s. table_inv (cs_table s) \<Longrightarrow> tasks s \<subseteq> T \<Longrightarrow> del w s = del' w s"
  shows "table_inv (cs_table s) \<Longrightarrow> tasks s \<subseteq> T \<Longrightarrow> dispose_ready del ws s = dispose_ready del' ws s"
proof (induction ws arbitrary: s)
  case (Cons w ws)
  have "and_then (del w s) (\<lambda>_. dispose_ready del ws) = and_then (del w s) (\<lambda>_. dispose_ready del' ws)"
  proof (rule and_then_cong [OF refl])
    fix x u assume "del w s = (Ok x, u)"
    with del [OF Cons.prems, of w] show "dispose_ready del ws u = dispose_ready del' ws u"
      by (intro Cons.IH) (simp_all add: shrinks_def)
  qed
  moreover have "del w s = del' w s" using Cons.prems by (rule eq)
  moreover have "dispose_ready del ws s = dispose_ready del' ws s" using Cons.prems by (rule Cons.IH)
  ultimately show ?case by (cases "common_get w s") (simp_all del: common_get.simps)
qed simp

lemma dispose_cong:
  assumes del: "\<And>w s. table_inv (cs_table s) \<Longrightarrow> tasks s \<subseteq> T \<Longrightarrow> shrinks T (del w s)"
    and eq: "\<And>w s. table_inv (cs_table s) \<Longrightarrow> tasks s \<subseteq> T \<Longrightarrow> del w s = del' w s"
    and s: "table_inv (cs_table s)" "tasks s \<subseteq> T"
  shows "dispose del self me s = dispose del' self me s"
  unfolding dispose_def
proof (rule and_then_cong [OF refl])
  fix ws u
  assume u: "mut_waitable_set (gt_sync_call_set self) (\<lambda>ws. ws\<lparr>ws_ready := {}\<rparr>) s = (Ok ws, u)"
  have "shrinks T (mut_waitable_set (gt_sync_call_set self) (\<lambda>ws. ws\<lparr>ws_ready := {}\<rparr>) s)"
    using s by (rule shrinks_muts(2)) auto
  with u have "table_inv (cs_table u)" "tasks u \<subseteq> T" by (simp_all add: shrinks_def)
  from dispose_ready_cong [of T, OF del eq this]
  have "dispose_ready del (sorted_list_of_set (ws_ready ws)) u = dispose_ready del' (sorted_list_of_set (ws_ready ws)) u" by simp
  then show "and_then (dispose_ready del (sorted_list_of_set (ws_ready ws)) u) k =
      and_then (dispose_ready del' (sorted_list_of_set (ws_ready ws)) u) k" for k :: "unit \<Rightarrow> concurrent_state \<Rightarrow> unit conc"
    by simp
qed

text \<open>Two depths that both exceed the number of guest tasks give the same run.\<close>

lemma delete_from_depth_eq:
  "table_inv (cs_table s) \<Longrightarrow> card (tasks s) < n \<Longrightarrow> card (tasks s) < m \<Longrightarrow>
   delete_from_depth n w s = delete_from_depth m w s"
proof (induction n arbitrary: m w s)
  case (Suc n)
  from Suc.prems(3) obtain l where m: "m = Suc l" by (cases m) auto
  show ?case
  proof (cases w)
    case (WGuest k)
    have "and_then (cs_delete as_guest_task k s) (\<lambda>t s. dispose (delete_from_depth n) t k s) =
        and_then (cs_delete as_guest_task k s) (\<lambda>t s. dispose (delete_from_depth l) t k s)"
    proof (rule and_then_cong [OF refl])
      fix t s1 assume d: "cs_delete as_guest_task k s = (Ok t, s1)"
      note s1 = task_deleted [OF Suc.prems(1) d]
      have less: "card (tasks u) < n" "card (tasks u) < l" if "tasks u \<subseteq> tasks s1" for u
        using s1(2) [OF that] Suc.prems(2,3) m by simp_all
      show "dispose (delete_from_depth n) t k s1 = dispose (delete_from_depth l) t k s1"
      proof (rule dispose_cong [OF _ _ s1(1) subset_refl])
        fix v u assume u: "table_inv (cs_table u)" "tasks u \<subseteq> tasks s1"
        show "shrinks (tasks s1) (delete_from_depth n v u)"
          using shrinks_mono [OF shrinks_delete_from [OF u(1) less(1) [OF u(2)]] u(2)] .
        show "delete_from_depth n v u = delete_from_depth l v u"
          using u(1) less [OF u(2)] by (rule Suc.IH)
      qed
    qed
    then show ?thesis by (simp add: WGuest m)
  qed (simp_all add: m)
qed simp


section \<open>An example\<close>

definition example_set :: concurrent_state where
  "example_set = snd (cs_push (ObjGuestTask example_task)
     (snd (cs_push (ObjTransmitHandle (transmit_handle_new 7))
     (snd (cs_push (ObjWaitableSet waitable_set_default) (concurrent_state_new example_component))))))"

definition example_joined :: concurrent_state where
  "example_joined = snd (join (WTransmit 1) (Some 0)
     (snd (in_waitables 0 (st_insert 1 (WsStream 5 SfBusy)) example_set)))"

definition example_waiting :: concurrent_state where
  "example_waiting = snd (callback_wait 2 0 0 example_joined)"

definition example_ready :: concurrent_state where
  "example_ready = snd (set_event (WTransmit 1) (Some (StreamRead (Completed 3) None)) example_joined)"

lemmas table_eval =
  table_push_def table_push_entry_def table_pop_free_list_def table_new_def table_get_def table_get_any_def
  table_get_mut_def table_occupied_def table_occupied_mut_def table_add_child_def table_remove_child_def
  entry_add_child_def entry_remove_child_def table_entry_new_def vec_get_def u32_try_from_def u32_max_def
  cs_push_def cs_get_def cs_get_mut_def cs_add_child_def cs_remove_child_def concurrent_state_new_def

lemmas st_eval = in_waitables_def st_insert_def st_grow_def st_occupy_def st_record_def st_default_def st_slot_at_def
  st_table_index_def u32_checked_add_def u32_checked_sub_def MAX_HANDLE_def st_get_mut_by_rep_def st_get_mut_by_index_def

lemmas default_defs = waitable_set_default_def transmit_handle_new_def waitable_common_default_def

lemma example_joined_eq: "cs_table example_joined = \<lparr>tb_entries =
   [TOccupied \<lparr>te_entry = Boxed (ObjWaitableSet waitable_set_default), te_parent = None, te_children = {1}\<rparr>,
    TOccupied \<lparr>te_entry = Boxed (ObjTransmitHandle \<lparr>th_common = \<lparr>wc_event = None, wc_set = Some 0\<rparr>, th_state = 7\<rparr>),
      te_parent = Some 0, te_children = {}\<rparr>,
    TOccupied \<lparr>te_entry = Boxed (ObjGuestTask example_task), te_parent = None, te_children = {}\<rparr>],
   tb_free_head = None, tb_debug = False\<rparr>"
  by (simp add: example_joined_def example_set_def join_def discard_def table_eval default_defs)

lemma example_ready_eq: "cs_table example_ready = \<lparr>tb_entries =
   [TOccupied \<lparr>te_entry = Boxed (ObjWaitableSet \<lparr>ws_ready = {WTransmit 1}, ws_waiting = []\<rparr>),
      te_parent = None, te_children = {1}\<rparr>,
    TOccupied \<lparr>te_entry = Boxed (ObjTransmitHandle
        \<lparr>th_common = \<lparr>wc_event = Some (StreamRead (Completed 3) None), wc_set = Some 0\<rparr>, th_state = 7\<rparr>),
      te_parent = Some 0, te_children = {}\<rparr>,
    TOccupied \<lparr>te_entry = Boxed (ObjGuestTask example_task), te_parent = None, te_children = {}\<rparr>],
   tb_free_head = None, tb_debug = False\<rparr>"
  by (simp add: example_ready_def set_event_def mark_ready_def example_joined_eq discard_def table_eval default_defs)

lemma example_waiting_eq: "cs_table example_waiting = \<lparr>tb_entries =
   [TOccupied \<lparr>te_entry = Boxed (ObjWaitableSet \<lparr>ws_ready = {}, ws_waiting = [(2, WaitCallback 0)]\<rparr>),
      te_parent = None, te_children = {1}\<rparr>,
    TOccupied \<lparr>te_entry = Boxed (ObjTransmitHandle \<lparr>th_common = \<lparr>wc_event = None, wc_set = Some 0\<rparr>, th_state = 7\<rparr>),
      te_parent = Some 0, te_children = {}\<rparr>,
    TOccupied \<lparr>te_entry = Boxed (ObjGuestTask (example_task\<lparr>gt_wake_on_cancel := Some 0\<rparr>)), te_parent = None, te_children = {}\<rparr>],
   tb_free_head = None, tb_debug = False\<rparr>"
  by (simp add: example_waiting_def callback_wait_def example_joined_eq table_eval default_defs example_task_def)

lemmas view_eval = common_at_def set_at_def obj_at_def table_lookup_def table_occ_def vec_get_def

lemma finish_delivery_result:
  assumes "finish_delivery i w e s = (r, s')"
  shows "r \<noteq> Panic ''unwrap on None''" and "r = Ok v \<Longrightarrow> \<exists>handle. v = Some (e, Some (w, handle))"
proof -
  have d: "fst (on_delivery w e u) \<noteq> Panic ''unwrap on None''" for u
    by (cases "(w, e, u)" rule: on_delivery.cases)
       (auto simp: deliver_future_def deliver_stream_def discard_def in_waitables_def and_then_def st_get_mut_by_index_def Let_def
         split: outcome.splits waitable_state.splits option.splits state_slot.splits)
  have g: "fst (in_waitables i (st_get_mut_by_rep k f) u) \<noteq> Panic ''unwrap on None''" for k f u
    by (auto simp: in_waitables_def st_get_mut_by_rep_def st_get_mut_by_index_def
        split: outcome.splits option.splits state_slot.splits nat.splits)
  show "r \<noteq> Panic ''unwrap on None''"
    using assms d g [of "waitable_rep w" "\<lambda>x. x" s]
    by (auto simp: finish_delivery_def and_then_def split: outcome.splits prod.splits if_splits) (metis fst_conv)+
  show "r = Ok v \<Longrightarrow> \<exists>handle. v = Some (e, Some (w, handle))"
    using assms by (auto simp: finish_delivery_def and_then_def split: outcome.splits prod.splits if_splits)
qed

lemmas reach_steps =
  reach_create [OF _ _ prod.collapse [symmetric]] reach_join [OF _ _ prod.collapse [symmetric]]
  reach_set_event [OF _ prod.collapse [symmetric]] reach_wait [OF _ _ _ prod.collapse [symmetric]]

lemma example_joined_reach: "wset_reach example_joined"
proof -
  let ?s4 = "snd (in_waitables 0 (st_insert 1 (WsStream 5 SfBusy)) example_set)"
  have "wset_reach example_set" unfolding example_set_def
    by (intro reach_steps(1) reach_init) (simp_all add: fresh_obj_def default_defs example_task_def)
  then have "wset_reach ?s4" by (rule reach_other) simp
  then show ?thesis unfolding example_joined_def
  proof (rule reach_steps(2))
    show "set_at ?s4 k \<noteq> None" if "Some 0 = Some k" for k
      using that by (simp add: set_at_def obj_at_def example_set_def table_eval table_lookup_def table_occ_def)
  qed
qed

lemma example_ready_reach: "wset_reach example_ready"
  unfolding example_ready_def by (rule reach_steps(3) [OF example_joined_reach])

lemma example_waiting_reach: "wset_reach example_waiting"
  unfolding example_waiting_def
proof (rule reach_steps(4) [OF example_joined_reach])
  show "2 \<notin> fst ` set (ws_waiting ws)" if "set_at example_joined j = Some ws" for j ws
    using that by (auto simp: view_eval example_joined_eq default_defs nth_Cons' split: if_splits)
  show "set_at example_joined 0 \<noteq> None" by (simp add: view_eval example_joined_eq)
qed

lemma example_ready_views:
  "set_at example_ready 0 = Some \<lparr>ws_ready = {WTransmit 1}, ws_waiting = []\<rparr>"
  "common_at example_ready (WTransmit 1) = Some \<lparr>wc_event = Some (StreamRead (Completed 3) None), wc_set = Some 0\<rparr>"
  "obj_at example_ready 2 = Some (ObjGuestTask example_task)"
  by (simp_all add: view_eval example_ready_eq)

lemma example_waiting_views:
  "set_at example_waiting 0 = Some \<lparr>ws_ready = {}, ws_waiting = [(2, WaitCallback 0)]\<rparr>"
  "common_at example_waiting (WTransmit 1) = Some \<lparr>wc_event = None, wc_set = Some 0\<rparr>"
  by (simp_all add: view_eval example_waiting_eq)


section \<open>Properties\<close>







text \<open>
  C27: Deleting a waitable ends: on a well-formed table the recursion from a task to
  the subtasks whose completion was never delivered is cut off by no depth bound,
  and every larger bound gives the same run.
\<close>

theorem delete_from_terminates:
  assumes "table_inv (cs_table s)" and "length (tb_entries (cs_table s)) < n"
  shows "delete_from w s = delete_from_depth n w s \<and> fst (delete_from w s) \<noteq> Panic ''recursion depth''"
proof -
  have c: "card (tasks s) \<le> length (tb_entries (cs_table s))"
    using card_mono [OF _ tasks_bound [of s]] by simp
  with assms delete_from_depth_eq [of s "Suc (length (tb_entries (cs_table s)))" n w]
    shrinks_delete_from [of s "Suc (length (tb_entries (cs_table s)))" w]
  show ?thesis by (simp add: delete_from_def shrinks_def)
qed

theorem delete_from_terminates_witness:
  "delete_from (WTransmit 1) example_joined = delete_from_depth 9 (WTransmit 1) example_joined"
  using delete_from_terminates [OF wset_inv_uptoD(1) [OF wset_reach_inv [OF example_joined_reach]], of 9 "WTransmit 1"]
  by (simp add: example_joined_eq)

end
