(* ===== verification/Transmit_State.thy ===== *)
theory Transmit_State
  imports Waitable_Sets
begin

text \<open>
  Streams and futures, \<open>concurrent/futures_and_streams.rs\<close>, as far as they only
  concern the concurrent state: a \<open>TransmitState\<close> in the table with a handle for
  its write end and one for its read end, the events posted on those handles,
  the creation and deletion of the triple, cancellation, and the transfer of a
  read end from one component instance to another.  Reading and writing, which
  also touch linear memories and host buffers, are in the theory \<open>Transmit\<close>.
\<close>

section \<open>Handles of streams and futures\<close>

fun table_index_kind :: "table_index \<Rightarrow> transmit_kind" where
  "table_index_kind (StreamIndex ty) = Stream"
| "table_index_kind (FutureIndex ty) = Future"

fun payload :: "component \<Rightarrow> table_index \<Rightarrow> nat option" where
  "payload c (FutureIndex ty) = future_payload c ty"
| "payload c (StreamIndex ty) = stream_payload c ty"

fun table_instance :: "component \<Rightarrow> table_index \<Rightarrow> nat" where
  "table_instance c (StreamIndex ty) = stream_instance c ty"
| "table_instance c (FutureIndex ty) = future_instance c ty"

fun waitable_state_of :: "table_index \<Rightarrow> stream_future_state \<Rightarrow> waitable_state" where
  "waitable_state_of (StreamIndex ty) st = WsStream ty st"
| "waitable_state_of (FutureIndex ty) st = WsFuture ty st"

fun get_mut_by_index_from ::
    "table_index \<Rightarrow> nat \<times> waitable_state \<Rightarrow> (conc_error, nat \<times> stream_future_state) outcome" where
  "get_mut_by_index_from (StreamIndex ty) (rep, WsStream actual_ty st) =
     (if actual_ty \<noteq> ty then Err (Bail ''invalid stream handle'') else Ok (rep, st))"
| "get_mut_by_index_from (StreamIndex ty) (rep, other) = Err (Bail ''invalid stream handle'')"
| "get_mut_by_index_from (FutureIndex ty) (rep, WsFuture actual_ty st) =
     (if actual_ty \<noteq> ty then Err (Bail ''invalid future handle'') else Ok (rep, st))"
| "get_mut_by_index_from (FutureIndex ty) (rep, other) = Err (Bail ''invalid future handle'')"

text \<open>\<open>get_mut_by_index\<close>, to read the state of a handle and to store a new one.\<close>

definition get_by_index ::
    "table_index \<Rightarrow> nat \<Rightarrow> concurrent_state \<Rightarrow> (conc_error, nat \<times> stream_future_state) outcome" where
  "get_by_index ty index s =
     and_then_pure (waitables_get (table_instance (cs_component s) ty) index s) (get_mut_by_index_from ty)"

definition put_by_index :: "table_index \<Rightarrow> nat \<Rightarrow> stream_future_state \<Rightarrow> concurrent_state \<Rightarrow> unit conc" where
  "put_by_index ty index st s =
     and_then (get_by_index ty index s, s) (\<lambda>_ s.
     discard (in_waitables (table_instance (cs_component s) ty)
       (st_get_mut_by_index index (\<lambda>_. waitable_state_of ty st)) s))"

definition state_table_insert :: "table_index \<Rightarrow> nat \<Rightarrow> stream_future_state \<Rightarrow> concurrent_state \<Rightarrow> nat conc" where
  "state_table_insert ty rep st s =
     in_waitables (table_instance (cs_component s) ty) (st_insert rep (waitable_state_of ty st)) s"


section \<open>Events of the two ends\<close>

definition transmit_take_event :: "nat \<Rightarrow> concurrent_state \<Rightarrow> event option conc" where
  "transmit_take_event w s = take_event (WTransmit w) s"

definition transmit_set_event :: "nat \<Rightarrow> event \<Rightarrow> concurrent_state \<Rightarrow> unit conc" where
  "transmit_set_event w e s = set_event (WTransmit w) (Some e) s"

text \<open>
  A drop or a cancellation that meets an undelivered event keeps what that event
  says was transferred.
\<close>

fun update_code :: "return_code \<Rightarrow> return_code \<Rightarrow> ('e, return_code) outcome" where
  "update_code Blocked new = Panic ''unreachable''"
| "update_code (Completed n) (Dropped 0) = Ok (Dropped n)"
| "update_code (Dropped n) (Dropped 0) = Ok (Dropped n)"
| "update_code (Cancelled n) (Dropped 0) = Ok (Dropped n)"
| "update_code (Completed n) (Cancelled 0) = Ok (Cancelled n)"
| "update_code (Dropped n) (Cancelled 0) = Ok (Cancelled n)"
| "update_code (Cancelled n) (Cancelled 0) = Ok (Cancelled n)"
| "update_code old new = Panic ''unreachable''"

definition pending_or :: "(nat \<times> nat) option \<Rightarrow> (nat \<times> nat) option \<Rightarrow> (nat \<times> nat) option" where
  "pending_or a b = (if a \<noteq> None then a else b)"

fun merge_event :: "event option \<Rightarrow> event \<Rightarrow> ('e, event) outcome" where
  "merge_event None e = Ok e"
| "merge_event (Some (FutureWrite c p)) (FutureWrite c' p') = Ok (FutureWrite c p)"
| "merge_event (Some (FutureRead c p)) (FutureRead c' p') = Ok (FutureRead c p)"
| "merge_event (Some (StreamWrite c p)) (StreamWrite c' p') =
     map_ok (\<lambda>code. StreamWrite code (pending_or p p')) (update_code c c')"
| "merge_event (Some (StreamRead c p)) (StreamRead c' p') =
     map_ok (\<lambda>code. StreamRead code (pending_or p p')) (update_code c c')"
| "merge_event (Some old) e = Panic ''unreachable''"

definition update_event :: "nat \<Rightarrow> event \<Rightarrow> concurrent_state \<Rightarrow> unit conc" where
  "update_event w e s =
     and_then (transmit_take_event w s) (\<lambda>old s.
     and_then (merge_event old e, s) (\<lambda>e s. transmit_set_event w e s))"

text \<open>The event of a read or a write, by the type of the handle that is told.\<close>

fun read_event :: "table_index \<Rightarrow> return_code \<Rightarrow> nat option \<Rightarrow> event" where
  "read_event (FutureIndex ty) code handle = FutureRead code (map_option (Pair ty) handle)"
| "read_event (StreamIndex ty) code handle = StreamRead code (map_option (Pair ty) handle)"

fun write_event :: "table_index \<Rightarrow> return_code \<Rightarrow> nat option \<Rightarrow> event" where
  "write_event (FutureIndex ty) code handle = FutureWrite code (map_option (Pair ty) handle)"
| "write_event (StreamIndex ty) code handle = StreamWrite code (map_option (Pair ty) handle)"


section \<open>Creation and deletion\<close>

definition new_transmit :: "concurrent_state \<Rightarrow> (nat \<times> nat) conc" where
  "new_transmit s =
     and_then (cs_push (ObjTransmitState transmit_state_default) s) (\<lambda>state_id s.
     and_then (cs_push (ObjTransmitHandle (transmit_handle_new state_id)) s) (\<lambda>w s.
     and_then (cs_push (ObjTransmitHandle (transmit_handle_new state_id)) s) (\<lambda>r s.
     and_then (mut_transmit_state state_id (\<lambda>t. t\<lparr>ts_write_handle := w, ts_read_handle := r\<rparr>) s) (\<lambda>_ s.
     (Ok (w, r), s)))))"

definition delete_transmit :: "nat \<Rightarrow> concurrent_state \<Rightarrow> unit conc" where
  "delete_transmit state_id s =
     and_then (cs_delete as_transmit_state state_id s) (\<lambda>t s.
     and_then (cs_delete as_transmit_handle (ts_write_handle t) s) (\<lambda>_ s.
     and_then (cs_delete as_transmit_handle (ts_read_handle t) s) (\<lambda>_ s. (Ok (), s))))"

record resource_pair =
  rp_write :: nat
  rp_read :: nat

definition guest_new :: "table_index \<Rightarrow> concurrent_state \<Rightarrow> resource_pair conc" where
  "guest_new ty s =
     and_then (new_transmit s) (\<lambda>(w, r) s.
     and_then (state_table_insert ty r (SfRead False) s) (\<lambda>r_handle s.
     and_then (state_table_insert ty w (SfWrite False) s) (\<lambda>w_handle s.
     (Ok \<lparr>rp_write = w_handle, rp_read = r_handle\<rparr>, s))))"


section \<open>Cancellation\<close>

fun cancelled_code :: "(event \<Rightarrow> return_code option) \<Rightarrow> event \<Rightarrow> bool \<Rightarrow> ('e, return_code) outcome" where
  "cancelled_code code_of e is_stream = (case code_of e of
      None \<Rightarrow> Panic ''unreachable''
    | Some (Completed n) \<Rightarrow> Ok (if is_stream then Cancelled n else Completed n)
    | Some (Dropped n) \<Rightarrow> Ok (Dropped n)
    | Some _ \<Rightarrow> Panic ''unreachable'')"

fun write_code :: "event \<Rightarrow> return_code option" where
  "write_code (FutureWrite code p) = Some code"
| "write_code (StreamWrite code p) = Some code"
| "write_code _ = None"

fun read_code :: "event \<Rightarrow> return_code option" where
  "read_code (FutureRead code p) = Some code"
| "read_code (StreamRead code p) = Some code"
| "read_code _ = None"

fun is_stream_event :: "event \<Rightarrow> bool" where
  "is_stream_event (StreamRead code p) = True"
| "is_stream_event (StreamWrite code p) = True"
| "is_stream_event _ = False"

fun cancel_write_state :: "write_state \<Rightarrow> write_state" where
  "cancel_write_state (WrGuestReady p post) = WrOpen"
| "cancel_write_state (WrHostReady w post) = WrOpen"
| "cancel_write_state w = w"

fun cancel_read_state :: "read_state \<Rightarrow> read_state" where
  "cancel_read_state (RdGuestReady p) = RdOpen"
| "cancel_read_state (RdHostReady r) = RdOpen"
| "cancel_read_state r = r"

definition host_cancel_write :: "nat \<Rightarrow> concurrent_state \<Rightarrow> return_code conc" where
  "host_cancel_write transmit_id s =
     and_then (get_transmit_state transmit_id s, s) (\<lambda>t s.
     and_then (take_event (WTransmit (ts_write_handle t)) s) (\<lambda>e s.
     and_then (case e of
         Some e \<Rightarrow> cancelled_code write_code e (is_stream_event e)
       | None \<Rightarrow> Ok (Cancelled 0), s) (\<lambda>code s.
     and_then (mut_transmit_state transmit_id (\<lambda>t. t\<lparr>ts_write := cancel_write_state (ts_write t)\<rparr>) s) (\<lambda>_ s.
     (Ok code, s)))))"

definition host_cancel_read :: "nat \<Rightarrow> concurrent_state \<Rightarrow> return_code conc" where
  "host_cancel_read transmit_id s =
     and_then (get_transmit_state transmit_id s, s) (\<lambda>t s.
     and_then (take_event (WTransmit (ts_read_handle t)) s) (\<lambda>e s.
     and_then (case e of
         Some e \<Rightarrow> cancelled_code read_code e (is_stream_event e)
       | None \<Rightarrow> Ok (Cancelled 0), s) (\<lambda>code s.
     and_then (mut_transmit_state transmit_id (\<lambda>t. t\<lparr>ts_read := cancel_read_state (ts_read t)\<rparr>) s) (\<lambda>_ s.
     (Ok code, s)))))"

text \<open>The guest names its end by a handle, of whatever stream or future type.\<close>

fun stream_or_future :: "nat \<times> waitable_state \<Rightarrow> (conc_error, nat \<times> table_index \<times> stream_future_state) outcome" where
  "stream_or_future (rep, WsStream ty st) = Ok (rep, StreamIndex ty, st)"
| "stream_or_future (rep, WsFuture ty st) = Ok (rep, FutureIndex ty, st)"
| "stream_or_future (rep, other) = Err (Bail ''invalid stream or future handle'')"

fun cancel_write_handle :: "stream_future_state \<Rightarrow> (conc_error, stream_future_state) outcome" where
  "cancel_write_handle (SfWrite d) = Err (Bail ''stream or future write cancelled when no write is pending'')"
| "cancel_write_handle (SfRead d) = Err (Bail ''passed read end to {stream|future}.cancel-write'')"
| "cancel_write_handle SfBusy = Ok (SfWrite False)"

fun cancel_read_handle :: "stream_future_state \<Rightarrow> (conc_error, stream_future_state) outcome" where
  "cancel_read_handle (SfRead d) = Err (Bail ''stream or future read cancelled when no read is pending'')"
| "cancel_read_handle (SfWrite d) = Err (Bail ''passed write end to {stream|future}.cancel-read'')"
| "cancel_read_handle SfBusy = Ok (SfRead False)"

definition guest_cancel ::
    "(stream_future_state \<Rightarrow> (conc_error, stream_future_state) outcome) \<Rightarrow> (nat \<Rightarrow> concurrent_state \<Rightarrow> return_code conc)
     \<Rightarrow> table_index \<Rightarrow> nat \<Rightarrow> concurrent_state \<Rightarrow> return_code conc" where
  "guest_cancel new_state host_cancel ty handle s =
     (let i = table_instance (cs_component s) ty in
      and_then (and_then_pure (waitables_get i handle s) stream_or_future, s) (\<lambda>(rep, actual_ty, st) s.
      and_then (new_state st, s) (\<lambda>st s.
      and_then (in_waitables i (st_get_mut_by_index handle (\<lambda>_. waitable_state_of actual_ty st)) s) (\<lambda>_ s.
      and_then (get_transmit_handle rep s, s) (\<lambda>h s. host_cancel (th_state h) s)))))"

definition guest_cancel_write :: "table_index \<Rightarrow> nat \<Rightarrow> bool \<Rightarrow> concurrent_state \<Rightarrow> return_code conc" where
  "guest_cancel_write ty writer async = guest_cancel cancel_write_handle host_cancel_write ty writer"

definition guest_cancel_read :: "table_index \<Rightarrow> nat \<Rightarrow> bool \<Rightarrow> concurrent_state \<Rightarrow> return_code conc" where
  "guest_cancel_read ty reader async = guest_cancel cancel_read_handle host_cancel_read ty reader"


section \<open>Transfer of a read end\<close>

fun match_stream :: "waitable_state \<Rightarrow> (conc_error, nat \<times> stream_future_state) outcome" where
  "match_stream (WsStream ty st) = Ok (ty, st)"
| "match_stream _ = Err (Bail ''invalid stream handle'')"

fun match_future :: "waitable_state \<Rightarrow> (conc_error, nat \<times> stream_future_state) outcome" where
  "match_future (WsFuture ty st) = Ok (ty, st)"
| "match_future _ = Err (Bail ''invalid future handle'')"

definition guest_transfer ::
    "nat \<Rightarrow> nat \<Rightarrow> nat \<Rightarrow> nat \<Rightarrow> nat \<Rightarrow> (waitable_state \<Rightarrow> (conc_error, nat \<times> stream_future_state) outcome)
     \<Rightarrow> (nat \<Rightarrow> stream_future_state \<Rightarrow> waitable_state) \<Rightarrow> concurrent_state \<Rightarrow> nat conc" where
  "guest_transfer src_idx src src_instance dst dst_instance match_state make_state s =
     and_then (waitables_get src_instance src_idx s, s) (\<lambda>(rep, src_state) s.
     and_then (match_state src_state, s) (\<lambda>(src_ty, st) s.
     if src_ty \<noteq> src then (Err (Bail ''invalid future handle''), s)
     else (case st of
         SfRead True \<Rightarrow> (Err (Bail ''cannot lift stream after being notified that the writable end dropped''), s)
       | SfRead False \<Rightarrow>
           and_then (in_waitables src_instance (st_remove_by_index src_idx) s) (\<lambda>_ s.
           in_waitables dst_instance (st_insert rep (make_state dst (SfRead False))) s)
       | SfWrite d \<Rightarrow> (Err (Bail ''cannot transfer write end of stream or future''), s)
       | SfBusy \<Rightarrow> (Err (Bail ''cannot transfer busy stream or future''), s))))"


section \<open>Intrinsics\<close>

definition encode_result :: "return_code conc \<Rightarrow> 32 word conc" where
  "encode_result m = and_then m (\<lambda>code s. (return_code_encode code, s))"

definition future_new :: "nat \<Rightarrow> concurrent_state \<Rightarrow> resource_pair conc" where
  "future_new ty = guest_new (FutureIndex ty)"

definition stream_new :: "nat \<Rightarrow> concurrent_state \<Rightarrow> resource_pair conc" where
  "stream_new ty = guest_new (StreamIndex ty)"

definition future_cancel_write :: "nat \<Rightarrow> bool \<Rightarrow> nat \<Rightarrow> concurrent_state \<Rightarrow> 32 word conc" where
  "future_cancel_write ty async writer s = encode_result (guest_cancel_write (FutureIndex ty) writer async s)"

definition future_cancel_read :: "nat \<Rightarrow> bool \<Rightarrow> nat \<Rightarrow> concurrent_state \<Rightarrow> 32 word conc" where
  "future_cancel_read ty async reader s = encode_result (guest_cancel_read (FutureIndex ty) reader async s)"

definition stream_cancel_write :: "nat \<Rightarrow> bool \<Rightarrow> nat \<Rightarrow> concurrent_state \<Rightarrow> 32 word conc" where
  "stream_cancel_write ty async writer s = encode_result (guest_cancel_write (StreamIndex ty) writer async s)"

definition stream_cancel_read :: "nat \<Rightarrow> bool \<Rightarrow> nat \<Rightarrow> concurrent_state \<Rightarrow> 32 word conc" where
  "stream_cancel_read ty async reader s = encode_result (guest_cancel_read (StreamIndex ty) reader async s)"

definition future_transfer :: "nat \<Rightarrow> nat \<Rightarrow> nat \<Rightarrow> concurrent_state \<Rightarrow> nat conc" where
  "future_transfer src_idx src dst s =
     guest_transfer src_idx src (future_instance (cs_component s) src) dst (future_instance (cs_component s) dst)
       match_future WsFuture s"

definition stream_transfer :: "nat \<Rightarrow> nat \<Rightarrow> nat \<Rightarrow> concurrent_state \<Rightarrow> nat conc" where
  "stream_transfer src_idx src dst s =
     guest_transfer src_idx src (stream_instance (cs_component s) src) dst (stream_instance (cs_component s) dst)
       match_stream WsStream s"

end
