(* ===== verification/Transmit.thy ===== *)
theory Transmit
  imports Transmit_State
begin

text \<open>
  Reading from and writing to streams and futures,
  \<open>concurrent/futures_and_streams.rs\<close>.  A write and a read meet: whichever comes
  second finds the other pending and transfers the items, between two linear
  memories, a memory and a host buffer, or two host buffers.  The closures a
  pending host operation leaves behind are the data they capture, applied by
  \<open>run_writer\<close> and \<open>run_reader\<close>.  The store holds the concurrent state, the linear
  memories, the one-shot channels and the wakers that were woken.  How values of
  a component type are loaded from and stored to memory, which may call guest
  code, is the parameter \<open>canon\<close>.
\<close>

section \<open>The store\<close>

record 'b host_result =
  hres_buffer :: 'b
  hres_dropped :: bool

datatype message =
    SentWrite "host_val write_buffer host_result"
  | SentRead "host_val read_buffer host_result"

record store =
  so_state :: concurrent_state
  so_memories :: "nat \<Rightarrow> 8 word list"
  so_channels :: nat
  so_sent :: "nat \<Rightarrow> message option"
  so_woken :: "nat list"

type_synonym 'a in_store = "(conc_error, 'a, store) result"

record canon =
  cn_options :: "nat \<Rightarrow> options"
  cn_load :: "options \<Rightarrow> nat \<Rightarrow> 8 word list \<Rightarrow> store \<Rightarrow> host_val in_store"
  cn_store :: "options \<Rightarrow> nat \<Rightarrow> nat \<Rightarrow> host_val \<Rightarrow> store \<Rightarrow> unit in_store"
  cn_lower_list :: "host_type \<Rightarrow> options \<Rightarrow> nat \<Rightarrow> nat \<Rightarrow> host_val list \<Rightarrow> store \<Rightarrow> unit in_store"
  cn_lift_list :: "host_type \<Rightarrow> options \<Rightarrow> nat \<Rightarrow> nat \<Rightarrow> nat \<Rightarrow> store \<Rightarrow> host_val list in_store"
  cn_unit :: host_val

definition on_state :: "(concurrent_state \<Rightarrow> 'a conc) \<Rightarrow> store \<Rightarrow> 'a in_store" where
  "on_state f st = (case f (so_state st) of (r, s) \<Rightarrow> (r, st\<lparr>so_state := s\<rparr>))"

definition new_channel :: "store \<Rightarrow> nat \<times> store" where
  "new_channel st = (so_channels st, st\<lparr>so_channels := so_channels st + 1\<rparr>)"

definition channel_send :: "nat \<Rightarrow> message \<Rightarrow> store \<Rightarrow> store" where
  "channel_send ch m st = st\<lparr>so_sent := (so_sent st)(ch \<mapsto> m)\<rparr>"

definition wake_watcher :: "nat option \<Rightarrow> store \<Rightarrow> store" where
  "wake_watcher w st = (case w of None \<Rightarrow> st | Some w \<Rightarrow> st\<lparr>so_woken := so_woken st @ [w]\<rparr>)"

text \<open>\<open>Options::memory\<close>.\<close>

definition options_memory :: "options \<Rightarrow> store \<Rightarrow> (conc_error, 8 word list) outcome" where
  "options_memory opts st = (case opt_memory opts of
      None \<Rightarrow> Panic ''unwrap on None''
    | Some m \<Rightarrow> Ok (so_memories st m))"

definition count_code :: "transmit_kind \<Rightarrow> nat \<Rightarrow> ('e, return_code) outcome" where
  "count_code kind n = (case u32_try_from n of
      None \<Rightarrow> Panic ''unwrap on Err''
    | Some n \<Rightarrow> Ok (return_code_completed kind n))"


section \<open>Completing a pending host operation\<close>

datatype reader =
    ReaderGuest options table_index nat nat
  | ReaderHost "host_val read_buffer"
  | ReaderEnd

datatype writer =
    WriterGuest options "nat option" nat nat
  | WriterHost "host_val write_buffer" nat
  | WriterEnd

text \<open>The result, the code for the other side, and the buffer of a reading host.\<close>

definition accept_reader ::
    "canon \<Rightarrow> host_type \<Rightarrow> reader \<Rightarrow> host_val write_buffer \<Rightarrow> transmit_kind \<Rightarrow> store
     \<Rightarrow> (host_val write_buffer host_result \<times> return_code \<times> host_val read_buffer option) in_store" where
  "accept_reader c T reader buffer kind st = (case reader of
      ReaderGuest options ty address n \<Rightarrow>
        (let n = min (length (wb_remaining buffer)) n in
         if address mod ht_align32 T \<noteq> 0 then (Err (Bail ''read pointer not aligned''), st)
         else and_then (options_memory options st, st) (\<lambda>mem st.
           if sub_slice address (ht_size32 T * n) mem = None
           then (Err (Bail ''read pointer out of bounds of memory''), st)
           else and_then (case payload (cs_component (so_state st)) ty of
               Some ty \<Rightarrow> cn_lower_list c T options ty address (take n (wb_remaining buffer)) st
             | None \<Rightarrow> (Ok (), st)) (\<lambda>_ st.
           case wb_skip n buffer of
             (Ok _, buffer) \<Rightarrow>
               (map_ok (\<lambda>code. (\<lparr>hres_buffer = buffer, hres_dropped = False\<rparr>, code, None)) (count_code kind n), st)
           | (Err e, buffer) \<Rightarrow> (Err e, st)
           | (Panic p, buffer) \<Rightarrow> (Panic p, st))))
    | ReaderHost rb \<Rightarrow>
        and_then (rb_remaining_capacity rb, st) (\<lambda>cap st.
        let n = min (length (wb_remaining buffer)) cap in
        case rb_move_from n (rb, buffer) of
          (Ok _, (rb, buffer)) \<Rightarrow>
            (map_ok (\<lambda>code. (\<lparr>hres_buffer = buffer, hres_dropped = False\<rparr>, code, Some rb)) (count_code kind n), st)
        | (Err e, _) \<Rightarrow> (Err e, st)
        | (Panic p, _) \<Rightarrow> (Panic p, st))
    | ReaderEnd \<Rightarrow> (Ok (\<lparr>hres_buffer = buffer, hres_dropped = True\<rparr>, Dropped 0, None), st))"

text \<open>The values of a guest's write: unit values, or what the canonical ABI lifts.\<close>

definition lift_items ::
    "canon \<Rightarrow> host_type \<Rightarrow> options \<Rightarrow> nat option \<Rightarrow> nat \<Rightarrow> nat \<Rightarrow> store \<Rightarrow> host_val list in_store" where
  "lift_items c T options ty address n st =
     (if ht_is_unit T then (Ok (replicate n (cn_unit c)), st)
      else (case ty of
          None \<Rightarrow> (Panic ''unwrap on None'', st)
        | Some ty \<Rightarrow>
            (if address mod ht_align32 T \<noteq> 0 then (Err (Bail ''write pointer not aligned''), st)
             else and_then (options_memory options st, st) (\<lambda>mem st.
               if sub_slice address (ht_size32 T * n) mem = None
               then (Err (Bail ''write pointer out of bounds of memory''), st)
               else cn_lift_list c T options ty address n st))))"

definition accept_writer ::
    "canon \<Rightarrow> host_type \<Rightarrow> writer \<Rightarrow> host_val read_buffer \<Rightarrow> transmit_kind \<Rightarrow> store
     \<Rightarrow> (host_val read_buffer host_result \<times> return_code \<times> host_val write_buffer option) in_store" where
  "accept_writer c T writer buffer kind st = (case writer of
      WriterGuest options ty address n \<Rightarrow>
        and_then (rb_remaining_capacity buffer, st) (\<lambda>cap st.
        let n = min n cap in
        and_then (lift_items c T options ty address n st) (\<lambda>items st.
        case rb_extend items buffer of
          (Ok _, buffer) \<Rightarrow>
            (map_ok (\<lambda>code. (\<lparr>hres_buffer = buffer, hres_dropped = False\<rparr>, code, None)) (count_code kind n), st)
        | (Err e, _) \<Rightarrow> (Err e, st)
        | (Panic p, _) \<Rightarrow> (Panic p, st)))
    | WriterHost input n \<Rightarrow>
        and_then (rb_remaining_capacity buffer, st) (\<lambda>cap st.
        let n = min n cap in
        case rb_move_from n (buffer, input) of
          (Ok _, (buffer, input)) \<Rightarrow>
            (map_ok (\<lambda>code. (\<lparr>hres_buffer = buffer, hres_dropped = False\<rparr>, code, Some input)) (count_code kind n), st)
        | (Err e, _) \<Rightarrow> (Err e, st)
        | (Panic p, _) \<Rightarrow> (Panic p, st))
    | WriterEnd \<Rightarrow> (Ok (\<lparr>hres_buffer = buffer, hres_dropped = True\<rparr>, Dropped 0, None), st))"

text \<open>The closures of \<open>WriteState::HostReady\<close> and \<open>ReadState::HostReady\<close>.\<close>

definition run_writer ::
    "canon \<Rightarrow> host_writer \<Rightarrow> reader \<Rightarrow> store \<Rightarrow> (return_code \<times> host_val read_buffer option) in_store" where
  "run_writer c w reader st =
     and_then (accept_reader c (hw_type w) reader (hw_buffer w) (hw_kind w) st) (\<lambda>(res, code, rb) st.
     (Ok (code, rb), channel_send (hw_channel w) (SentWrite res) st))"

definition run_reader ::
    "canon \<Rightarrow> host_reader \<Rightarrow> writer \<Rightarrow> store \<Rightarrow> (return_code \<times> host_val write_buffer option) in_store" where
  "run_reader c r writer st =
     and_then (accept_writer c (hr_type r) writer (hr_buffer r) (hr_kind r) st) (\<lambda>(res, code, wb) st.
     (Ok (code, wb), channel_send (hr_channel r) (SentRead res) st))"


section \<open>Operations of the host\<close>

text \<open>The state an end goes back to when the other end takes over what it had pending.\<close>

fun reopen_read :: "read_state \<Rightarrow> read_state" where
  "reopen_read RdDropped = RdDropped"
| "reopen_read _ = RdOpen"

fun reopen_write :: "write_state \<Rightarrow> write_state" where
  "reopen_write WrDropped = WrDropped"
| "reopen_write _ = WrOpen"

definition put_transmit :: "nat \<Rightarrow> (transmit_state \<Rightarrow> transmit_state) \<Rightarrow> store \<Rightarrow> unit in_store" where
  "put_transmit k f = on_state (\<lambda>s. discard (mut_transmit_state k f s))"

text \<open>Lowering into the memory of a guest that waits in a read, and telling it.\<close>

definition accept_guest_read ::
    "canon \<Rightarrow> host_type \<Rightarrow> guest_pending \<Rightarrow> nat \<Rightarrow> host_val write_buffer \<Rightarrow> transmit_kind \<Rightarrow> store
     \<Rightarrow> host_val write_buffer host_result in_store" where
  "accept_guest_read c T p read_handle buffer kind st =
     and_then (accept_reader c T (ReaderGuest (gp_options p) (gp_ty p) (gp_address p) (gp_count p)) buffer kind st)
       (\<lambda>(res, code, rb) st.
     and_then (on_state (transmit_set_event read_handle (read_event (gp_ty p) code (Some (gp_handle p)))) st)
       (\<lambda>_ st. (Ok res, st)))"

definition run_accept_reader :: "canon \<Rightarrow> host_writer \<Rightarrow> guest_pending \<Rightarrow> nat \<Rightarrow> store \<Rightarrow> unit in_store" where
  "run_accept_reader c w p read_handle st =
     and_then (accept_guest_read c (hw_type w) p read_handle (hw_buffer w) (hw_kind w) st) (\<lambda>res st.
     (Ok (), channel_send (hw_channel w) (SentWrite res) st))"

text \<open>\<open>Inl\<close>: the operation is complete; \<open>Inr\<close>: the channel that will tell.\<close>

definition host_write_reader ::
    "canon \<Rightarrow> host_type \<Rightarrow> nat \<Rightarrow> transmit_state \<Rightarrow> host_val write_buffer \<Rightarrow> transmit_kind \<Rightarrow> post_write \<Rightarrow> store
     \<Rightarrow> (host_val write_buffer host_result + nat) in_store" where
  "host_write_reader c T transmit_id t buffer kind post st = (case ts_read t of
      RdOpen \<Rightarrow>
        (if ts_write t \<noteq> WrOpen
         then (Panic ''assertion failed: matches!(&transmit.write, WriteState::Open)'', st)
         else (let (ch, st) = new_channel st;
                   w = \<lparr>hw_buffer = buffer, hw_type = T, hw_kind = kind, hw_channel = ch\<rparr> in
           and_then (put_transmit transmit_id (\<lambda>t. t\<lparr>ts_write := WrHostReady w post\<rparr>) st) (\<lambda>_ st.
           (Ok (Inr ch), st))))
    | RdGuestReady p \<Rightarrow>
        and_then (if kind = Future then put_transmit transmit_id (\<lambda>t. t\<lparr>ts_done := True\<rparr>) st else (Ok (), st)) (\<lambda>_ st.
        if ht_may_require_realloc T then
          (let (ch, st) = new_channel st;
               w = \<lparr>hw_buffer = buffer, hw_type = T, hw_kind = kind, hw_channel = ch\<rparr> in
           (Ok (Inr ch), st\<lparr>so_state :=
              push_high_priority (WorkerFunction (AcceptReader w p (ts_read_handle t))) (so_state st)\<rparr>))
        else and_then (accept_guest_read c T p (ts_read_handle t) buffer kind st) (\<lambda>res st. (Ok (Inl res), st)))
    | RdHostReady r \<Rightarrow>
        and_then (run_reader c r (WriterHost buffer (length (wb_remaining buffer))) st) (\<lambda>(code, wb) st.
        case (code, wb) of
          (Completed n, Some buffer) \<Rightarrow> (Ok (Inl \<lparr>hres_buffer = buffer, hres_dropped = False\<rparr>), st)
        | (Dropped n, Some buffer) \<Rightarrow> (Ok (Inl \<lparr>hres_buffer = buffer, hres_dropped = False\<rparr>), st)
        | _ \<Rightarrow> (Panic ''unreachable'', st))
    | RdDropped \<Rightarrow> (Ok (Inl \<lparr>hres_buffer = buffer, hres_dropped = True\<rparr>), st))"

definition host_write ::
    "canon \<Rightarrow> host_type \<Rightarrow> nat \<Rightarrow> host_val write_buffer \<Rightarrow> transmit_kind \<Rightarrow> post_write \<Rightarrow> store
     \<Rightarrow> (host_val write_buffer host_result + nat) in_store" where
  "host_write c T ident buffer kind post st =
     and_then (get_transmit_handle ident (so_state st), st) (\<lambda>h st.
     and_then (get_transmit_state (th_state h) (so_state st), st) (\<lambda>t st.
     let t = (if post = PwDrop \<and> ts_read t \<noteq> RdOpen then t\<lparr>ts_write := WrDropped\<rparr> else t) in
     and_then (put_transmit (th_state h) (\<lambda>_. t\<lparr>ts_read := reopen_read (ts_read t)\<rparr>) st) (\<lambda>_ st.
     host_write_reader c T (th_state h) t buffer kind post st)))"

definition host_read_writer ::
    "canon \<Rightarrow> host_type \<Rightarrow> nat \<Rightarrow> transmit_state \<Rightarrow> host_val read_buffer \<Rightarrow> transmit_kind \<Rightarrow> store
     \<Rightarrow> (host_val read_buffer host_result + nat) in_store" where
  "host_read_writer c T transmit_id t buffer kind st = (case ts_write t of
      WrOpen \<Rightarrow>
        (if ts_read t \<noteq> RdOpen
         then (Panic ''assertion failed: matches!(&transmit.read, ReadState::Open)'', st)
         else (let (ch, st) = new_channel st;
                   r = \<lparr>hr_buffer = buffer, hr_type = T, hr_kind = kind, hr_channel = ch\<rparr> in
           and_then (put_transmit transmit_id (\<lambda>t. t\<lparr>ts_read := RdHostReady r\<rparr>) st) (\<lambda>_ st.
           (Ok (Inr ch), st))))
    | WrGuestReady p post \<Rightarrow>
        and_then (if table_index_kind (gp_ty p) = Future
          then put_transmit transmit_id (\<lambda>t. t\<lparr>ts_done := True\<rparr>) st else (Ok (), st)) (\<lambda>_ st.
        and_then (accept_writer c T (WriterGuest (gp_options p) (payload (cs_component (so_state st)) (gp_ty p))
            (gp_address p) (gp_count p)) buffer kind st) (\<lambda>(res, code, wb) st.
        and_then (if post = PwDrop then put_transmit transmit_id (\<lambda>t. t\<lparr>ts_write := WrDropped\<rparr>) st
          else (Ok (), st)) (\<lambda>_ st.
        and_then (on_state (transmit_set_event (ts_write_handle t) (write_event (gp_ty p) code
            (if post = PwDrop then None else Some (gp_handle p)))) st) (\<lambda>_ st.
        (Ok (Inl res), st)))))
    | WrHostReady w post \<Rightarrow>
        and_then (run_writer c w (ReaderHost buffer) st) (\<lambda>(code, rb) st.
        and_then (if post = PwDrop then put_transmit transmit_id (\<lambda>t. t\<lparr>ts_write := WrDropped\<rparr>) st
          else (Ok (), st)) (\<lambda>_ st.
        case rb of
          Some buffer \<Rightarrow> (Ok (Inl \<lparr>hres_buffer = buffer, hres_dropped = False\<rparr>), st)
        | None \<Rightarrow> (Panic ''unreachable'', st)))
    | WrDropped \<Rightarrow> (Ok (Inl \<lparr>hres_buffer = buffer, hres_dropped = True\<rparr>), st))"

definition host_read ::
    "canon \<Rightarrow> host_type \<Rightarrow> nat \<Rightarrow> host_val read_buffer \<Rightarrow> transmit_kind \<Rightarrow> store
     \<Rightarrow> (host_val read_buffer host_result + nat) in_store" where
  "host_read c T ident buffer kind st =
     and_then (get_transmit_handle ident (so_state st), st) (\<lambda>h st.
     and_then (get_transmit_state (th_state h) (so_state st), st) (\<lambda>t st.
     and_then (put_transmit (th_state h) (\<lambda>t. t\<lparr>ts_write := reopen_write (ts_write t)\<rparr>) st) (\<lambda>_ st.
     host_read_writer c T (th_state h) t buffer kind st)))"

text \<open>The events that tell an end that the other one is gone, by the kind of the transmit.\<close>

fun dropped_write_event :: "transmit_kind \<Rightarrow> event" where
  "dropped_write_event Future = FutureWrite (Dropped 0) None"
| "dropped_write_event Stream = StreamWrite (Dropped 0) None"

fun dropped_read_event :: "transmit_kind \<Rightarrow> event" where
  "dropped_read_event Future = FutureRead (Dropped 0) None"
| "dropped_read_event Stream = StreamRead (Dropped 0) None"

definition host_drop_reader :: "canon \<Rightarrow> nat \<Rightarrow> transmit_kind \<Rightarrow> store \<Rightarrow> unit in_store" where
  "host_drop_reader c ident kind st =
     and_then (get_transmit_handle ident (so_state st), st) (\<lambda>h st.
     and_then (get_transmit_state (th_state h) (so_state st), st) (\<lambda>t st.
     and_then (put_transmit (th_state h) (\<lambda>t. t\<lparr>ts_read := RdDropped, ts_reader_watcher := None,
        ts_write := reopen_write (ts_write t)\<rparr>) (wake_watcher (ts_reader_watcher t) st)) (\<lambda>_ st.
     case ts_write t of
       WrGuestReady p post \<Rightarrow>
         (if post = PwDrop then on_state (delete_transmit (th_state h)) st
          else on_state (update_event (ts_write_handle t) (write_event (gp_ty p) (Dropped 0) (Some (gp_handle p)))) st)
     | WrHostReady w post \<Rightarrow> and_then (run_writer c w ReaderEnd st) (\<lambda>_ st. (Ok (), st))
     | WrOpen \<Rightarrow> on_state (update_event (ts_write_handle t) (dropped_write_event kind)) st
     | WrDropped \<Rightarrow> on_state (delete_transmit (th_state h)) st)))"

text \<open>
  Closing the write end: a pending host write is to be the last, and a future that
  was never written gets the default, which is what calling \<open>default\<close> returns.
\<close>

definition drop_writer_state ::
    "canon \<Rightarrow> host_type \<Rightarrow> nat \<Rightarrow> nat \<Rightarrow> transmit_state \<Rightarrow> (conc_error, host_val) outcome option \<Rightarrow> store
     \<Rightarrow> unit in_store" where
  "drop_writer_state c T ident transmit_id t dflt st = (case ts_write t of
      WrGuestReady p post \<Rightarrow> (Panic ''can not call host_drop_writer on a guest-owned writer'', st)
    | WrHostReady w post \<Rightarrow> put_transmit transmit_id (\<lambda>t. t\<lparr>ts_write := WrHostReady w PwDrop\<rparr>) st
    | WrOpen \<Rightarrow>
        (if dflt \<noteq> None \<and> \<not> (ts_done t \<or> ts_read t = RdDropped)
         then and_then (the dflt, st) (\<lambda>v st.
           and_then (host_write c T ident (WbOption (Some v)) Future PwDrop st) (\<lambda>_ st. (Ok (), st)))
         else put_transmit transmit_id (\<lambda>t. t\<lparr>ts_write := WrDropped\<rparr>) st)
    | WrDropped \<Rightarrow> (Panic ''write state is already dropped'', st))"

definition host_drop_writer ::
    "canon \<Rightarrow> host_type \<Rightarrow> nat \<Rightarrow> (conc_error, host_val) outcome option \<Rightarrow> store \<Rightarrow> unit in_store" where
  "host_drop_writer c T ident dflt st =
     and_then (get_transmit_handle ident (so_state st), st) (\<lambda>h st.
     and_then (get_transmit_state (th_state h) (so_state st), st) (\<lambda>t st.
     and_then (put_transmit (th_state h) (\<lambda>t. t\<lparr>ts_writer_watcher := None\<rparr>)
        (wake_watcher (ts_writer_watcher t) st)) (\<lambda>_ st.
     and_then (drop_writer_state c T ident (th_state h) t dflt st) (\<lambda>_ st.
     and_then (get_transmit_state (th_state h) (so_state st), st) (\<lambda>t st.
     and_then (put_transmit (th_state h) (\<lambda>t. t\<lparr>ts_read := reopen_read (ts_read t)\<rparr>) st) (\<lambda>_ st.
     case ts_read t of
       RdGuestReady p \<Rightarrow>
         on_state (update_event (ts_read_handle t) (read_event (gp_ty p) (Dropped 0) (Some (gp_handle p)))) st
     | RdHostReady r \<Rightarrow> and_then (run_reader c r WriterEnd st) (\<lambda>_ st. (Ok (), st))
     | RdOpen \<Rightarrow> on_state (update_event (ts_read_handle t)
         (dropped_read_event (if dflt = None then Stream else Future))) st
     | RdDropped \<Rightarrow> on_state (delete_transmit (th_state h)) st))))))"

text \<open>One poll of the futures that wait for the other end to be dropped: \<open>True\<close> is \<open>Poll::Ready\<close>.\<close>

definition watch_reader_poll :: "nat \<Rightarrow> nat \<Rightarrow> concurrent_state \<Rightarrow> bool \<times> concurrent_state" where
  "watch_reader_poll ident waker s =
     (case and_then (get_transmit_handle ident s, s) (\<lambda>h s.
       and_then (get_transmit_state (th_state h) s, s) (\<lambda>t s.
       if ts_read t = RdDropped then (Ok True, s)
       else and_then (mut_transmit_state (th_state h) (\<lambda>t. t\<lparr>ts_reader_watcher := Some waker\<rparr>) s) (\<lambda>_ s.
         (Ok False, s)))) of
       (Ok ready, s) \<Rightarrow> (ready, s)
     | (_, s) \<Rightarrow> (True, s))"

fun write_is_dropped :: "write_state \<Rightarrow> bool" where
  "write_is_dropped WrDropped = True"
| "write_is_dropped (WrGuestReady p PwDrop) = True"
| "write_is_dropped (WrHostReady w PwDrop) = True"
| "write_is_dropped _ = False"

definition watch_writer_poll :: "nat \<Rightarrow> nat \<Rightarrow> concurrent_state \<Rightarrow> bool \<times> concurrent_state" where
  "watch_writer_poll ident waker s =
     (case and_then (get_transmit_handle ident s, s) (\<lambda>h s.
       and_then (get_transmit_state (th_state h) s, s) (\<lambda>t s.
       if write_is_dropped (ts_write t) then (Ok True, s)
       else and_then (mut_transmit_state (th_state h) (\<lambda>t. t\<lparr>ts_writer_watcher := Some waker\<rparr>) s) (\<lambda>_ s.
         (Ok False, s)))) of
       (Ok ready, s) \<Rightarrow> (ready, s)
     | (_, s) \<Rightarrow> (True, s))"


section \<open>Copying between guests\<close>

definition validate_inbounds_dynamic :: "nat \<Rightarrow> nat \<Rightarrow> 8 word list \<Rightarrow> nat \<Rightarrow> (conc_error, nat) outcome" where
  "validate_inbounds_dynamic align sz mem ptr =
     (if ptr mod align \<noteq> 0 then Err (Bail ''pointer not aligned'')
      else if ptr + sz > length mem then Err (Bail ''pointer out of bounds'')
      else Ok ptr)"

definition copy_future ::
    "canon \<Rightarrow> nat \<Rightarrow> options \<Rightarrow> nat \<Rightarrow> nat \<Rightarrow> options \<Rightarrow> nat \<Rightarrow> store \<Rightarrow> unit in_store" where
  "copy_future c write_ty write_options write_address read_ty read_options read_address st =
     (let types = cs_component (so_state st) in
      case future_payload types write_ty of
        None \<Rightarrow> (Ok (), st)
      | Some ty \<Rightarrow>
          (if write_address mod abi_align32 types ty \<noteq> 0 then (Err (Bail ''write pointer not aligned''), st)
           else and_then (options_memory write_options st, st) (\<lambda>mem st.
             and_then (ok_or (Bail ''write pointer out of bounds of memory'')
               (sub_slice write_address (abi_size32 types ty) mem), st) (\<lambda>bytes st.
             and_then (cn_load c write_options ty bytes st) (\<lambda>val st.
             case future_payload types read_ty of
               None \<Rightarrow> (Panic ''unwrap on None'', st)
             | Some ty \<Rightarrow>
                 and_then (options_memory read_options st, st) (\<lambda>mem st.
                 if read_address > u32_max then (Panic ''unwrap on Err'', st)
                 else and_then (validate_inbounds_dynamic (abi_align32 types ty) (abi_size32 types ty) mem read_address, st)
                   (\<lambda>ptr st. cn_store c read_options ty ptr val st)))))))"

text \<open>Items without pointers or handles are copied as bytes.\<close>

definition copy_flat :: "flat_abi \<Rightarrow> options \<Rightarrow> nat \<Rightarrow> options \<Rightarrow> nat \<Rightarrow> nat \<Rightarrow> store \<Rightarrow> unit in_store" where
  "copy_flat abi write_options write_address read_options read_address n st =
     (let len = fa_size abi * n in
      if len = 0 then (Ok (), st)
      else if write_address mod fa_align abi \<noteq> 0 then (Err (Bail ''write pointer not aligned''), st)
      else if read_address mod fa_align abi \<noteq> 0 then (Err (Bail ''read pointer not aligned''), st)
      else and_then (options_memory write_options st, st) (\<lambda>src st.
        and_then (ok_or (Bail ''write pointer out of bounds of memory'') (sub_slice write_address len src), st) (\<lambda>bytes st.
        and_then (options_memory read_options st, st) (\<lambda>dst st.
        if sub_slice read_address len dst = None
        then (Err (Bail ''read pointer out of bounds of memory''), st)
        else (Ok (), st\<lparr>so_memories := (so_memories st)
           (the (opt_memory read_options) := overwrite read_address bytes dst)\<rparr>)))))"

text \<open>The others are loaded one by one, then stored one by one.\<close>

fun load_items ::
    "canon \<Rightarrow> options \<Rightarrow> nat \<Rightarrow> nat \<Rightarrow> 8 word list \<Rightarrow> nat list \<Rightarrow> store \<Rightarrow> host_val list in_store" where
  "load_items c options ty sz bytes [] st = (Ok [], st)"
| "load_items c options ty sz bytes (i # indices) st =
     and_then (cn_load c options ty (take sz (drop (i * sz) bytes)) st) (\<lambda>v st.
     and_then (load_items c options ty sz bytes indices st) (\<lambda>vs st. (Ok (v # vs), st)))"

fun store_items :: "canon \<Rightarrow> options \<Rightarrow> nat \<Rightarrow> nat \<Rightarrow> nat \<Rightarrow> host_val list \<Rightarrow> store \<Rightarrow> unit in_store" where
  "store_items c options ty sz ptr [] st = (Ok (), st)"
| "store_items c options ty sz ptr (v # vs) st =
     and_then (cn_store c options ty ptr v st) (\<lambda>_ st. store_items c options ty sz (ptr + sz) vs st)"

definition copy_values ::
    "canon \<Rightarrow> nat \<Rightarrow> options \<Rightarrow> nat \<Rightarrow> nat \<Rightarrow> options \<Rightarrow> nat \<Rightarrow> nat \<Rightarrow> store \<Rightarrow> unit in_store" where
  "copy_values c write_ty write_options write_address read_ty read_options read_address n st =
     (let types = cs_component (so_state st) in
      case stream_payload types write_ty of
        None \<Rightarrow> (Panic ''unwrap on None'', st)
      | Some ty \<Rightarrow>
          (if write_address mod abi_align32 types ty \<noteq> 0 then (Err (Bail ''write pointer not aligned''), st)
           else and_then (options_memory write_options st, st) (\<lambda>mem st.
             and_then (ok_or (Bail ''write pointer out of bounds of memory'')
               (sub_slice write_address (abi_size32 types ty * n) mem), st) (\<lambda>bytes st.
             and_then (load_items c write_options ty (abi_size32 types ty) bytes [0..<n] st) (\<lambda>vals st.
             case stream_payload types read_ty of
               None \<Rightarrow> (Panic ''unwrap on None'', st)
             | Some ty \<Rightarrow>
                 (if read_address mod abi_align32 types ty \<noteq> 0 then (Err (Bail ''read pointer not aligned''), st)
                  else and_then (options_memory read_options st, st) (\<lambda>mem st.
                    if sub_slice read_address (abi_size32 types ty * n) mem = None
                    then (Err (Bail ''read pointer out of bounds of memory''), st)
                    else store_items c read_options ty (abi_size32 types ty) read_address vals st)))))))"

definition copy_items ::
    "canon \<Rightarrow> flat_abi option \<Rightarrow> table_index \<Rightarrow> options \<Rightarrow> nat \<Rightarrow> table_index \<Rightarrow> options \<Rightarrow> nat \<Rightarrow> nat
     \<Rightarrow> store \<Rightarrow> unit in_store" where
  "copy_items c flat write_ty write_options write_address read_ty read_options read_address n st =
     (case (write_ty, read_ty) of
        (FutureIndex wt, FutureIndex rt) \<Rightarrow>
          (if n \<noteq> 1 then (Panic ''assertion failed: count == 1'', st)
           else copy_future c wt write_options write_address rt read_options read_address st)
      | (StreamIndex wt, StreamIndex rt) \<Rightarrow>
          (case flat of
             Some abi \<Rightarrow> copy_flat abi write_options write_address read_options read_address n st
           | None \<Rightarrow> copy_values c wt write_options write_address rt read_options read_address n st)
      | _ \<Rightarrow> (Panic ''unreachable'', st))"


section \<open>Operations of the guest\<close>

definition set_guest_write :: "nat \<Rightarrow> guest_pending \<Rightarrow> concurrent_state \<Rightarrow> unit conc" where
  "set_guest_write transmit_id p s =
     and_then (get_transmit_state transmit_id s, s) (\<lambda>t s.
     if ts_write t \<noteq> WrOpen
     then (Panic ''assertion failed: matches!(&transmit.write, WriteState::Open)'', s)
     else discard (mut_transmit_state transmit_id (\<lambda>t. t\<lparr>ts_write := WrGuestReady p PwContinue\<rparr>) s))"

definition set_guest_read :: "nat \<Rightarrow> guest_pending \<Rightarrow> concurrent_state \<Rightarrow> unit conc" where
  "set_guest_read transmit_id p s =
     and_then (get_transmit_state transmit_id s, s) (\<lambda>t s.
     if ts_read t \<noteq> RdOpen
     then (Panic ''assertion failed: matches!(&transmit.read, ReadState::Open)'', s)
     else discard (mut_transmit_state transmit_id (\<lambda>t. t\<lparr>ts_read := RdGuestReady p\<rparr>) s))"

text \<open>The items transferred so far, when the event that tells so is undelivered.\<close>

fun read_total :: "event option \<Rightarrow> nat" where
  "read_total (Some (StreamRead (Completed n) p)) = n"
| "read_total _ = 0"

fun write_total :: "event option \<Rightarrow> nat" where
  "write_total (Some (StreamWrite (Completed n) p)) = n"
| "write_total _ = 0"

definition complete_event ::
    "nat \<Rightarrow> (event option \<Rightarrow> nat) \<Rightarrow> (return_code \<Rightarrow> event) \<Rightarrow> transmit_kind \<Rightarrow> nat \<Rightarrow> concurrent_state \<Rightarrow> unit conc" where
  "complete_event rep total_of event_of kind n s =
     and_then (if n \<le> u32_max then Ok () else Panic ''unwrap on Err'', s) (\<lambda>_ s.
     and_then (transmit_take_event rep s) (\<lambda>old s.
     case u32_checked_add n (total_of old) of
       None \<Rightarrow> (Panic ''attempt to add with overflow'', s)
     | Some tot \<Rightarrow> transmit_set_event rep (event_of (return_code_completed kind tot)) s))"

definition item_size :: "component \<Rightarrow> table_index \<Rightarrow> nat" where
  "item_size c ty = (case payload c ty of Some ty \<Rightarrow> abi_size32 c ty | None \<Rightarrow> 0)"

text \<open>A write that finds a guest waiting to read.\<close>

definition guest_write_guest ::
    "canon \<Rightarrow> nat \<Rightarrow> transmit_state \<Rightarrow> guest_pending \<Rightarrow> guest_pending \<Rightarrow> store \<Rightarrow> return_code in_store" where
  "guest_write_guest c transmit_id t w r st =
     (if gp_flat_abi w \<noteq> gp_flat_abi r then (Panic ''assertion failed: flat_abi == read_flat_abi'', st)
      else and_then (if table_index_kind (gp_ty w) = Future
          then put_transmit transmit_id (\<lambda>t. t\<lparr>ts_done := True\<rparr>) st else (Ok (), st)) (\<lambda>_ st.
        let write_complete = gp_count w = 0 \<or> gp_count r > 0;
            read_complete = gp_count w > 0;
            read_buffer_remaining = gp_count w < gp_count r;
            n = min (gp_count w) (gp_count r) in
        and_then (copy_items c (gp_flat_abi w) (gp_ty w) (gp_options w) (gp_address w)
            (gp_ty r) (gp_options r) (gp_address r) n st) (\<lambda>_ st.
        and_then (if read_complete
            then on_state (complete_event (ts_read_handle t) read_total
              (\<lambda>code. read_event (gp_ty r) code (Some (gp_handle r))) (table_index_kind (gp_ty w)) n) st
            else (Ok (), st)) (\<lambda>_ st.
        and_then (if read_buffer_remaining
            then put_transmit transmit_id (\<lambda>t. t\<lparr>ts_read := RdGuestReady
              (r\<lparr>gp_address := gp_address r + n * item_size (cs_component (so_state st)) (gp_ty w),
                 gp_count := gp_count r - n\<rparr>)\<rparr>) st
            else (Ok (), st)) (\<lambda>_ st.
        if write_complete then (count_code (table_index_kind (gp_ty w)) n, st)
        else and_then (on_state (set_guest_write transmit_id w) st) (\<lambda>_ st. (Ok Blocked, st)))))))"

definition guest_write_reader ::
    "canon \<Rightarrow> nat \<Rightarrow> transmit_state \<Rightarrow> guest_pending \<Rightarrow> store \<Rightarrow> return_code in_store" where
  "guest_write_reader c transmit_id t w st = (case ts_read t of
      RdGuestReady r \<Rightarrow> guest_write_guest c transmit_id t w r st
    | RdHostReady r \<Rightarrow>
        and_then (if table_index_kind (gp_ty w) = Future
          then put_transmit transmit_id (\<lambda>t. t\<lparr>ts_done := True\<rparr>) st else (Ok (), st)) (\<lambda>_ st.
        and_then (run_reader c r (WriterGuest (gp_options w) (payload (cs_component (so_state st)) (gp_ty w))
            (gp_address w) (gp_count w)) st) (\<lambda>(code, wb) st. (Ok code, st)))
    | RdOpen \<Rightarrow> and_then (on_state (set_guest_write transmit_id w) st) (\<lambda>_ st. (Ok Blocked, st))
    | RdDropped \<Rightarrow>
        and_then (if table_index_kind (gp_ty w) = Future
          then put_transmit transmit_id (\<lambda>t. t\<lparr>ts_done := True\<rparr>) st else (Ok (), st)) (\<lambda>_ st.
        (Ok (Dropped 0), st)))"

definition guest_write ::
    "canon \<Rightarrow> table_index \<Rightarrow> nat \<Rightarrow> flat_abi option \<Rightarrow> nat \<Rightarrow> nat \<Rightarrow> nat \<Rightarrow> store \<Rightarrow> return_code in_store" where
  "guest_write c ty options_index flat handle address n st =
     (let options = cn_options c options_index in
      if \<not> opt_async options then (Err (Bail ''synchronous stream and future writes not yet supported''), st)
      else and_then (get_by_index ty handle (so_state st), st) (\<lambda>(rep, state) st.
        case state of
          SfWrite True \<Rightarrow>
            (Err (Bail ''cannot write to stream after being notified that the readable end dropped''), st)
        | SfWrite False \<Rightarrow>
            and_then (on_state (put_by_index ty handle SfBusy) st) (\<lambda>_ st.
            and_then (get_transmit_handle rep (so_state st), st) (\<lambda>h st.
            and_then (get_transmit_state (th_state h) (so_state st), st) (\<lambda>t st.
            if ts_done t then
              (Err (Bail ''cannot write to future after previous write succeeded or readable end dropped''), st)
            else
              and_then (put_transmit (th_state h) (\<lambda>t. t\<lparr>ts_read := reopen_read (ts_read t)\<rparr>) st) (\<lambda>_ st.
              and_then (guest_write_reader c (th_state h) t \<lparr>gp_ty = ty, gp_flat_abi = flat, gp_options = options,
                  gp_address = address, gp_count = n, gp_handle = handle\<rparr> st) (\<lambda>result st.
              if result = Blocked then (Ok result, st)
              else and_then (on_state (put_by_index ty handle
                  (SfWrite (is_dropped result \<and> table_index_kind ty = Stream))) st) (\<lambda>_ st. (Ok result, st)))))))
        | _ \<Rightarrow> (Err (Bail ''invalid handle; expected Write''), st)))"

text \<open>A read that finds a guest waiting to write.\<close>

definition guest_read_guest ::
    "canon \<Rightarrow> nat \<Rightarrow> transmit_state \<Rightarrow> guest_pending \<Rightarrow> guest_pending \<Rightarrow> post_write \<Rightarrow> store \<Rightarrow> return_code in_store" where
  "guest_read_guest c transmit_id t r w post st =
     (if gp_flat_abi r \<noteq> gp_flat_abi w then (Panic ''assertion failed: flat_abi == write_flat_abi'', st)
      else and_then (if table_index_kind (gp_ty r) = Future
          then put_transmit transmit_id (\<lambda>t. t\<lparr>ts_done := True\<rparr>) st else (Ok (), st)) (\<lambda>_ st.
        let write_complete = gp_count w = 0 \<or> gp_count r > 0;
            read_complete = gp_count w > 0;
            write_buffer_remaining = gp_count r < gp_count w;
            n = min (gp_count r) (gp_count w) in
        and_then (copy_items c (gp_flat_abi r) (gp_ty w) (gp_options w) (gp_address w)
            (gp_ty r) (gp_options r) (gp_address r) n st) (\<lambda>_ st.
        and_then (if post = PwDrop then put_transmit transmit_id (\<lambda>t. t\<lparr>ts_write := WrDropped\<rparr>) st
            else (Ok (), st)) (\<lambda>_ st.
        and_then (if write_complete
            then on_state (complete_event (ts_write_handle t) write_total
              (\<lambda>code. write_event (gp_ty w) code (if post = PwDrop then None else Some (gp_handle w)))
              (table_index_kind (gp_ty r)) n) st
            else (Ok (), st)) (\<lambda>_ st.
        and_then (if write_buffer_remaining
            then put_transmit transmit_id (\<lambda>t. t\<lparr>ts_write := WrGuestReady
              (w\<lparr>gp_address := gp_address w + n * item_size (cs_component (so_state st)) (gp_ty r),
                 gp_count := gp_count w - n\<rparr>) post\<rparr>) st
            else (Ok (), st)) (\<lambda>_ st.
        if read_complete then (count_code (table_index_kind (gp_ty r)) n, st)
        else and_then (on_state (set_guest_read transmit_id r) st) (\<lambda>_ st. (Ok Blocked, st))))))))"

definition guest_read_writer ::
    "canon \<Rightarrow> nat \<Rightarrow> transmit_state \<Rightarrow> guest_pending \<Rightarrow> store \<Rightarrow> return_code in_store" where
  "guest_read_writer c transmit_id t r st = (case ts_write t of
      WrGuestReady w post \<Rightarrow> guest_read_guest c transmit_id t r w post st
    | WrHostReady w post \<Rightarrow>
        and_then (if table_index_kind (gp_ty r) = Future
          then put_transmit transmit_id (\<lambda>t. t\<lparr>ts_done := True\<rparr>) st else (Ok (), st)) (\<lambda>_ st.
        and_then (run_writer c w (ReaderGuest (gp_options r) (gp_ty r) (gp_address r) (gp_count r)) st) (\<lambda>(code, rb) st.
        and_then (if post = PwDrop then put_transmit transmit_id (\<lambda>t. t\<lparr>ts_write := WrDropped\<rparr>) st
            else (Ok (), st)) (\<lambda>_ st. (Ok code, st))))
    | WrOpen \<Rightarrow> and_then (on_state (set_guest_read transmit_id r) st) (\<lambda>_ st. (Ok Blocked, st))
    | WrDropped \<Rightarrow> (Ok (Dropped 0), st))"

definition guest_read ::
    "canon \<Rightarrow> table_index \<Rightarrow> nat \<Rightarrow> flat_abi option \<Rightarrow> nat \<Rightarrow> nat \<Rightarrow> nat \<Rightarrow> store \<Rightarrow> return_code in_store" where
  "guest_read c ty options_index flat handle address n st =
     (let options = cn_options c options_index in
      if \<not> opt_async options then (Err (Bail ''synchronous stream and future reads not yet supported''), st)
      else and_then (get_by_index ty handle (so_state st), st) (\<lambda>(rep, state) st.
        case state of
          SfRead True \<Rightarrow>
            (Err (Bail ''cannot read from stream after being notified that the writable end dropped''), st)
        | SfRead False \<Rightarrow>
            and_then (on_state (put_by_index ty handle SfBusy) st) (\<lambda>_ st.
            and_then (get_transmit_handle rep (so_state st), st) (\<lambda>h st.
            and_then (get_transmit_state (th_state h) (so_state st), st) (\<lambda>t st.
            if ts_done t then (Err (Bail ''cannot read from future after previous read succeeded''), st)
            else
              and_then (put_transmit (th_state h) (\<lambda>t. t\<lparr>ts_write := reopen_write (ts_write t)\<rparr>) st) (\<lambda>_ st.
              and_then (guest_read_writer c (th_state h) t \<lparr>gp_ty = ty, gp_flat_abi = flat, gp_options = options,
                  gp_address = address, gp_count = n, gp_handle = handle\<rparr> st) (\<lambda>result st.
              if result = Blocked then (Ok result, st)
              else and_then (on_state (put_by_index ty handle
                  (SfRead (is_dropped result \<and> table_index_kind ty = Stream))) st) (\<lambda>_ st. (Ok result, st)))))))
        | _ \<Rightarrow> (Err (Bail ''invalid handle; expected Read''), st)))"

text \<open>Dropping an end: the handle goes first, then its state is looked at.\<close>

fun drop_writable_check :: "stream_future_state \<Rightarrow> (conc_error, unit) outcome" where
  "drop_writable_check (SfWrite d) = Ok ()"
| "drop_writable_check (SfRead d) = Err (Bail ''passed read end to {stream|future}.drop-writable'')"
| "drop_writable_check SfBusy = Err (Bail ''cannot drop busy stream or future'')"

fun drop_readable_check :: "stream_future_state \<Rightarrow> (conc_error, unit) outcome" where
  "drop_readable_check (SfRead d) = Ok ()"
| "drop_readable_check (SfWrite d) = Err (Bail ''passed write end to {stream|future}.drop-readable'')"
| "drop_readable_check SfBusy = Err (Bail ''cannot drop busy stream or future'')"

definition unit_type :: host_type where
  "unit_type = \<lparr>ht_size32 = 0, ht_align32 = 1, ht_may_require_realloc = False, ht_is_unit = True\<rparr>"

definition remove_handle :: "table_index \<Rightarrow> nat \<Rightarrow> concurrent_state \<Rightarrow> (nat \<times> table_index \<times> stream_future_state) conc" where
  "remove_handle ty handle s =
     and_then (in_waitables (table_instance (cs_component s) ty) (st_remove_by_index handle) s) (\<lambda>entry s.
     (stream_or_future entry, s))"

definition guest_drop_writable :: "canon \<Rightarrow> table_index \<Rightarrow> nat \<Rightarrow> store \<Rightarrow> unit in_store" where
  "guest_drop_writable c ty handle st =
     and_then (on_state (remove_handle ty handle) st) (\<lambda>(rep, actual_ty, state) st.
     and_then (drop_writable_check state, st) (\<lambda>_ st.
     host_drop_writer c unit_type rep (case table_index_kind actual_ty of
         Stream \<Rightarrow> None
       | Future \<Rightarrow> Some (Err (Bail ''cannot drop future write end without first writing a value''))) st))"

definition guest_drop_readable :: "canon \<Rightarrow> table_index \<Rightarrow> nat \<Rightarrow> store \<Rightarrow> unit in_store" where
  "guest_drop_readable c ty handle st =
     and_then (on_state (remove_handle ty handle) st) (\<lambda>(rep, actual_ty, state) st.
     and_then (drop_readable_check state, st) (\<lambda>_ st.
     host_drop_reader c rep (table_index_kind actual_ty) st))"


section \<open>Intrinsics\<close>

definition encode_code :: "return_code in_store \<Rightarrow> 32 word in_store" where
  "encode_code m = and_then m (\<lambda>code st. (return_code_encode code, st))"

definition future_write :: "canon \<Rightarrow> nat \<Rightarrow> nat \<Rightarrow> nat \<Rightarrow> nat \<Rightarrow> store \<Rightarrow> 32 word in_store" where
  "future_write c ty options future address st =
     encode_code (guest_write c (FutureIndex ty) options None future address 1 st)"

definition future_read :: "canon \<Rightarrow> nat \<Rightarrow> nat \<Rightarrow> nat \<Rightarrow> nat \<Rightarrow> store \<Rightarrow> 32 word in_store" where
  "future_read c ty options future address st =
     encode_code (guest_read c (FutureIndex ty) options None future address 1 st)"

definition stream_write :: "canon \<Rightarrow> nat \<Rightarrow> nat \<Rightarrow> nat \<Rightarrow> nat \<Rightarrow> nat \<Rightarrow> store \<Rightarrow> 32 word in_store" where
  "stream_write c ty options stream address n st =
     encode_code (guest_write c (StreamIndex ty) options None stream address n st)"

definition stream_read :: "canon \<Rightarrow> nat \<Rightarrow> nat \<Rightarrow> nat \<Rightarrow> nat \<Rightarrow> nat \<Rightarrow> store \<Rightarrow> 32 word in_store" where
  "stream_read c ty options stream address n st =
     encode_code (guest_read c (StreamIndex ty) options None stream address n st)"

definition flat_stream_write ::
    "canon \<Rightarrow> nat \<Rightarrow> nat \<Rightarrow> nat \<Rightarrow> nat \<Rightarrow> nat \<Rightarrow> nat \<Rightarrow> nat \<Rightarrow> store \<Rightarrow> 32 word in_store" where
  "flat_stream_write c ty options payload_size payload_align stream address n st =
     encode_code (guest_write c (StreamIndex ty) options
       (Some \<lparr>fa_size = payload_size, fa_align = payload_align\<rparr>) stream address n st)"

definition flat_stream_read ::
    "canon \<Rightarrow> nat \<Rightarrow> nat \<Rightarrow> nat \<Rightarrow> nat \<Rightarrow> nat \<Rightarrow> nat \<Rightarrow> nat \<Rightarrow> store \<Rightarrow> 32 word in_store" where
  "flat_stream_read c ty options payload_size payload_align stream address n st =
     encode_code (guest_read c (StreamIndex ty) options
       (Some \<lparr>fa_size = payload_size, fa_align = payload_align\<rparr>) stream address n st)"

definition future_drop_writable :: "canon \<Rightarrow> nat \<Rightarrow> nat \<Rightarrow> store \<Rightarrow> unit in_store" where
  "future_drop_writable c ty = guest_drop_writable c (FutureIndex ty)"

definition stream_drop_writable :: "canon \<Rightarrow> nat \<Rightarrow> nat \<Rightarrow> store \<Rightarrow> unit in_store" where
  "stream_drop_writable c ty = guest_drop_writable c (StreamIndex ty)"

definition future_drop_readable :: "canon \<Rightarrow> nat \<Rightarrow> nat \<Rightarrow> store \<Rightarrow> unit in_store" where
  "future_drop_readable c ty = guest_drop_readable c (FutureIndex ty)"

definition stream_drop_readable :: "canon \<Rightarrow> nat \<Rightarrow> nat \<Rightarrow> store \<Rightarrow> unit in_store" where
  "stream_drop_readable c ty = guest_drop_readable c (StreamIndex ty)"

end
