(* ===== verification/Transmit_Inv.thy ===== *)
theory Transmit_Inv
  imports Transmit
begin

text \<open>
  What a state says of its streams and futures, and the invariant of them: a
  transmit and the handles of its two ends point at each other, and at most one
  end waits for the other.  The lemmas here are the rules by which the next theory
  walks through the operations: what creating, changing and deleting a transmit
  does to the invariant, and which steps leave every transmit as it is.
\<close>

section \<open>What the other parts of the state see of streams and futures\<close>

definition transmit_at :: "concurrent_state \<Rightarrow> nat \<Rightarrow> transmit_state option" where
  "transmit_at s k = Option.bind (obj_at s k) as_transmit_state"

definition handle_state :: "concurrent_state \<Rightarrow> nat \<Rightarrow> nat option" where
  "handle_state s k = map_option th_state (Option.bind (obj_at s k) as_transmit_handle)"

definition is_set :: "concurrent_state \<Rightarrow> nat \<Rightarrow> bool" where
  "is_set s k = (set_at s k \<noteq> None)"

lemmas transmit_views = transmit_at_def handle_state_def is_set_def set_at_def

lemma transmit_at_Some: "transmit_at s k = Some t \<longleftrightarrow> obj_at s k = Some (ObjTransmitState t)"
  by (auto simp: transmit_at_def bind_eq_Some_conv)

lemma handle_state_Some: "handle_state s k = Some i \<longleftrightarrow> (\<exists>c. obj_at s k = Some (ObjTransmitHandle \<lparr>th_common = c, th_state = i\<rparr>))"
  by (auto simp: handle_state_def bind_eq_Some_conv) (metis transmit_handle.cases transmit_handle.select_convs(2))

text \<open>A step that leaves all transmits as they are.\<close>

definition same_transmits :: "concurrent_state \<Rightarrow> concurrent_state \<Rightarrow> bool" where
  "same_transmits s s' \<longleftrightarrow> (table_inv (cs_table s) \<longrightarrow> table_inv (cs_table s')) \<and>
     transmit_at s' = transmit_at s \<and> handle_state s' = handle_state s \<and> parent_at s' = parent_at s \<and>
     is_set s' = is_set s \<and> cs_component s' = cs_component s"

lemma same_transmits_refl [simp]: "same_transmits s s"
  by (simp add: same_transmits_def)

lemma same_transmits_trans: "same_transmits s t \<Longrightarrow> same_transmits t u \<Longrightarrow> same_transmits s u"
  by (simp add: same_transmits_def)

lemma same_transmits_table:
  assumes "cs_table s' = cs_table s" and "cs_component s' = cs_component s"
  shows "same_transmits s s'"
proof -
  have o: "obj_at s' = obj_at s" "parent_at s' = parent_at s" using assms(1) by (simp_all add: obj_at_def parent_at_def)
  show ?thesis using assms by (simp add: same_transmits_def transmit_views o fun_eq_iff)
qed

lemma same_and_then:
  assumes "same_transmits s (snd m)" and "\<And>x u. m = (Ok x, u) \<Longrightarrow> same_transmits u (snd (k x u))"
  shows "same_transmits s (snd (and_then m k))"
proof (cases m)
  case (Pair r u)
  then show ?thesis using assms same_transmits_trans [of s u] by (cases r) auto
qed

lemma same_pure [simp]: "same_transmits s (snd (r, s))" by simp

lemma same_discard [simp]: "same_transmits s (snd (discard m)) = same_transmits s (snd m)"
  by simp

text \<open>Replacing an object by one of the same kind that is not a transmit state.\<close>

fun same_kind :: "obj \<Rightarrow> obj \<Rightarrow> bool" where
  "same_kind (ObjHostTask x) (ObjHostTask y) = True"
| "same_kind (ObjGuestTask x) (ObjGuestTask y) = True"
| "same_kind (ObjTransmitHandle x) (ObjTransmitHandle y) = (th_state y = th_state x)"
| "same_kind (ObjWaitableSet x) (ObjWaitableSet y) = True"
| "same_kind (ObjErrorContext x) (ObjErrorContext y) = True"
| "same_kind _ _ = False"

lemma same_put:
  assumes "obj_at s k = Some x" and "same_kind x y"
  shows "same_transmits s (cs_put k y s)"
  using assms by (cases x; cases y) (auto simp: same_transmits_def transmit_views fun_eq_iff)

lemma same_mut:
  assumes "\<And>x y. down x = Some y \<Longrightarrow> x = up y" and "\<And>y. same_kind (up y) (up (f y))"
  shows "same_transmits s (snd (cs_get_mut down up k f s))"
proof (cases "cs_get down k s")
  case (Ok y)
  then obtain x where "obj_at s k = Some x" "down x = Some y" by (auto simp: cs_get_Ok)
  with assms(1) have "obj_at s k = Some (up y)" by blast
  with Ok assms(2) show ?thesis by (simp add: cs_get_mut_eq same_put)
qed (simp_all add: cs_get_mut_eq)

lemmas same_muts [simp] =
  same_mut [of as_waitable_set ObjWaitableSet, simplified]
  same_mut [of as_guest_task ObjGuestTask, simplified]
  same_mut [of as_host_task ObjHostTask, simplified]

lemma same_mut_handle: "(\<And>h. th_state (f h) = th_state h) \<Longrightarrow> same_transmits s (snd (mut_transmit_handle k f s))"
  by (rule same_mut) auto

lemma same_common_mut [simp]: "same_transmits s (snd (common_mut w f s))"
  by (cases w) (simp_all add: same_mut_handle)

lemma same_push [simp]: "same_transmits s (push_high_priority item s)" "same_transmits s (push_low_priority item s)"
  by (simp_all add: same_transmits_table push_high_priority_def push_low_priority_def)

lemma same_in_waitables [simp]: "same_transmits s (snd (in_waitables i f s))"
  by (rule same_transmits_table) (auto simp: in_waitables_def split: option.splits prod.splits)

lemma same_mark_ready [simp]: "same_transmits s (snd (mark_ready w s))"
  unfolding mark_ready_def
  by (rule same_and_then, simp)
     (auto intro!: same_and_then split: option.splits list.splits)

lemma same_set_event [simp]: "same_transmits s (snd (set_event w e s))"
  unfolding set_event_def by (intro same_and_then) simp_all

lemma same_take_event [simp]: "same_transmits s (snd (take_event w s))"
  unfolding take_event_def by (intro same_and_then) (auto intro!: same_and_then split: option.splits)

lemma same_update_event [simp]: "same_transmits s (snd (update_event w e s))"
  unfolding update_event_def transmit_take_event_def transmit_set_event_def
  by (intro same_and_then) simp_all


section \<open>The invariant of streams and futures\<close>

text \<open>
  No two operations are pending at once: an end waits only while the other end is
  idle, and a guest's write is never marked to be the last.
\<close>

fun write_pending :: "write_state \<Rightarrow> bool" where
  "write_pending (WrGuestReady p post) = True"
| "write_pending (WrHostReady w post) = True"
| "write_pending _ = False"

fun read_pending :: "read_state \<Rightarrow> bool" where
  "read_pending (RdGuestReady p) = True"
| "read_pending (RdHostReady r) = True"
| "read_pending _ = False"

definition ends_ok :: "transmit_state \<Rightarrow> bool" where
  "ends_ok t \<longleftrightarrow> (write_pending (ts_write t) \<longrightarrow> ts_read t = RdOpen) \<and>
     (read_pending (ts_read t) \<longrightarrow> ts_write t = WrOpen) \<and>
     (\<forall>p. ts_write t \<noteq> WrGuestReady p PwDrop)"

text \<open>A state and the handles of its two ends point at each other.\<close>

definition linked :: "(nat \<Rightarrow> transmit_state option) \<Rightarrow> (nat \<Rightarrow> nat option) \<Rightarrow> bool" where
  "linked T H \<longleftrightarrow>
     (\<forall>k t. T k = Some t \<longrightarrow> H (ts_write_handle t) = Some k \<and> H (ts_read_handle t) = Some k \<and>
        ts_write_handle t \<noteq> ts_read_handle t) \<and>
     (\<forall>h k. H h = Some k \<longrightarrow> (\<exists>t. T k = Some t \<and> (h = ts_write_handle t \<or> h = ts_read_handle t)))"

definition transmit_inv :: "concurrent_state \<Rightarrow> bool" where
  "transmit_inv s \<longleftrightarrow> table_inv (cs_table s) \<and> (\<forall>c p. parent_at s c = Some p \<longrightarrow> is_set s p) \<and>
     linked (transmit_at s) (handle_state s) \<and> (\<forall>k t. transmit_at s k = Some t \<longrightarrow> ends_ok t)"

lemma linkedD:
  assumes "linked T H" and "T k = Some t"
  shows "H (ts_write_handle t) = Some k" "H (ts_read_handle t) = Some k" "ts_write_handle t \<noteq> ts_read_handle t"
  using assms by (auto simp: linked_def)

lemma linked_handle:
  assumes "linked T H" and "H h = Some k"
  obtains t where "T k = Some t" "h = ts_write_handle t \<or> h = ts_read_handle t"
proof -
  from assms have "\<exists>t. T k = Some t \<and> (h = ts_write_handle t \<or> h = ts_read_handle t)" by (simp add: linked_def)
  then show thesis using that by blast
qed

lemma linked_put:
  assumes "linked T H" and "T k = Some t"
    and "ts_write_handle t' = ts_write_handle t" "ts_read_handle t' = ts_read_handle t"
  shows "linked (T(k \<mapsto> t')) H"
  unfolding linked_def
proof (intro conjI allI impI)
  fix j u assume u: "(T(k \<mapsto> t')) j = Some u"
  from linkedD [OF assms(1,2)] linkedD [OF assms(1), of j u] u assms(3,4)
  show "H (ts_write_handle u) = Some j" "H (ts_read_handle u) = Some j" "ts_write_handle u \<noteq> ts_read_handle u"
    by (auto split: if_splits)
next
  fix h j assume "H h = Some j"
  then obtain u where "T j = Some u" "h = ts_write_handle u \<or> h = ts_read_handle u"
    using linked_handle [OF assms(1)] by blast
  then show "\<exists>u. (T(k \<mapsto> t')) j = Some u \<and> (h = ts_write_handle u \<or> h = ts_read_handle u)"
    using assms(2-4) by (cases "j = k") auto
qed

lemma transmit_invD:
  assumes "transmit_inv s"
  shows "table_inv (cs_table s)" "parent_at s c = Some p \<Longrightarrow> is_set s p" "linked (transmit_at s) (handle_state s)"
    "transmit_at s k = Some t \<Longrightarrow> ends_ok t"
  using assms by (auto simp: transmit_inv_def)

lemma transmit_inv_same: "transmit_inv s \<Longrightarrow> same_transmits s s' \<Longrightarrow> transmit_inv s'"
  by (simp add: transmit_inv_def same_transmits_def)

lemma same_transmits_at: "same_transmits s s' \<Longrightarrow> transmit_at s' = transmit_at s"
  by (simp add: same_transmits_def)

lemma transmit_put:
  assumes k: "transmit_at s k = Some t"
  shows "transmit_at (cs_put k (ObjTransmitState t') s) = (transmit_at s)(k \<mapsto> t')"
    and "handle_state (cs_put k (ObjTransmitState t') s) = handle_state s"
    and "is_set (cs_put k (ObjTransmitState t') s) = is_set s"
    and "parent_at (cs_put k (ObjTransmitState t') s) = parent_at s"
proof -
  have "obj_at s k = Some (ObjTransmitState t)" using k by (simp add: transmit_at_Some)
  then show "transmit_at (cs_put k (ObjTransmitState t') s) = (transmit_at s)(k \<mapsto> t')"
    and "handle_state (cs_put k (ObjTransmitState t') s) = handle_state s"
    and "is_set (cs_put k (ObjTransmitState t') s) = is_set s"
    and "parent_at (cs_put k (ObjTransmitState t') s) = parent_at s"
    by (auto simp: transmit_views fun_eq_iff)
qed

lemma transmit_inv_put:
  assumes inv: "transmit_inv s" and k: "transmit_at s k = Some t"
    and "ts_write_handle t' = ts_write_handle t" "ts_read_handle t' = ts_read_handle t" "ends_ok t'"
  shows "transmit_inv (cs_put k (ObjTransmitState t') s)"
proof -
  have "linked ((transmit_at s)(k \<mapsto> t')) (handle_state s)"
    using transmit_invD(3) [OF inv] k assms(3,4) by (rule linked_put)
  with transmit_invD [OF inv] assms(5) show ?thesis
    by (auto simp: transmit_inv_def transmit_put [OF k])
qed

text \<open>Creation and deletion.\<close>

lemma transmit_inv_not_parent:
  assumes "transmit_inv s" and "obj_at s k = Some x" and "as_waitable_set x = None"
  shows "\<forall>c. parent_at s c \<noteq> Some k"
proof (intro allI notI)
  fix c assume "parent_at s c = Some k"
  from transmit_invD(2) [OF assms(1) this] assms(2,3) show False by (simp add: is_set_def set_at_def)
qed

lemma only_table_trans:
  "t = s\<lparr>cs_table := cs_table t\<rparr> \<Longrightarrow> u = t\<lparr>cs_table := cs_table u\<rparr> \<Longrightarrow> u = s\<lparr>cs_table := cs_table u\<rparr>"
  for s t u :: concurrent_state
  by (cases s; cases t; cases u) simp

lemma only_table_put: "cs_put k x s = s\<lparr>cs_table := cs_table (cs_put k x s)\<rparr>"
  by (simp add: cs_put_def)

lemma delete_transmit_spec:
  assumes inv: "transmit_inv s" and k: "transmit_at s k = Some t"
  obtains s' where "delete_transmit k s = (Ok (), s')" "transmit_inv s'"
    "obj_at s' = (obj_at s)(k := None, ts_write_handle t := None, ts_read_handle t := None)"
    "s' = s\<lparr>cs_table := cs_table s'\<rparr>"
proof -
  let ?w = "ts_write_handle t" and ?r = "ts_read_handle t"
  note L = linkedD [OF transmit_invD(3) [OF inv] k]
  obtain hw hr where o: "obj_at s k = Some (ObjTransmitState t)" "obj_at s ?w = Some (ObjTransmitHandle hw)"
      "obj_at s ?r = Some (ObjTransmitHandle hr)"
    using k L(1,2) by (auto simp: transmit_at_Some handle_state_Some)
  then have d: "k \<noteq> ?w" "k \<noteq> ?r" "?w \<noteq> ?r" using L(3) by auto
  note np = transmit_inv_not_parent [OF inv o(1)] transmit_inv_not_parent [OF inv o(2)] transmit_inv_not_parent [OF inv o(3)]
  obtain s1 where s1: "cs_delete as_transmit_state k s = (Ok t, s1)" "s1 = s\<lparr>cs_table := cs_table s1\<rparr>"
      "obj_at s1 = (obj_at s)(k := None)" "parent_at s1 = (parent_at s)(k := None)" "table_inv (cs_table s1)"
    by (rule cs_delete_live [OF transmit_invD(1) [OF inv] o(1), of as_transmit_state]) (use np in auto)
  obtain s2 where s2: "cs_delete as_transmit_handle ?w s1 = (Ok hw, s2)" "s2 = s1\<lparr>cs_table := cs_table s2\<rparr>"
      "obj_at s2 = (obj_at s1)(?w := None)" "parent_at s2 = (parent_at s1)(?w := None)" "table_inv (cs_table s2)"
    by (rule cs_delete_live [OF s1(5), of ?w "ObjTransmitHandle hw" as_transmit_handle]) (use np o d s1(3,4) in auto)
  obtain s3 where s3: "cs_delete as_transmit_handle ?r s2 = (Ok hr, s3)" "s3 = s2\<lparr>cs_table := cs_table s3\<rparr>"
      "obj_at s3 = (obj_at s2)(?r := None)" "parent_at s3 = (parent_at s2)(?r := None)" "table_inv (cs_table s3)"
    by (rule cs_delete_live [OF s2(5), of ?r "ObjTransmitHandle hr" as_transmit_handle]) (use np o d s1(3,4) s2(3,4) in auto)
  have obj: "obj_at s3 = (obj_at s)(k := None, ?w := None, ?r := None)" using s1(3) s2(3) s3(3) by simp
  have par: "parent_at s3 = (parent_at s)(k := None, ?w := None, ?r := None)" using s1(4) s2(4) s3(4) by simp
  have "transmit_inv s3" unfolding transmit_inv_def
  proof (intro conjI allI impI)
    show "table_inv (cs_table s3)" by (rule s3(5))
    show "is_set s3 p" if "parent_at s3 c = Some p" for c p
    proof -
      from that par have "parent_at s c = Some p" by (auto split: if_splits)
      from transmit_invD(2) [OF inv this] have "is_set s p" .
      moreover have "p \<noteq> k" "p \<noteq> ?w" "p \<noteq> ?r" using calculation o by (auto simp: is_set_def set_at_def)
      ultimately show ?thesis by (simp add: is_set_def set_at_def obj)
    qed
    have T: "transmit_at s3 j = Some u \<longleftrightarrow> j \<noteq> k \<and> transmit_at s j = Some u" for j u
      using o d by (auto simp: transmit_at_Some obj)
    have H: "handle_state s3 h = Some j \<longleftrightarrow> h \<noteq> ?w \<and> h \<noteq> ?r \<and> handle_state s h = Some j" for h j
      using o d by (auto simp: handle_state_Some obj)
    show "ends_ok u" if "transmit_at s3 j = Some u" for j u
      using that transmit_invD(4) [OF inv, of j u] by (simp add: T)
    show "linked (transmit_at s3) (handle_state s3)" unfolding linked_def
    proof (intro conjI allI impI)
      fix j u assume "transmit_at s3 j = Some u"
      then have j: "j \<noteq> k" "transmit_at s j = Some u" by (simp_all add: T)
      note M = linkedD [OF transmit_invD(3) [OF inv] j(2)]
      have "ts_write_handle u \<noteq> ?w" "ts_write_handle u \<noteq> ?r" "ts_read_handle u \<noteq> ?w" "ts_read_handle u \<noteq> ?r"
        using M(1,2) L(1,2) j(1) by auto
      then show "handle_state s3 (ts_write_handle u) = Some j" "handle_state s3 (ts_read_handle u) = Some j"
        "ts_write_handle u \<noteq> ts_read_handle u" using M by (simp_all add: H)
    next
      fix h j assume "handle_state s3 h = Some j"
      then have h: "h \<noteq> ?w" "h \<noteq> ?r" "handle_state s h = Some j" by (simp_all add: H)
      from linked_handle [OF transmit_invD(3) [OF inv] h(3)] obtain u where
        u: "transmit_at s j = Some u" "h = ts_write_handle u \<or> h = ts_read_handle u" by blast
      have "j \<noteq> k" using u h(1,2) k by auto
      with u show "\<exists>u. transmit_at s3 j = Some u \<and> (h = ts_write_handle u \<or> h = ts_read_handle u)" by (auto simp: T)
    qed
  qed
  moreover have "s3 = s\<lparr>cs_table := cs_table s3\<rparr>" by (rule only_table_trans [OF only_table_trans [OF s1(2) s2(2)] s3(2)])
  ultimately show thesis using s1(1) s2(1) s3(1) obj by (intro that [of s3]) (simp_all add: delete_transmit_def)
qed

lemma new_transmit_spec:
  assumes inv: "transmit_inv s" and new: "new_transmit s = (Ok (w, r), s')"
  obtains k where "transmit_inv s'" "s' = s\<lparr>cs_table := cs_table s'\<rparr>" "parent_at s' = parent_at s"
    "obj_at s k = None" "obj_at s w = None" "obj_at s r = None" "w \<noteq> r" "k \<noteq> w" "k \<noteq> r"
    "obj_at s' = (obj_at s)(k \<mapsto> ObjTransmitState (transmit_state_default\<lparr>ts_write_handle := w, ts_read_handle := r\<rparr>),
       w \<mapsto> ObjTransmitHandle (transmit_handle_new k), r \<mapsto> ObjTransmitHandle (transmit_handle_new k))"
proof -
  let ?t = "transmit_state_default\<lparr>ts_write_handle := w, ts_read_handle := r\<rparr>"
  from new obtain k s1 s2 s3 where
    a: "cs_push (ObjTransmitState transmit_state_default) s = (Ok k, s1)"
    and b: "cs_push (ObjTransmitHandle (transmit_handle_new k)) s1 = (Ok w, s2)"
    and c: "cs_push (ObjTransmitHandle (transmit_handle_new k)) s2 = (Ok r, s3)"
    and d: "discard (mut_transmit_state k (\<lambda>t. t\<lparr>ts_write_handle := w, ts_read_handle := r\<rparr>) s3) = (Ok (), s')"
    by (auto simp: new_transmit_def discard_def elim!: and_then_OkE)
  have s1: "s1 = s\<lparr>cs_table := cs_table s1\<rparr>" "obj_at s k = None" "obj_at s1 = (obj_at s)(k \<mapsto> ObjTransmitState transmit_state_default)"
      "parent_at s k = None" "parent_at s1 = parent_at s" "table_inv (cs_table s1)"
    by (rule cs_push_cases [OF transmit_invD(1) [OF inv], of "ObjTransmitState transmit_state_default"]; use a in simp)+
  have s2: "s2 = s1\<lparr>cs_table := cs_table s2\<rparr>" "obj_at s1 w = None" "obj_at s2 = (obj_at s1)(w \<mapsto> ObjTransmitHandle (transmit_handle_new k))"
      "parent_at s1 w = None" "parent_at s2 = parent_at s1" "table_inv (cs_table s2)"
    by (rule cs_push_cases [OF s1(6), of "ObjTransmitHandle (transmit_handle_new k)"]; use b in simp)+
  have s3: "s3 = s2\<lparr>cs_table := cs_table s3\<rparr>" "obj_at s2 r = None" "obj_at s3 = (obj_at s2)(r \<mapsto> ObjTransmitHandle (transmit_handle_new k))"
      "parent_at s2 r = None" "parent_at s3 = parent_at s2" "table_inv (cs_table s3)"
    by (rule cs_push_cases [OF s2(6), of "ObjTransmitHandle (transmit_handle_new k)"]; use c in simp)+
  have ne: "w \<noteq> k" "r \<noteq> k" "r \<noteq> w" "obj_at s w = None" "obj_at s r = None"
    using s1(3) s2(2,3) s3(2) by (auto split: if_splits)
  have o3: "obj_at s3 k = Some (ObjTransmitState transmit_state_default)" using s1(3) s2(3) s3(3) ne by simp
  then have s': "s' = cs_put k (ObjTransmitState ?t) s3" using d by (simp add: discard_def)
  have obj: "obj_at s' = (obj_at s)(k \<mapsto> ObjTransmitState ?t,
       w \<mapsto> ObjTransmitHandle (transmit_handle_new k), r \<mapsto> ObjTransmitHandle (transmit_handle_new k))"
    using o3 s1(3) s2(3) s3(3) ne by (auto simp: s' fun_eq_iff)
  have par: "parent_at s' = parent_at s" using o3 s1(5) s2(5) s3(5) by (simp add: s')
  have T: "transmit_at s' = (transmit_at s)(k \<mapsto> ?t)"
    using s1(2) ne by (auto simp: transmit_at_def obj fun_eq_iff)
  have H: "handle_state s' = (handle_state s)(w \<mapsto> k, r \<mapsto> k)"
    using s1(2) ne by (auto simp: handle_state_def obj fun_eq_iff transmit_handle_new_def)
  have none: "transmit_at s k = None" "handle_state s w = None" "handle_state s r = None"
    using s1(2) ne by (simp_all add: transmit_at_def handle_state_def)
  have "transmit_inv s'" unfolding transmit_inv_def
  proof (intro conjI allI impI)
    show "table_inv (cs_table s')" using s3(6) by (simp add: s')
    show "is_set s' p" if "parent_at s' c = Some p" for c p
      using transmit_invD(2) [OF inv, of c p] that par s1(2) ne by (auto simp: is_set_def set_at_def obj)
    show "ends_ok u" if "transmit_at s' j = Some u" for j u
      using that T transmit_invD(4) [OF inv, of j u] by (auto simp: ends_ok_def transmit_state_default_def split: if_splits)
    show "linked (transmit_at s') (handle_state s')" unfolding linked_def
    proof (intro conjI allI impI)
      fix j u assume "transmit_at s' j = Some u"
      with T linkedD [OF transmit_invD(3) [OF inv], of j u] none ne
      show "handle_state s' (ts_write_handle u) = Some j" "handle_state s' (ts_read_handle u) = Some j"
        "ts_write_handle u \<noteq> ts_read_handle u" by (auto simp: H split: if_splits)
    next
      fix h j assume h: "handle_state s' h = Some j"
      show "\<exists>u. transmit_at s' j = Some u \<and> (h = ts_write_handle u \<or> h = ts_read_handle u)"
      proof (cases "h = w \<or> h = r")
        case True
        with h H ne T show ?thesis by (auto split: if_splits)
      next
        case False
        with h H have "handle_state s h = Some j" by simp
        from linked_handle [OF transmit_invD(3) [OF inv] this] obtain u where
          "transmit_at s j = Some u" "h = ts_write_handle u \<or> h = ts_read_handle u" by blast
        with none T show ?thesis by (intro exI [of _ u]) auto
      qed
    qed
  qed
  moreover have "s' = s\<lparr>cs_table := cs_table s'\<rparr>"
    unfolding s' by (rule only_table_trans [OF only_table_trans [OF only_table_trans [OF s1(1) s2(1)] s3(1)] only_table_put])
  ultimately show thesis using par s1(2) ne obj by (intro that [of k]) auto
qed


section \<open>Steps that keep the invariant\<close>

text \<open>
  Lifting and lowering values may change the memories and the handle tables, and
  may count references, but not the table of tasks, sets and transmits.
\<close>

definition keeps_table :: "store \<Rightarrow> store \<Rightarrow> bool" where
  "keeps_table st st' \<longleftrightarrow> cs_table (so_state st') = cs_table (so_state st) \<and>
     cs_component (so_state st') = cs_component (so_state st)"

definition canon_keeps :: "canon \<Rightarrow> bool" where
  "canon_keeps c \<longleftrightarrow>
     (\<forall>opts ty bytes st. keeps_table st (snd (cn_load c opts ty bytes st))) \<and>
     (\<forall>opts ty ptr v st. keeps_table st (snd (cn_store c opts ty ptr v st))) \<and>
     (\<forall>T opts ty address vs st. keeps_table st (snd (cn_lower_list c T opts ty address vs st))) \<and>
     (\<forall>T opts ty address n st. keeps_table st (snd (cn_lift_list c T opts ty address n st)))"

abbreviation inv_store :: "store \<Rightarrow> bool" where
  "inv_store st \<equiv> transmit_inv (so_state st)"

definition holds :: "nat \<Rightarrow> transmit_state \<Rightarrow> store \<Rightarrow> bool" where
  "holds k t st \<longleftrightarrow> inv_store st \<and> transmit_at (so_state st) k = Some t"

lemma holds_inv: "holds k t st \<Longrightarrow> inv_store st"
  by (simp add: holds_def)

lemma holds_ends: "holds k t st \<Longrightarrow> ends_ok t"
  using transmit_invD(4) by (auto simp: holds_def)

lemma holds_same: "holds k t st \<Longrightarrow> same_transmits (so_state st) (so_state st') \<Longrightarrow> holds k t st'"
  using transmit_inv_same same_transmits_at by (auto simp: holds_def)

lemma keeps_table_same: "keeps_table st st' \<Longrightarrow> same_transmits (so_state st) (so_state st')"
  by (simp add: keeps_table_def same_transmits_table)

lemma keeps_refl [simp]: "keeps_table st st"
  by (simp add: keeps_table_def)

lemma keeps_then:
  assumes "keeps_table st (snd m)" and "\<And>x u. m = (Ok x, u) \<Longrightarrow> keeps_table u (snd (k x u))"
  shows "keeps_table st (snd (and_then m k))"
proof (cases m)
  case (Pair r u)
  then show ?thesis using assms by (cases r) (auto simp: keeps_table_def)
qed

lemma holds_keeps: "holds k t st \<Longrightarrow> keeps_table st st' \<Longrightarrow> holds k t st'"
  using holds_same keeps_table_same by blast

lemma canon_keepsD:
  assumes "canon_keeps c"
  shows "keeps_table st (snd (cn_load c opts ty bytes st))" "keeps_table st (snd (cn_store c opts ty ptr v st))"
    "keeps_table st (snd (cn_lower_list c T opts ty address vs st))"
    "keeps_table st (snd (cn_lift_list c T opts ty address n st))"
  using assms by (simp_all add: canon_keeps_def)

lemma keeps_channel [simp]: "keeps_table st (channel_send ch m st)" "keeps_table st (wake_watcher w st)"
  "keeps_table st (snd (new_channel st))"
  "keeps_table st (st\<lparr>so_memories := m'\<rparr>)"
  by (simp_all add: keeps_table_def channel_send_def wake_watcher_def new_channel_def split: option.splits)

text \<open>Copying keeps the table, whatever way the items take.\<close>

lemma keeps_load_items: "canon_keeps c \<Longrightarrow> keeps_table st (snd (load_items c opts ty sz bytes is st))"
  by (induction c opts ty sz bytes "is" st rule: load_items.induct) (auto intro!: keeps_then canon_keepsD)

lemma keeps_store_items: "canon_keeps c \<Longrightarrow> keeps_table st (snd (store_items c opts ty sz ptr vs st))"
  by (induction c opts ty sz ptr vs st rule: store_items.induct) (auto intro!: keeps_then canon_keepsD)

lemma keeps_copy_flat: "keeps_table st (snd (copy_flat abi wo wa ro ra n st))"
  unfolding copy_flat_def Let_def by (auto intro!: keeps_then)

lemma keeps_copy_future: "canon_keeps c \<Longrightarrow> keeps_table st (snd (copy_future c wt wo wa rt ro ra st))"
  unfolding copy_future_def Let_def by (auto intro!: keeps_then canon_keepsD split: option.splits)

lemma keeps_copy_values: "canon_keeps c \<Longrightarrow> keeps_table st (snd (copy_values c wt wo wa rt ro ra n st))"
  unfolding copy_values_def Let_def
  by (auto intro!: keeps_then keeps_load_items keeps_store_items split: option.splits)

lemma keeps_copy: "canon_keeps c \<Longrightarrow> keeps_table st (snd (copy_items c flat wt wo wa rt ro ra n st))"
  unfolding copy_items_def
  by (auto simp: keeps_copy_flat keeps_copy_future keeps_copy_values split: table_index.splits option.splits)

lemma keeps_accept_reader: "canon_keeps c \<Longrightarrow> keeps_table st (snd (accept_reader c T reader buffer kind st))"
  unfolding accept_reader_def Let_def
  by (auto intro!: keeps_then canon_keepsD split: reader.splits option.splits outcome.splits prod.splits)

lemma keeps_accept_writer: "canon_keeps c \<Longrightarrow> keeps_table st (snd (accept_writer c T writer buffer kind st))"
  unfolding accept_writer_def lift_items_def Let_def
  by (auto intro!: keeps_then canon_keepsD split: writer.splits option.splits outcome.splits prod.splits)

lemma keeps_run_writer: "canon_keeps c \<Longrightarrow> keeps_table st (snd (run_writer c w reader st))"
  unfolding run_writer_def by (auto intro!: keeps_then keeps_accept_reader)

lemma keeps_run_reader: "canon_keeps c \<Longrightarrow> keeps_table st (snd (run_reader c r writer st))"
  unfolding run_reader_def by (auto intro!: keeps_then keeps_accept_writer)

text \<open>Rules for the steps of an operation on the transmit \<open>k\<close>.\<close>

lemma keeps_step:
  assumes "holds k t st" and "keeps_table st (snd m)" and "\<And>x u. m = (Ok x, u) \<Longrightarrow> holds k t u \<Longrightarrow> inv_store (snd (K x u))"
  shows "inv_store (snd (and_then m K))"
proof (cases m)
  case (Pair r u)
  with assms holds_keeps [OF assms(1)] have "holds k t u" by simp
  with Pair assms(3) holds_inv show ?thesis by (cases r) auto
qed

lemma on_state_step:
  assumes "holds k t st" and "same_transmits (so_state st) (snd (f (so_state st)))"
    and "\<And>x u. holds k t u \<Longrightarrow> inv_store (snd (K x u))"
  shows "inv_store (snd (and_then (on_state f st) K))"
proof -
  obtain r u where e: "on_state f st = (r, u)" by fastforce
  then have "so_state u = snd (f (so_state st))" by (auto simp: on_state_def split: prod.splits)
  with assms(2) holds_same [OF assms(1)] have "holds k t u" by simp
  with e assms(3) holds_inv show ?thesis by (cases r) auto
qed

lemma put_transmit_at:
  assumes "transmit_at (so_state st) k = Some t"
  shows "put_transmit k f st = (Ok (), st\<lparr>so_state := cs_put k (ObjTransmitState (f t)) (so_state st)\<rparr>)"
  using assms by (simp add: put_transmit_def on_state_def discard_def transmit_at_Some)

lemma put_step:
  assumes h: "holds k t st" and f: "ts_write_handle (f t) = ts_write_handle t" "ts_read_handle (f t) = ts_read_handle t" "ends_ok (f t)"
    and K: "\<And>u. holds k (f t) u \<Longrightarrow> inv_store (snd (K () u))"
  shows "inv_store (snd (and_then (put_transmit k f st) K))"
proof -
  from h have t: "transmit_at (so_state st) k = Some t" and i: "inv_store st" by (auto simp: holds_def)
  have "holds k (f t) (st\<lparr>so_state := cs_put k (ObjTransmitState (f t)) (so_state st)\<rparr>)"
    using transmit_inv_put [OF i t f] transmit_put(1) [OF t] by (simp add: holds_def)
  from K [OF this] show ?thesis by (simp add: put_transmit_at [OF t])
qed

lemma put_last:
  assumes h: "holds k t st" and f: "ts_write_handle (f t) = ts_write_handle t" "ts_read_handle (f t) = ts_read_handle t" "ends_ok (f t)"
  shows "inv_store (snd (put_transmit k f st))"
  using h transmit_inv_put [OF _ _ f, of "so_state st" k] by (simp add: put_transmit_at [of st k t] holds_def)

lemma event_last: "inv_store st \<Longrightarrow> same_transmits (so_state st) (snd (f (so_state st))) \<Longrightarrow> inv_store (snd (on_state f st))"
  using transmit_inv_same by (auto simp: on_state_def split: prod.splits)

lemma delete_last: "holds k t st \<Longrightarrow> inv_store (snd (on_state (delete_transmit k) st))"
  by (rule delete_transmit_spec [of "so_state st" k t]) (auto simp: holds_def on_state_def)

lemma get_transmit_step:
  assumes "inv_store st" and "\<And>h t. handle_state (so_state st) ident = Some (th_state h) \<Longrightarrow> holds (th_state h) t st \<Longrightarrow> inv_store (snd (K h t st))"
  shows "inv_store (snd (and_then (get_transmit_handle ident (so_state st), st) (\<lambda>h st.
     and_then (get_transmit_state (th_state h) (so_state st), st) (K h))))"
proof (cases "get_transmit_handle ident (so_state st)")
  case (Ok h)
  then have o: "obj_at (so_state st) ident = Some (ObjTransmitHandle h)" by (auto simp: cs_get_Ok)
  then have hs: "handle_state (so_state st) ident = Some (th_state h)" by (simp add: handle_state_def)
  from linked_handle [OF transmit_invD(3) [OF assms(1)] hs] obtain t where t: "transmit_at (so_state st) (th_state h) = Some t" by blast
  then have "holds (th_state h) t st" using assms(1) by (simp add: holds_def)
  with assms(2) [OF hs this] t Ok show ?thesis by (simp add: transmit_at_Some)
qed (use assms(1) in simp_all)

end
