(* ===== verification/Transmit_Steps.thy ===== *)
theory Transmit_Steps
  imports Transmit_Inv
begin

text \<open>
  Every operation on streams and futures keeps the invariant, whether it returns
  normally, fails or panics half way; hence it holds in every store that can be
  reached.
\<close>

lemma inv_step:
  assumes "inv_store (snd m)" and "\<And>x u. m = (Ok x, u) \<Longrightarrow> inv_store u \<Longrightarrow> inv_store (snd (K x u))"
  shows "inv_store (snd (and_then m K))"
proof (cases m)
  case (Pair r u)
  with assms show ?thesis by (cases r) auto
qed

lemma pure_step:
  assumes "inv_store st" and "\<And>x. m = Ok x \<Longrightarrow> inv_store (snd (K x st))"
  shows "inv_store (snd (and_then (m, st) K))"
  using assms by (cases m) auto

lemma same_put_by_index [simp]: "same_transmits s (snd (put_by_index ty handle x s))"
  unfolding put_by_index_def by (rule same_and_then) simp_all

lemma same_complete_event [simp]: "same_transmits s (snd (complete_event rep total_of event_of kind n s))"
  unfolding complete_event_def transmit_take_event_def transmit_set_event_def
  by (auto intro!: same_and_then split: option.splits)

lemma same_transmit_set_event [simp]: "same_transmits s (snd (transmit_set_event rep e s))"
  by (simp add: transmit_set_event_def)

text \<open>A step that may set \<open>done\<close>, or may not.\<close>

lemma if_put_step:
  assumes h: "holds k t st" and f: "ts_write_handle (f t) = ts_write_handle t" "ts_read_handle (f t) = ts_read_handle t"
    "b \<Longrightarrow> ends_ok (f t)"
    and K: "\<And>u. holds k (if b then f t else t) u \<Longrightarrow> inv_store (snd (K () u))"
  shows "inv_store (snd (and_then (if b then put_transmit k f st else (Ok (), st)) K))"
proof (cases b)
  case True
  then show ?thesis using put_step [OF h, of f K] f K by simp
next
  case False
  then show ?thesis using K h by simp
qed

lemma if_event_step:
  assumes h: "holds k t st" and f: "same_transmits (so_state st) (snd (f (so_state st)))"
    and K: "\<And>u. holds k t u \<Longrightarrow> inv_store (snd (K () u))"
  shows "inv_store (snd (and_then (if b then on_state f st else (Ok (), st)) K))"
  using on_state_step [OF h, of f K] f K h by (cases b) simp_all

lemma set_guest_write_last:
  assumes h: "holds k t st" and "ts_write t = WrOpen \<Longrightarrow> ts_read t = RdOpen"
  shows "inv_store (snd (and_then (on_state (set_guest_write k w) st) (\<lambda>_ st. (Ok Blocked, st))))"
proof -
  have o: "obj_at (so_state st) k = Some (ObjTransmitState t)" using h by (simp add: holds_def transmit_at_Some)
  have "inv_store (snd (put_transmit k (\<lambda>t. t\<lparr>ts_write := WrGuestReady w PwContinue\<rparr>) st))" if "ts_write t = WrOpen"
    using that assms holds_ends [OF h] by (intro put_last [OF h]) (simp_all add: ends_ok_def)
  then show ?thesis using o holds_inv [OF h]
    by (auto simp: set_guest_write_def on_state_def put_transmit_def discard_def)
qed

lemma set_guest_read_last:
  assumes h: "holds k t st" and "ts_read t = RdOpen \<Longrightarrow> ts_write t = WrOpen"
  shows "inv_store (snd (and_then (on_state (set_guest_read k w) st) (\<lambda>_ st. (Ok Blocked, st))))"
proof -
  have o: "obj_at (so_state st) k = Some (ObjTransmitState t)" using h by (simp add: holds_def transmit_at_Some)
  have "inv_store (snd (put_transmit k (\<lambda>t. t\<lparr>ts_read := RdGuestReady w\<rparr>) st))" if "ts_read t = RdOpen"
    using that assms holds_ends [OF h] by (intro put_last [OF h]) (simp_all add: ends_ok_def)
  then show ?thesis using o holds_inv [OF h]
    by (auto simp: set_guest_read_def on_state_def put_transmit_def discard_def)
qed

lemma guest_write_guest_inv:
  assumes c: "canon_keeps c" and h: "holds k t' st" and t': "ts_write t' = WrOpen" "ts_read t' = RdOpen"
  shows "inv_store (snd (guest_write_guest c k t w r st))"
proof (cases "gp_flat_abi w = gp_flat_abi r")
  case True
  show ?thesis
  proof (simp only: guest_write_guest_def Let_def True simp_thms if_False, rule if_put_step [OF h], goal_cases)
    case (4 u)
    let ?t = "if table_index_kind (gp_ty w) = Future then t'\<lparr>ts_done := True\<rparr> else t'"
    have t: "ts_write ?t = WrOpen" "ts_read ?t = RdOpen" using t' by simp_all
    show ?case
    proof (rule keeps_step [OF 4 keeps_copy [OF c]], rule if_event_step, assumption, simp, rule if_put_step, assumption, goal_cases)
      case (4 x u v y)
      then show ?case
        using t holds_inv [OF 4(4)] by (cases "gp_count w = 0 \<or> 0 < gp_count r") (auto intro!: set_guest_write_last [OF 4(4)])
    qed (use t in \<open>simp_all add: ends_ok_def\<close>)
  qed (use t' in \<open>simp_all add: ends_ok_def\<close>)
next
  case False
  then show ?thesis using holds_inv [OF h] by (simp add: guest_write_guest_def)
qed


text \<open>What taking over a pending operation of the other end leaves.\<close>

lemma reopen_simps [simp]: "reopen_read r = RdDropped \<longleftrightarrow> r = RdDropped" "r \<noteq> RdDropped \<Longrightarrow> reopen_read r = RdOpen"
  "reopen_write w = WrDropped \<longleftrightarrow> w = WrDropped" "w \<noteq> WrDropped \<Longrightarrow> reopen_write w = WrOpen"
  by (cases r; simp)+ (cases w; simp)+

lemma not_pending_reopen [simp]: "\<not> read_pending (reopen_read r)" "\<not> write_pending (reopen_write w)" "reopen_write w \<noteq> WrGuestReady p post"
  by (cases r; simp) (cases w; simp)+

lemma ends_reopen_read: "ends_ok t \<Longrightarrow> ends_ok (t\<lparr>ts_read := reopen_read (ts_read t)\<rparr>)"
  by (cases "ts_read t") (auto simp: ends_ok_def)

lemma ends_reopen_write: "ends_ok t \<Longrightarrow> ends_ok (t\<lparr>ts_write := reopen_write (ts_write t)\<rparr>)"
  by (cases "ts_write t") (auto simp: ends_ok_def)

lemma ends_done [simp]: "ends_ok (t\<lparr>ts_done := d\<rparr>) = ends_ok t"
  by (simp add: ends_ok_def)

lemma guest_write_reader_inv:
  assumes c: "canon_keeps c" and t: "ends_ok t" and h: "holds k (t\<lparr>ts_read := reopen_read (ts_read t)\<rparr>) st"
  shows "inv_store (snd (guest_write_reader c k t w st))"
proof (cases "ts_read t")
  case (RdGuestReady r)
  with t h show ?thesis
    by (auto simp: guest_write_reader_def ends_ok_def intro!: guest_write_guest_inv [OF c])
next
  case (RdHostReady r)
  show ?thesis
  proof (simp only: guest_write_reader_def RdHostReady read_state.case, rule if_put_step [OF h], goal_cases)
    case (4 u)
    show ?case by (rule keeps_step [OF 4 keeps_run_reader [OF c]]) (auto dest: holds_inv)
  qed (use holds_ends [OF h] in simp_all)
next
  case RdOpen
  then show ?thesis using h set_guest_write_last [OF h, of w] by (simp add: guest_write_reader_def)
next
  case RdDropped
  show ?thesis
    by (simp only: guest_write_reader_def RdDropped read_state.case, rule if_put_step [OF h])
       (use holds_ends [OF h] holds_inv in auto)
qed

lemma guest_write_inv:
  assumes c: "canon_keeps c" and inv: "inv_store st"
  shows "inv_store (snd (guest_write c ty oi flat handle address n st))"
proof -
  have p: "inv_store (snd (on_state (put_by_index ty handle x) u))" if "inv_store u" for u x
    using that by (intro event_last) simp_all
  show ?thesis
  proof (cases "opt_async (cn_options c oi)")
    case True
    show ?thesis
    proof (simp only: guest_write_def Let_def True simp_thms if_False, rule pure_step [OF inv], goal_cases)
      case (1 x)
      obtain rep state where x: "x = (rep, state)" by fastforce
      show ?case
      proof (cases "state = SfWrite False")
        case True
        show ?thesis
        proof (simp only: x True prod.case stream_future_state.case bool.case, rule inv_step [OF p [OF inv]],
            rule get_transmit_step, assumption, goal_cases)
          case (1 x u h t)
          note e = holds_ends [OF 1(4)]
          show ?case
          proof (cases "ts_done t")
            case False
            show ?thesis
            proof (simp only: False if_False, rule put_step [OF 1(4)], goal_cases)
              case (4 v)
              show ?case
                by (rule inv_step [OF guest_write_reader_inv [OF c e 4]]) (auto intro!: inv_step p)
            qed (use e ends_reopen_read in simp_all)
          qed (use 1 in simp)
        qed
      qed (use inv x in \<open>auto split: stream_future_state.splits bool.splits\<close>)
    qed
  qed (use inv in \<open>simp add: guest_write_def\<close>)
qed


lemma guest_read_guest_inv:
  assumes c: "canon_keeps c" and h: "holds k t' st" and t': "ts_write t' = WrOpen" "ts_read t' = RdOpen"
  shows "inv_store (snd (guest_read_guest c k t r w PwContinue st))"
proof (cases "gp_flat_abi r = gp_flat_abi w")
  case True
  show ?thesis
  proof (simp only: guest_read_guest_def Let_def True simp_thms if_False post_write.distinct and_then_simps,
      rule if_put_step [OF h], goal_cases)
    case (4 u)
    let ?t = "if table_index_kind (gp_ty r) = Future then t'\<lparr>ts_done := True\<rparr> else t'"
    have t: "ts_write ?t = WrOpen" "ts_read ?t = RdOpen" using t' by simp_all
    show ?case
    proof (rule keeps_step [OF 4 keeps_copy [OF c]], rule if_event_step, assumption, simp, rule if_put_step, assumption, goal_cases)
      case (4 x u v y)
      then show ?case
        using t holds_inv [OF 4(4)] by (cases "0 < gp_count w") (auto intro!: set_guest_read_last [OF 4(4)])
    qed (use t in \<open>simp_all add: ends_ok_def\<close>)
  qed (use t' in \<open>simp_all add: ends_ok_def\<close>)
next
  case False
  then show ?thesis using holds_inv [OF h] by (simp add: guest_read_guest_def)
qed

lemma guest_read_writer_inv:
  assumes c: "canon_keeps c" and t: "ends_ok t" and h: "holds k (t\<lparr>ts_write := reopen_write (ts_write t)\<rparr>) st"
  shows "inv_store (snd (guest_read_writer c k t r st))"
proof (cases "ts_write t")
  case (WrGuestReady w post)
  with t have "post = PwContinue" by (cases post) (auto simp: ends_ok_def)
  with t h WrGuestReady show ?thesis
    by (auto simp: guest_read_writer_def ends_ok_def intro!: guest_read_guest_inv [OF c])
next
  case (WrHostReady w post)
  show ?thesis
  proof (simp only: guest_read_writer_def WrHostReady write_state.case, rule if_put_step [OF h], goal_cases)
    case (4 u)
    let ?b = "table_index_kind (gp_ty r) = Future"
    let ?t = "if ?b then t\<lparr>ts_write := reopen_write (WrHostReady w post), ts_done := True\<rparr>
      else t\<lparr>ts_write := reopen_write (WrHostReady w post)\<rparr>"
    have "ts_read t = RdOpen" using t WrHostReady by (simp add: ends_ok_def)
    then have t2: "ends_ok (?t\<lparr>ts_write := WrDropped\<rparr>)" by (simp add: ends_ok_def)
    show ?case
    proof (rule keeps_step [OF 4 keeps_run_writer [OF c]], goal_cases)
      case (1 x v)
      obtain code rb where x: "x = (code, rb)" by fastforce
      show ?case
      proof (simp only: x prod.case, rule if_put_step [OF 1(2)], goal_cases)
        case 3
        show ?case using t2 WrHostReady by (simp cong: if_cong)
      qed (simp_all add: holds_inv)
    qed
  qed (use holds_ends [OF h] WrHostReady in simp_all)
next
  case WrOpen
  then show ?thesis using h set_guest_read_last [OF h, of r] by (simp add: guest_read_writer_def)
next
  case WrDropped
  then show ?thesis using holds_inv [OF h] by (simp add: guest_read_writer_def)
qed

lemma guest_read_inv:
  assumes c: "canon_keeps c" and inv: "inv_store st"
  shows "inv_store (snd (guest_read c ty oi flat handle address n st))"
proof -
  have p: "inv_store (snd (on_state (put_by_index ty handle x) u))" if "inv_store u" for u x
    using that by (intro event_last) simp_all
  show ?thesis
  proof (cases "opt_async (cn_options c oi)")
    case True
    show ?thesis
    proof (simp only: guest_read_def Let_def True simp_thms if_False, rule pure_step [OF inv], goal_cases)
      case (1 x)
      obtain rep state where x: "x = (rep, state)" by fastforce
      show ?case
      proof (cases "state = SfRead False")
        case True
        show ?thesis
        proof (simp only: x True prod.case stream_future_state.case bool.case, rule inv_step [OF p [OF inv]],
            rule get_transmit_step, assumption, goal_cases)
          case (1 x u h t)
          note e = holds_ends [OF 1(4)]
          show ?case
          proof (cases "ts_done t")
            case False
            show ?thesis
            proof (simp only: False if_False, rule put_step [OF 1(4)], goal_cases)
              case (4 v)
              show ?case
                by (rule inv_step [OF guest_read_writer_inv [OF c e 4]]) (auto intro!: inv_step p)
            qed (use e ends_reopen_write in simp_all)
          qed (use 1 in simp)
        qed
      qed (use inv x in \<open>auto split: stream_future_state.splits bool.splits\<close>)
    qed
  qed (use inv in \<open>simp add: guest_read_def\<close>)
qed


lemma keeps_inv: "inv_store st \<Longrightarrow> keeps_table st st' \<Longrightarrow> inv_store st'"
  using transmit_inv_same keeps_table_same by blast

lemma accept_guest_read_inv:
  assumes c: "canon_keeps c" and inv: "inv_store st"
  shows "inv_store (snd (accept_guest_read c T p read_handle buffer kind st))"
proof (simp only: accept_guest_read_def, rule inv_step [OF keeps_inv [OF inv keeps_accept_reader [OF c]]], goal_cases)
  case (1 x u)
  then show ?case by (cases x) (auto intro!: inv_step event_last)
qed

lemma run_accept_reader_inv:
  assumes c: "canon_keeps c" and inv: "inv_store st"
  shows "inv_store (snd (run_accept_reader c w p read_handle st))"
  unfolding run_accept_reader_def
  by (rule inv_step [OF accept_guest_read_inv [OF c inv]]) (auto intro: keeps_inv)

lemma host_write_reader_inv:
  assumes c: "canon_keeps c" and h: "holds k (t\<lparr>ts_read := reopen_read (ts_read t)\<rparr>) st"
  shows "inv_store (snd (host_write_reader c T k t buffer kind post st))"
proof (cases "ts_read t")
  case RdOpen
  have i: "holds k (t\<lparr>ts_read := RdOpen\<rparr>) (st\<lparr>so_channels := so_channels st + 1\<rparr>)"
    using holds_keeps [OF h, of "snd (new_channel st)"] RdOpen by (simp add: new_channel_def keeps_table_def)
  show ?thesis
  proof (cases "ts_write t = WrOpen")
    case True
    show ?thesis
      by (simp only: host_write_reader_def RdOpen True read_state.case new_channel_def Let_def prod.case simp_thms if_False, rule put_step [OF i])
         (use True in \<open>simp_all add: ends_ok_def holds_inv\<close>)
  qed (use RdOpen holds_inv [OF h] in \<open>simp add: host_write_reader_def\<close>)
next
  case (RdGuestReady p)
  show ?thesis
  proof (simp only: host_write_reader_def RdGuestReady read_state.case, rule if_put_step [OF h], goal_cases)
    case (4 u)
    have "inv_store (u\<lparr>so_channels := n, so_state := push_high_priority item (so_state u)\<rparr>)" for n item
      using transmit_inv_same [OF holds_inv [OF 4]] by simp
    then show ?case using accept_guest_read_inv [OF c holds_inv [OF 4]]
      by (auto simp: new_channel_def Let_def intro!: inv_step)
  qed (use holds_ends [OF h] in simp_all)
next
  case (RdHostReady r)
  show ?thesis
    by (simp only: host_write_reader_def RdHostReady read_state.case, rule inv_step [OF keeps_inv [OF holds_inv [OF h] keeps_run_reader [OF c]]])
       (auto split: return_code.splits option.splits)
next
  case RdDropped
  then show ?thesis using holds_inv [OF h] by (simp add: host_write_reader_def)
qed

lemma host_write_inv:
  assumes c: "canon_keeps c" and inv: "inv_store st"
  shows "inv_store (snd (host_write c T ident buffer kind post st))"
proof (simp only: host_write_def Let_def, rule get_transmit_step [OF inv], goal_cases)
  case (1 h t)
  let ?t = "if post = PwDrop \<and> ts_read t \<noteq> RdOpen then t\<lparr>ts_write := WrDropped\<rparr> else t"
  have e: "ends_ok (?t\<lparr>ts_read := reopen_read (ts_read ?t)\<rparr>)"
    using holds_ends [OF 1(2)] ends_reopen_read [of t] by (auto simp: ends_ok_def)
  show ?case
    by (rule put_step [OF 1(2)]) (use e host_write_reader_inv [OF c] in auto)
qed

lemma host_read_writer_inv:
  assumes c: "canon_keeps c" and e: "ends_ok t" and h: "holds k (t\<lparr>ts_write := reopen_write (ts_write t)\<rparr>) st"
  shows "inv_store (snd (host_read_writer c T k t buffer kind st))"
proof (cases "ts_write t")
  case WrOpen
  have i: "holds k (t\<lparr>ts_write := WrOpen\<rparr>) (st\<lparr>so_channels := so_channels st + 1\<rparr>)"
    using holds_keeps [OF h, of "snd (new_channel st)"] WrOpen by (simp add: new_channel_def keeps_table_def)
  show ?thesis
  proof (cases "ts_read t = RdOpen")
    case True
    show ?thesis
      by (simp only: host_read_writer_def WrOpen True write_state.case new_channel_def Let_def prod.case simp_thms if_False, rule put_step [OF i])
         (use True in \<open>simp_all add: ends_ok_def holds_inv\<close>)
  qed (use WrOpen holds_inv [OF h] in \<open>simp add: host_read_writer_def\<close>)
next
  case (WrGuestReady p post)
  with e have post: "post = PwContinue" by (cases post) (auto simp: ends_ok_def)
  show ?thesis
  proof (simp only: host_read_writer_def WrGuestReady post write_state.case post_write.distinct if_False and_then_simps,
      rule if_put_step [OF h], goal_cases)
    case (4 u)
    show ?case
      by (rule inv_step [OF keeps_inv [OF holds_inv [OF 4] keeps_accept_writer [OF c]]]) (auto intro!: inv_step event_last)
  qed (use holds_ends [OF h] in simp_all)
next
  case (WrHostReady w post)
  have t: "ts_read t = RdOpen" using e WrHostReady by (simp add: ends_ok_def)
  show ?thesis
  proof (simp only: host_read_writer_def WrHostReady write_state.case, rule keeps_step [OF h keeps_run_writer [OF c]], goal_cases)
    case (1 x u)
    obtain code rb where x: "x = (code, rb)" by fastforce
    show ?case
      by (simp only: x prod.case, rule if_put_step [OF 1(2)])
         (use t in \<open>auto simp: ends_ok_def holds_inv split: option.splits\<close>)
  qed
next
  case WrDropped
  then show ?thesis using holds_inv [OF h] by (simp add: host_read_writer_def)
qed

lemma host_read_inv:
  assumes c: "canon_keeps c" and inv: "inv_store st"
  shows "inv_store (snd (host_read c T ident buffer kind st))"
proof (simp only: host_read_def, rule get_transmit_step [OF inv], goal_cases)
  case (1 h t)
  show ?case
    by (rule put_step [OF 1(2)]) (use ends_reopen_write holds_ends [OF 1(2)] host_read_writer_inv [OF c] in auto)
qed

lemma host_drop_reader_inv:
  assumes c: "canon_keeps c" and inv: "inv_store st"
  shows "inv_store (snd (host_drop_reader c ident kind st))"
proof (simp only: host_drop_reader_def, rule get_transmit_step [OF inv], goal_cases)
  case (1 h t)
  have w: "holds (th_state h) t (wake_watcher (ts_reader_watcher t) st)" using holds_keeps [OF 1(2)] by simp
  show ?case
  proof (rule put_step [OF w], goal_cases)
    case (4 u)
    show ?case
    proof (cases "ts_write t")
      case (WrHostReady w post)
      then show ?thesis
        using keeps_inv [OF holds_inv [OF 4] keeps_run_writer [OF c]] by (auto intro!: inv_step)
    qed (use delete_last [OF 4] holds_inv [OF 4] in \<open>auto intro!: event_last\<close>)
  qed (simp_all add: ends_ok_def)
qed


lemma cs_put_put [simp]: "cs_put k y (cs_put k x s) = cs_put k y s"
  by (cases "table_occ (cs_table s) k") (simp_all add: cs_put_def)

lemma get_state_step:
  assumes "inv_store st" and "\<And>t. holds k t st \<Longrightarrow> inv_store (snd (K t st))"
  shows "inv_store (snd (and_then (get_transmit_state k (so_state st), st) K))"
proof (rule pure_step [OF assms(1)], rule assms(2))
  fix t assume "get_transmit_state k (so_state st) = Ok t"
  then show "holds k t st" using assms(1) by (auto simp: holds_def cs_get_Ok transmit_at_Some)
qed

text \<open>The end of \<open>host_drop_writer\<close>, which tells the reader.\<close>

definition tell_reader :: "canon \<Rightarrow> (conc_error, host_val) outcome option \<Rightarrow> nat \<Rightarrow> transmit_state \<Rightarrow> store \<Rightarrow> unit in_store" where
  "tell_reader c dflt k t st = (case ts_read t of
       RdGuestReady p \<Rightarrow>
         on_state (update_event (ts_read_handle t) (read_event (gp_ty p) (Dropped 0) (Some (gp_handle p)))) st
     | RdHostReady r \<Rightarrow> and_then (run_reader c r WriterEnd st) (\<lambda>_ st. (Ok (), st))
     | RdOpen \<Rightarrow> on_state (update_event (ts_read_handle t)
         (dropped_read_event (if dflt = None then Stream else Future))) st
     | RdDropped \<Rightarrow> on_state (delete_transmit k) st)"

lemma tell_reader_inv: "canon_keeps c \<Longrightarrow> holds k u st \<Longrightarrow> inv_store (snd (tell_reader c dflt k t st))"
  by (auto simp: tell_reader_def intro!: delete_last inv_step event_last keeps_inv [OF _ keeps_run_reader]
      dest: holds_inv split: read_state.splits)

lemma drop_writer_state_inv:
  assumes c: "canon_keeps c" and h: "holds k (t\<lparr>ts_writer_watcher := x\<rparr>) st"
    and d: "ts_write t = WrOpen \<Longrightarrow> dflt \<noteq> None \<and> \<not> (ts_done t \<or> ts_read t = RdDropped)"
  shows "inv_store (snd (drop_writer_state c T ident k t dflt st))"
proof (cases "ts_write t")
  case (WrHostReady w post)
  then show ?thesis using holds_ends [OF h] put_last [OF h, of "\<lambda>t. t\<lparr>ts_write := WrHostReady w PwDrop\<rparr>"]
    by (auto simp: drop_writer_state_def ends_ok_def)
next
  case WrOpen
  show ?thesis
    by (simp only: drop_writer_state_def WrOpen write_state.case d [OF WrOpen] simp_thms if_True, rule pure_step [OF holds_inv [OF h]],
        rule inv_step [OF host_write_inv [OF c holds_inv [OF h]]]) simp
qed (use holds_inv [OF h] in \<open>simp_all add: drop_writer_state_def\<close>)

lemma host_drop_writer_inv:
  assumes c: "canon_keeps c" and inv: "inv_store st"
  shows "inv_store (snd (host_drop_writer c T ident dflt st))"
proof (simp only: host_drop_writer_def tell_reader_def [symmetric], rule get_transmit_step [OF inv], goal_cases)
  case (1 h t)
  let ?k = "th_state h" and ?rest = "\<lambda>t st. and_then (put_transmit (th_state h) (\<lambda>t. t\<lparr>ts_read := reopen_read (ts_read t)\<rparr>) st)
     (\<lambda>_. tell_reader c dflt (th_state h) t)"
  have w: "holds ?k t (wake_watcher (ts_writer_watcher t) st)" using holds_keeps [OF 1(2)] by simp
  show ?case
  proof (rule put_step [OF w], goal_cases)
    case (4 u)
    let ?t = "t\<lparr>ts_writer_watcher := None\<rparr>"
    show ?case
    proof (cases "ts_write t = WrOpen \<and> \<not> (dflt \<noteq> None \<and> \<not> (ts_done t \<or> ts_read t = RdDropped))")
      case True
      let ?t2 = "?t\<lparr>ts_write := WrDropped\<rparr>" and ?t3 = "?t\<lparr>ts_write := WrDropped, ts_read := reopen_read (ts_read t)\<rparr>"
      have o: "transmit_at (so_state u) ?k = Some ?t" and i: "inv_store u" using 4 by (auto simp: holds_def)
      have u3: "holds ?k ?t3 (u\<lparr>so_state := cs_put ?k (ObjTransmitState ?t3) (so_state u)\<rparr>)"
        using transmit_inv_put [OF i o, of ?t3] transmit_put(1) [OF o] by (simp add: holds_def ends_ok_def)
      have p: "transmit_at (cs_put ?k (ObjTransmitState ?t2) (so_state u)) ?k = Some ?t2"
        using transmit_put(1) [OF o] by simp
      have "drop_writer_state c T ident ?k t dflt u = (Ok (), u\<lparr>so_state := cs_put ?k (ObjTransmitState ?t2) (so_state u)\<rparr>)"
        using True by (auto simp: drop_writer_state_def put_transmit_at [OF o])
      then show ?thesis using p tell_reader_inv [OF c u3, of dflt ?t2]
        by (simp add: transmit_at_Some [THEN iffD1, OF p] put_transmit_at)
    next
      case False
      show ?thesis
        by (rule inv_step [OF drop_writer_state_inv [OF c 4]], use False in blast, rule get_state_step, assumption,
            rule put_step, assumption) (auto simp: ends_reopen_read holds_ends intro: tell_reader_inv [OF c])
    qed
  qed (use holds_ends [OF w] in \<open>simp_all add: ends_ok_def\<close>)
qed

lemma same_remove_handle [simp]: "same_transmits s (snd (remove_handle ty handle s))"
  unfolding remove_handle_def by (rule same_and_then) simp_all

lemma guest_drop_inv:
  assumes c: "canon_keeps c" and inv: "inv_store st"
  shows "inv_store (snd (guest_drop_writable c ty handle st))" and "inv_store (snd (guest_drop_readable c ty handle st))"
proof -
  have r: "inv_store (snd (on_state (remove_handle ty handle) st))" using inv by (rule event_last) simp
  show "inv_store (snd (guest_drop_writable c ty handle st))"
    unfolding guest_drop_writable_def
    by (rule inv_step [OF r]) (auto intro!: pure_step host_drop_writer_inv [OF c])
  show "inv_store (snd (guest_drop_readable c ty handle st))"
    unfolding guest_drop_readable_def
    by (rule inv_step [OF r]) (auto intro!: pure_step host_drop_reader_inv [OF c])
qed


lemma inv_and_then:
  assumes "transmit_inv (snd m)" and "\<And>x u. m = (Ok x, u) \<Longrightarrow> transmit_inv u \<Longrightarrow> transmit_inv (snd (k x u))"
  shows "transmit_inv (snd (and_then m k))"
proof (cases m)
  case (Pair r u)
  with assms show ?thesis by (cases r) auto
qed

lemma transmit_inv_mut:
  assumes inv: "transmit_inv s" and "\<And>t. ts_write_handle (f t) = ts_write_handle t" "\<And>t. ts_read_handle (f t) = ts_read_handle t"
    and "\<And>t. ends_ok t \<Longrightarrow> ends_ok (f t)"
  shows "transmit_inv (snd (mut_transmit_state k f s))"
proof (cases "get_transmit_state k s")
  case (Ok t)
  then have "transmit_at s k = Some t" by (auto simp: cs_get_Ok transmit_at_Some)
  with inv transmit_inv_put [OF inv this, of "f t"] assms(2-) transmit_invD(4) [OF inv this] Ok show ?thesis
    by (simp add: cs_get_mut_eq)
qed (use inv in \<open>simp_all add: cs_get_mut_eq\<close>)

lemma ends_cancel:
  "ends_ok t \<Longrightarrow> ends_ok (t\<lparr>ts_write := cancel_write_state (ts_write t)\<rparr>)"
  "ends_ok t \<Longrightarrow> ends_ok (t\<lparr>ts_read := cancel_read_state (ts_read t)\<rparr>)"
  by (cases "ts_write t"; simp add: ends_ok_def) (cases "ts_read t"; auto simp: ends_ok_def)

lemma host_cancel_inv:
  assumes inv: "transmit_inv s"
  shows "transmit_inv (snd (host_cancel_write k s))" and "transmit_inv (snd (host_cancel_read k s))"
proof -
  have t: "transmit_inv (snd (take_event w u))" if "transmit_inv u" for w u using that same_take_event by (rule transmit_inv_same)
  show "transmit_inv (snd (host_cancel_write k s))" unfolding host_cancel_write_def
    by (rule inv_and_then, use inv in simp, rule inv_and_then, erule t, rule inv_and_then, simp, rule inv_and_then, erule transmit_inv_mut)
       (simp_all add: ends_cancel)
  show "transmit_inv (snd (host_cancel_read k s))" unfolding host_cancel_read_def
    by (rule inv_and_then, use inv in simp, rule inv_and_then, erule t, rule inv_and_then, simp, rule inv_and_then, erule transmit_inv_mut)
       (simp_all add: ends_cancel)
qed

lemma guest_cancel_inv:
  assumes inv: "transmit_inv s" and host: "\<And>k u. transmit_inv u \<Longrightarrow> transmit_inv (snd (host_cancel k u))"
  shows "transmit_inv (snd (guest_cancel new_state host_cancel ty handle s))"
proof -
  have t: "transmit_inv (snd (in_waitables i g u))" if "transmit_inv u" for i g u
    using that same_in_waitables by (rule transmit_inv_same)
  show ?thesis unfolding guest_cancel_def Let_def
    by (rule inv_and_then, use inv in simp)
       (auto intro!: inv_and_then host t split: prod.splits)
qed

lemma guest_transfer_inv:
  assumes inv: "transmit_inv s"
  shows "transmit_inv (snd (guest_transfer src_idx src src_instance dst dst_instance match_state make_state s))"
proof -
  have t: "transmit_inv (snd (in_waitables i g u))" if "transmit_inv u" for i g and u
    using that same_in_waitables by (rule transmit_inv_same)
  show ?thesis unfolding guest_transfer_def
    by (rule inv_and_then, use inv in simp)
       (auto intro!: inv_and_then t split: prod.splits stream_future_state.splits bool.splits)
qed

lemma guest_new_inv:
  assumes inv: "transmit_inv s" and new: "guest_new ty s = (Ok p, s')"
  shows "transmit_inv s'"
proof -
  from new obtain w r s1 r' s2 w' s3 where n: "new_transmit s = (Ok (w, r), s1)"
    "state_table_insert ty r (SfRead False) s1 = (Ok r', s2)" "state_table_insert ty w (SfWrite False) s2 = (Ok w', s')"
    by (auto simp: guest_new_def elim!: and_then_OkE)
  from new_transmit_spec [OF inv n(1)] have "transmit_inv s1" by blast
  with n(2,3) show ?thesis
    by (metis state_table_insert_def same_in_waitables transmit_inv_same snd_conv)
qed


section \<open>Reachable stores\<close>

text \<open>
  Steps of the rest of the runtime: they may change every other object, the sets
  the handles belong to and their events, but create and delete no transmit, and
  they only make waitable sets parents.
\<close>

definition elsewhere :: "concurrent_state \<Rightarrow> concurrent_state \<Rightarrow> bool" where
  "elsewhere s s' \<longleftrightarrow> table_inv (cs_table s') \<and> transmit_at s' = transmit_at s \<and> handle_state s' = handle_state s \<and>
     (\<forall>c p. parent_at s' c = Some p \<longrightarrow> is_set s' p)"

inductive transmit_reach :: "canon \<Rightarrow> store \<Rightarrow> bool" for c :: canon where
  tr_init: "so_state st = concurrent_state_new component \<Longrightarrow> transmit_reach c st"
| tr_new: "transmit_reach c st \<Longrightarrow> guest_new ty (so_state st) = (Ok p, s) \<Longrightarrow> transmit_reach c (st\<lparr>so_state := s\<rparr>)"
| tr_host_new: "transmit_reach c st \<Longrightarrow> new_transmit (so_state st) = (Ok p, s) \<Longrightarrow> transmit_reach c (st\<lparr>so_state := s\<rparr>)"
| tr_guest_write: "transmit_reach c st \<Longrightarrow> guest_write c ty oi flat h address n st = (r1, st') \<Longrightarrow> transmit_reach c st'"
| tr_guest_read: "transmit_reach c st \<Longrightarrow> guest_read c ty oi flat h address n st = (r1, st') \<Longrightarrow> transmit_reach c st'"
| tr_drop_writable: "transmit_reach c st \<Longrightarrow> guest_drop_writable c ty h st = (r2, st') \<Longrightarrow> transmit_reach c st'"
| tr_drop_readable: "transmit_reach c st \<Longrightarrow> guest_drop_readable c ty h st = (r2, st') \<Longrightarrow> transmit_reach c st'"
| tr_host_write: "transmit_reach c st \<Longrightarrow> host_write c T ident wb kind post st = (r3, st') \<Longrightarrow> transmit_reach c st'"
| tr_host_read: "transmit_reach c st \<Longrightarrow> host_read c T ident rb kind st = (r4, st') \<Longrightarrow> transmit_reach c st'"
| tr_accept: "transmit_reach c st \<Longrightarrow> run_accept_reader c w pd ident st = (r2, st') \<Longrightarrow> transmit_reach c st'"
| tr_host_drop_reader: "transmit_reach c st \<Longrightarrow> host_drop_reader c ident kind st = (r2, st') \<Longrightarrow> transmit_reach c st'"
| tr_host_drop_writer: "transmit_reach c st \<Longrightarrow> host_drop_writer c T ident dflt st = (r2, st') \<Longrightarrow> transmit_reach c st'"
| tr_cancel_write: "transmit_reach c st \<Longrightarrow> guest_cancel_write ty h async (so_state st) = (r5, s) \<Longrightarrow> transmit_reach c (st\<lparr>so_state := s\<rparr>)"
| tr_cancel_read: "transmit_reach c st \<Longrightarrow> guest_cancel_read ty h async (so_state st) = (r5, s) \<Longrightarrow> transmit_reach c (st\<lparr>so_state := s\<rparr>)"
| tr_host_cancel_write: "transmit_reach c st \<Longrightarrow> host_cancel_write k (so_state st) = (r5, s) \<Longrightarrow> transmit_reach c (st\<lparr>so_state := s\<rparr>)"
| tr_host_cancel_read: "transmit_reach c st \<Longrightarrow> host_cancel_read k (so_state st) = (r5, s) \<Longrightarrow> transmit_reach c (st\<lparr>so_state := s\<rparr>)"
| tr_stream_transfer: "transmit_reach c st \<Longrightarrow> stream_transfer i src dst (so_state st) = (r6, s) \<Longrightarrow> transmit_reach c (st\<lparr>so_state := s\<rparr>)"
| tr_future_transfer: "transmit_reach c st \<Longrightarrow> future_transfer i src dst (so_state st) = (r6, s) \<Longrightarrow> transmit_reach c (st\<lparr>so_state := s\<rparr>)"
| tr_watch_reader: "transmit_reach c st \<Longrightarrow> watch_reader_poll ident waker (so_state st) = (b, s) \<Longrightarrow> transmit_reach c (st\<lparr>so_state := s\<rparr>)"
| tr_watch_writer: "transmit_reach c st \<Longrightarrow> watch_writer_poll ident waker (so_state st) = (b, s) \<Longrightarrow> transmit_reach c (st\<lparr>so_state := s\<rparr>)"
| tr_elsewhere: "transmit_reach c st \<Longrightarrow> elsewhere (so_state st) (so_state st') \<Longrightarrow> transmit_reach c st'"

lemma watch_poll_inv:
  assumes "transmit_inv s"
  shows "transmit_inv (snd (watch_reader_poll ident waker s))" and "transmit_inv (snd (watch_writer_poll ident waker s))"
proof -
  have w: "transmit_inv (snd (mut_transmit_state k (\<lambda>t. t\<lparr>ts_reader_watcher := x\<rparr>) s))"
    "transmit_inv (snd (mut_transmit_state k (\<lambda>t. t\<lparr>ts_writer_watcher := x\<rparr>) s))" for k x
    using assms by (auto intro!: transmit_inv_mut simp: ends_ok_def)
  show "transmit_inv (snd (watch_reader_poll ident waker s))"
    using assms w(1) by (auto simp: watch_reader_poll_def and_then_def split: outcome.splits prod.splits) (metis snd_conv)+
  show "transmit_inv (snd (watch_writer_poll ident waker s))"
    using assms w(2) by (auto simp: watch_writer_poll_def and_then_def split: outcome.splits prod.splits) (metis snd_conv)+
qed

lemma transmit_inv_init: "transmit_inv (concurrent_state_new component)"
proof -
  have "table_occ (cs_table (concurrent_state_new component)) = (\<lambda>_. None)"
    by (auto simp: concurrent_state_new_def table_occ_def table_new_def)
  then show ?thesis
    by (auto simp: transmit_inv_def transmit_views linked_def obj_at_def parent_at_def table_lookup_def parent_of_def)
       (simp add: concurrent_state_new_def)
qed

lemma transmit_inv_elsewhere: "transmit_inv s \<Longrightarrow> elsewhere s s' \<Longrightarrow> transmit_inv s'"
  by (simp add: transmit_inv_def elsewhere_def)

lemmas run_inv = guest_write_inv guest_read_inv guest_drop_inv host_write_inv host_read_inv run_accept_reader_inv
  host_drop_reader_inv host_drop_writer_inv

lemma result_inv: "inv_store (snd m) \<Longrightarrow> m = (r, st) \<Longrightarrow> inv_store st"
  "transmit_inv (snd n) \<Longrightarrow> n = (r', s) \<Longrightarrow> transmit_inv s"
  by simp_all

lemma transmit_reach_inv:
  assumes c: "canon_keeps c"
  shows "transmit_reach c st \<Longrightarrow> inv_store st"
proof (induction rule: transmit_reach.induct)
  case (tr_init st component)
  then show ?case by (simp add: transmit_inv_init)
next
  case (tr_new st ty p s)
  then show ?case using guest_new_inv by simp
next
  case (tr_host_new st p s)
  then show ?case using new_transmit_spec by (cases p) simp
next
  case (tr_cancel_write st ty h async r5 s)
  then show ?case using guest_cancel_inv [of "so_state st" host_cancel_write cancel_write_handle ty h, OF _ host_cancel_inv(1)]
    by (simp add: guest_cancel_write_def)
next
  case (tr_cancel_read st ty h async r5 s)
  then show ?case using guest_cancel_inv [of "so_state st" host_cancel_read cancel_read_handle ty h, OF _ host_cancel_inv(2)]
    by (simp add: guest_cancel_read_def)
next
  case (tr_stream_transfer st i src dst r6 s)
  then show ?case using result_inv(2) [OF guest_transfer_inv] by (auto simp: stream_transfer_def)
next
  case (tr_future_transfer st i src dst r6 s)
  then show ?case using result_inv(2) [OF guest_transfer_inv] by (auto simp: future_transfer_def)
next
  case (tr_elsewhere st st')
  then show ?case using transmit_inv_elsewhere by blast
qed (simp_all, (erule (1) result_inv(2) [OF host_cancel_inv(1)] result_inv(2) [OF host_cancel_inv(2)]
    result_inv(2) [OF watch_poll_inv(1)] result_inv(2) [OF watch_poll_inv(2)]
    result_inv(1) [OF run_inv(1) [OF c]] result_inv(1) [OF run_inv(2) [OF c]] result_inv(1) [OF run_inv(3) [OF c]]
    result_inv(1) [OF run_inv(4) [OF c]] result_inv(1) [OF run_inv(5) [OF c]] result_inv(1) [OF run_inv(6) [OF c]]
    result_inv(1) [OF run_inv(7) [OF c]] result_inv(1) [OF run_inv(8) [OF c]] result_inv(1) [OF run_inv(9) [OF c]])+)

end
