(* ===== verification/Transcode.thy ===== *)
theory Transcode
  imports Unicode
begin

unbundle bit_operations_syntax

text \<open>
  The string transcoders that fused adapters call, \<open>vm/component/libcalls.rs\<close>.
  A raw pointer with its length is a region: the host address and the items.
  Code units of 16 bits are stored in little-endian order, so a slice of them can
  also be looked at as bytes.  Each transcoder returns its outcome with the items
  of the destination as written so far.  The functions of the crate
  \<open>encoding_rs\<close> are the parameter of the transcoders that call them.
\<close>

section \<open>Regions\<close>

definition UTF16_TAG :: nat where
  "UTF16_TAG = 2 ^ 31"

record 'u region =
  rg_ptr :: nat
  rg_items :: "'u list"

definition assert_no_overlap :: "nat \<Rightarrow> 'a region \<Rightarrow> nat \<Rightarrow> 'b region \<Rightarrow> (string, unit) outcome" where
  "assert_no_overlap size_a a size_b b =
     (let a_start = rg_ptr a; a_end = a_start + length (rg_items a) * size_a;
          b_start = rg_ptr b; b_end = b_start + length (rg_items b) * size_b
      in if a_start < b_start
         then (if a_end < b_start then Ok () else Panic ''assertion failed: a_end < b_start'')
         else (if b_end < a_start then Ok () else Panic ''assertion failed: b_end < a_start''))"

text \<open>The byte view of a slice of code units, \<open>align_to_mut::<u8>\<close>.\<close>

definition unit_bytes :: "u16 \<Rightarrow> u8 list" where
  "unit_bytes u = [as_u8 (unat u mod 256), as_u8 (unat u div 256)]"

definition units_bytes :: "u16 list \<Rightarrow> u8 list" where
  "units_bytes us = concat (map unit_bytes us)"

fun bytes_units :: "u8 list \<Rightarrow> u16 list" where
  "bytes_units (lo # hi # bs) = as_u16 (unat lo + 256 * unat hi) # bytes_units bs"
| "bytes_units _ = []"

record encoding_rs =
  er_convert_latin1_to_utf8_partial :: "u8 list \<Rightarrow> u8 list \<Rightarrow> (nat \<times> nat) \<times> u8 list"
  er_utf8_latin1_up_to :: "u8 list \<Rightarrow> nat"
  er_convert_utf8_to_latin1_lossy :: "u8 list \<Rightarrow> u8 list \<Rightarrow> nat \<times> u8 list"
  er_decode_latin1 :: "u8 list \<Rightarrow> ustr"


section \<open>Same encoding on both sides\<close>

definition copy_from_slice :: "'a list \<Rightarrow> 'a list \<Rightarrow> ('e, unit, 'a list) result" where
  "copy_from_slice src dst = (if length src = length dst then (Ok (), src)
     else (Panic ''source slice length does not match destination slice length'', dst))"

definition utf8_to_utf8 :: "u8 region \<Rightarrow> u8 region \<Rightarrow> (string, unit, u8 list) result" where
  "utf8_to_utf8 src dst =
     and_then (assert_no_overlap 1 src 1 dst, rg_items dst) (\<lambda>_ d.
     and_then (ok_or ''invalid utf8 encoding'' (from_utf8 (rg_items src)), d) (\<lambda>s d.
     copy_from_slice (str_bytes s) d))"

text \<open>The loop of \<open>run_utf16_to_utf16\<close>: the position is where the rest of \<open>dst\<close> starts.\<close>

fun run_utf16_items :: "(uchar option \<times> nat) list \<Rightarrow> bool \<Rightarrow> nat \<Rightarrow> u16 list \<Rightarrow> (string, bool, u16 list) result" where
  "run_utf16_items [] all_latin1 pos dst = (Ok all_latin1, dst)"
| "run_utf16_items ((None, n) # rest) all_latin1 pos dst = (Err ''invalid utf16 encoding'', dst)"
| "run_utf16_items ((Some ch, n) # rest) all_latin1 pos dst =
     (let us = encode_utf16 ch in
      if length dst < pos + length us then (Panic ''encode_utf16: buffer does not have enough bytes'', dst)
      else run_utf16_items rest (all_latin1 \<and> is_latin1 ch) (pos + length us) (overwrite pos us dst))"

definition run_utf16_to_utf16 :: "u16 list \<Rightarrow> u16 list \<Rightarrow> (string, bool, u16 list) result" where
  "run_utf16_to_utf16 src dst = run_utf16_items (decode_utf16 src) True 0 dst"

definition utf16_to_utf16 :: "u16 region \<Rightarrow> u16 region \<Rightarrow> (string, unit, u16 list) result" where
  "utf16_to_utf16 src dst =
     and_then (assert_no_overlap 2 src 2 dst, rg_items dst) (\<lambda>_ d.
     and_then (run_utf16_to_utf16 (rg_items src) d) (\<lambda>_ d. (Ok (), d)))"

definition latin1_to_latin1 :: "u8 region \<Rightarrow> u8 region \<Rightarrow> (string, unit, u8 list) result" where
  "latin1_to_latin1 src dst =
     and_then (assert_no_overlap 1 src 1 dst, rg_items dst) (\<lambda>_ d. copy_from_slice (rg_items src) d)"


section \<open>Between encodings\<close>

definition latin1_to_utf16 :: "u8 region \<Rightarrow> u16 region \<Rightarrow> (string, unit, u16 list) result" where
  "latin1_to_utf16 src dst =
     and_then (assert_no_overlap 1 src 2 dst, rg_items dst) (\<lambda>_ d.
     (Ok (), overwrite 0 (map (\<lambda>(b, _). as_u16 (unat b)) (zip (rg_items src) d)) d))"

definition run_utf8_to_utf16 :: "u8 list \<Rightarrow> u16 list \<Rightarrow> (string, nat, u16 list) result" where
  "run_utf8_to_utf16 src dst =
     and_then (ok_or ''invalid utf8 encoding'' (from_utf8 src), dst) (\<lambda>s d.
     let written = map fst (zip (str_units s) d) in (Ok (length written), overwrite 0 written d))"

definition utf8_to_utf16 :: "u8 region \<Rightarrow> u16 region \<Rightarrow> (string, nat, u16 list) result" where
  "utf8_to_utf16 src dst =
     and_then (assert_no_overlap 1 src 2 dst, rg_items dst) (\<lambda>_ d. run_utf8_to_utf16 (rg_items src) d)"

text \<open>A partial transcode: how many code units were read, and how many bytes written.\<close>

record size_pair =
  src_read :: nat
  dst_written :: nat

fun utf16_to_utf8_items ::
    "(uchar option \<times> nat) list \<Rightarrow> nat \<Rightarrow> size_pair \<Rightarrow> u8 list \<Rightarrow> (string, size_pair, u8 list) result" where
  "utf16_to_utf8_items [] iter_read sizes dst = (Ok sizes, dst)"
| "utf16_to_utf8_items ((None, n) # rest) iter_read sizes dst = (Err ''invalid utf16 encoding'', dst)"
| "utf16_to_utf8_items ((Some ch, n) # rest) iter_read sizes dst =
     (let room = length dst - dst_written sizes; bytes = encode_utf8 ch in
      if room < 4 \<and> room < len_utf8 ch then (Ok sizes, dst)
      else utf16_to_utf8_items rest (iter_read + n)
        \<lparr>src_read = iter_read + n, dst_written = dst_written sizes + length bytes\<rparr> (overwrite (dst_written sizes) bytes dst))"

definition utf16_to_utf8 :: "u16 region \<Rightarrow> u8 region \<Rightarrow> (string, size_pair, u8 list) result" where
  "utf16_to_utf8 src dst =
     and_then (assert_no_overlap 2 src 1 dst, rg_items dst) (\<lambda>_ d.
     utf16_to_utf8_items (decode_utf16 (rg_items src)) 0 \<lparr>src_read = 0, dst_written = 0\<rparr> d)"

definition latin1_to_utf8 :: "encoding_rs \<Rightarrow> u8 region \<Rightarrow> u8 region \<Rightarrow> (string, size_pair, u8 list) result" where
  "latin1_to_utf8 er src dst =
     and_then (assert_no_overlap 1 src 1 dst, rg_items dst) (\<lambda>_ d.
     case er_convert_latin1_to_utf8_partial er (rg_items src) d of
       ((r, w), d) \<Rightarrow> (Ok \<lparr>src_read = r, dst_written = w\<rparr>, d))"


section \<open>Into Latin-1 or UTF-16\<close>

text \<open>Moving the low byte of every unit to the front, from the first to the last.\<close>

fun deflate_from :: "nat \<Rightarrow> nat \<Rightarrow> u8 list \<Rightarrow> u8 list" where
  "deflate_from i 0 bytes = bytes"
| "deflate_from i (Suc n) bytes = deflate_from (Suc i) n (bytes[i := bytes ! (2 * i)])"

definition utf16_to_compact_probably_utf16 :: "u16 region \<Rightarrow> u16 region \<Rightarrow> (string, nat, u16 list) result" where
  "utf16_to_compact_probably_utf16 src dst =
     and_then (assert_no_overlap 2 src 2 dst, rg_items dst) (\<lambda>_ d.
     and_then (run_utf16_to_utf16 (rg_items src) d) (\<lambda>all_latin1 d.
     if all_latin1 then (Ok (length (rg_items src)), bytes_units (deflate_from 0 (length (rg_items src)) (units_bytes d)))
     else (Ok (length (rg_items src) OR UTF16_TAG), d)))"

definition utf8_to_latin1 :: "encoding_rs \<Rightarrow> u8 region \<Rightarrow> u8 region \<Rightarrow> (string, size_pair, u8 list) result" where
  "utf8_to_latin1 er src dst =
     and_then (assert_no_overlap 1 src 1 dst, rg_items dst) (\<lambda>_ d.
     let n = er_utf8_latin1_up_to er (rg_items src) in
     case er_convert_utf8_to_latin1_lossy er (take n (rg_items src)) d of
       (w, d) \<Rightarrow> (Ok \<lparr>src_read = n, dst_written = w\<rparr>, d))"

fun utf16_to_latin1_units :: "u16 list \<Rightarrow> nat \<Rightarrow> u8 list \<Rightarrow> nat \<times> u8 list" where
  "utf16_to_latin1_units [] sz dst = (sz, dst)"
| "utf16_to_latin1_units (u # us) sz dst =
     (if sz < length dst \<and> unat u < 256 then utf16_to_latin1_units us (Suc sz) (dst[sz := as_u8 (unat u)]) else (sz, dst))"

definition utf16_to_latin1 :: "u16 region \<Rightarrow> u8 region \<Rightarrow> (string, size_pair, u8 list) result" where
  "utf16_to_latin1 src dst =
     and_then (assert_no_overlap 2 src 1 dst, rg_items dst) (\<lambda>_ d.
     case utf16_to_latin1_units (rg_items src) 0 d of (n, d) \<Rightarrow> (Ok \<lparr>src_read = n, dst_written = n\<rparr>, d))"

text \<open>
  Inflating the bytes at the front into code units in place, from the last to the
  first.  The result is the whole destination; the rest that the function returns
  is what follows the inflated units.
\<close>

fun inflate_down :: "nat \<Rightarrow> u8 list \<Rightarrow> u8 list" where
  "inflate_down 0 mid = mid"
| "inflate_down (Suc i) mid = inflate_down i (mid[2 * i := mid ! i, 2 * i + 1 := 0])"

definition inflate_latin1_bytes :: "u16 list \<Rightarrow> nat \<Rightarrow> (string, unit, u16 list) result" where
  "inflate_latin1_bytes dst latin1_bytes_so_far =
     (if length dst < latin1_bytes_so_far then (Panic ''mid > len'', dst)
      else (Ok (), bytes_units (inflate_down latin1_bytes_so_far (units_bytes (take latin1_bytes_so_far dst)))
              @ drop latin1_bytes_so_far dst))"

text \<open>Running on the rest of a slice leaves what precedes it alone.\<close>

definition on_rest :: "nat \<Rightarrow> ('a list \<Rightarrow> ('e, 'b, 'a list) result) \<Rightarrow> 'a list \<Rightarrow> ('e, 'b, 'a list) result" where
  "on_rest n f dst = map_prod id (append (take n dst)) (f (drop n dst))"

definition utf8_to_compact_utf16 :: "u8 region \<Rightarrow> u16 region \<Rightarrow> nat \<Rightarrow> (string, nat, u16 list) result" where
  "utf8_to_compact_utf16 src dst latin1_bytes_so_far =
     and_then (assert_no_overlap 1 src 2 dst, rg_items dst) (\<lambda>_ d.
     and_then (inflate_latin1_bytes d latin1_bytes_so_far) (\<lambda>_ d.
     and_then (on_rest latin1_bytes_so_far (run_utf8_to_utf16 (rg_items src)) d) (\<lambda>n d.
     (Ok (n + latin1_bytes_so_far), d))))"

definition utf16_to_compact_utf16 :: "u16 region \<Rightarrow> u16 region \<Rightarrow> nat \<Rightarrow> (string, nat, u16 list) result" where
  "utf16_to_compact_utf16 src dst latin1_bytes_so_far =
     and_then (assert_no_overlap 2 src 2 dst, rg_items dst) (\<lambda>_ d.
     and_then (inflate_latin1_bytes d latin1_bytes_so_far) (\<lambda>_ d.
     and_then (on_rest latin1_bytes_so_far (run_utf16_to_utf16 (rg_items src)) d) (\<lambda>_ d.
     (Ok (length (rg_items src) + latin1_bytes_so_far), d))))"



section \<open>Bytes and code units\<close>

lemma length_units_bytes [simp]: "length (units_bytes us) = 2 * length us"
  by (induction us) (simp_all add: units_bytes_def unit_bytes_def)

lemma bytes_units_inverse [simp]: "bytes_units (units_bytes us @ bs) = us @ bytes_units bs"
proof (induction us)
  case (Cons u us)
  have "unat u div 256 < 256" using unat_u16_lt [of u] by simp
  then show ?case using Cons by (simp add: units_bytes_def unit_bytes_def)
qed (simp add: units_bytes_def)

lemma units_bytes_append: "units_bytes (us @ vs) = units_bytes us @ units_bytes vs"
  by (simp add: units_bytes_def)

lemma take_units_bytes: "take n (units_bytes (take n us)) = take n (units_bytes us)"
proof -
  have "units_bytes us = units_bytes (take n us) @ units_bytes (drop n us)" by (simp add: units_bytes_append [symmetric])
  then show ?thesis by (cases "n \<le> length us") simp_all
qed

text \<open>The in-place loops, without the loop.\<close>

lemma inflate_down_eq:
  "2 * n \<le> length mid \<Longrightarrow> inflate_down n mid = concat (map (\<lambda>b. [b, 0]) (take n mid)) @ drop (2 * n) mid"
proof (induction n arbitrary: mid)
  case (Suc i)
  let ?m = "mid[2 * i := mid ! i, 2 * i + 1 := 0]"
  have l: "2 * i + 1 < length mid" using Suc.prems by simp
  have t: "take i ?m = take i mid" by (simp add: take_update_cancel)
  have "drop (2 * i) ?m = ?m ! (2 * i) # drop (Suc (2 * i)) ?m"
    using l by (intro Cons_nth_drop_Suc [symmetric]) simp
  also have "drop (Suc (2 * i)) ?m = ?m ! Suc (2 * i) # drop (Suc (Suc (2 * i))) ?m"
    using l by (intro Cons_nth_drop_Suc [symmetric]) simp
  finally have d: "drop (2 * i) ?m = [mid ! i, 0] @ drop (2 * Suc i) mid" using l by simp
  have "take (Suc i) mid = take i mid @ [mid ! i]" using l by (simp add: take_Suc_conv_app_nth)
  with Suc.IH [of ?m] l t d show ?case by simp
qed simp

lemma bytes_units_inflated: "bytes_units (concat (map (\<lambda>b. [b, 0]) bs)) = map (\<lambda>b. as_u16 (unat b)) bs"
  by (induction bs) simp_all

lemma inflate_latin1_bytes_eq:
  assumes "n \<le> length dst"
  shows "inflate_latin1_bytes dst n = (Ok (), map (\<lambda>b. as_u16 (unat b)) (take n (units_bytes dst)) @ drop n dst)"
  using assms by (simp add: inflate_latin1_bytes_def inflate_down_eq bytes_units_inflated take_units_bytes)

lemma deflate_from_eq:
  assumes "2 * (i + n) \<le> length bytes"
  shows "deflate_from i n bytes = take i bytes @ map (\<lambda>k. bytes ! (2 * k)) [i..<i + n] @ drop (i + n) bytes"
  using assms
proof (induction n arbitrary: i bytes)
  case (Suc n)
  let ?b = "bytes[i := bytes ! (2 * i)]"
  have l: "2 * (Suc i + n) \<le> length ?b" "i < length bytes" using Suc.prems by simp_all
  have "map (\<lambda>k. ?b ! (2 * k)) [Suc i..<Suc i + n] = map (\<lambda>k. bytes ! (2 * k)) [Suc i..<Suc i + n]"
    by (rule map_cong) (auto simp: nth_list_update)
  moreover have "take (Suc i) ?b = take i bytes @ [bytes ! (2 * i)]" using l(2) by (simp add: take_Suc_conv_app_nth)
  moreover have "[i..<i + Suc n] = i # [Suc i..<Suc i + n]" by (simp add: upt_rec)
  ultimately show ?case using Suc.IH [OF l(1)] by simp
qed simp

section \<open>Transcoding item by item\<close>

lemma decode_units: "list_all is_char s \<Longrightarrow> decode_utf16 (str_units s) = map (\<lambda>c. (Some c, length (encode_utf16 c))) s"
  by (induction s) (simp_all add: str_units_def decode_utf16_encode)

lemma run_utf16_items_eq:
  "pos + length (str_units s) \<le> length dst \<Longrightarrow>
   run_utf16_items (map (\<lambda>c. (Some c, length (encode_utf16 c))) s) b pos dst = (Ok (b \<and> list_all is_latin1 s), overwrite pos (str_units s) dst)"
  by (induction s arbitrary: pos b dst) (simp_all add: str_units_def Let_def overwrite_overwrite)

lemma from_utf16_units: "from_utf16 us = Some s \<longleftrightarrow> list_all is_char s \<and> us = str_units s"
  by (simp add: utf16.dec_iff str_units_def)

lemma from_utf8_bytes: "from_utf8 bs = Some s \<longleftrightarrow> list_all is_char s \<and> bs = str_bytes s"
  by (simp add: utf8.dec_iff str_bytes_def)

lemma run_utf16_to_utf16_eq:
  assumes "from_utf16 src = Some s" and "length src \<le> length dst"
  shows "run_utf16_to_utf16 src dst = (Ok (list_all is_latin1 s), overwrite 0 src dst)"
  using assms by (simp add: run_utf16_to_utf16_def from_utf16_units decode_units run_utf16_items_eq)

lemma utf16_to_latin1_units_eq:
  "sz + length us \<le> length dst \<Longrightarrow> utf16_to_latin1_units us sz dst =
     (let p = takeWhile (\<lambda>u. unat u < 256) us in (sz + length p, overwrite sz (map (\<lambda>u. as_u8 (unat u)) p) dst))"
proof (induction us arbitrary: sz dst)
  case (Cons u us)
  have "overwrite (Suc sz) ys (dst[sz := x]) = overwrite sz (x # ys) dst" if "sz + 1 + length ys \<le> length dst" for x ys
    using that overwrite_overwrite [of sz "[x]" ys dst] by (simp add: overwrite_def upd_conv_take_nth_drop)
  moreover have "length (takeWhile (\<lambda>u. unat u < 256) us) \<le> length us" by (rule length_takeWhile_le)
  ultimately show ?case using Cons by (auto simp: Let_def)
qed simp

lemma latin1_prefix:
  assumes "list_all is_char s"
  shows "takeWhile (\<lambda>u. unat u < 256) (str_units s) = map as_u16 (takeWhile is_latin1 s)"
    and "drop (length (takeWhile is_latin1 s)) (str_units s) = str_units (dropWhile is_latin1 s)"
proof -
  have l: "encode_utf16 c = [as_u16 c]" "unat (as_u16 c) < 256" if "is_latin1 c" for c
    using that by (simp_all add: is_latin1_def encode_utf16_def)
  have n: "\<exists>u us. encode_utf16 c = u # us \<and> \<not> unat u < 256" if "is_char c" "\<not> is_latin1 c" for c
  proof (cases "c < 0x10000")
    case False
    with that have "(c - 65536) div 1024 < 1024" by (auto simp: is_char_def)
    with False show ?thesis by (simp add: encode_utf16_def)
  qed (use that in \<open>simp add: encode_utf16_def is_latin1_def\<close>)
  show "takeWhile (\<lambda>u. unat u < 256) (str_units s) = map as_u16 (takeWhile is_latin1 s)"
    using assms
  proof (induction s)
    case (Cons c s)
    then show ?case using l [of c] n [of c] by (cases "is_latin1 c") (auto simp: str_units_def)
  qed (simp add: str_units_def)
  show "drop (length (takeWhile is_latin1 s)) (str_units s) = str_units (dropWhile is_latin1 s)"
    using assms by (induction s) (auto simp: str_units_def l)
qed

lemma takeWhile_latin1_all: "length (takeWhile is_latin1 s) = length (str_units s) \<longleftrightarrow> list_all is_latin1 s" if "list_all is_char s"
proof -
  have "length (str_units s) \<ge> length s" by (induction s) (auto simp: str_units_def encode_utf16_def)
  moreover have "length (takeWhile is_latin1 s) \<le> length s" by (rule length_takeWhile_le)
  moreover have "list_all is_latin1 s \<Longrightarrow> length (str_units s) = length s"
    by (induction s) (auto simp: str_units_def encode_utf16_def is_latin1_def)
  ultimately show ?thesis
    by (metis antisym list_all_iff set_takeWhileD takeWhile_eq_all_conv take_all takeWhile_eq_take)
qed

lemma unat_latin1 [simp]: "is_latin1 c \<Longrightarrow> unat (as_u8 c) = c" "is_latin1 c \<Longrightarrow> unat (as_u16 c) = c"
  by (simp_all add: is_latin1_def)

lemma latin1_casts:
  "map ((\<lambda>u. as_u8 (unat u)) \<circ> as_u16) (takeWhile is_latin1 s) = map as_u8 (takeWhile is_latin1 s)"
  "map ((\<lambda>b. as_u16 (unat b)) \<circ> as_u8) (takeWhile is_latin1 s) = map as_u16 (takeWhile is_latin1 s)"
  by (auto dest: set_takeWhileD)

lemma utf16_to_latin1_eq:
  assumes "from_utf16 us = Some s" and "assert_no_overlap 2 \<lparr>rg_ptr = p, rg_items = us\<rparr> 1 \<lparr>rg_ptr = q, rg_items = d\<rparr> = Ok ()"
    and "length us \<le> length d" and "n = length (takeWhile is_latin1 s)"
  shows "utf16_to_latin1 \<lparr>rg_ptr = p, rg_items = us\<rparr> \<lparr>rg_ptr = q, rg_items = d\<rparr> =
    (Ok \<lparr>src_read = n, dst_written = n\<rparr>, overwrite 0 (map as_u8 (takeWhile is_latin1 s)) d)"
proof -
  have s: "list_all is_char s" "us = str_units s" using assms(1) by (simp_all add: from_utf16_units)
  show ?thesis using assms(2-4)
    by (simp add: latin1_casts utf16_to_latin1_def utf16_to_latin1_units_eq latin1_prefix [OF s(1)] s(2) Let_def)
qed

lemma utf16_to_compact_utf16_eq:
  assumes "from_utf16 us = Some s" and "n = length (takeWhile is_latin1 s)"
    and "assert_no_overlap 2 \<lparr>rg_ptr = p, rg_items = drop n us\<rparr> 2 \<lparr>rg_ptr = q, rg_items = d\<rparr> = Ok ()"
    and "length d = length us" and "take n (units_bytes d) = map as_u8 (takeWhile is_latin1 s)"
  shows "utf16_to_compact_utf16 \<lparr>rg_ptr = p, rg_items = drop n us\<rparr> \<lparr>rg_ptr = q, rg_items = d\<rparr> n = (Ok (length us), us)"
proof -
  have s: "list_all is_char s" "us = str_units s" using assms(1) by (simp_all add: from_utf16_units)
  have dn: "drop n us = str_units (dropWhile is_latin1 s)" using latin1_prefix(2) [OF s(1)] s(2) assms(2) by simp
  have "list_all is_char (dropWhile is_latin1 s)" using s(1) by (auto simp: list_all_iff dest: set_dropWhileD)
  then have v: "from_utf16 (drop n us) = Some (dropWhile is_latin1 s)" using dn by (simp add: from_utf16_units)
  have w: "takeWhile (\<lambda>u. unat u < 256) us = map as_u16 (takeWhile is_latin1 s)" using latin1_prefix(1) [OF s(1)] s(2) by simp
  then have l: "length (takeWhile (\<lambda>u. unat u < 256) us) = n" using assms(2) by simp
  have tn: "take n us = map as_u16 (takeWhile is_latin1 s)" using takeWhile_eq_take [of "\<lambda>u. unat u < 256" us] by (metis w l)
  have ln: "n \<le> length us" using length_takeWhile_le [of "\<lambda>u. unat u < 256" us] l by simp
  have i: "inflate_latin1_bytes d n = (Ok (), take n us @ drop n d)"
    using inflate_latin1_bytes_eq [of n d] tn ln assms(4,5) by (simp add: latin1_casts)
  have r: "run_utf16_to_utf16 (drop n us) (drop n d) = (Ok (list_all is_latin1 (dropWhile is_latin1 s)), drop n us)"
    using run_utf16_to_utf16_eq [OF v, of "drop n d"] assms(4) by (simp add: overwrite_all)
  show ?thesis using assms(3) i r ln assms(4)
    by (simp add: utf16_to_compact_utf16_def on_rest_def)
qed

lemma utf16_to_compact_probably_eq:
  assumes "from_utf16 us = Some s" and "length d = length us"
    and "assert_no_overlap 2 \<lparr>rg_ptr = p, rg_items = us\<rparr> 2 \<lparr>rg_ptr = q, rg_items = d\<rparr> = Ok ()"
  shows "utf16_to_compact_probably_utf16 \<lparr>rg_ptr = p, rg_items = us\<rparr> \<lparr>rg_ptr = q, rg_items = d\<rparr> =
    (if list_all is_latin1 s then (Ok (length us), bytes_units (map as_u8 s @ drop (length us) (units_bytes us)))
     else (Ok (length us OR UTF16_TAG), us))"
proof -
  have r: "run_utf16_to_utf16 us d = (Ok (list_all is_latin1 s), us)"
    using run_utf16_to_utf16_eq [OF assms(1), of d] assms(2) by (simp add: overwrite_all)
  have s: "list_all is_char s" "us = str_units s" using assms(1) by (simp_all add: from_utf16_units)
  have "map (\<lambda>k. units_bytes us ! (2 * k)) [0..<length us] = map (\<lambda>u. as_u8 (unat u mod 256)) us"
  proof -
    have "units_bytes us ! (2 * k) = as_u8 (unat (us ! k) mod 256)" if "k < length us" for k
      using that
    proof (induction us arbitrary: k)
      case (Cons u us)
      then show ?case by (cases k) (auto simp: units_bytes_def unit_bytes_def)
    qed simp
    then show ?thesis by (intro nth_equalityI) simp_all
  qed
  moreover have "map (\<lambda>u. as_u8 (unat u mod 256)) us = map as_u8 s" if "list_all is_latin1 s"
    using that unfolding s(2) by (induction s) (auto simp: str_units_def encode_utf16_def is_latin1_def)
  ultimately have "deflate_from 0 (length us) (units_bytes us) = map as_u8 s @ drop (length us) (units_bytes us)" if "list_all is_latin1 s"
    using that by (simp add: deflate_from_eq)
  with r assms(3) show ?thesis by (simp add: utf16_to_compact_probably_utf16_def)
qed

lemma decode_prefix:
  assumes "\<forall>x \<in> set (take m (decode_utf16 us)). fst x \<noteq> None"
  shows "from_utf16 (take (sum_list (map snd (take m (decode_utf16 us)))) us) = Some (map (\<lambda>x. the (fst x)) (take m (decode_utf16 us)))"
  using assms
proof (induction us arbitrary: m rule: decode_utf16.induct)
  case (2 u)
  then show ?case using unat_u16_lt [of u] by (cases m) (auto simp: utf16.dec_Nil from_utf16_def)
next
  case (3 u v us)
  show ?case
  proof (cases m)
    case (Suc k)
    show ?thesis
    proof (cases "0xD800 \<le> unat u \<and> unat u \<le> 0xDFFF")
      case False
      then have c: "is_char (unat u)" "encode_utf16 (unat u) = [u]" using unat_u16_lt [of u] by (auto simp: is_char_def encode_utf16_def)
      show ?thesis using 3(1) [of k] 3(5) False Suc utf16.dec_step [OF c(1)] c(2) by (auto simp del: decode_utf16.simps(2))
    next
      case True
      with 3(5) Suc have s: "0xDC00 \<le> unat v" "unat v \<le> 0xDFFF" "unat u < 0xDC00" by (auto split: if_splits)
      let ?c = "0x10000 + (unat u - 0xD800) * 0x400 + (unat v - 0xDC00)"
      have "those (map fst (decode_utf16 [u, v])) = Some [?c]" using True s by simp
      from decode_utf16_sound [OF this] have c: "is_char ?c" "encode_utf16 ?c = [u, v]" by simp_all
      show ?thesis using 3(3) [of k] 3(5) True s Suc utf16.dec_step [OF c(1)] c(2) by auto
    qed
  qed (simp add: utf16.dec_Nil)
qed (simp add: utf16.dec_Nil)

lemma decode_lengths: "sum_list (map snd (decode_utf16 us)) = length us"
  by (induction us rule: decode_utf16.induct) auto

lemma utf16_to_utf8_items_spec:
  assumes "utf16_to_utf8_items items r \<lparr>src_read = r, dst_written = w\<rparr> dst = (Ok sz, d)" and "w \<le> length dst"
  shows "\<exists>m. m \<le> length items \<and> (\<forall>x \<in> set (take m items). fst x \<noteq> None) \<and>
    src_read sz = r + sum_list (map snd (take m items)) \<and>
    dst_written sz = w + length (str_bytes (map (\<lambda>x. the (fst x)) (take m items))) \<and> dst_written sz \<le> length dst \<and>
    d = overwrite w (str_bytes (map (\<lambda>x. the (fst x)) (take m items))) dst \<and>
    (m < length items \<longrightarrow> (\<exists>c. fst (items ! m) = Some c \<and> length dst - dst_written sz < len_utf8 c))"
  using assms
proof (induction items arbitrary: r w dst)
  case Nil
  then show ?case by (auto simp: str_bytes_def)
next
  case (Cons x rest)
  obtain ch n where x: "x = (Some ch, n)" using Cons.prems(1) by (cases x; cases "fst x") auto
  show ?case
  proof (cases "length dst - w < 4 \<and> length dst - w < len_utf8 ch")
    case True
    with Cons.prems x show ?thesis by (intro exI [of _ 0]) (auto simp: str_bytes_def)
  next
    case False
    let ?b = "encode_utf8 ch"
    have f: "w + length ?b \<le> length dst" using False Cons.prems(2) by (auto simp: length_encode_utf8 len_utf8_def split: if_splits)
    have "utf16_to_utf8_items rest (r + n) \<lparr>src_read = r + n, dst_written = w + length ?b\<rparr> (overwrite w ?b dst) = (Ok sz, d)"
      using Cons.prems(1) False x by (auto simp: Let_def)
    from Cons.IH [OF this, unfolded length_overwrite [OF f], OF f]
    obtain m where m: "m \<le> length rest" "\<forall>x \<in> set (take m rest). fst x \<noteq> None" "src_read sz = r + n + sum_list (map snd (take m rest))"
      "dst_written sz = w + length ?b + length (str_bytes (map (\<lambda>x. the (fst x)) (take m rest)))" "dst_written sz \<le> length dst"
      "d = overwrite (w + length ?b) (str_bytes (map (\<lambda>x. the (fst x)) (take m rest))) (overwrite w ?b dst)"
      "m < length rest \<longrightarrow> (\<exists>c. fst (rest ! m) = Some c \<and> length dst - dst_written sz < len_utf8 c)"
      by blast
    have "d = overwrite w (str_bytes (map (\<lambda>x. the (fst x)) (take (Suc m) (x # rest)))) dst"
      using m(4-6) x by (simp add: str_bytes_def overwrite_overwrite)
    with m x show ?thesis by (intro exI [of _ "Suc m"]) (simp add: str_bytes_def)
  qed
qed

lemma utf16_to_utf8_returned:
  assumes "utf16_to_utf8 src dst = (Ok sz, d)"
  shows "\<exists>s. from_utf16 (take (src_read sz) (rg_items src)) = Some s \<and> from_utf8 (take (dst_written sz) d) = Some s \<and>
    length d = length (rg_items dst) \<and> drop (dst_written sz) d = drop (dst_written sz) (rg_items dst) \<and>
    (src_read sz < length (rg_items src) \<longrightarrow> length d - dst_written sz < 4)"
proof -
  let ?i = "decode_utf16 (rg_items src)"
  from assms have "utf16_to_utf8_items ?i 0 \<lparr>src_read = 0, dst_written = 0\<rparr> (rg_items dst) = (Ok sz, d)"
    by (auto simp: utf16_to_utf8_def elim!: and_then_OkE)
  from utf16_to_utf8_items_spec [OF this le0, unfolded add_0] obtain m where m: "m \<le> length ?i" "\<forall>x \<in> set (take m ?i). fst x \<noteq> None"
    "src_read sz = sum_list (map snd (take m ?i))" "dst_written sz = length (str_bytes (map (\<lambda>x. the (fst x)) (take m ?i)))"
    "dst_written sz \<le> length (rg_items dst)" "d = overwrite 0 (str_bytes (map (\<lambda>x. the (fst x)) (take m ?i))) (rg_items dst)"
    "m < length ?i \<longrightarrow> (\<exists>c. fst (?i ! m) = Some c \<and> length (rg_items dst) - dst_written sz < len_utf8 c)" by blast
  let ?s = "map (\<lambda>x. the (fst x)) (take m ?i)"
  have u: "from_utf16 (take (src_read sz) (rg_items src)) = Some ?s" using decode_prefix [OF m(2)] m(3) by simp
  moreover have "from_utf8 (take (dst_written sz) d) = Some ?s"
    using u m(4-6) by (simp add: from_utf8_bytes from_utf16_units overwrite_def)
  moreover have "length d = length (rg_items dst)" "drop (dst_written sz) d = drop (dst_written sz) (rg_items dst)"
    using m(4-6) by (simp_all add: overwrite_def)
  moreover have "length d - dst_written sz < 4" if "src_read sz < length (rg_items src)"
  proof -
    have "m \<noteq> length ?i" using that m(3) by (auto simp: decode_lengths)
    with m(1,7) show ?thesis using calculation(3) by (fastforce simp: len_utf8_def split: if_splits)
  qed
  ultimately show ?thesis by blast
qed

lemma units_bytes_inverse: "even (length bs) \<Longrightarrow> units_bytes (bytes_units bs) = bs"
proof (induction bs rule: bytes_units.induct)
  case (1 lo hi bs)
  have "unat lo + 256 * unat hi < 65536" using unat_u8_lt [of lo] unat_u8_lt [of hi] by simp
  with 1 unat_u8_lt [of lo] show ?case by (simp add: units_bytes_def unit_bytes_def)
qed (simp_all add: units_bytes_def)

lemma those_None: "None \<in> set xs \<Longrightarrow> those xs = None"
  by (induction xs) (auto split: option.splits)

lemma utf16_to_utf8_items_fails:
  assumes "utf16_to_utf8_items items r sz dst = (x, d)" and "\<not> is_ok x"
  shows "x = Err ''invalid utf16 encoding'' \<and> None \<in> set (map fst items)"
  using assms
  by (induction items r sz dst rule: utf16_to_utf8_items.induct) (auto simp: Let_def split: if_splits)

section \<open>Properties\<close>

text \<open>
  C36: Transcoding UTF-16 to UTF-8, even partially, never writes a malformed string
  and never loses or splits a character.  On regions that do not touch the call
  does not panic, and it fails only on a malformed source.  When it returns, the
  code units read and the bytes written are complete encodings of the same
  characters, the rest of the destination is as it was, and it stopped before the
  end of the source only with less than four bytes left.
\<close>

theorem utf16_to_utf8_well_formed:
  assumes "assert_no_overlap 2 src 1 dst = Ok ()"
  shows "case utf16_to_utf8 src dst of
      (Ok sz, d) \<Rightarrow> (\<exists>s. from_utf16 (take (src_read sz) (rg_items src)) = Some s \<and> from_utf8 (take (dst_written sz) d) = Some s) \<and>
        length d = length (rg_items dst) \<and> drop (dst_written sz) d = drop (dst_written sz) (rg_items dst) \<and>
        (src_read sz < length (rg_items src) \<longrightarrow> length d - dst_written sz < 4)
    | (Err e, d) \<Rightarrow> from_utf16 (rg_items src) = None
    | (Panic p, d) \<Rightarrow> False"
proof (cases "utf16_to_utf8 src dst")
  case (Pair x d)
  show ?thesis
  proof (cases "is_ok x")
    case True
    then obtain sz where "x = Ok sz" by (cases x) auto
    with Pair utf16_to_utf8_returned [of src dst sz d] show ?thesis by auto
  next
    case False
    from Pair assms have "utf16_to_utf8_items (decode_utf16 (rg_items src)) 0 \<lparr>src_read = 0, dst_written = 0\<rparr> (rg_items dst) = (x, d)"
      by (simp add: utf16_to_utf8_def)
    from utf16_to_utf8_items_fails [OF this False]
    have "x = Err ''invalid utf16 encoding''" "from_utf16 (rg_items src) = None" unfolding from_utf16_def using those_None by blast+
    with Pair show ?thesis by simp
  qed
qed

theorem utf16_to_utf8_well_formed_witness:
  "utf16_to_utf8 \<lparr>rg_ptr = 0, rg_items = [0x68, 0x3A9, 0x21]\<rparr> \<lparr>rg_ptr = 100, rg_items = [0, 0, 0]\<rparr> =
     (Ok \<lparr>src_read = 2, dst_written = 3\<rparr>, [0x68, 0xCE, 0xA9]) \<and>
   (\<exists>s. from_utf16 [0x68, 0x3A9] = Some s \<and> from_utf8 [0x68, 0xCE, 0xA9] = Some s)"
proof -
  let ?src = "\<lparr>rg_ptr = 0, rg_items = [0x68, 0x3A9, 0x21]\<rparr>" and ?dst = "\<lparr>rg_ptr = 100, rg_items = [0, 0, 0]\<rparr>"
  have r: "utf16_to_utf8 ?src ?dst = (Ok \<lparr>src_read = 2, dst_written = 3\<rparr>, [0x68, 0xCE, 0xA9])"
    by (simp add: utf16_to_utf8_def assert_no_overlap_def encode_utf8_def len_utf8_def overwrite_def as_u8_def Let_def)
  have "assert_no_overlap 2 ?src 1 ?dst = Ok ()" by (simp add: assert_no_overlap_def)
  from utf16_to_utf8_well_formed [OF this] r show ?thesis by simp
qed

text \<open>
  C35: The two ways to transcode UTF-16 into the compact encoding agree.  One pass
  that expects UTF-16 and deflates the result, and the pass that expects Latin-1
  followed, at the first character outside of it, by inflating in place and
  transcoding the rest, decide alike whether the string is Latin-1.  They end with
  the same bytes, the Latin-1 string, or with the same code units, those of the
  source.
\<close>

theorem utf16_to_compact_agree:
  fixes us :: "u16 list"
  assumes "from_utf16 us = Some s"
    and "assert_no_overlap 2 \<lparr>rg_ptr = p, rg_items = us\<rparr> 2 \<lparr>rg_ptr = q1, rg_items = d1\<rparr> = Ok ()" and "length d1 = length us"
    and "assert_no_overlap 2 \<lparr>rg_ptr = p, rg_items = us\<rparr> 1 \<lparr>rg_ptr = q2, rg_items = d2\<rparr> = Ok ()" and "length d2 = length us"
    and "utf16_to_compact_probably_utf16 \<lparr>rg_ptr = p, rg_items = us\<rparr> \<lparr>rg_ptr = q1, rg_items = d1\<rparr> = (r1, e1)"
    and "utf16_to_latin1 \<lparr>rg_ptr = p, rg_items = us\<rparr> \<lparr>rg_ptr = q2, rg_items = d2\<rparr> = (r2, e2)"
    and "r2 = Ok \<lparr>src_read = n, dst_written = n\<rparr>"
    and "assert_no_overlap 2 \<lparr>rg_ptr = p + 2 * n, rg_items = drop n us\<rparr> 2 \<lparr>rg_ptr = q3, rg_items = d3\<rparr> = Ok ()"
    and "length d3 = length us" and "take n (units_bytes d3) = take n e2"
    and "utf16_to_compact_utf16 \<lparr>rg_ptr = p + 2 * n, rg_items = drop n us\<rparr> \<lparr>rg_ptr = q3, rg_items = d3\<rparr> n = (r3, e3)"
  shows "if n = length us
    then r1 = Ok n \<and> from_latin1 e2 = Some s \<and> take n (units_bytes e1) = e2
    else r1 = Ok (length us OR UTF16_TAG) \<and> r3 = Ok (length us) \<and> e1 = us \<and> e3 = us"
proof -
  have s: "list_all is_char s" "us = str_units s" using assms(1) by (simp_all add: from_utf16_units)
  have two: "n = length (takeWhile is_latin1 s)" "e2 = overwrite 0 (map as_u8 (takeWhile is_latin1 s)) d2"
    using utf16_to_latin1_eq [OF assms(1,4) _ refl] assms(5,7,8) by auto
  then have "take n e2 = map as_u8 (takeWhile is_latin1 s)" by (simp add: overwrite_def)
  then have three: "r3 = Ok (length us)" "e3 = us"
    using utf16_to_compact_utf16_eq [OF assms(1) two(1) assms(9,10)] assms(11,12) by auto
  note one = utf16_to_compact_probably_eq [OF assms(1,3,2), unfolded assms(6)]
  show ?thesis
  proof (cases "list_all is_latin1 s")
    case True
    then have l: "n = length us" "takeWhile is_latin1 s = s" using takeWhile_latin1_all [OF s(1)] two(1) s(2) by (auto simp: list_all_iff)
    have "length s = length us" using l two(1) by simp
    moreover have "e2 = map as_u8 s" using two(2) l assms(5) \<open>length s = length us\<close> by (simp add: overwrite_all)
    moreover have "map (unat \<circ> as_u8) s = s" using True by (auto simp: list_all_iff intro: map_idI)
    ultimately show ?thesis using one True l by (auto simp: from_latin1_def units_bytes_inverse)
  next
    case False
    then show ?thesis using one three takeWhile_latin1_all [OF s(1)] two(1) s(2) by auto
  qed
qed

theorem utf16_to_compact_agree_witness:
  "utf16_to_compact_probably_utf16 \<lparr>rg_ptr = 0, rg_items = [0x68, 0x3A9]\<rparr> \<lparr>rg_ptr = 100, rg_items = [0, 0]\<rparr> =
     (Ok (2 OR UTF16_TAG), [0x68, 0x3A9]) \<and>
   utf16_to_compact_utf16 \<lparr>rg_ptr = 2, rg_items = [0x3A9]\<rparr> \<lparr>rg_ptr = 200, rg_items = [0x68, 0]\<rparr> 1 = (Ok 2, [0x68, 0x3A9])"
proof -
  let ?us = "[0x68, 0x3A9] :: u16 list"
  have v: "from_utf16 ?us = Some [0x68, 0x3A9]" by (simp add: from_utf16_def)
  have l: "utf16_to_latin1 \<lparr>rg_ptr = 0, rg_items = ?us\<rparr> \<lparr>rg_ptr = 100, rg_items = [0, 0]\<rparr> = (Ok \<lparr>src_read = 1, dst_written = 1\<rparr>, [0x68, 0])"
    by (simp add: utf16_to_latin1_def assert_no_overlap_def as_u8_def)
  obtain r1 e1 where a: "utf16_to_compact_probably_utf16 \<lparr>rg_ptr = 0, rg_items = ?us\<rparr> \<lparr>rg_ptr = 100, rg_items = [0, 0]\<rparr> = (r1, e1)"
    by fastforce
  obtain r3 e3 where b: "utf16_to_compact_utf16 \<lparr>rg_ptr = 0 + 2 * 1, rg_items = drop 1 ?us\<rparr> \<lparr>rg_ptr = 200, rg_items = [0x68, 0]\<rparr> 1 = (r3, e3)"
    by fastforce
  have "if 1 = length ?us then r1 = Ok 1 \<and> from_latin1 [0x68, 0] = Some [0x68, 0x3A9] \<and> take 1 (units_bytes e1) = [0x68, 0]
    else r1 = Ok (length ?us OR UTF16_TAG) \<and> r3 = Ok (length ?us) \<and> e1 = ?us \<and> e3 = ?us"
    by (rule utf16_to_compact_agree [OF v _ _ _ _ a l refl _ _ _ b])
       (simp_all add: assert_no_overlap_def units_bytes_def unit_bytes_def as_u8_def)
  with a b show ?thesis by (simp add: numeral_2_eq_2)
qed

end
