(* ===== verification/Strings.thy ===== *)
theory Strings
  imports Transcode
begin

unbundle bit_operations_syntax

text \<open>
  Strings that cross the boundary between the host and a component,
  \<open>component/func/typed.rs\<close> with the allocation of \<open>component/func/options.rs\<close>:
  lowering a host string into the linear memory of a guest, in the encoding its
  canonical options ask for, and lifting a string of the guest.  The guest's
  \<open>realloc\<close> is a parameter, which may move and grow the memory.
\<close>

section \<open>Allocation\<close>

type_synonym memory = "u8 list"
type_synonym guest_realloc = "nat \<Rightarrow> nat \<Rightarrow> nat \<Rightarrow> nat \<Rightarrow> memory \<Rightarrow> (string, nat, memory) result"

record lower_context =
  lc_string_encoding :: string_encoding
  lc_realloc :: "guest_realloc option"
  lc_allow_realloc :: bool

definition MAX_STRING_BYTE_LENGTH :: nat where
  "MAX_STRING_BYTE_LENGTH = 2 ^ 31 - 1"

definition usize_max :: nat where
  "usize_max = 2 ^ 64 - 1"

definition usize_checked_mul :: "nat \<Rightarrow> nat \<Rightarrow> nat option" where
  "usize_checked_mul a b = (if a * b \<le> usize_max then Some (a * b) else None)"

definition usize_checked_add :: "nat \<Rightarrow> nat \<Rightarrow> nat option" where
  "usize_checked_add a b = (if a + b \<le> usize_max then Some (a + b) else None)"

definition options_realloc :: "guest_realloc option \<Rightarrow> nat \<Rightarrow> nat \<Rightarrow> nat \<Rightarrow> nat \<Rightarrow> memory \<Rightarrow> (string, nat, memory) result" where
  "options_realloc realloc old old_size old_align new_size mem = (case realloc of
      None \<Rightarrow> (Panic ''unwrap on None'', mem)
    | Some realloc \<Rightarrow>
        (if u32_max < old \<or> u32_max < old_size \<or> u32_max < new_size
         then (Err ''out of range integral type conversion attempted'', mem)
         else and_then (realloc old old_size old_align new_size mem) (\<lambda>ptr mem.
           if ptr mod old_align \<noteq> 0 then (Err ''realloc return: result not aligned'', mem)
           else if sub_slice ptr new_size mem = None then (Err ''realloc return: beyond end of memory'', mem)
           else (Ok ptr, mem))))"

definition lower_realloc :: "lower_context \<Rightarrow> nat \<Rightarrow> nat \<Rightarrow> nat \<Rightarrow> nat \<Rightarrow> memory \<Rightarrow> (string, nat, memory) result" where
  "lower_realloc cx old old_size old_align new_size mem =
     (if lc_allow_realloc cx then options_realloc (lc_realloc cx) old old_size old_align new_size mem
      else (Panic ''assertion failed: self.allow_realloc'', mem))"

text \<open>What a function does to the slice \<open>mem[ptr..][..n]\<close>.\<close>

definition on_slice :: "nat \<Rightarrow> nat \<Rightarrow> (memory \<Rightarrow> memory) \<Rightarrow> memory \<Rightarrow> ('e, unit, memory) result" where
  "on_slice ptr n f mem = (case sub_slice ptr n mem of
      None \<Rightarrow> (Panic ''range end index out of range for slice'', mem)
    | Some sl \<Rightarrow> (Ok (), overwrite ptr (f sl) mem))"


section \<open>Lowering\<close>

definition lower_utf8 :: "lower_context \<Rightarrow> ustr \<Rightarrow> memory \<Rightarrow> (string, nat \<times> nat, memory) result" where
  "lower_utf8 cx s mem = (let bytes = str_bytes s; len = length bytes in
     if MAX_STRING_BYTE_LENGTH < len then (Err ''string length too large to copy into wasm'', mem)
     else and_then (lower_realloc cx 0 0 1 len mem) (\<lambda>ptr mem.
       and_then (on_slice ptr len (\<lambda>_. bytes) mem) (\<lambda>_ mem. (Ok (ptr, len), mem))))"

text \<open>The code units that are paired with the two-byte chunks of a slice, and copied there.\<close>

definition zip_chunks :: "u16 list \<Rightarrow> memory \<Rightarrow> u16 list" where
  "zip_chunks us sl = take ((length sl + 1) div 2) us"

definition copy_units :: "u16 list \<Rightarrow> memory \<Rightarrow> memory" where
  "copy_units us sl = overwrite 0 (units_bytes (zip_chunks us sl)) sl"

definition lower_utf16 :: "lower_context \<Rightarrow> ustr \<Rightarrow> memory \<Rightarrow> (string, nat \<times> nat, memory) result" where
  "lower_utf16 cx s mem = (let sz = length (str_bytes s) * 2 in
     if MAX_STRING_BYTE_LENGTH < sz then (Err ''string length too large to copy into wasm'', mem)
     else and_then (lower_realloc cx 0 0 2 sz mem) (\<lambda>ptr mem.
       and_then (on_slice ptr sz (copy_units (str_units s)) mem) (\<lambda>_ mem.
       let copied = length (zip_chunks (str_units s) (take sz (drop ptr mem))) in
       and_then (if copied * 2 < sz then lower_realloc cx ptr sz 2 (copied * 2) mem else (Ok ptr, mem)) (\<lambda>ptr mem.
       (Ok (ptr, copied), mem)))))"

text \<open>
  Once a character does not fit into Latin-1, the allocation grows to the worst
  case, what was written is inflated, and the rest is encoded behind it.
\<close>

definition lower_rest_utf16 :: "lower_context \<Rightarrow> nat \<Rightarrow> ustr \<Rightarrow> nat \<Rightarrow> nat \<Rightarrow> memory \<Rightarrow> (string, nat \<times> nat, memory) result" where
  "lower_rest_utf16 cx len rest written ptr mem =
     and_then (ok_or ''byte length overflow'' (usize_checked_mul len 2), mem) (\<lambda>worst_case mem.
     if MAX_STRING_BYTE_LENGTH < worst_case then (Err ''byte length too large'', mem)
     else and_then (lower_realloc cx ptr len 2 worst_case mem) (\<lambda>ptr mem.
       and_then (on_slice ptr worst_case (inflate_down written) mem) (\<lambda>_ mem.
       and_then (on_slice (ptr + 2 * written) (worst_case - 2 * written) (copy_units (str_units rest)) mem) (\<lambda>_ mem.
       let total_units = written + length (zip_chunks (str_units rest) (take (worst_case - 2 * written) (drop (ptr + 2 * written) mem))) in
       and_then (if 2 * total_units < worst_case then lower_realloc cx ptr worst_case 2 (2 * total_units) mem else (Ok ptr, mem)) (\<lambda>ptr mem.
       (Ok (ptr, total_units OR UTF16_TAG), mem))))))"

fun lower_latin1 :: "lower_context \<Rightarrow> nat \<Rightarrow> ustr \<Rightarrow> nat \<Rightarrow> nat \<Rightarrow> memory \<Rightarrow> (string, nat \<times> nat, memory) result" where
  "lower_latin1 cx len [] written ptr mem =
     and_then (if written < len then lower_realloc cx ptr len 2 written mem else (Ok ptr, mem)) (\<lambda>ptr mem.
     (Ok (ptr, written), mem))"
| "lower_latin1 cx len (ch # rest) written ptr mem =
     (if is_latin1 ch
      then (if written < len then lower_latin1 cx len rest (Suc written) ptr (mem[ptr + written := as_u8 ch])
            else (Panic ''index out of bounds'', mem))
      else lower_rest_utf16 cx len (ch # rest) written ptr mem)"

definition lower_compact :: "lower_context \<Rightarrow> ustr \<Rightarrow> memory \<Rightarrow> (string, nat \<times> nat, memory) result" where
  "lower_compact cx s mem = (let len = length (str_bytes s) in
     and_then (lower_realloc cx 0 0 2 len mem) (\<lambda>ptr mem. lower_latin1 cx len s 0 ptr mem))"

definition lower_string :: "lower_context \<Rightarrow> ustr \<Rightarrow> memory \<Rightarrow> (string, nat \<times> nat, memory) result" where
  "lower_string cx s mem = (case lc_string_encoding cx of
      Utf8 \<Rightarrow> lower_utf8 cx s mem
    | Utf16 \<Rightarrow> lower_utf16 cx s mem
    | CompactUtf16 \<Rightarrow> lower_compact cx s mem)"

text \<open>The pointer and the length, stored as two words of 32 bits.\<close>

definition u32_le_bytes :: "nat \<Rightarrow> u8 list" where
  "u32_le_bytes n = map (\<lambda>i. as_u8 (n div 256 ^ i mod 256)) [0..<4]"

definition put_u32 :: "nat \<Rightarrow> nat \<Rightarrow> memory \<Rightarrow> (string, unit, memory) result" where
  "put_u32 offset n mem = (case u32_try_from n of
      None \<Rightarrow> (Panic ''unwrap on Err'', mem)
    | Some n \<Rightarrow> on_slice offset 4 (\<lambda>_. u32_le_bytes n) mem)"

definition str_linear_lower_to_memory :: "lower_context \<Rightarrow> ustr \<Rightarrow> nat \<Rightarrow> memory \<Rightarrow> (string, unit, memory) result" where
  "str_linear_lower_to_memory cx s offset mem =
     (if offset mod 4 \<noteq> 0 then (Panic ''assertion failed: offset % (Self::ALIGN32 as usize) == 0'', mem)
      else and_then (lower_string cx s mem) (\<lambda>(ptr, len) mem.
        and_then (put_u32 offset ptr mem) (\<lambda>_ mem. put_u32 (offset + 4) len mem)))"


section \<open>Lifting\<close>

record wasm_str =
  wstr_ptr :: nat
  wstr_len :: nat
  wstr_encoding :: string_encoding

definition wasm_str_byte_len :: "string_encoding \<Rightarrow> nat \<Rightarrow> nat option" where
  "wasm_str_byte_len enc len = (case enc of
      Utf8 \<Rightarrow> Some len
    | Utf16 \<Rightarrow> usize_checked_mul len 2
    | CompactUtf16 \<Rightarrow> if len AND UTF16_TAG = 0 then Some len else usize_checked_mul (len XOR UTF16_TAG) 2)"

definition wasm_str_new :: "string_encoding \<Rightarrow> nat \<Rightarrow> nat \<Rightarrow> memory \<Rightarrow> (string, wasm_str) outcome" where
  "wasm_str_new enc ptr len mem = (case Option.bind (wasm_str_byte_len enc len) (usize_checked_add ptr) of
      Some n \<Rightarrow>
        if n \<le> length mem then Ok \<lparr>wstr_ptr = ptr, wstr_len = len, wstr_encoding = enc\<rparr>
        else Err ''string pointer/length out of bounds of memory''
    | None \<Rightarrow> Err ''string pointer/length out of bounds of memory'')"

definition slice_of :: "nat \<Rightarrow> nat \<Rightarrow> memory \<Rightarrow> ('e, memory) outcome" where
  "slice_of ptr n mem = (case sub_slice ptr n mem of
      None \<Rightarrow> Panic ''range end index out of range for slice'' | Some sl \<Rightarrow> Ok sl)"

definition wasm_str_decode_utf8 :: "wasm_str \<Rightarrow> memory \<Rightarrow> (string, ustr) outcome" where
  "wasm_str_decode_utf8 w mem =
     and_then_pure (slice_of (wstr_ptr w) (wstr_len w) mem) (\<lambda>sl. ok_or ''invalid utf-8 sequence'' (from_utf8 sl))"

definition wasm_str_decode_utf16 :: "wasm_str \<Rightarrow> memory \<Rightarrow> nat \<Rightarrow> (string, ustr) outcome" where
  "wasm_str_decode_utf16 w mem len =
     and_then_pure (slice_of (wstr_ptr w) (len * 2) mem) (\<lambda>sl.
     ok_or ''unpaired surrogate found'' (from_utf16 (bytes_units sl)))"

definition wasm_str_decode_latin1 :: "encoding_rs \<Rightarrow> wasm_str \<Rightarrow> memory \<Rightarrow> (string, ustr) outcome" where
  "wasm_str_decode_latin1 er w mem =
     and_then_pure (slice_of (wstr_ptr w) (wstr_len w) mem) (\<lambda>sl. Ok (er_decode_latin1 er sl))"

definition to_str_from_memory :: "encoding_rs \<Rightarrow> wasm_str \<Rightarrow> memory \<Rightarrow> (string, ustr) outcome" where
  "to_str_from_memory er w mem = (case wstr_encoding w of
      Utf8 \<Rightarrow> wasm_str_decode_utf8 w mem
    | Utf16 \<Rightarrow> wasm_str_decode_utf16 w mem (wstr_len w)
    | CompactUtf16 \<Rightarrow>
        if wstr_len w AND UTF16_TAG = 0 then wasm_str_decode_latin1 er w mem
        else wasm_str_decode_utf16 w mem (wstr_len w XOR UTF16_TAG))"



section \<open>Tagged lengths\<close>

lemma tag_bit: "bit UTF16_TAG k \<longleftrightarrow> k = 31"
  unfolding UTF16_TAG_def bit_exp_iff by (auto simp: possible_bit_def)

lemma small_bit: "n < UTF16_TAG \<Longrightarrow> \<not> bit n 31"
  by (simp add: UTF16_TAG_def bit_iff_odd)

lemma untagged: "n < UTF16_TAG \<Longrightarrow> n AND UTF16_TAG = (0 :: nat)"
  by (rule bit_eqI) (auto simp: bit_and_iff tag_bit dest: small_bit)

lemma tagged: "n < UTF16_TAG \<Longrightarrow> (n OR UTF16_TAG) AND UTF16_TAG = UTF16_TAG" "n < UTF16_TAG \<Longrightarrow> (n OR UTF16_TAG) XOR UTF16_TAG = (n :: nat)"
  by (rule bit_eqI, auto simp: bit_and_iff bit_or_iff bit_xor_iff tag_bit dest: small_bit)+

lemma UTF16_TAG_pos [simp]: "UTF16_TAG \<noteq> 0"
  by (simp add: UTF16_TAG_def)


section \<open>Sizes of encodings\<close>

lemma str_append: "str_bytes (s @ t) = str_bytes s @ str_bytes t" "str_units (s @ t) = str_units s @ str_units t"
  by (simp_all add: str_bytes_def str_units_def)

lemma units_le_bytes: "length (str_units s) \<le> length (str_bytes s)"
  by (induction s) (auto simp: str_bytes_def str_units_def encode_utf8_def encode_utf16_def)

lemma chars_le_bytes: "length s \<le> length (str_bytes s)"
  by (induction s) (auto simp: str_bytes_def encode_utf8_def)

section \<open>Allocation\<close>

text \<open>
  A guest's \<open>realloc\<close> as the canonical ABI wants it: it returns an aligned block
  of the new size inside of the memory and keeps the contents of the old block.
\<close>

definition realloc_ok :: "guest_realloc \<Rightarrow> bool" where
  "realloc_ok f \<longleftrightarrow> (\<forall>old old_size align new_size mem. 0 < align \<longrightarrow> old + old_size \<le> length mem \<longrightarrow> new_size \<le> u32_max \<longrightarrow>
     (\<exists>ptr mem'. f old old_size align new_size mem = (Ok ptr, mem') \<and> ptr mod align = 0 \<and> ptr \<le> u32_max \<and>
        ptr + new_size \<le> length mem' \<and>
        take (min old_size new_size) (drop ptr mem') = take (min old_size new_size) (drop old mem)))"

definition lower_ok :: "lower_context \<Rightarrow> bool" where
  "lower_ok cx \<longleftrightarrow> lc_allow_realloc cx \<and> (\<exists>f. lc_realloc cx = Some f \<and> realloc_ok f)"

lemma lower_realloc_ok:
  assumes "lower_ok cx" "0 < align" "old \<le> u32_max" "old_size \<le> u32_max" "new_size \<le> u32_max" "old + old_size \<le> length mem"
  obtains ptr mem' where "lower_realloc cx old old_size align new_size mem = (Ok ptr, mem')" "ptr \<le> u32_max"
    "ptr + new_size \<le> length mem'" "take (min old_size new_size) (drop ptr mem') = take (min old_size new_size) (drop old mem)"
proof -
  from assms(1) obtain f where f: "lc_allow_realloc cx" "lc_realloc cx = Some f" "realloc_ok f" by (auto simp: lower_ok_def)
  from f(3) [unfolded realloc_ok_def, rule_format, OF assms(2,6,5)] obtain ptr mem' where "f old old_size align new_size mem = (Ok ptr, mem')" "ptr mod align = 0"
    "ptr \<le> u32_max" "ptr + new_size \<le> length mem'"
    "take (min old_size new_size) (drop ptr mem') = take (min old_size new_size) (drop old mem)"
    by (elim exE conjE)
  with f assms(3-5) show thesis
    by (intro that [of ptr mem']) (simp_all add: lower_realloc_def options_realloc_def sub_slice_def)
qed

lemma on_slice_ok: "ptr + n \<le> length mem \<Longrightarrow> on_slice ptr n f mem = (Ok (), overwrite ptr (f (take n (drop ptr mem))) mem)"
  by (simp add: on_slice_def sub_slice_def)

text \<open>A lowered string is lifted to what it was.\<close>

definition lifts :: "encoding_rs \<Rightarrow> string_encoding \<Rightarrow> nat \<times> nat \<Rightarrow> memory \<Rightarrow> ustr \<Rightarrow> bool" where
  "lifts er enc pl mem s \<longleftrightarrow> (\<exists>w. wasm_str_new enc (fst pl) (snd pl) mem = Ok w \<and> to_str_from_memory er w mem = Ok s)"

lemma lifts_utf8:
  assumes "list_all is_char s" "take (length (str_bytes s)) (drop ptr mem) = str_bytes s" "ptr + length (str_bytes s) \<le> length mem"
    "ptr \<le> u32_max" "length (str_bytes s) \<le> u32_max"
  shows "lifts er Utf8 (ptr, length (str_bytes s)) mem s"
  using assms from_utf8_bytes [of "str_bytes s" s]
  by (simp add: lifts_def wasm_str_new_def wasm_str_byte_len_def usize_checked_add_def usize_max_def u32_max_def
      to_str_from_memory_def wasm_str_decode_utf8_def slice_of_def sub_slice_def)

lemma lifts_units:
  assumes "list_all is_char s" "take (2 * n) (drop ptr mem) = units_bytes (str_units s)" "n = length (str_units s)" "ptr + 2 * n \<le> length mem"
    "ptr \<le> u32_max" "n < UTF16_TAG"
  shows "lifts er Utf16 (ptr, n) mem s" and "lifts er CompactUtf16 (ptr, n OR UTF16_TAG) mem s"
proof -
  have b: "bytes_units (units_bytes (str_units s)) = str_units s" using bytes_units_inverse [of "str_units s" "[]"] by simp
  have m: "usize_checked_mul n 2 = Some (2 * n)" "usize_checked_add ptr (2 * n) = Some (ptr + 2 * n)"
    using assms(5,6) by (simp_all add: usize_checked_mul_def usize_checked_add_def usize_max_def u32_max_def UTF16_TAG_def)
  have d: "wasm_str_decode_utf16 w mem n = Ok s" if "wstr_ptr w = ptr" for w
    using that assms(1,2,4) b from_utf16_units [of "str_units s" s]
    by (simp add: wasm_str_decode_utf16_def slice_of_def sub_slice_def mult.commute)
  show "lifts er Utf16 (ptr, n) mem s" using assms(4) m d
    by (simp add: lifts_def wasm_str_new_def wasm_str_byte_len_def to_str_from_memory_def)
  show "lifts er CompactUtf16 (ptr, n OR UTF16_TAG) mem s" using assms(4,6) m d tagged [of n]
    by (simp add: lifts_def wasm_str_new_def wasm_str_byte_len_def to_str_from_memory_def)
qed

lemma lifts_latin1:
  assumes "list_all is_latin1 s" "take (length s) (drop ptr mem) = map as_u8 s" "ptr + length s \<le> length mem" "ptr \<le> u32_max" "length s < UTF16_TAG"
    and "er_decode_latin1 er (map as_u8 s) = map unat (map as_u8 s)"
  shows "lifts er CompactUtf16 (ptr, length s) mem s"
proof -
  have "map unat (map as_u8 s) = s" using assms(1) by (auto simp: list_all_iff intro: map_idI)
  moreover have "ptr + length s \<le> usize_max" using assms(4,5) by (simp add: usize_max_def u32_max_def UTF16_TAG_def)
  ultimately show ?thesis using assms(2-6) untagged [of "length s"]
    by (simp add: lifts_def wasm_str_new_def wasm_str_byte_len_def usize_checked_add_def to_str_from_memory_def
        wasm_str_decode_latin1_def slice_of_def sub_slice_def)
qed

section \<open>Lowering returns, and what it wrote\<close>

lemma overwrite_replace:
  "length ys = length zs \<Longrightarrow> a \<le> length mem \<Longrightarrow> overwrite (a + length xs) ys (overwrite a (xs @ zs) mem) = overwrite a (xs @ ys) mem"
  by (simp add: overwrite_def)

lemma take_overwritten:
  "a + length xs \<le> length mem \<Longrightarrow> k \<le> length xs \<Longrightarrow> take k (drop a (overwrite a xs mem)) = take k xs"
  by (simp add: overwrite_def)

lemma copy_units_ok:
  assumes "length us \<le> n" and "length sl = 2 * n"
  shows "zip_chunks us sl = us" and "copy_units us sl = units_bytes us @ drop (2 * length us) sl"
  using assms by (simp_all add: zip_chunks_def copy_units_def overwrite_def)

lemma shrink_ok:
  assumes "lower_ok cx" "ptr \<le> u32_max" "ptr + sz \<le> length mem" "n \<le> sz" "sz \<le> u32_max"
  obtains ptr' mem' where "(if n < sz then lower_realloc cx ptr sz 2 n mem else (Ok ptr, mem)) = (Ok ptr', mem')" "ptr' \<le> u32_max"
    "ptr' + n \<le> length mem'" "take n (drop ptr' mem') = take n (drop ptr mem)"
proof (cases "n < sz")
  case True
  have "n \<le> u32_max" using assms(4,5) by simp
  from lower_realloc_ok [OF assms(1) _ assms(2,5) this assms(3), of 2] obtain ptr' mem' where
    "lower_realloc cx ptr sz 2 n mem = (Ok ptr', mem')" "ptr' \<le> u32_max" "ptr' + n \<le> length mem'"
    "take (min sz n) (drop ptr' mem') = take (min sz n) (drop ptr mem)" by auto
  with True that show thesis by (simp add: min_def)
next
  case False
  with assms that [of ptr mem] show thesis by simp
qed

lemma max_le: "n \<le> MAX_STRING_BYTE_LENGTH \<Longrightarrow> n \<le> u32_max" "n \<le> MAX_STRING_BYTE_LENGTH \<Longrightarrow> n < UTF16_TAG"
  by (simp_all add: MAX_STRING_BYTE_LENGTH_def u32_max_def UTF16_TAG_def)

lemma lower_utf8_ok:
  assumes ok: "lower_ok cx" and s: "list_all is_char s" and l: "length (str_bytes s) \<le> MAX_STRING_BYTE_LENGTH"
  shows "\<exists>pl mem'. lower_utf8 cx s mem = (Ok pl, mem') \<and> lifts er Utf8 pl mem' s"
proof -
  let ?b = "str_bytes s"
  obtain ptr m where m: "lower_realloc cx 0 0 1 (length ?b) mem = (Ok ptr, m)" "ptr \<le> u32_max" "ptr + length ?b \<le> length m"
    using lower_realloc_ok [OF ok, of 1 0 0 "length ?b" mem] max_le(1) [OF l] by auto
  then have "lower_utf8 cx s mem = (Ok (ptr, length ?b), overwrite ptr ?b m)"
    using l by (simp add: lower_utf8_def Let_def on_slice_ok)
  moreover have "lifts er Utf8 (ptr, length ?b) (overwrite ptr ?b m) s"
    using m s max_le(1) [OF l] by (intro lifts_utf8) (simp_all add: take_overwrite)
  ultimately show ?thesis by blast
qed

lemma lower_utf16_ok:
  assumes ok: "lower_ok cx" and s: "list_all is_char s" and l: "2 * length (str_bytes s) \<le> MAX_STRING_BYTE_LENGTH"
  shows "\<exists>pl mem'. lower_utf16 cx s mem = (Ok pl, mem') \<and> lifts er Utf16 pl mem' s"
proof -
  let ?n = "length (str_bytes s)" and ?u = "str_units s"
  have n: "length ?u \<le> ?n" by (rule units_le_bytes)
  obtain ptr m where m: "lower_realloc cx 0 0 2 (?n * 2) mem = (Ok ptr, m)" "ptr \<le> u32_max" "ptr + ?n * 2 \<le> length m"
    using lower_realloc_ok [OF ok, of 2 0 0 "?n * 2" mem] max_le(1) [OF l] by (auto simp: mult.commute)
  let ?sl = "take (?n * 2) (drop ptr m)"
  have sl: "length ?sl = 2 * ?n" using m(3) by simp
  note c = copy_units_ok [OF n sl]
  let ?m = "overwrite ptr (copy_units ?u ?sl) m"
  have lc: "length (copy_units ?u ?sl) = ?n * 2" using c(2) n sl by simp
  have m2: "take (?n * 2) (drop ptr ?m) = copy_units ?u ?sl" "length ?m = length m"
    using m(3) lc take_overwrite(2) [of ptr "copy_units ?u ?sl" m] by simp_all
  have z: "length (zip_chunks ?u (take (?n * 2) (drop ptr ?m))) = length ?u"
    using copy_units_ok(1) [OF n, of "take (?n * 2) (drop ptr ?m)"] m2(1) lc by simp
  obtain p m3 where r: "(if length ?u * 2 < ?n * 2 then lower_realloc cx ptr (?n * 2) 2 (length ?u * 2) ?m else (Ok ptr, ?m)) = (Ok p, m3)"
    "p \<le> u32_max" "p + length ?u * 2 \<le> length m3" "take (length ?u * 2) (drop p m3) = take (length ?u * 2) (drop ptr ?m)"
    using shrink_ok [OF ok m(2), of "?n * 2" ?m "length ?u * 2"] m(3) m2(2) n max_le(1) [OF l] by (auto simp: mult.commute)
  have "take (2 * length ?u) (drop p m3) = take (length ?u * 2) (take (?n * 2) (drop ptr ?m))"
    using r(4) n by (simp add: min_def mult.commute)
  also have "\<dots> = take (length ?u * 2) (copy_units ?u ?sl)" by (simp only: m2(1))
  also have "\<dots> = units_bytes ?u" unfolding c(2) by simp
  finally have t: "take (2 * length ?u) (drop p m3) = units_bytes ?u" .
  have "length ?u < UTF16_TAG" using max_le(2) [OF l] n by linarith
  then have "lifts er Utf16 (p, length ?u) m3 s"
    using r(2,3) s t by (intro lifts_units(1)) (simp_all add: mult.commute)
  moreover have "lower_utf16 cx s mem = (Ok (p, length ?u), m3)"
    using l m z r(1) by (auto simp: lower_utf16_def Let_def on_slice_ok mult.commute split: if_splits)
  ultimately show ?thesis by blast
qed

lemma inflated_units:
  "list_all is_latin1 p \<Longrightarrow> concat (map (\<lambda>b. [b, 0]) (map as_u8 p)) = units_bytes (str_units p)"
proof (induction p)
  case (Cons c p)
  then have "encode_utf16 c = [as_u16 c]" "c < 256" by (simp_all add: is_latin1_def encode_utf16_def)
  then have "units_bytes (encode_utf16 c) = [as_u8 c, 0]" by (simp add: units_bytes_def unit_bytes_def as_u8_def)
  with Cons show ?case by (simp add: str_units_def units_bytes_append)
qed (simp add: units_bytes_def str_units_def)

lemma lower_rest_utf16_ok:
  assumes ok: "lower_ok cx" and p: "list_all is_latin1 p" and r: "list_all is_char r" and l: "2 * len \<le> MAX_STRING_BYTE_LENGTH"
    and fit: "length p + length (str_units r) \<le> len" and mem: "ptr + len \<le> length mem" "ptr \<le> u32_max"
    and w: "take (length p) (drop ptr mem) = map as_u8 p"
  shows "\<exists>pl mem'. lower_rest_utf16 cx len r (length p) ptr mem = (Ok pl, mem') \<and> lifts er CompactUtf16 pl mem' (p @ r)"
proof -
  let ?u = "str_units r" and ?k = "length p" and ?t = "length p + length (str_units r)"
  have len: "len \<le> u32_max" "len * 2 \<le> u32_max" using max_le(1) [OF l] by simp_all
  have up: "length (str_units p) = ?k" using p by (induction p) (auto simp: str_units_def encode_utf16_def is_latin1_def)
  obtain q m where m: "lower_realloc cx ptr len 2 (len * 2) mem = (Ok q, m)" "q \<le> u32_max" "q + len * 2 \<le> length m"
    "take (min len (len * 2)) (drop q m) = take (min len (len * 2)) (drop ptr mem)"
    using lower_realloc_ok [OF ok _ mem(2) len mem(1), of 2] by auto
  define sl where "sl = take (len * 2) (drop q m)"
  have lsl: "length sl = len * 2" using m(3) by (simp add: sl_def)
  have "take ?k (take len (drop q m)) = take ?k (take len (drop ptr mem))" using m(4) by simp
  then have sl: "take ?k sl = map as_u8 p" using w fit by (simp add: sl_def min_def)
  define A B where "A = units_bytes (str_units p)" and "B = drop (2 * ?k) sl"
  have lA: "length A = 2 * ?k" "length B = len * 2 - 2 * ?k" "length A + length B = len * 2" using up lsl fit by (simp_all add: A_def B_def)
  have i: "inflate_down ?k sl = A @ B" using inflate_down_eq [of ?k sl] sl inflated_units [OF p] lsl fit by (simp add: A_def B_def)
  define m2 where "m2 = overwrite q (A @ B) m"
  have l2: "length m2 = length m" using m(3) lA by (simp add: m2_def)
  define s2 where "s2 = take (len * 2 - 2 * ?k) (drop (q + 2 * ?k) m2)"
  have l3: "length s2 = 2 * (len - ?k)" using l2 m(3) fit by (simp add: s2_def diff_mult_distrib2 mult.commute)
  have "length ?u \<le> len - ?k" using fit by simp
  note c = copy_units_ok [OF this l3]
  define C where "C = copy_units ?u s2"
  have lC: "length C = length B" using c(2) l3 lA(2) fit by (simp add: C_def diff_mult_distrib2 mult.commute)
  define m3 where "m3 = overwrite (q + 2 * ?k) C m2"
  have m3: "m3 = overwrite q (A @ C) m" using overwrite_replace [OF lC, of q m A] lA(1) m(3) by (simp add: m3_def m2_def)
  have l4: "length m3 = length m" using m(3) lA(3) lC by (simp add: m3)
  have z: "length (zip_chunks ?u (take (len * 2 - 2 * ?k) (drop (q + 2 * ?k) m3))) = length ?u"
    using copy_units_ok(1) [of ?u "len - ?k" "take (len * 2 - 2 * ?k) (drop (q + 2 * ?k) m3)"] l4 m(3) fit
    by (simp add: diff_mult_distrib2 mult.commute)
  obtain q' m' where s: "(if 2 * ?t < len * 2 then lower_realloc cx q (len * 2) 2 (2 * ?t) m3 else (Ok q, m3)) = (Ok q', m')"
    "q' \<le> u32_max" "q' + 2 * ?t \<le> length m'" "take (2 * ?t) (drop q' m') = take (2 * ?t) (drop q m3)"
    using shrink_ok [OF ok m(2), of "len * 2" m3 "2 * ?t"] l4 m(3) fit len(2) by auto
  have "take (2 * ?t) (drop q m3) = take (2 * ?t) (A @ C)"
    unfolding m3 using m(3) lA(3) lC fit by (intro take_overwritten) simp_all
  also have "\<dots> = units_bytes (str_units (p @ r))" using lA(1) c(2) by (simp add: C_def A_def str_append units_bytes_append)
  finally have t: "take (2 * ?t) (drop q' m') = units_bytes (str_units (p @ r))" using s(4) by simp
  have "?t < UTF16_TAG" using max_le(2) [OF l] fit by linarith
  moreover have "list_all is_char p" using p by (auto simp: list_all_iff latin1_char)
  ultimately have L: "lifts er CompactUtf16 (q', ?t OR UTF16_TAG) m' (p @ r)"
    using s(2,3) r t up by (intro lifts_units(2)) (simp_all add: str_append)
  have o1: "on_slice q (len * 2) (inflate_down ?k) m = (Ok (), m2)" using i by (simp add: on_slice_ok [OF m(3)] sl_def m2_def)
  have b2: "q + 2 * ?k + (len * 2 - 2 * ?k) \<le> length m2" using m(3) l2 fit by simp
  have o2: "on_slice (q + 2 * ?k) (len * 2 - 2 * ?k) (copy_units ?u) m2 = (Ok (), m3)"
    by (simp add: on_slice_ok [OF b2] s2_def C_def m3_def)
  have "usize_checked_mul len 2 = Some (len * 2)" using len by (simp add: usize_checked_mul_def usize_max_def u32_max_def)
  then have "lower_rest_utf16 cx len r ?k ptr mem = (Ok (q', ?t OR UTF16_TAG), m')"
    using l
    by (simp only: lower_rest_utf16_def Let_def ok_or.simps and_then_simps o1 o2 m(1) z s(1) not_less [symmetric] mult.commute [of 2 len] if_False)
  with L show ?thesis by blast
qed

lemma latin1_write:
  assumes "take (length p) (drop ptr mem) = map as_u8 p" and "ptr + length p < length mem"
  shows "take (length (p @ [c])) (drop ptr (mem[ptr + length p := as_u8 c])) = map as_u8 (p @ [c])"
proof -
  have "drop ptr (mem[ptr + length p := as_u8 c]) = (drop ptr mem)[length p := as_u8 c]" by (simp add: drop_update_swap)
  moreover have "take (Suc (length p)) ((drop ptr mem)[length p := as_u8 c]) = take (length p) (drop ptr mem) @ [as_u8 c]"
    using assms(2) by (simp add: take_Suc_conv_app_nth take_update_cancel)
  ultimately show ?thesis using assms(1) by simp
qed

lemma lower_latin1_ok:
  assumes "lower_ok cx" and "\<And>bs. er_decode_latin1 er bs = map unat bs" and "2 * len \<le> MAX_STRING_BYTE_LENGTH"
  shows "list_all is_latin1 p \<Longrightarrow> list_all is_char r \<Longrightarrow> length p + length (str_bytes r) \<le> len \<Longrightarrow> ptr + len \<le> length mem \<Longrightarrow>
    ptr \<le> u32_max \<Longrightarrow> take (length p) (drop ptr mem) = map as_u8 p \<Longrightarrow>
    \<exists>pl mem'. lower_latin1 cx len r (length p) ptr mem = (Ok pl, mem') \<and> lifts er CompactUtf16 pl mem' (p @ r)"
proof (induction r arbitrary: p mem)
  case Nil
  have l: "length p \<le> len" "len \<le> u32_max" "length p < UTF16_TAG" using Nil(3) max_le [OF assms(3)] by simp_all
  from shrink_ok [OF assms(1) Nil(5,4) l(1,2)] obtain q m' where
    s: "(if length p < len then lower_realloc cx ptr len 2 (length p) mem else (Ok ptr, mem)) = (Ok q, m')" "q \<le> u32_max"
      "q + length p \<le> length m'" "take (length p) (drop q m') = take (length p) (drop ptr mem)" .
  have "lower_latin1 cx len [] (length p) ptr mem = (Ok (q, length p), m')" by (simp only: lower_latin1.simps s(1) and_then_simps)
  moreover have "lifts er CompactUtf16 (q, length p) m' p"
    using Nil(1,6) s(2-4) l(3) assms(2) by (intro lifts_latin1) simp_all
  ultimately show ?case by auto
next
  case (Cons c r)
  show ?case
  proof (cases "is_latin1 c")
    case True
    have b: "length p < len" "length (p @ [c]) + length (str_bytes r) \<le> len" using Cons.prems(3)
      by (auto simp: str_bytes_def encode_utf8_def split: if_splits)
    show ?thesis
      using Cons.IH [of "p @ [c]" "mem[ptr + length p := as_u8 c]"] Cons.prems True b latin1_write [OF Cons.prems(6), of c] by simp
  next
    case False
    have "length p + length (str_units (c # r)) \<le> len" using Cons.prems(3) units_le_bytes [of "c # r"] by linarith
    from lower_rest_utf16_ok [OF assms(1) Cons.prems(1,2) assms(3) this Cons.prems(4-6)] False show ?thesis by simp
  qed
qed

lemma lower_compact_ok:
  assumes ok: "lower_ok cx" and er: "\<And>bs. er_decode_latin1 er bs = map unat bs"
    and s: "list_all is_char s" and l: "2 * length (str_bytes s) \<le> MAX_STRING_BYTE_LENGTH"
  shows "\<exists>pl mem'. lower_compact cx s mem = (Ok pl, mem') \<and> lifts er CompactUtf16 pl mem' s"
proof -
  let ?n = "length (str_bytes s)"
  have n: "?n \<le> u32_max" using max_le(1) [OF l] by simp
  obtain ptr m where m: "lower_realloc cx 0 0 2 ?n mem = (Ok ptr, m)" "ptr \<le> u32_max" "ptr + ?n \<le> length m"
    using lower_realloc_ok [OF ok, of 2 0 0 ?n mem] n by auto
  from lower_latin1_ok [OF ok er l, of "[]" s ptr m] s m show ?thesis by (simp add: lower_compact_def)
qed

text \<open>A \<open>realloc\<close> that meets the contract: every block starts at address zero.\<close>

definition example_realloc :: guest_realloc where
  "example_realloc old old_size align new_size mem =
     (Ok 0, take (min old_size new_size) (drop old mem) @ replicate (new_size - min old_size new_size) 0)"

definition example_lower :: "string_encoding \<Rightarrow> lower_context" where
  "example_lower enc = \<lparr>lc_string_encoding = enc, lc_realloc = Some example_realloc, lc_allow_realloc = True\<rparr>"

definition example_encoding_rs :: encoding_rs where
  "example_encoding_rs = \<lparr>er_convert_latin1_to_utf8_partial = \<lambda>_ dst. ((0, 0), dst), er_utf8_latin1_up_to = \<lambda>_. 0,
     er_convert_utf8_to_latin1_lossy = \<lambda>_ dst. (0, dst), er_decode_latin1 = map unat\<rparr>"

lemma example_lower_ok: "lower_ok (example_lower enc)"
  by (auto simp: lower_ok_def example_lower_def realloc_ok_def example_realloc_def)

section \<open>Properties\<close>

text \<open>
  C34: A string survives the way from the host into a component and back.  For every
  encoding of the guest and every string of at most a quarter of the address
  space, given a guest \<open>realloc\<close> that returns blocks as the canonical ABI asks,
  lowering returns a pointer and a length that lie inside of the memory, and
  lifting from there gives the same string.
\<close>

theorem lower_lift_string:
  assumes "lower_ok cx" and "\<And>bs. er_decode_latin1 er bs = map unat bs"
    and "list_all is_char s" and "2 * length (str_bytes s) \<le> MAX_STRING_BYTE_LENGTH"
  shows "\<exists>ptr len mem' w. lower_string cx s mem = (Ok (ptr, len), mem') \<and>
    wasm_str_new (lc_string_encoding cx) ptr len mem' = Ok w \<and> to_str_from_memory er w mem' = Ok s"
proof -
  have l: "length (str_bytes s) \<le> MAX_STRING_BYTE_LENGTH" using assms(4) by simp
  have "\<exists>pl mem'. lower_string cx s mem = (Ok pl, mem') \<and> lifts er (lc_string_encoding cx) pl mem' s"
    using lower_utf8_ok [OF assms(1,3) l] lower_utf16_ok [OF assms(1,3,4)] lower_compact_ok [OF assms]
    by (cases "lc_string_encoding cx") (simp_all add: lower_string_def)
  then show ?thesis by (auto simp: lifts_def)
qed

theorem lower_lift_string_witness:
  "\<exists>ptr len mem' w. lower_string (example_lower CompactUtf16) [0x68, 0x3A9, 0x1F600] [] = (Ok (ptr, len), mem') \<and>
    wasm_str_new CompactUtf16 ptr len mem' = Ok w \<and> to_str_from_memory example_encoding_rs w mem' = Ok [0x68, 0x3A9, 0x1F600]"
proof -
  have "er_decode_latin1 example_encoding_rs bs = map unat bs" for bs by (simp add: example_encoding_rs_def)
  moreover have "list_all is_char [0x68, 0x3A9, 0x1F600]" by (simp add: is_char_def)
  moreover have "2 * length (str_bytes [0x68, 0x3A9, 0x1F600]) \<le> MAX_STRING_BYTE_LENGTH"
    by (simp add: str_bytes_def encode_utf8_def MAX_STRING_BYTE_LENGTH_def)
  ultimately show ?thesis
    using lower_lift_string [OF example_lower_ok [of CompactUtf16], of example_encoding_rs "[0x68, 0x3A9, 0x1F600]" "[]"]
    by (simp add: example_lower_def)
qed

text \<open>
  The Latin-1 branch does not check the length.  A string of two to the power of
  31 ASCII characters is lowered to a length that reads as an empty UTF-16 string.
\<close>

lemma lower_latin1_ascii:
  "list_all (\<lambda>c. c < 0x80) r \<Longrightarrow> len = n + length r \<Longrightarrow> ptr + len \<le> length mem \<Longrightarrow>
   \<exists>mem'. lower_latin1 cx len r n ptr mem = (Ok (ptr, len), mem') \<and> length mem' = length mem"
proof (induction r arbitrary: n mem)
  case (Cons c r)
  from Cons.IH [of "Suc n" "mem[ptr + n := as_u8 c]"] Cons.prems show ?case by (auto simp: is_latin1_def)
qed simp

theorem lower_latin1_length_tagged:
  assumes "lower_ok cx" and "lc_string_encoding cx = CompactUtf16"
    and "list_all (\<lambda>c. c < 0x80) s" and "length s = UTF16_TAG"
  shows "\<exists>ptr mem' w. lower_string cx s mem = (Ok (ptr, UTF16_TAG), mem') \<and>
    wasm_str_new CompactUtf16 ptr UTF16_TAG mem' = Ok w \<and> to_str_from_memory er w mem' = Ok []"
proof -
  have b: "length (str_bytes s) = UTF16_TAG"
    unfolding assms(4) [symmetric] using assms(3) by (induction s) (simp_all add: str_bytes_def encode_utf8_def)
  have u: "UTF16_TAG \<le> u32_max" by (simp add: UTF16_TAG_def u32_max_def)
  obtain ptr m where m: "lower_realloc cx 0 0 2 UTF16_TAG mem = (Ok ptr, m)" "ptr \<le> u32_max" "ptr + UTF16_TAG \<le> length m"
    using lower_realloc_ok [OF assms(1), of 2 0 0 UTF16_TAG mem] u by auto
  from lower_latin1_ascii [OF assms(3), of UTF16_TAG 0 ptr m cx] m(3) assms(4) obtain m' where
    m': "lower_latin1 cx UTF16_TAG s 0 ptr m = (Ok (ptr, UTF16_TAG), m')" "length m' = length m" by auto
  have "ptr \<le> usize_max" "ptr \<le> length m'" using m(2,3) m'(2) by (simp_all add: usize_max_def u32_max_def)
  then have "wasm_str_new CompactUtf16 ptr UTF16_TAG m' = Ok \<lparr>wstr_ptr = ptr, wstr_len = UTF16_TAG, wstr_encoding = CompactUtf16\<rparr>"
    "to_str_from_memory er \<lparr>wstr_ptr = ptr, wstr_len = UTF16_TAG, wstr_encoding = CompactUtf16\<rparr> m' = Ok []"
    by (simp_all add: wasm_str_new_def wasm_str_byte_len_def usize_checked_mul_def usize_checked_add_def
        to_str_from_memory_def wasm_str_decode_utf16_def slice_of_def sub_slice_def from_utf16_def)
  moreover have "lower_string cx s mem = (Ok (ptr, UTF16_TAG), m')"
    using assms(2) b m(1) m'(1) by (simp add: lower_string_def lower_compact_def Let_def)
  ultimately show ?thesis by blast
qed

end
