(* ===== verification/Error_Contexts.thy ===== *)
theory Error_Contexts
  imports Transmit_Steps Strings
begin

text \<open>
  Error contexts, \<open>concurrent/futures_and_streams.rs\<close> and
  \<open>concurrent/error_contexts.rs\<close>: an error context is an entry of the table of the
  concurrent state; a component instance holds it through a handle with a local
  reference count, and the sum of those is a global count.  What they promise is a
  multiset of references: creating and transferring add one, dropping removes one,
  and the context lives as long as there is a reference.
\<close>

section \<open>Operations\<close>

text \<open>\<open>error_context_tables.get_mut(ty)\<close>, with an error where there is none.\<close>

definition in_error_contexts ::
    "nat \<Rightarrow> (nat state_table \<Rightarrow> (state_error, 'a, nat state_table) result) \<Rightarrow> concurrent_state \<Rightarrow> 'a conc" where
  "in_error_contexts ty f s = (case vec_get (cs_error_context_tables s) ty of
      None \<Rightarrow> (Err (Bail ''error context table index present in (sub)component lookup''), s)
    | Some t \<Rightarrow> (case f t of (r, t) \<Rightarrow>
        (map_err StateError r, s\<lparr>cs_error_context_tables := (cs_error_context_tables s)[ty := t]\<rparr>)))"

definition error_context_register :: "nat \<Rightarrow> ustr \<Rightarrow> concurrent_state \<Rightarrow> nat conc" where
  "error_context_register ty debug_msg s =
     and_then (cs_push (ObjErrorContext debug_msg) s) (\<lambda>rep s.
     let s = s\<lparr>cs_global_ref_counts := (cs_global_ref_counts s)(rep \<mapsto> 1)\<rparr> in
     case vec_get (cs_error_context_tables s) ty of
       None \<Rightarrow> (Panic ''index out of bounds'', s)
     | Some t \<Rightarrow>
         (if st_has_handle rep t then (Panic ''newly created error context state already tracked by component'', s)
          else in_error_contexts ty (st_insert rep 1) s))"

definition error_context_new :: "canon \<Rightarrow> encoding_rs \<Rightarrow> nat \<Rightarrow> nat \<Rightarrow> nat \<Rightarrow> nat \<Rightarrow> store \<Rightarrow> nat in_store" where
  "error_context_new c er ty oi address len st =
     (let opts = cn_options c oi in
      and_then (options_memory opts st, st) (\<lambda>mem st.
      if sub_slice address len mem = None then (Err (Bail ''invalid debug message pointer: out of bounds''), st)
      else and_then (map_err Bail (wasm_str_new (opt_string_encoding opts) address len mem), st) (\<lambda>message st.
        and_then (map_err Bail (to_str_from_memory er message mem), st) (\<lambda>debug_msg st.
        on_state (error_context_register ty debug_msg) st))))"

definition error_context_debug_message ::
    "canon \<Rightarrow> guest_realloc option \<Rightarrow> nat \<Rightarrow> nat \<Rightarrow> nat \<Rightarrow> nat \<Rightarrow> store \<Rightarrow> unit in_store" where
  "error_context_debug_message c realloc ty oi handle address st =
     (let opts = cn_options c oi;
          cx = \<lparr>lc_string_encoding = opt_string_encoding opts, lc_realloc = realloc, lc_allow_realloc = True\<rparr> in
      and_then (on_state (in_error_contexts ty (\<lambda>t. (st_get_by_index handle t, t))) st) (\<lambda>(rep, _) st.
      and_then (cs_get as_error_context rep (so_state st), st) (\<lambda>debug_msg st.
      and_then (options_memory opts st, st) (\<lambda>mem st.
      if sub_slice address (length (str_bytes debug_msg)) mem = None
      then (Err (Bail ''invalid debug message pointer: out of bounds''), st)
      else (case str_linear_lower_to_memory cx debug_msg address mem of (r, mem) \<Rightarrow>
        (map_err Bail r, st\<lparr>so_memories := (so_memories st)(the (opt_memory opts) := mem)\<rparr>))))))"

text \<open>The local half of a drop: the representation, and whether the handle is gone.\<close>

definition drop_local_ref :: "nat \<Rightarrow> nat state_table \<Rightarrow> (state_error, nat \<times> bool, nat state_table) result" where
  "drop_local_ref handle t =
     and_then (st_get_by_index handle t, t) (\<lambda>(rep, n) t.
     if n = 0 then (Panic ''assertion failed: *local_ref_count > 0'', t)
     else and_then (st_get_mut_by_index handle (\<lambda>n. n - 1) t) (\<lambda>_ t.
       if n - 1 = 0 then and_then (st_remove_by_index handle t) (\<lambda>_ t. (Ok (rep, True), t)) else (Ok (rep, False), t)))"

definition error_context_drop :: "nat \<Rightarrow> nat \<Rightarrow> concurrent_state \<Rightarrow> unit conc" where
  "error_context_drop ty error_context s =
     and_then (in_error_contexts ty (drop_local_ref error_context) s) (\<lambda>(rep, local_ref_removed) s.
     case cs_global_ref_counts s rep of
       None \<Rightarrow> (Panic ''retrieve concurrent state for error context during drop'', s)
     | Some n \<Rightarrow>
         (if n < 1 then (Panic ''assertion failed: *global_ref_count >= 1'', s)
          else if n - 1 = 0
          then (if \<not> local_ref_removed then (Panic ''assertion failed: local_ref_removed'', s)
                else discard (cs_delete as_error_context rep (s\<lparr>cs_global_ref_counts := (cs_global_ref_counts s)(rep := None)\<rparr>)))
          else (Ok (), s\<lparr>cs_global_ref_counts := (cs_global_ref_counts s)(rep \<mapsto> n - 1)\<rparr>)))"

text \<open>The local half of a transfer: one more reference, through the handle there is or a new one.\<close>

definition add_local_ref :: "nat \<Rightarrow> nat state_table \<Rightarrow> (state_error, nat, nat state_table) result" where
  "add_local_ref rep t =
     and_then (st_get_mut_by_rep rep Suc t) (\<lambda>found t.
     case found of Some (idx, _) \<Rightarrow> (Ok idx, t) | None \<Rightarrow> st_insert rep 1 t)"

definition error_context_transfer :: "nat \<Rightarrow> nat \<Rightarrow> nat \<Rightarrow> concurrent_state \<Rightarrow> nat conc" where
  "error_context_transfer src_idx src dst s =
     and_then (in_error_contexts src (\<lambda>t. (st_get_by_index src_idx t, t)) s) (\<lambda>(rep, _) s.
     and_then (in_error_contexts dst (add_local_ref rep) s) (\<lambda>idx s.
     case cs_global_ref_counts s rep of
       None \<Rightarrow> (Err (Bail ''global ref count present for existing (sub)component error context''), s)
     | Some n \<Rightarrow> (Ok idx, s\<lparr>cs_global_ref_counts := (cs_global_ref_counts s)(rep \<mapsto> n + 1)\<rparr>)))"



section \<open>References\<close>

text \<open>
  The references a component instance holds, and all of them together.
\<close>

definition ec_count :: "nat state_table \<Rightarrow> nat \<Rightarrow> nat" where
  "ec_count tb rep = (case st_lookup tb (st_index_of tb rep) of None \<Rightarrow> 0 | Some (r, n) \<Rightarrow> n)"

definition ec_refs :: "concurrent_state \<Rightarrow> nat \<Rightarrow> nat \<Rightarrow> nat" where
  "ec_refs s ty rep = (case vec_get (cs_error_context_tables s) ty of None \<Rightarrow> 0 | Some tb \<Rightarrow> ec_count tb rep)"

definition ec_total :: "concurrent_state \<Rightarrow> nat \<Rightarrow> nat" where
  "ec_total s rep = (\<Sum>ty<length (cs_error_context_tables s). ec_refs s ty rep)"

definition ec_live :: "concurrent_state \<Rightarrow> nat \<Rightarrow> bool" where
  "ec_live s rep \<longleftrightarrow> (\<exists>m. obj_at s rep = Some (ObjErrorContext m))"

definition ec_table_ok :: "nat state_table \<Rightarrow> bool" where
  "ec_table_ok tb \<longleftrightarrow> st_inv tb \<and> (\<forall>h rep n. st_lookup tb h = Some (rep, n) \<longrightarrow> 0 < n)"

text \<open>
  The global count of a context is the number of references, and it is there
  exactly as long as there is one.
\<close>

definition ec_inv :: "concurrent_state \<Rightarrow> bool" where
  "ec_inv s \<longleftrightarrow> table_inv (cs_table s) \<and> (\<forall>c p. parent_at s c = Some p \<longrightarrow> is_set s p) \<and>
     list_all ec_table_ok (cs_error_context_tables s) \<and>
     (\<forall>rep. cs_global_ref_counts s rep = (if ec_total s rep = 0 then None else Some (ec_total s rep))) \<and>
     (\<forall>rep. ec_live s rep \<longleftrightarrow> ec_total s rep \<noteq> 0)"

lemma st_index_lookup:
  assumes "st_inv tb"
  shows "st_lookup tb h = Some (rep, n) \<Longrightarrow> st_index_of tb rep = h"
    and "st_lookup tb (st_index_of tb rep) = Some (r, n) \<Longrightarrow> r = rep"
    and "st_index_of tb rep \<noteq> 0 \<Longrightarrow> \<exists>n. st_lookup tb (st_index_of tb rep) = Some (rep, n)"
proof -
  have h: "idx \<noteq> 0 \<Longrightarrow> (\<exists>s. st_lookup tb idx = Some (rep, s)) \<longleftrightarrow> st_index_of tb rep = idx" for idx rep
    using assms by (auto simp: st_inv_def)
  show "st_lookup tb h = Some (rep, n) \<Longrightarrow> st_index_of tb rep = h" using h [of h rep] by (cases h) auto
  show "st_lookup tb (st_index_of tb rep) = Some (r, n) \<Longrightarrow> r = rep"
    using h [of "st_index_of tb rep" rep] by (cases "st_index_of tb rep") auto
  show "st_index_of tb rep \<noteq> 0 \<Longrightarrow> \<exists>n. st_lookup tb (st_index_of tb rep) = Some (rep, n)" using h by blast
qed

lemma ec_count_lookup: "st_inv tb \<Longrightarrow> st_lookup tb h = Some (rep, n) \<Longrightarrow> ec_count tb rep = n"
  using st_index_lookup(1) [of tb h rep n] by (simp add: ec_count_def)

lemma ec_count_insert:
  assumes "ec_table_ok tb" and "st_insert rep 1 tb = (Ok idx, tb')"
  shows "ec_table_ok tb'" "ec_count tb rep = 0" "ec_count tb' = (ec_count tb)(rep := 1)" "st_lookup tb' idx = Some (rep, 1)"
proof -
  have inv: "st_inv tb" using assms(1) by (simp add: ec_table_ok_def)
  from inv assms(2) have i: "st_index_of tb rep = 0" "st_inv tb'" "st_lookup tb idx = None" "st_lookup tb' = (st_lookup tb)(idx \<mapsto> (rep, 1))"
    "st_index_of tb' = (st_index_of tb)(rep := idx)" "0 < idx"
    by (cases rule: st_insert_cases [where rep = rep and s = 1]; simp)+
  show "ec_table_ok tb'" using assms(1) i by (auto simp: ec_table_ok_def split: if_splits)
  show "ec_count tb rep = 0" using i(1) by (simp add: ec_count_def)
  show "st_lookup tb' idx = Some (rep, 1)" using i(4) by simp
  show "ec_count tb' = (ec_count tb)(rep := 1)"
  proof
    fix r
    show "ec_count tb' r = ((ec_count tb)(rep := 1)) r"
    proof (cases "r = rep")
      case False
      show ?thesis
      proof (cases "st_index_of tb r = idx")
        case True
        then show ?thesis using st_index_lookup(3) [OF inv, of r] i(3,6) by simp
      qed (use False i in \<open>simp add: ec_count_def\<close>)
    qed (use i in \<open>simp add: ec_count_def\<close>)
  qed
qed

lemma ec_count_update:
  assumes "ec_table_ok tb" and "st_lookup tb h = Some (rep, n)" and "0 < f n"
  obtains tb' where "st_get_mut_by_index h f tb = (Ok (rep, n), tb')" "ec_table_ok tb'" "ec_count tb' = (ec_count tb)(rep := f n)"
    "st_lookup tb' h = Some (rep, f n)"
proof -
  have inv: "st_inv tb" using assms(1) by (simp add: ec_table_ok_def)
  from st_get_mut_by_index_live [OF inv assms(2), of f] obtain tb' where
    t: "st_get_mut_by_index h f tb = (Ok (rep, n), tb')" "st_inv tb'" "st_lookup tb' = (st_lookup tb)(h \<mapsto> (rep, f n))"
      "st_index_of tb' = st_index_of tb" by blast
  have "ec_count tb' r = ((ec_count tb)(rep := f n)) r" for r
    using t(3,4) st_index_lookup [OF inv] assms(2) by (auto simp: ec_count_def fun_upd_def split: option.splits)
  with t assms show thesis by (intro that [of tb']) (auto simp: ec_table_ok_def split: if_splits)
qed

lemma ec_count_remove:
  assumes "ec_table_ok tb" and "st_lookup tb h = Some (rep, n)"
  obtains tb' where "st_remove_by_index h tb = (Ok (rep, n), tb')" "ec_table_ok tb'" "ec_count tb' = (ec_count tb)(rep := 0)"
proof -
  have inv: "st_inv tb" using assms(1) by (simp add: ec_table_ok_def)
  from st_remove_live [OF inv assms(2)] obtain tb' where
    t: "st_remove_by_index h tb = (Ok (rep, n), tb')" "st_inv tb'" "st_lookup tb' = (st_lookup tb)(h := None)"
      "st_index_of tb' = (st_index_of tb)(rep := 0)" by blast
  have "ec_count tb' r = ((ec_count tb)(rep := 0)) r" for r
    using t(3,4) st_index_lookup [OF inv] assms(2) by (auto simp: ec_count_def fun_upd_def split: option.splits)
  with t assms(1) show thesis by (intro that [of tb']) (auto simp: ec_table_ok_def split: if_splits)
qed

definition ec_handle :: "concurrent_state \<Rightarrow> nat \<Rightarrow> nat \<Rightarrow> nat option" where
  "ec_handle s ty h = Option.bind (vec_get (cs_error_context_tables s) ty) (\<lambda>tb. map_option fst (st_lookup tb h))"

text \<open>The abstract operations: one reference more, one less.\<close>

definition ref_add :: "nat \<Rightarrow> nat \<Rightarrow> (nat \<Rightarrow> nat \<Rightarrow> nat) \<Rightarrow> nat \<Rightarrow> nat \<Rightarrow> nat" where
  "ref_add ty rep R = R(ty := (R ty)(rep := R ty rep + 1))"

definition ref_drop :: "nat \<Rightarrow> nat \<Rightarrow> (nat \<Rightarrow> nat \<Rightarrow> nat) \<Rightarrow> nat \<Rightarrow> nat \<Rightarrow> nat" where
  "ref_drop ty rep R = R(ty := (R ty)(rep := R ty rep - 1))"

lemma ec_invD:
  assumes "ec_inv s"
  shows "table_inv (cs_table s)" "parent_at s c = Some p \<Longrightarrow> is_set s p"
    "vec_get (cs_error_context_tables s) ty = Some tb \<Longrightarrow> ec_table_ok tb"
    "cs_global_ref_counts s rep = (if ec_total s rep = 0 then None else Some (ec_total s rep))"
    "ec_live s rep \<longleftrightarrow> ec_total s rep \<noteq> 0"
  using assms by (auto simp: ec_inv_def list_all_length vec_get_def split: if_splits)

lemma sum_upd:
  assumes "finite A" and "a \<in> A"
  shows "(\<Sum>i\<in>A. (f(a := k)) i) = (\<Sum>i\<in>A. f i) - f a + (k :: nat)"
proof -
  have "(\<Sum>i\<in>A - {a}. (f(a := k)) i) = (\<Sum>i\<in>A - {a}. f i)" by (rule sum.cong) auto
  then show ?thesis using sum.remove [OF assms, of "f(a := k)"] sum.remove [OF assms, of f] by (simp add: fun_upd_def)
qed

lemma ec_table_change:
  assumes tb: "vec_get (cs_error_context_tables s) ty = Some tb" and c: "ec_count tb' = (ec_count tb)(rep := k)"
    and s': "cs_error_context_tables s' = (cs_error_context_tables s)[ty := tb']"
  shows "ec_refs s' = (ec_refs s)(ty := (ec_refs s ty)(rep := k))"
    and "ec_total s' = (ec_total s)(rep := ec_total s rep - ec_refs s ty rep + k)"
    and "ec_refs s ty rep \<le> ec_total s rep"
proof -
  let ?n = "length (cs_error_context_tables s)"
  have i: "ty < ?n" using tb by (auto simp: vec_get_def split: if_splits)
  show r: "ec_refs s' = (ec_refs s)(ty := (ec_refs s ty)(rep := k))"
    using tb c s' i by (auto simp: ec_refs_def fun_eq_iff vec_get_def)
  have "ec_total s' q = (\<Sum>j<?n. ((\<lambda>j. ec_refs s j q)(ty := ec_refs s' ty q)) j)" for q
    unfolding ec_total_def using s' by (intro sum.cong) (auto simp: r)
  then have "ec_total s' q = ec_total s q - ec_refs s ty q + ec_refs s' ty q" for q
    using sum_upd [of "{..<?n}" ty "\<lambda>j. ec_refs s j q" "ec_refs s' ty q"] i by (simp add: ec_total_def)
  moreover have le: "ec_refs s ty q \<le> ec_total s q" for q
    unfolding ec_total_def using i by (intro member_le_sum) auto
  ultimately show "ec_total s' = (ec_total s)(rep := ec_total s rep - ec_refs s ty rep + k)"
    by (auto simp: fun_eq_iff r)
  show "ec_refs s ty rep \<le> ec_total s rep" by (rule le)
qed

lemma ec_views_cong:
  "cs_error_context_tables s' = cs_error_context_tables s \<Longrightarrow> ec_refs s' = ec_refs s"
  "cs_error_context_tables s' = cs_error_context_tables s \<Longrightarrow> ec_total s' = ec_total s"
  by (simp_all add: ec_refs_def ec_total_def fun_eq_iff)

lemma ec_handleE:
  assumes "ec_inv s" and "ec_handle s ty h = Some rep"
  obtains tb n where "vec_get (cs_error_context_tables s) ty = Some tb" "ec_table_ok tb" "st_lookup tb h = Some (rep, n)"
    "ec_refs s ty rep = n" "0 < n"
proof -
  from assms(2) obtain tb n where t: "vec_get (cs_error_context_tables s) ty = Some tb" "st_lookup tb h = Some (rep, n)"
    by (auto simp: ec_handle_def bind_eq_Some_conv)
  with ec_invD(3) [OF assms(1) t(1)] ec_count_lookup [of tb h rep n] that show thesis
    by (auto simp: ec_table_ok_def ec_refs_def)
qed

lemma drop_local_ref_ok:
  assumes "ec_table_ok tb" and "st_lookup tb h = Some (rep, n)"
  obtains tb' where "drop_local_ref h tb = (Ok (rep, n = 1), tb')" "ec_table_ok tb'" "ec_count tb' = (ec_count tb)(rep := n - 1)"
proof -
  have n: "0 < n" using assms by (auto simp: ec_table_ok_def)
  have g: "st_get_by_index h tb = Ok (rep, n)" using assms(2) by (simp add: st_get_by_index_eq)
  have inv: "st_inv tb" using assms(1) by (simp add: ec_table_ok_def)
  show thesis
  proof (cases "n = 1")
    case False
    with n ec_count_update [OF assms, of "\<lambda>n. n - 1"] obtain tb' where
      "st_get_mut_by_index h (\<lambda>n. n - 1) tb = (Ok (rep, n), tb')" "ec_table_ok tb'" "ec_count tb' = (ec_count tb)(rep := n - 1)" by auto
    with g n False that show thesis by (simp add: drop_local_ref_def)
  next
    case True
    from st_get_mut_by_index_live [OF inv assms(2), of "\<lambda>n. n - 1"] obtain tb1 where
      t1: "st_get_mut_by_index h (\<lambda>n. n - 1) tb = (Ok (rep, n), tb1)" "st_inv tb1" "st_lookup tb1 = (st_lookup tb)(h \<mapsto> (rep, n - 1))"
        "st_index_of tb1 = st_index_of tb" by blast
    have l1: "st_lookup tb1 h = Some (rep, n - 1)" using t1(3) by simp
    from st_remove_live [OF t1(2) l1] obtain tb' where
      t: "st_remove_by_index h tb1 = (Ok (rep, n - 1), tb')" "st_inv tb'" "st_lookup tb' = (st_lookup tb1)(h := None)"
        "st_index_of tb' = (st_index_of tb1)(rep := 0)" by blast
    have "ec_count tb' r = ((ec_count tb)(rep := n - 1)) r" for r
      using t(3,4) t1(3,4) st_index_lookup [OF inv] assms(2) True by (auto simp: ec_count_def fun_upd_def split: option.splits)
    moreover have "ec_table_ok tb'" using t(2,3) t1(3) assms(1) by (auto simp: ec_table_ok_def split: if_splits)
    ultimately show thesis using that [of tb'] g n True t1(1) t(1) by (auto simp: drop_local_ref_def fun_eq_iff)
  qed
qed

lemma in_error_contexts_run:
  "vec_get (cs_error_context_tables s) ty = Some tb \<Longrightarrow> f tb = (Ok x, tb') \<Longrightarrow>
   in_error_contexts ty f s = (Ok x, s\<lparr>cs_error_context_tables := (cs_error_context_tables s)[ty := tb']\<rparr>)"
  by (simp add: in_error_contexts_def)

lemma ec_invI:
  assumes "table_inv (cs_table s)" "\<And>c p. parent_at s c = Some p \<Longrightarrow> is_set s p" "list_all ec_table_ok (cs_error_context_tables s)"
    "\<And>rep. cs_global_ref_counts s rep = (if ec_total s rep = 0 then None else Some (ec_total s rep))"
    "\<And>rep. ec_live s rep \<longleftrightarrow> ec_total s rep \<noteq> 0"
  shows "ec_inv s"
  using assms by (simp add: ec_inv_def)

lemma ec_tables_upd:
  "ec_inv s \<Longrightarrow> ec_table_ok tb \<Longrightarrow> list_all ec_table_ok ((cs_error_context_tables s)[ty := tb])"
  by (auto simp: ec_inv_def list_all_length nth_update_if)

lemma ec_same_objects:
  assumes "cs_table s' = cs_table s"
  shows "ec_live s' = ec_live s" "parent_at s' = parent_at s" "is_set s' = is_set s"
  using obj_at_cong [OF assms] by (simp_all add: ec_live_def is_set_def set_at_def fun_eq_iff)

lemma error_context_drop_ok:
  assumes inv: "ec_inv s" and h: "ec_handle s ty h = Some rep"
  shows "\<exists>s'. error_context_drop ty h s = (Ok (), s') \<and> ec_inv s' \<and> ec_refs s' = ref_drop ty rep (ec_refs s)"
proof -
  from ec_handleE [OF inv h] obtain tb n where tb: "vec_get (cs_error_context_tables s) ty = Some tb" "ec_table_ok tb"
    "st_lookup tb h = Some (rep, n)" "ec_refs s ty rep = n" "0 < n" .
  from drop_local_ref_ok [OF tb(2,3)] obtain tb' where
    d: "drop_local_ref h tb = (Ok (rep, n = 1), tb')" "ec_table_ok tb'" "ec_count tb' = (ec_count tb)(rep := n - 1)" .
  let ?s1 = "s\<lparr>cs_error_context_tables := (cs_error_context_tables s)[ty := tb']\<rparr>"
  have in1: "in_error_contexts ty (drop_local_ref h) s = (Ok (rep, n = 1), ?s1)" using tb(1) d(1) by (rule in_error_contexts_run)
  have C: "ec_refs ?s1 = (ec_refs s)(ty := (ec_refs s ty)(rep := n - 1))"
    "ec_total ?s1 = (ec_total s)(rep := ec_total s rep - n + (n - 1))" "n \<le> ec_total s rep"
    using ec_table_change [OF tb(1) d(3), of ?s1] tb(4) by simp_all
  let ?t = "ec_total s rep"
  have t: "ec_total ?s1 = (ec_total s)(rep := ?t - 1)" "ec_refs ?s1 = ref_drop ty rep (ec_refs s)"
    using C tb(4,5) by (auto simp: ref_drop_def)
  have g: "cs_global_ref_counts s rep = Some ?t" using ec_invD(4) [OF inv, of rep] C(3) tb(5) by simp
  show ?thesis
  proof (cases "?t = 1")
    case False
    define s2 where "s2 = ?s1\<lparr>cs_global_ref_counts := (cs_global_ref_counts s)(rep \<mapsto> ?t - 1)\<rparr>"
    have F: "cs_table s2 = cs_table s" "cs_error_context_tables s2 = cs_error_context_tables ?s1"
      "cs_global_ref_counts s2 = (cs_global_ref_counts s)(rep \<mapsto> ?t - 1)" by (simp_all add: s2_def)
    have v: "ec_total s2 = ec_total ?s1" "ec_refs s2 = ec_refs ?s1" using F(2) by (rule ec_views_cong)+
    have o: "ec_live s2 = ec_live s" "parent_at s2 = parent_at s" "is_set s2 = is_set s" using F(1) by (rule ec_same_objects)+
    have "ec_inv s2"
    proof (rule ec_invI)
      fix r show "ec_live s2 r \<longleftrightarrow> ec_total s2 r \<noteq> 0"
        using ec_invD(5) [OF inv, of r] t(1) C(3) tb(5) False by (auto simp: v o)
      show "cs_global_ref_counts s2 r = (if ec_total s2 r = 0 then None else Some (ec_total s2 r))"
        using ec_invD(4) [OF inv, of r] t(1) C(3) tb(5) False by (auto simp: v F)
    qed (use ec_invD(1,2) [OF inv] ec_tables_upd [OF inv d(2)] o F in auto)
    moreover have "error_context_drop ty h s = (Ok (), s2)"
      using in1 g False C(3) tb(5) by (simp add: error_context_drop_def s2_def)
    ultimately show ?thesis using t(2) v(2) by auto
  next
    case True
    then have n: "n = 1" using C(3) tb(5) by simp
    define s2 where "s2 = ?s1\<lparr>cs_global_ref_counts := (cs_global_ref_counts s)(rep := None)\<rparr>"
    have F: "cs_table s2 = cs_table s" "cs_error_context_tables s2 = cs_error_context_tables ?s1"
      "cs_global_ref_counts s2 = (cs_global_ref_counts s)(rep := None)" by (simp_all add: s2_def)
    have o: "ec_live s2 = ec_live s" "parent_at s2 = parent_at s" "is_set s2 = is_set s" using F(1) by (rule ec_same_objects)+
    from ec_invD(5) [OF inv, of rep] True obtain msg where m: "obj_at s2 rep = Some (ObjErrorContext msg)"
      using o(1) by (auto simp: ec_live_def fun_eq_iff)
    have np: "\<forall>c. parent_at s2 c \<noteq> Some rep"
    proof (intro allI notI)
      fix c assume "parent_at s2 c = Some rep"
      then have "is_set s2 rep" using ec_invD(2) [OF inv, of c rep] o by simp
      with m show False by (simp add: is_set_def set_at_def)
    qed
    obtain s3 where s3: "cs_delete as_error_context rep s2 = (map_err TableError (ok_or WrongType (as_error_context (ObjErrorContext msg))), s3)"
      "s3 = s2\<lparr>cs_table := cs_table s3\<rparr>" "obj_at s3 = (obj_at s2)(rep := None)" "parent_at s3 = (parent_at s2)(rep := None)" "table_inv (cs_table s3)"
      by (rule cs_delete_live [OF _ m np, of as_error_context]) (use ec_invD(1) [OF inv] F(1) in auto)
    have tabs: "cs_error_context_tables s3 = cs_error_context_tables ?s1" "cs_global_ref_counts s3 = (cs_global_ref_counts s)(rep := None)"
      by (subst s3(2), simp add: F)+
    have v: "ec_total s3 = ec_total ?s1" "ec_refs s3 = ec_refs ?s1" using tabs(1) by (rule ec_views_cong)+
    have "ec_inv s3"
    proof (rule ec_invI)
      fix r
      have "ec_live s3 r \<longleftrightarrow> r \<noteq> rep \<and> ec_live s r" using s3(3) o(1) by (auto simp: ec_live_def fun_eq_iff)
      then show "ec_live s3 r \<longleftrightarrow> ec_total s3 r \<noteq> 0" using ec_invD(5) [OF inv, of r] t(1) True by (auto simp: v)
      show "cs_global_ref_counts s3 r = (if ec_total s3 r = 0 then None else Some (ec_total s3 r))"
        using ec_invD(4) [OF inv, of r] t(1) True by (auto simp: v tabs)
      fix c p assume "parent_at s3 c = Some p"
      then have "parent_at s2 c = Some p" using s3(4) by (auto split: if_splits)
      then have "is_set s2 p" using ec_invD(2) [OF inv, of c p] o by simp
      then show "is_set s3 p" using s3(3) m by (auto simp: is_set_def set_at_def)
    qed (use s3(5) ec_tables_upd [OF inv d(2)] tabs in simp_all)
    moreover have "error_context_drop ty h s = (Ok (), s3)"
      using in1 g True n s3(1) by (simp add: error_context_drop_def discard_def s2_def)
    ultimately show ?thesis using t(2) v(2) by auto
  qed
qed

lemma add_local_ref_ok:
  assumes ok: "ec_table_ok tb" and run: "add_local_ref rep tb = (Ok idx, tb')"
  shows "ec_table_ok tb' \<and> ec_count tb' = (ec_count tb)(rep := ec_count tb rep + 1) \<and> st_lookup tb' idx = Some (rep, ec_count tb rep + 1)"
proof (cases "st_index_of tb rep")
  case 0
  then have "st_get_mut_by_rep rep Suc tb = (Ok None, tb)"
    by (auto simp: st_get_mut_by_rep_def st_index_of_def split: option.splits nat.splits)
  with run have "st_insert rep 1 tb = (Ok idx, tb')" by (simp add: add_local_ref_def)
  from ec_count_insert [OF ok this] show ?thesis by simp
next
  case (Suc i)
  have inv: "st_inv tb" using ok by (simp add: ec_table_ok_def)
  from st_index_lookup(3) [OF inv, of rep] Suc obtain n where l: "st_lookup tb (Suc i) = Some (rep, n)" by auto
  have n: "ec_count tb rep = n" by (rule ec_count_lookup [OF inv l])
  from ec_count_update [OF ok l, of Suc] obtain tb2 where
    t: "st_get_mut_by_index (Suc i) Suc tb = (Ok (rep, n), tb2)" "ec_table_ok tb2" "ec_count tb2 = (ec_count tb)(rep := Suc n)"
      "st_lookup tb2 (Suc i) = Some (rep, Suc n)" by auto
  have "vec_get (st_reps tb) rep = Some (Suc i)" using Suc by (auto simp: st_index_of_def split: option.splits)
  with t(1) run have "idx = Suc i" "tb' = tb2" by (simp_all add: add_local_ref_def st_get_mut_by_rep_def)
  with t n show ?thesis by simp
qed

lemma error_context_transfer_ok:
  assumes inv: "ec_inv s" and h: "ec_handle s src h = Some rep" and run: "error_context_transfer h src dst s = (Ok idx, s')"
  shows "ec_inv s' \<and> ec_refs s' = ref_add dst rep (ec_refs s) \<and> ec_handle s' dst idx = Some rep"
proof -
  from ec_handleE [OF inv h] obtain tb n where tb: "vec_get (cs_error_context_tables s) src = Some tb" "ec_table_ok tb"
    "st_lookup tb h = Some (rep, n)" "ec_refs s src rep = n" "0 < n" .
  have "(cs_error_context_tables s)[src := tb] = cs_error_context_tables s"
    using tb(1) list_update_id [of "cs_error_context_tables s" src] by (auto simp: vec_get_def split: if_splits)
  then have g: "in_error_contexts src (\<lambda>t. (st_get_by_index h t, t)) s = (Ok (rep, n), s)"
    using tb(1,3) by (simp add: in_error_contexts_def st_get_by_index_eq)
  with run obtain s1 t where r: "in_error_contexts dst (add_local_ref rep) s = (Ok idx, s1)" "cs_global_ref_counts s1 rep = Some t"
    "s' = s1\<lparr>cs_global_ref_counts := (cs_global_ref_counts s1)(rep \<mapsto> t + 1)\<rparr>"
    by (auto simp: error_context_transfer_def split: option.splits elim!: and_then_OkE)
  from r(1) obtain td td' where d: "vec_get (cs_error_context_tables s) dst = Some td" "add_local_ref rep td = (Ok idx, td')"
    "s1 = s\<lparr>cs_error_context_tables := (cs_error_context_tables s)[dst := td']\<rparr>"
    by (auto simp: in_error_contexts_def split: option.splits prod.splits)
  have a: "ec_table_ok td'" "ec_count td' = (ec_count td)(rep := ec_count td rep + 1)" "st_lookup td' idx = Some (rep, ec_count td rep + 1)"
    using add_local_ref_ok [OF ec_invD(3) [OF inv d(1)] d(2)] by simp_all
  have td: "ec_count td rep = ec_refs s dst rep" using d(1) by (simp add: ec_refs_def)
  have F: "cs_table s' = cs_table s" "cs_error_context_tables s' = (cs_error_context_tables s)[dst := td']"
    "cs_global_ref_counts s' = (cs_global_ref_counts s)(rep \<mapsto> t + 1)" using r(3) d(3) by simp_all
  note C = ec_table_change [OF d(1) a(2) F(2)]
  have T: "ec_total s' = (ec_total s)(rep := ec_total s rep + 1)" "ec_refs s' = ref_add dst rep (ec_refs s)"
    using C td by (simp_all add: ref_add_def)
  have t: "t = ec_total s rep" "ec_total s rep \<noteq> 0" using r(2) d(3) ec_invD(4) [OF inv, of rep] by (auto split: if_splits)
  have o: "ec_live s' = ec_live s" "parent_at s' = parent_at s" "is_set s' = is_set s" using F(1) by (rule ec_same_objects)+
  have "ec_inv s'"
  proof (rule ec_invI)
    fix q show "ec_live s' q \<longleftrightarrow> ec_total s' q \<noteq> 0" using ec_invD(5) [OF inv, of q] T(1) t by (auto simp: o)
    show "cs_global_ref_counts s' q = (if ec_total s' q = 0 then None else Some (ec_total s' q))"
      using ec_invD(4) [OF inv, of q] T(1) t by (auto simp: F)
  qed (use ec_invD(1,2) [OF inv] ec_tables_upd [OF inv a(1)] o F in auto)
  moreover have "dst < length (cs_error_context_tables s)" using d(1) by (auto simp: vec_get_def split: if_splits)
  then have "ec_handle s' dst idx = Some rep" using F(2) a(3) by (simp add: ec_handle_def vec_get_def)
  ultimately show ?thesis using T(2) by simp
qed

lemma error_context_register_ok:
  assumes inv: "ec_inv s" and run: "error_context_register ty msg s = (Ok h, s')"
  shows "ec_inv s' \<and> (\<exists>rep. ec_total s rep = 0 \<and> ec_refs s' = ref_add ty rep (ec_refs s) \<and> ec_handle s' ty h = Some rep \<and>
    obj_at s' rep = Some (ObjErrorContext msg))"
  using ec_invD(1) [OF inv]
proof (cases rule: cs_push_cases [where x = "ObjErrorContext msg"])
  case full
  with run show ?thesis by (simp add: error_context_register_def)
next
  case (pushed k s1)
  have f1: "cs_error_context_tables s1 = cs_error_context_tables s" "cs_global_ref_counts s1 = cs_global_ref_counts s"
    by (subst pushed(2), simp)+
  have z: "ec_total s k = 0" using ec_invD(5) [OF inv, of k] pushed(3) by (simp add: ec_live_def)
  from run pushed(1) obtain tb where tb: "vec_get (cs_error_context_tables s) ty = Some tb"
    "in_error_contexts ty (st_insert k 1) (s1\<lparr>cs_global_ref_counts := (cs_global_ref_counts s)(k \<mapsto> 1)\<rparr>) = (Ok h, s')"
    by (auto simp: error_context_register_def f1 Let_def split: option.splits if_splits)
  from tb obtain tb' where i: "st_insert k 1 tb = (Ok h, tb')"
    "s' = s1\<lparr>cs_global_ref_counts := (cs_global_ref_counts s)(k \<mapsto> 1), cs_error_context_tables := (cs_error_context_tables s)[ty := tb']\<rparr>"
    by (auto simp: in_error_contexts_def f1 split: option.splits prod.splits)
  note a = ec_count_insert [OF ec_invD(3) [OF inv tb(1)] i(1)]
  have F: "cs_table s' = cs_table s1" "cs_error_context_tables s' = (cs_error_context_tables s)[ty := tb']"
    "cs_global_ref_counts s' = (cs_global_ref_counts s)(k \<mapsto> 1)" using i(2) by simp_all
  note C = ec_table_change [OF tb(1) a(3) F(2)]
  have r0: "ec_refs s ty k = 0" using C(3) z by simp
  have T: "ec_total s' = (ec_total s)(k := 1)" "ec_refs s' = ref_add ty k (ec_refs s)" using C z r0 by (simp_all add: ref_add_def)
  have o: "obj_at s' = (obj_at s)(k \<mapsto> ObjErrorContext msg)" "parent_at s' = parent_at s" using obj_at_cong [OF F(1)] pushed(4,6) by auto
  have "ec_inv s'"
  proof (rule ec_invI)
    fix q show "ec_live s' q \<longleftrightarrow> ec_total s' q \<noteq> 0" using ec_invD(5) [OF inv, of q] T(1) by (auto simp: ec_live_def o)
    show "cs_global_ref_counts s' q = (if ec_total s' q = 0 then None else Some (ec_total s' q))"
      using ec_invD(4) [OF inv, of q] T(1) by (auto simp: F)
    fix c p assume "parent_at s' c = Some p"
    then have "is_set s p" using ec_invD(2) [OF inv] o(2) by simp
    then show "is_set s' p" using pushed(3) by (auto simp: is_set_def set_at_def o)
  qed (use pushed(7) ec_tables_upd [OF inv a(1)] F in auto)
  moreover have "ty < length (cs_error_context_tables s)" using tb(1) by (auto simp: vec_get_def split: if_splits)
  then have "ec_handle s' ty h = Some k" using F(2) a(4) by (simp add: ec_handle_def vec_get_def)
  ultimately show ?thesis using z T(2) o(1) by auto
qed

lemma ec_inv_init: "ec_inv (concurrent_state_new component)"
proof -
  let ?s = "concurrent_state_new component"
  have l: "st_lookup (st_default :: nat state_table) k = None" for k
    by (cases k) (auto simp: st_lookup_view st_default_def vec_get_def)
  have r: "ec_refs ?s ty rep = 0" for ty rep
    by (auto simp: ec_refs_def ec_count_def concurrent_state_new_def vec_get_def l split: option.splits)
  have o: "obj_at ?s = (\<lambda>_. None)" "parent_at ?s = (\<lambda>_. None)"
    by (auto simp: obj_at_def parent_at_def concurrent_state_new_def table_lookup_def table_occ_def table_new_def
        parent_of_def fun_eq_iff)
  show ?thesis
    by (rule ec_invI) (simp_all add: r o ec_total_def ec_live_def, simp_all add: concurrent_state_new_def list_all_length ec_table_ok_def l)
qed

section \<open>Properties\<close>



text \<open>
  The assertion of \<open>error_context_new\<close> looks the representation of the new context
  up as if it were a handle: it fails when the instance has a handle of that number.
\<close>

theorem error_context_new_confuses_rep:
  assumes "cs_push (ObjErrorContext msg) s = (Ok rep, s1)" and "vec_get (cs_error_context_tables s1) ty = Some tb"
    and "st_has_handle rep tb"
  shows "fst (error_context_register ty msg s) = Panic ''newly created error context state already tracked by component''"
  using assms by (simp add: error_context_register_def Let_def)

theorem error_context_new_twice_panics:
  "\<exists>s1. error_context_register 0 [] (concurrent_state_new example_component) = (Ok 1, s1) \<and>
     fst (error_context_register 0 [] s1) = Panic ''newly created error context state already tracked by component''"
  by (simp add: error_context_register_def in_error_contexts_def table_eval st_eval st_has_handle_def example_component_def)

text \<open>
  The bounds check of \<open>error_context_debug_message\<close> is for the bytes of the message,
  while what is stored at the address are two words: for an empty message and an
  address at the end of the memory the check passes and storing panics.
\<close>

theorem debug_message_bounds_panic:
  assumes h: "vec_get (cs_error_context_tables (so_state st)) ty = Some tb" "st_lookup tb handle = Some (rep, n)"
    and o: "obj_at (so_state st) rep = Some (ObjErrorContext [])"
    and c: "opt_memory (cn_options c oi) = Some m" "opt_string_encoding (cn_options c oi) = Utf8"
    and mem: "length (so_memories st m) = address" "address mod 4 = 0"
    and r: "\<And>mem. realloc 0 0 1 0 mem = (Ok 0, mem)"
  shows "fst (error_context_debug_message c (Some realloc) ty oi handle address st) = Panic ''range end index out of range for slice''"
proof -
  have "(cs_error_context_tables (so_state st))[ty := tb] = cs_error_context_tables (so_state st)"
    using h(1) list_update_id [of "cs_error_context_tables (so_state st)" ty] by (auto simp: vec_get_def split: if_splits)
  then have "on_state (in_error_contexts ty (\<lambda>t. (st_get_by_index handle t, t))) st = (Ok (rep, n), st)"
    using h by (simp add: on_state_def in_error_contexts_def st_get_by_index_eq)
  moreover have "cs_get as_error_context rep (so_state st) = Ok []" using o by (simp add: cs_get_Ok)
  ultimately show ?thesis using c mem r
    by (simp add: error_context_debug_message_def Let_def options_memory_def sub_slice_def str_bytes_def str_linear_lower_to_memory_def
        lower_string_def lower_utf8_def lower_realloc_def options_realloc_def on_slice_def put_u32_def u32_try_from_def u32_max_def)
qed

end
