(* ===== verification/Tasks.thy ===== *)
theory Tasks
  imports Transmit Admission Strings
begin

text \<open>
  The life of a task, \<open>concurrent.rs\<close> and \<open>func/host.rs\<close>: the preparation and
  queueing of calls from the host and between guests, the start of a queued call,
  \<open>task.return\<close> and \<open>task.cancel\<close>, the delivery of an event to a callback, calls
  of host functions, \<open>subtask.cancel\<close> and the intrinsics that wait.

  A function of the source that suspends its fiber is cut at each suspension: its
  first part ends with the reason to suspend and the point at which it goes on,
  and one definition per point gives the rest.  Core WebAssembly code that may
  call back into the runtime is cut out in the same way.  Guest code that may not
  (\<open>realloc\<close>, the functions of fused adapters, \<open>post-return\<close>) and the closures of
  the host are functions of the memories and resource tables, collected in
  \<open>hooks\<close>.
\<close>

section \<open>The store\<close>

datatype data_model = LinearMemory "nat option" | GcModel

record canonical_options =
  co_async :: bool
  co_instance :: nat
  co_string_encoding :: string_encoding
  co_data_model :: data_model

type_synonym guest_side = "resource_tables \<times> (nat \<Rightarrow> 8 word list)"

text \<open>
  Canonical options by index, the address of a memory, the lowering and lifting
  closures of calls from the host, calls of core functions on a buffer of values,
  the lifting of parameters and lowering of results of host functions, closures
  that the host leaves to a worker, and the values of streams and futures.
\<close>

record hooks =
  hk_options :: "nat \<Rightarrow> canonical_options"
  hk_runtime_memory :: "nat \<Rightarrow> nat"
  hk_lower :: "nat \<Rightarrow> nat \<Rightarrow> guest_side \<Rightarrow> (conc_error, val_raw list, guest_side) result"
  hk_lift :: "nat \<Rightarrow> val_raw list \<Rightarrow> guest_side \<Rightarrow> (conc_error, nat, guest_side) result"
  hk_call_raw :: "nat \<Rightarrow> val_raw list \<Rightarrow> guest_side \<Rightarrow> (conc_error, val_raw list, guest_side) result"
  hk_lift_params :: "import_call \<Rightarrow> guest_side \<Rightarrow> (conc_error, unit, guest_side) result"
  hk_lower_result :: "import_call \<Rightarrow> nat \<Rightarrow> guest_side \<Rightarrow> (conc_error, unit, guest_side) result"
  hk_named :: "nat \<Rightarrow> guest_side \<Rightarrow> (conc_error, unit, guest_side) result"
  hk_canon :: canon

text \<open>
  The store with what tasks use of it besides the state of the event loop: the
  resource tables and their call scopes, the flags of the component instances,
  the argument kept for a later \<open>post-return\<close>, the results sent to the host, the
  host futures that were aborted, and the cell in which a synchronous caller of an
  adapter finds its result.
\<close>

record vm_store =
  vs_store :: store
  vs_resources :: resource_tables
  vs_may_enter :: "nat \<Rightarrow> bool"
  vs_may_leave :: "nat \<Rightarrow> bool"
  vs_needs_post_return :: "nat \<Rightarrow> bool"
  vs_post_return_arg :: "(nat \<times> val_raw) option"
  vs_results :: "nat \<Rightarrow> nat option"
  vs_join_handles :: nat
  vs_aborted :: "nat set"
  vs_storage :: "val_raw option"

type_synonym 'a vm_op = "(conc_error, 'a, vm_store) result"

abbreviation vs_state :: "vm_store \<Rightarrow> concurrent_state" where
  "vs_state vs \<equiv> so_state (vs_store vs)"

definition in_state :: "(concurrent_state \<Rightarrow> 'a conc) \<Rightarrow> vm_store \<Rightarrow> 'a vm_op" where
  "in_state f vs = (case on_state f (vs_store vs) of (r, st) \<Rightarrow> (r, vs\<lparr>vs_store := st\<rparr>))"

definition peek :: "(concurrent_state \<Rightarrow> (conc_error, 'a) outcome) \<Rightarrow> vm_store \<Rightarrow> 'a vm_op" where
  "peek f vs = (f (vs_state vs), vs)"

definition upd_state :: "(concurrent_state \<Rightarrow> concurrent_state) \<Rightarrow> vm_store \<Rightarrow> vm_store" where
  "upd_state f vs = vs\<lparr>vs_store := (vs_store vs)\<lparr>so_state := f (vs_state vs)\<rparr>\<rparr>"

definition on_guest :: "(guest_side \<Rightarrow> (conc_error, 'a, guest_side) result) \<Rightarrow> vm_store \<Rightarrow> 'a vm_op" where
  "on_guest f vs = (case f (vs_resources vs, so_memories (vs_store vs)) of (r, (rts, mems)) \<Rightarrow>
     (r, vs\<lparr>vs_resources := rts, vs_store := (vs_store vs)\<lparr>so_memories := mems\<rparr>\<rparr>))"

definition on_resources :: "(resource_tables \<Rightarrow> (handle_error, 'a, resource_tables) result) \<Rightarrow> vm_store \<Rightarrow> 'a vm_op" where
  "on_resources f vs = (case f (vs_resources vs) of (r, t) \<Rightarrow> (map_err ResourceError r, vs\<lparr>vs_resources := t\<rparr>))"

text \<open>The task whose code is running, and the unwrap of it.\<close>

definition set_guest_task :: "nat option \<Rightarrow> vm_store \<Rightarrow> vm_store" where
  "set_guest_task t = upd_state (\<lambda>s. s\<lparr>cs_guest_task := t\<rparr>)"

definition current_task :: "concurrent_state \<Rightarrow> (conc_error, nat) outcome" where
  "current_task s = (case cs_guest_task s of Some t \<Rightarrow> Ok t | None \<Rightarrow> Panic ''unwrap on None'')"

definition set_may_enter :: "nat \<Rightarrow> bool \<Rightarrow> vm_store \<Rightarrow> vm_store" where
  "set_may_enter i b vs = vs\<lparr>vs_may_enter := (vs_may_enter vs)(i := b)\<rparr>"

definition set_may_leave :: "nat \<Rightarrow> bool \<Rightarrow> vm_store \<Rightarrow> vm_store" where
  "set_may_leave i b vs = vs\<lparr>vs_may_leave := (vs_may_leave vs)(i := b)\<rparr>"


section \<open>Call scopes and suspension\<close>

definition maybe_push_call_context :: "nat \<Rightarrow> vm_store \<Rightarrow> unit vm_op" where
  "maybe_push_call_context guest_task vs =
     and_then (in_state (mut_guest_task guest_task
         (\<lambda>t. if gt_lift_result t \<noteq> None then t\<lparr>gt_call_context := None\<rparr> else t)) vs) (\<lambda>t vs.
     if gt_lift_result t \<noteq> None then
       (case gt_call_context t of
          None \<Rightarrow> (Panic ''unwrap on None'', vs)
        | Some cx \<Rightarrow> (Ok (), vs\<lparr>vs_resources := (vs_resources vs)
            \<lparr>rts_calls := call_contexts_push cx (rts_calls (vs_resources vs))\<rparr>\<rparr>))
     else (Ok (), vs))"

definition pop_scope :: "vm_store \<Rightarrow> call_context vm_op" where
  "pop_scope vs = (case call_contexts_pop (rts_calls (vs_resources vs)) of
      (None, scopes) \<Rightarrow> (Panic ''unwrap on None'', vs)
    | (Some cx, scopes) \<Rightarrow> (Ok cx, vs\<lparr>vs_resources := (vs_resources vs)\<lparr>rts_calls := scopes\<rparr>\<rparr>))"

definition maybe_pop_call_context :: "nat \<Rightarrow> vm_store \<Rightarrow> unit vm_op" where
  "maybe_pop_call_context guest_task vs =
     and_then (peek (get_guest_task guest_task) vs) (\<lambda>t vs.
     if gt_lift_result t \<noteq> None then
       and_then (pop_scope vs) (\<lambda>cx vs.
       discard (in_state (mut_guest_task guest_task (\<lambda>t. t\<lparr>gt_call_context := Some cx\<rparr>)) vs))
     else (Ok (), vs))"

fun reason_task :: "suspend_reason \<Rightarrow> nat option" where
  "reason_task (Yielding task) = Some task"
| "reason_task (Waiting set_id task) = Some task"
| "reason_task NeedWork = None"

text \<open>\<open>suspend\<close> up to the switch to the event loop, and after it.\<close>

definition suspend_begin :: "suspend_reason \<Rightarrow> vm_store \<Rightarrow> nat option vm_op" where
  "suspend_begin reason vs =
     and_then (case reason_task reason of
         Some task \<Rightarrow> and_then (maybe_pop_call_context task vs) (\<lambda>_ vs. (Ok (cs_guest_task (vs_state vs)), vs))
       | None \<Rightarrow> (Ok None, vs)) (\<lambda>old_guest_task vs.
     if cs_suspend_reason (vs_state vs) \<noteq> None then (Panic ''assertion failed: suspend_reason.is_none()'', vs)
     else (Ok old_guest_task, upd_state (\<lambda>s. s\<lparr>cs_suspend_reason := Some reason\<rparr>) vs))"

definition suspend_end :: "suspend_reason \<Rightarrow> nat option \<Rightarrow> vm_store \<Rightarrow> unit vm_op" where
  "suspend_end reason old_guest_task vs = (case reason_task reason of
      Some task \<Rightarrow> maybe_push_call_context task (set_guest_task old_guest_task vs)
    | None \<Rightarrow> (Ok (), vs))"

text \<open>What a function that may suspend does next.\<close>

datatype ('a, 'k) progress = Finished 'a | Suspend suspend_reason 'k


section \<open>Preparing and queueing calls\<close>

definition MAX_FLAT_PARAMS :: nat where "MAX_FLAT_PARAMS = 16"
definition MAX_FLAT_RESULTS :: nat where "MAX_FLAT_RESULTS = 1"

definition guest_task_new ::
    "raw_lower \<Rightarrow> lift_result \<Rightarrow> caller \<Rightarrow> callback_fn option \<Rightarrow> nat \<Rightarrow> concurrent_state \<Rightarrow> guest_task conc" where
  "guest_task_new lower_params lift_result c callback component_instance s =
     and_then (cs_push (ObjWaitableSet waitable_set_default) s) (\<lambda>sync_call_set s.
     (Ok \<lparr>gt_common = waitable_common_default, gt_lower_params = Some lower_params,
       gt_lift_result = Some lift_result, gt_result = None, gt_callback = callback, gt_caller = c,
       gt_call_context = Some call_context_default, gt_sync_result = None, gt_cancel_sent = False,
       gt_starting_sent = False, gt_context = [0, 0], gt_subtasks = {}, gt_sync_call_set = sync_call_set,
       gt_instance = component_instance, gt_event = None, gt_wake_on_cancel = None,
       gt_function_index = None, gt_exited = False\<rparr>, s))"

text \<open>A call from the host.\<close>

record host_call =
  hc_lower :: nat
  hc_lift :: nat
  hc_remove_task_automatically :: bool
  hc_call_post_return_automatically :: bool
  hc_ty :: nat
  hc_memory :: "nat option"
  hc_string_encoding :: string_encoding
  hc_callback :: "nat option"
  hc_instance :: nat
  hc_function_index :: nat
  hc_callee :: nat
  hc_param_count :: nat
  hc_async :: bool
  hc_post_return :: "nat option"

definition prepare_host_call :: "host_call \<Rightarrow> vm_store \<Rightarrow> nat vm_op" where
  "prepare_host_call c vs =
     (if cs_guest_task (vs_state vs) \<noteq> None then (Panic ''assertion failed: state.guest_task.is_none()'', vs)
      else
        (case new_channel (vs_store vs) of (tx, st) \<Rightarrow>
         and_then (in_state (guest_task_new (LowerHost (hc_lower c))
             \<lparr>lr_lift = LiftHost (hc_lift c), lr_ty = hc_ty c, lr_memory = hc_memory c,
              lr_string_encoding = hc_string_encoding c\<rparr>
             (CallerHost (Some tx) (hc_remove_task_automatically c) (hc_call_post_return_automatically c))
             (map_option (\<lambda>f. \<lparr>cf_function = f, cf_may_enter_after_call = hc_call_post_return_automatically c\<rparr>)
               (hc_callback c))
             (hc_instance c)) (vs\<lparr>vs_store := st\<rparr>)) (\<lambda>task vs.
         in_state (cs_push (ObjGuestTask (task\<lparr>gt_function_index := Some (hc_function_index c)\<rparr>))) vs)))"

definition queue_call ::
    "nat \<Rightarrow> nat \<Rightarrow> nat \<Rightarrow> nat \<Rightarrow> bool \<Rightarrow> bool \<Rightarrow> bool \<Rightarrow> nat option \<Rightarrow> vm_store \<Rightarrow> unit vm_op" where
  "queue_call guest_task callee param_count result_count flags async callback post_return vs =
     and_then (peek (get_guest_task guest_task) vs) (\<lambda>t vs.
     if callback \<and> \<not> async then (Panic ''assertion failed: async_'', vs)
     else (Ok (), upd_state (push_high_priority (GuestCallItem \<lparr>gc_task = guest_task, gc_kind = StartCall
       \<lparr>sf_callee = callee, sf_param_count = param_count, sf_result_count = result_count, sf_flags = flags,
        sf_async = async, sf_callback = callback, sf_post_return = post_return,
        sf_instance = gt_instance t\<rparr>\<rparr>)) vs))"

definition queue_host_call :: "host_call \<Rightarrow> nat \<Rightarrow> vm_store \<Rightarrow> unit vm_op" where
  "queue_host_call c guest_task vs =
     queue_call guest_task (hc_callee c) (hc_param_count c) 1 (hc_callback c \<noteq> None) (hc_async c)
       (hc_callback c \<noteq> None) (hc_post_return c) vs"

text \<open>\<open>TaskId::remove\<close>.\<close>

definition task_id_remove :: "nat \<Rightarrow> vm_store \<Rightarrow> unit vm_op" where
  "task_id_remove task = in_state (delete_from (WGuest task))"

text \<open>
  A call between guests.  The caller becomes the parent of the new task, whose
  instance must not be among those of its callers; a chain of callers that never
  ends is reported as a panic.
\<close>

record adapter_call =
  ac_start :: nat
  ac_return :: nat
  ac_caller_instance :: nat
  ac_callee_instance :: nat
  ac_task_return_type :: nat
  ac_memory :: "nat option"
  ac_string_encoding :: string_encoding
  ac_caller_info :: caller_info

fun result_info_of :: "caller_info \<Rightarrow> (conc_error, result_info) outcome" where
  "result_info_of (CallAsync params has_result) =
     (if has_result then (if params = [] then Panic ''unwrap on None'' else Ok (ResultHeap (of_nat (last params))))
      else Ok (ResultStack 0))"
| "result_info_of (CallSync params result_count) =
     (if result_count > MAX_FLAT_RESULTS then
        (if params = [] then Panic ''unwrap on None'' else Ok (ResultHeap (of_nat (last params))))
      else Ok (ResultStack result_count))"

fun is_sync_caller :: "caller_info \<Rightarrow> bool" where
  "is_sync_caller (CallSync params n) = True"
| "is_sync_caller (CallAsync params r) = False"

definition check_may_enter :: "nat \<Rightarrow> concurrent_state \<Rightarrow> (conc_error, unit) outcome" where
  "check_may_enter guest_task s = (case may_enter guest_task s of
      None \<Rightarrow> Panic ''may_enter does not return''
    | Some r \<Rightarrow> and_then_pure r (\<lambda>ok. if ok then Ok () else Err (Trap ''CannotEnterComponent'')))"

definition prepare_call :: "adapter_call \<Rightarrow> vm_store \<Rightarrow> unit vm_op" where
  "prepare_call c vs =
     and_then (result_info_of (ac_caller_info c), vs) (\<lambda>info vs.
     let old = cs_guest_task (vs_state vs); vs = set_guest_task None vs in
     case old of
       None \<Rightarrow> (Panic ''unwrap on None'', vs)
     | Some old_task \<Rightarrow>
         and_then (in_state (guest_task_new (LowerAdapter (ac_start c) (ac_caller_info c))
             \<lparr>lr_lift = LiftAdapter (ac_return c) (is_sync_caller (ac_caller_info c)) info,
              lr_ty = ac_task_return_type c, lr_memory = ac_memory c, lr_string_encoding = ac_string_encoding c\<rparr>
             (CallerGuest old_task (ac_caller_instance c)) None (ac_callee_instance c)) vs) (\<lambda>new_task vs.
         and_then (in_state (cs_push (ObjGuestTask new_task)) vs) (\<lambda>guest_task vs.
         and_then (peek (check_may_enter guest_task) vs) (\<lambda>_ vs.
         and_then (in_state (mut_guest_task old_task (\<lambda>t. t\<lparr>gt_subtasks := insert guest_task (gt_subtasks t)\<rparr>)) vs) (\<lambda>_ vs.
         (Ok (), set_guest_task (Some guest_task) vs))))))"

text \<open>How the compiled adapter passes the kind of its caller.\<close>

definition PREPARE_ASYNC_NO_RESULT :: nat where "PREPARE_ASYNC_NO_RESULT = u32_max"
definition PREPARE_ASYNC_WITH_RESULT :: nat where "PREPARE_ASYNC_WITH_RESULT = u32_max - 1"

definition caller_info_of :: "nat \<Rightarrow> val_raw list \<Rightarrow> caller_info" where
  "caller_info_of result_count_or_max_if_async params =
     (if result_count_or_max_if_async = PREPARE_ASYNC_NO_RESULT then CallAsync params False
      else if result_count_or_max_if_async = PREPARE_ASYNC_WITH_RESULT then CallAsync params True
      else CallSync params result_count_or_max_if_async)"


section \<open>Completing a task\<close>

text \<open>The closure that lifts a result.\<close>

fun sync_result_of :: "result_info \<Rightarrow> val_raw list \<Rightarrow> (conc_error, val_raw option) outcome" where
  "sync_result_of (ResultHeap results) src = Ok None"
| "sync_result_of (ResultStack result_count) src =
     (if result_count = 0 then Ok None
      else if result_count = 1 then
        (case src of [] \<Rightarrow> Panic ''index out of bounds'' | v # vs \<Rightarrow> Ok (Some v))
      else Panic ''unreachable'')"

fun lift_buffer :: "result_info \<Rightarrow> val_raw list \<Rightarrow> val_raw list" where
  "lift_buffer (ResultHeap results) src = src @ [unat results]"
| "lift_buffer (ResultStack n) src = src"

fun run_lift :: "hooks \<Rightarrow> raw_lift \<Rightarrow> val_raw list \<Rightarrow> vm_store \<Rightarrow> nat vm_op" where
  "run_lift hk (LiftHost f) src vs = on_guest (hk_lift hk f src) vs"
| "run_lift hk (LiftAdapter ret_fn sync_caller info) src vs =
     and_then (on_guest (hk_call_raw hk ret_fn (lift_buffer info src)) vs) (\<lambda>my_src vs.
     and_then (peek current_task vs) (\<lambda>task vs.
     if sync_caller then
       and_then (sync_result_of info my_src, vs) (\<lambda>v vs.
       and_then (in_state (mut_guest_task task (\<lambda>t. t\<lparr>gt_sync_result := Some v\<rparr>)) vs) (\<lambda>_ vs. (Ok 0, vs)))
     else (Ok 0, vs)))"

definition post_return_arg_set :: "nat \<Rightarrow> val_raw \<Rightarrow> vm_store \<Rightarrow> unit vm_op" where
  "post_return_arg_set i arg vs =
     (if vs_post_return_arg vs \<noteq> None then (Panic ''assertion failed: self.post_return_arg.is_none()'', vs)
      else (Ok (), vs\<lparr>vs_post_return_arg := Some (i, arg)\<rparr>))"

definition end_scope :: "guest_task \<Rightarrow> val_raw \<Rightarrow> vm_store \<Rightarrow> unit vm_op" where
  "end_scope t post_return_arg vs =
     (if call_post_return_automatically t then on_resources exit_call vs
      else (case gt_function_index t of
          None \<Rightarrow> (Panic ''unwrap on None'', vs)
        | Some i \<Rightarrow> post_return_arg_set i post_return_arg vs))"

definition task_complete :: "nat \<Rightarrow> nat \<Rightarrow> status \<Rightarrow> val_raw \<Rightarrow> vm_store \<Rightarrow> unit vm_op" where
  "task_complete guest_task result status post_return_arg vs =
     and_then (peek (get_guest_task guest_task) vs) (\<lambda>t vs.
     and_then (end_scope t post_return_arg vs) (\<lambda>_ vs.
     and_then (peek (get_guest_task guest_task) vs) (\<lambda>t vs.
     case gt_caller t of
       CallerHost tx remove post \<Rightarrow>
         and_then (in_state (mut_guest_task guest_task (\<lambda>t. t\<lparr>gt_caller := CallerHost None remove post\<rparr>)) vs) (\<lambda>_ vs.
         (Ok (), case tx of None \<Rightarrow> vs | Some ch \<Rightarrow> vs\<lparr>vs_results := (vs_results vs)(ch \<mapsto> result)\<rparr>))
     | CallerGuest task i \<Rightarrow>
         and_then (in_state (mut_guest_task guest_task (\<lambda>t. t\<lparr>gt_result := Some result\<rparr>)) vs) (\<lambda>_ vs.
         in_state (set_event (WGuest guest_task) (Some (EvSubtask status))) vs))))"

text \<open>Taking the lifting closure is what makes a second completion an error.\<close>

definition take_lift_result :: "nat \<Rightarrow> vm_store \<Rightarrow> lift_result vm_op" where
  "take_lift_result guest_task vs =
     and_then (in_state (mut_guest_task guest_task (\<lambda>t. t\<lparr>gt_lift_result := None\<rparr>)) vs) (\<lambda>t vs.
     and_then (ok_or (Bail ''task.return or task.cancel called more than once for current task'')
       (gt_lift_result t), vs) (\<lambda>lift vs.
     if gt_result t \<noteq> None then (Panic ''assertion failed: result.is_none()'', vs)
     else (Ok lift, vs)))"

definition invalid_return :: "hooks \<Rightarrow> lift_result \<Rightarrow> nat \<Rightarrow> canonical_options \<Rightarrow> bool" where
  "invalid_return hk lift ty co =
     (ty \<noteq> lr_ty lift \<or> co_string_encoding co \<noteq> lr_string_encoding lift \<or>
      (case co_data_model co of
         LinearMemory (Some memory) \<Rightarrow> lr_memory lift \<noteq> Some (hk_runtime_memory hk memory)
       | LinearMemory None \<Rightarrow> False
       | GcModel \<Rightarrow> True))"

definition task_return :: "hooks \<Rightarrow> nat \<Rightarrow> nat \<Rightarrow> val_raw list \<Rightarrow> vm_store \<Rightarrow> unit vm_op" where
  "task_return hk ty options storage vs =
     and_then (peek current_task vs) (\<lambda>guest_task vs.
     and_then (take_lift_result guest_task vs) (\<lambda>lift vs.
     if invalid_return hk lift ty (hk_options hk options) then
       (Err (Bail ''invalid task.return signature and/or options for current task''), vs)
     else and_then (run_lift hk (lr_lift lift) storage vs) (\<lambda>result vs.
       task_complete guest_task result Returned 0 vs)))"

definition task_cancel :: "vm_store \<Rightarrow> unit vm_op" where
  "task_cancel vs =
     and_then (peek current_task vs) (\<lambda>guest_task vs.
     and_then (peek (get_guest_task guest_task) vs) (\<lambda>t vs.
     if \<not> gt_cancel_sent t then (Err (Bail ''task.cancel called by task which has not been cancelled''), vs)
     else and_then (take_lift_result guest_task vs) (\<lambda>_ vs.
       task_complete guest_task 0 ReturnCancelled 0 vs)))"


section \<open>Starting a queued call\<close>

text \<open>
  The closure that lowers the parameters.  That of a call between guests runs the
  adapter on the caller's values, of which the last is a return pointer if the
  caller is asynchronous and there is a result, and then reports the start.
\<close>

fun adapter_params :: "caller_info \<Rightarrow> (conc_error, val_raw list) outcome" where
  "adapter_params (CallAsync params has_result) =
     (if has_result \<and> params = [] then Panic ''attempt to subtract with overflow''
      else Ok (if has_result then butlast params else params))"
| "adapter_params (CallSync params n) = Ok params"

fun run_lower :: "hooks \<Rightarrow> raw_lower \<Rightarrow> nat \<Rightarrow> vm_store \<Rightarrow> val_raw list vm_op" where
  "run_lower hk (LowerHost f) param_count vs = on_guest (hk_lower hk f param_count) vs"
| "run_lower hk (LowerAdapter start info) param_count vs =
     (if param_count > MAX_FLAT_PARAMS then (Panic ''assertion failed: dst.len() <= MAX_FLAT_PARAMS'', vs)
      else and_then (adapter_params info, vs) (\<lambda>params vs.
        if length params > MAX_FLAT_PARAMS then (Panic ''range end index out of range'', vs)
        else and_then (on_guest (hk_call_raw hk start (params @ replicate (param_count - length params) 0)) vs) (\<lambda>src vs.
          and_then (peek current_task vs) (\<lambda>task vs.
          and_then (in_state (set_event (WGuest task) (Some (EvSubtask Started))) vs) (\<lambda>_ vs.
          (Ok (take param_count src), vs))))))"

text \<open>
  \<open>make_call\<close> up to the call of the core function, with what is needed after it:
  whether the instance may be entered then, and the parameters.
\<close>

definition make_call_begin :: "hooks \<Rightarrow> nat \<Rightarrow> start_fn \<Rightarrow> vm_store \<Rightarrow> (bool \<times> val_raw list) vm_op" where
  "make_call_begin hk guest_task f vs =
     and_then (in_state (mut_guest_task guest_task (\<lambda>t. t\<lparr>gt_lower_params := None\<rparr>)) vs) (\<lambda>t vs.
     case gt_lower_params t of
       None \<Rightarrow> (Panic ''unwrap on None'', vs)
     | Some lower \<Rightarrow>
         and_then (run_lower hk lower (sf_param_count f) vs) (\<lambda>params vs.
         (Ok (call_post_return_automatically t, params),
          if sf_flags f then set_may_enter (sf_instance f) False vs else vs)))"

definition make_call_end :: "bool \<Rightarrow> start_fn \<Rightarrow> vm_store \<Rightarrow> vm_store" where
  "make_call_end may_enter_after_call f vs =
     (if sf_flags f then set_may_enter (sf_instance f) may_enter_after_call vs else vs)"

text \<open>
  The closure of \<open>queue_call\<close>: before the call of the export, and after it.  An
  instance is entered unless the export is async-lifted without a callback.
\<close>

definition exclusive :: "start_fn \<Rightarrow> bool" where
  "exclusive f \<longleftrightarrow> sf_callback f \<or> \<not> sf_async f"

definition start_begin :: "hooks \<Rightarrow> nat \<Rightarrow> start_fn \<Rightarrow> vm_store \<Rightarrow> (nat option \<times> bool \<times> val_raw list) vm_op" where
  "start_begin hk guest_task f vs =
     (let old_task = cs_guest_task (vs_state vs) in
      and_then (maybe_push_call_context guest_task (set_guest_task (Some guest_task) vs)) (\<lambda>_ vs.
      and_then (make_call_begin hk guest_task f
          (if exclusive f then upd_state (enter_instance (sf_instance f)) vs else vs)) (\<lambda>(after, params) vs.
      (Ok (old_task, after, params), vs))))"

definition stackless_end :: "nat \<Rightarrow> start_fn \<Rightarrow> nat option \<Rightarrow> bool \<Rightarrow> val_raw \<Rightarrow> vm_store \<Rightarrow> unit vm_op" where
  "stackless_end guest_task f old_task after ret vs =
     and_then (in_state (exit_instance (sf_instance f)) (make_call_end after f vs)) (\<lambda>_ vs.
     and_then (maybe_pop_call_context guest_task vs) (\<lambda>_ vs.
     in_state (handle_callback_code guest_task (sf_instance f) (of_nat ret) True) (set_guest_task old_task vs)))"

definition sync_lifted_end :: "hooks \<Rightarrow> nat \<Rightarrow> start_fn \<Rightarrow> val_raw \<Rightarrow> vm_store \<Rightarrow> unit vm_op" where
  "sync_lifted_end hk guest_task f ret vs =
     and_then (in_state (exit_instance (sf_instance f)) vs) (\<lambda>_ vs.
     and_then (peek (get_guest_task guest_task) vs) (\<lambda>t vs.
     if gt_result t \<noteq> None then (Panic ''assertion failed: result.is_none()'', vs)
     else and_then (in_state (mut_guest_task guest_task (\<lambda>t. t\<lparr>gt_lift_result := None\<rparr>)) vs) (\<lambda>t vs.
       case gt_lift_result t of
         None \<Rightarrow> (Panic ''unwrap on None'', vs)
       | Some lift \<Rightarrow>
           and_then (run_lift hk (lr_lift lift) (take (sf_result_count f) [ret]) vs) (\<lambda>result vs.
           if sf_result_count f > 1 then (Panic ''unreachable'', vs)
           else
             (let post_return_arg = (if sf_result_count f = 0 then 0 else ret) in
              and_then (peek (get_guest_task guest_task) vs) (\<lambda>t vs.
              and_then
                (if call_post_return_automatically t then
                   and_then (case sf_post_return f of
                       None \<Rightarrow> (Ok (), vs\<lparr>vs_needs_post_return := (vs_needs_post_return vs)(sf_instance f := False)\<rparr>)
                     | Some func \<Rightarrow> discard (on_guest (hk_call_raw hk func [post_return_arg])
                         (vs\<lparr>vs_needs_post_return := (vs_needs_post_return vs)(sf_instance f := False)\<rparr>))) (\<lambda>_ vs.
                   (Ok (), set_may_enter (sf_instance f) True vs))
                 else (Ok (), vs)) (\<lambda>_ vs.
              task_complete guest_task result Returned post_return_arg vs)))))))"

definition stackful_end :: "hooks \<Rightarrow> nat \<Rightarrow> start_fn \<Rightarrow> bool \<Rightarrow> val_raw \<Rightarrow> vm_store \<Rightarrow> unit vm_op" where
  "stackful_end hk guest_task f after ret vs =
     and_then
       (if sf_async f then
          and_then (peek (get_guest_task guest_task) (make_call_end after f vs)) (\<lambda>t vs.
          if gt_lift_result t \<noteq> None then (Err (Trap ''NoAsyncResult''), vs) else (Ok (), vs))
        else sync_lifted_end hk guest_task f ret (make_call_end after f vs)) (\<lambda>_ vs.
     and_then (maybe_pop_call_context guest_task vs) (\<lambda>_ vs.
     and_then (peek (get_guest_task guest_task) vs) (\<lambda>t vs.
     case gt_caller t of
       CallerHost tx remove_task_automatically post \<Rightarrow>
         if remove_task_automatically then in_state (delete_from (WGuest guest_task)) vs else (Ok (), vs)
     | CallerGuest task i \<Rightarrow>
         discard (in_state (mut_guest_task guest_task (\<lambda>t. t\<lparr>gt_exited := True\<rparr>)) vs))))"


section \<open>Delivering an event to a callback\<close>

definition event_handle :: "(waitable \<times> nat) option \<Rightarrow> nat" where
  "event_handle w = (case w of Some (w, handle) \<Rightarrow> handle | None \<Rightarrow> 0)"

text \<open>
  The delivery up to the call of the callback, with the task to restore, the
  instance, the callback and its arguments; and the rest, once the callback has
  returned a code.
\<close>

definition deliver_begin ::
    "nat \<Rightarrow> nat \<Rightarrow> nat option \<Rightarrow> vm_store \<Rightarrow> (nat option \<times> nat \<times> callback_fn \<times> val_raw list) vm_op" where
  "deliver_begin guest_task i set_id vs =
     and_then (in_state (get_event guest_task i set_id) vs) (\<lambda>e vs. case e of
       None \<Rightarrow> (Panic ''unwrap on None'', vs)
     | Some (event, w) \<Rightarrow>
         and_then (peek (get_guest_task guest_task) vs) (\<lambda>t vs.
         let runtime_instance = gt_instance t; old_task = cs_guest_task (vs_state vs) in
         and_then (maybe_push_call_context guest_task (set_guest_task (Some guest_task) vs)) (\<lambda>_ vs.
         and_then (in_state (mut_guest_task guest_task (\<lambda>t. t\<lparr>gt_callback := None\<rparr>))
             (upd_state (enter_instance runtime_instance) vs)) (\<lambda>t vs.
         case gt_callback t of
           None \<Rightarrow> (Panic ''unwrap on None'', vs)
         | Some callback \<Rightarrow>
             and_then (event_parts event, vs) (\<lambda>(ordinal, result) vs.
             (Ok (old_task, runtime_instance, callback, [unat ordinal, event_handle w, unat result]),
              set_may_enter runtime_instance False vs))))))"

definition deliver_end :: "nat \<Rightarrow> nat option \<Rightarrow> nat \<Rightarrow> callback_fn \<Rightarrow> val_raw \<Rightarrow> vm_store \<Rightarrow> unit vm_op" where
  "deliver_end guest_task old_task runtime_instance callback ret vs =
     and_then (in_state (mut_guest_task guest_task (\<lambda>t. t\<lparr>gt_callback := Some callback\<rparr>))
         (set_may_enter runtime_instance (cf_may_enter_after_call callback) vs)) (\<lambda>_ vs.
     and_then (in_state (exit_instance runtime_instance) vs) (\<lambda>_ vs.
     and_then (maybe_pop_call_context guest_task vs) (\<lambda>_ vs.
     and_then (in_state (handle_callback_code guest_task runtime_instance (of_nat ret) False) vs) (\<lambda>_ vs.
     (Ok (), set_guest_task old_task vs)))))"


section \<open>Where a suspended function goes on\<close>

record check_params =
  cp_set :: nat
  cp_caller_instance :: nat
  cp_options :: nat
  cp_payload :: nat

datatype waitable_check = CheckWait check_params | CheckPoll check_params | CheckYield

text \<open>The locals of \<open>start_call\<close> that are used after a suspension.\<close>

record call_wait =
  cw_guest_task :: nat
  cw_caller :: nat
  cw_caller_instance :: nat
  cw_set :: nat
  cw_old_set :: "nat option"
  cw_sync :: bool

datatype point =
    CheckYielded waitable_check nat
  | CheckWaited waitable_check nat
  | CallWaited call_wait
  | CancelYielded nat nat bool
  | CancelWaited nat "nat option"
  | HostBlocked import_call nat "nat option"

type_synonym step_result = "(32 word, point) progress"


section \<open>Waiting\<close>

fun check_waits :: "waitable_check \<Rightarrow> bool" where
  "check_waits (CheckWait p) = True"
| "check_waits _ = False"

definition waitable_check_begin :: "bool \<Rightarrow> waitable_check \<Rightarrow> vm_store \<Rightarrow> step_result vm_op" where
  "waitable_check_begin async check vs =
     (if async then (Err (Bail ''todo: async waitable-set.wait, waitable-set.poll, and yield not yet implemented''), vs)
      else and_then (peek current_task vs) (\<lambda>guest_task vs.
        (Ok (Suspend (Yielding guest_task) (CheckYielded check guest_task)), vs)))"

text \<open>The event as the guest reads it, and the two words stored for it.\<close>

definition store_payload :: "hooks \<Rightarrow> check_params \<Rightarrow> nat \<Rightarrow> 32 word \<Rightarrow> vm_store \<Rightarrow> unit vm_op" where
  "store_payload hk p handle result vs = (case co_data_model (hk_options hk (cp_options p)) of
      LinearMemory (Some m) \<Rightarrow>
        (let mem = so_memories (vs_store vs) m in
         and_then (validate_inbounds_dynamic 4 8 mem (cp_payload p), vs) (\<lambda>ptr vs.
         (Ok (), vs\<lparr>vs_store := (vs_store vs)\<lparr>so_memories := (so_memories (vs_store vs))
            (m := overwrite ptr (u32_le_bytes handle @ u32_le_bytes (unat result)) mem)\<rparr>\<rparr>)))
    | _ \<Rightarrow> (Panic ''unwrap on None'', vs))"

definition check_deliver :: "hooks \<Rightarrow> bool \<Rightarrow> check_params \<Rightarrow> nat \<Rightarrow> vm_store \<Rightarrow> 32 word vm_op" where
  "check_deliver hk wait p guest_task vs =
     and_then (in_state (get_event guest_task (cp_caller_instance p) (Some (cp_set p))) vs) (\<lambda>e vs.
     and_then (case e of
         Some (event, w) \<Rightarrow> map_ok (\<lambda>(ordinal, result). (ordinal, event_handle w, result)) (event_parts event)
       | None \<Rightarrow> (if wait then Panic ''unwrap on None''
           else map_ok (\<lambda>(ordinal, result). (ordinal, 0, result)) (event_parts EvNone)), vs) (\<lambda>(ordinal, handle, result) vs.
     and_then (store_payload hk p handle result vs) (\<lambda>_ vs. (Ok ordinal, vs))))"

fun check_finish :: "hooks \<Rightarrow> waitable_check \<Rightarrow> nat \<Rightarrow> vm_store \<Rightarrow> 32 word vm_op" where
  "check_finish hk (CheckWait p) guest_task vs = check_deliver hk True p guest_task vs"
| "check_finish hk (CheckPoll p) guest_task vs = check_deliver hk False p guest_task vs"
| "check_finish hk CheckYield guest_task vs = (Ok 0, vs)"

definition finished :: "'a vm_op \<Rightarrow> ('a, 'k) progress vm_op" where
  "finished m = and_then m (\<lambda>x vs. (Ok (Finished x), vs))"

definition check_yielded :: "hooks \<Rightarrow> waitable_check \<Rightarrow> nat \<Rightarrow> vm_store \<Rightarrow> step_result vm_op" where
  "check_yielded hk check guest_task vs =
     and_then (peek (get_guest_task guest_task) vs) (\<lambda>t vs.
     if check_waits check \<and> gt_callback t \<noteq> None then
       (Err (Bail ''cannot call task.wait from async-lifted export with callback''), vs)
     else (case check of
         CheckWait p \<Rightarrow>
           and_then (if gt_event t \<noteq> None then Ok False
             else map_ok (\<lambda>ws. ws_ready ws = {}) (get_waitable_set (cp_set p) (vs_state vs)), vs) (\<lambda>must_wait vs.
           if must_wait then
             and_then (in_state (mut_guest_task guest_task (\<lambda>t. t\<lparr>gt_wake_on_cancel := Some (cp_set p)\<rparr>)) vs) (\<lambda>t vs.
             if gt_wake_on_cancel t \<noteq> None then (Panic ''assertion failed: old.is_none()'', vs)
             else (Ok (Suspend (Waiting (cp_set p) guest_task) (CheckWaited check guest_task)), vs))
           else finished (check_finish hk check guest_task vs))
       | _ \<Rightarrow> finished (check_finish hk check guest_task vs)))"

definition waitable_set_check ::
    "hooks \<Rightarrow> (check_params \<Rightarrow> waitable_check) \<Rightarrow> nat \<Rightarrow> nat \<Rightarrow> nat \<Rightarrow> vm_store \<Rightarrow> step_result vm_op" where
  "waitable_set_check hk check options set_handle address vs =
     (let co = hk_options hk options in
      and_then (peek (waitable_set_handle (co_instance co) set_handle) vs) (\<lambda>rep vs.
      waitable_check_begin (co_async co) (check \<lparr>cp_set = rep, cp_caller_instance = co_instance co,
        cp_options = options, cp_payload = address\<rparr>) vs))"

definition waitable_set_wait :: "hooks \<Rightarrow> nat \<Rightarrow> nat \<Rightarrow> nat \<Rightarrow> vm_store \<Rightarrow> step_result vm_op" where
  "waitable_set_wait hk = waitable_set_check hk CheckWait"

definition waitable_set_poll :: "hooks \<Rightarrow> nat \<Rightarrow> nat \<Rightarrow> nat \<Rightarrow> vm_store \<Rightarrow> step_result vm_op" where
  "waitable_set_poll hk = waitable_set_check hk CheckPoll"

text \<open>\<open>yield\<close> returns false, which the result 0 stands for.\<close>

definition yield_now :: "bool \<Rightarrow> vm_store \<Rightarrow> step_result vm_op" where
  "yield_now async = waitable_check_begin async CheckYield"


section \<open>Starting a call between guests\<close>

text \<open>
  \<open>start_call\<close> queues the call that \<open>prepare_call\<close> has made the current task and
  suspends the caller until the first event of the new task.  Then it goes on with
  \<open>start_call_woken\<close>, which a synchronous caller repeats until the task has
  returned; the last part hands back a handle or takes the result.
\<close>

record start_args =
  sa_callback :: "nat option"
  sa_post_return :: "nat option"
  sa_callee :: nat
  sa_param_count :: nat
  sa_result_count :: nat
  sa_async_callee :: bool
  sa_sync_caller :: bool

definition start_call :: "start_args \<Rightarrow> vm_store \<Rightarrow> step_result vm_op" where
  "start_call a vs =
     and_then (peek current_task vs) (\<lambda>guest_task vs.
     and_then (peek (get_guest_task guest_task) vs) (\<lambda>t vs.
     if sa_param_count a > MAX_FLAT_PARAMS then (Panic ''assertion failed: param_count <= MAX_FLAT_PARAMS'', vs)
     else if sa_result_count a > MAX_FLAT_RESULTS then (Panic ''assertion failed: result_count <= MAX_FLAT_RESULTS'', vs)
     else and_then (in_state (mut_guest_task guest_task (\<lambda>t. case sa_callback a of
         None \<Rightarrow> t
       | Some f \<Rightarrow> t\<lparr>gt_callback := Some
           \<lparr>cf_function = f, cf_may_enter_after_call = call_post_return_automatically t\<rparr>\<rparr>)) vs) (\<lambda>t vs.
     case gt_caller t of
       CallerHost tx remove post \<Rightarrow> (Panic ''unreachable'', vs)
     | CallerGuest c caller_instance \<Rightarrow>
         and_then (queue_call guest_task (sa_callee a) (sa_param_count a) (sa_result_count a)
             (sa_callback a \<noteq> None) (sa_async_callee a) (sa_callback a \<noteq> None) (sa_post_return a) vs) (\<lambda>_ vs.
         and_then (peek (common_get (WGuest guest_task)) vs) (\<lambda>common vs.
         and_then (peek (get_guest_task c) vs) (\<lambda>ct vs.
         and_then (in_state (join (WGuest guest_task) (Some (gt_sync_call_set ct))) vs) (\<lambda>_ vs.
         (Ok (Suspend (Waiting (gt_sync_call_set ct) c) (CallWaited
            \<lparr>cw_guest_task = guest_task, cw_caller = c, cw_caller_instance = caller_instance,
             cw_set = gt_sync_call_set ct, cw_old_set = wc_set common, cw_sync = sa_sync_caller a\<rparr>)), vs))))))))"

definition take_sync_result :: "nat \<Rightarrow> vm_store \<Rightarrow> unit vm_op" where
  "take_sync_result guest_task vs =
     and_then (in_state (mut_guest_task guest_task (\<lambda>t. t\<lparr>gt_sync_result := None\<rparr>)) vs) (\<lambda>t vs.
     case gt_sync_result t of
       Some result \<Rightarrow> in_state (delete_from (WGuest guest_task))
         (case result of None \<Rightarrow> vs | Some v \<Rightarrow> vs\<lparr>vs_storage := Some v\<rparr>)
     | None \<Rightarrow> (Err (Trap ''NoAsyncResult''), vs))"

definition start_call_finish :: "call_wait \<Rightarrow> status \<Rightarrow> nat option \<Rightarrow> vm_store \<Rightarrow> step_result vm_op" where
  "start_call_finish w status handle vs =
     and_then (in_state (join (WGuest (cw_guest_task w)) (cw_old_set w)) vs) (\<lambda>_ vs.
     and_then (if cw_sync w then take_sync_result (cw_guest_task w) vs else (Ok (), vs)) (\<lambda>_ vs.
     finished (status_pack status handle, set_guest_task (Some (cw_caller w)) vs)))"

definition start_call_woken :: "call_wait \<Rightarrow> vm_store \<Rightarrow> step_result vm_op" where
  "start_call_woken w vs =
     and_then (in_state (take_event (WGuest (cw_guest_task w))) vs) (\<lambda>e vs. case e of
       Some (EvSubtask status) \<Rightarrow>
         if status = Returned then start_call_finish w status None vs
         else if \<not> cw_sync w then
           and_then (in_state (in_waitables (cw_caller_instance w) (st_insert (cw_guest_task w) WsGuestTask)) vs) (\<lambda>handle vs.
           start_call_finish w status (Some handle) vs)
         else (Ok (Suspend (Waiting (cw_set w) (cw_caller w)) (CallWaited w)), vs)
     | _ \<Rightarrow> (Panic ''unreachable'', vs))"


section \<open>Cancelling a subtask\<close>

definition cancel_finish :: "waitable \<Rightarrow> vm_store \<Rightarrow> step_result vm_op" where
  "cancel_finish w vs =
     and_then (in_state (take_event w) vs) (\<lambda>e vs.
     if e = Some (EvSubtask Returned) then (Ok (Finished (status_code Returned)), vs)
     else if e = Some (EvSubtask ReturnCancelled) then (Ok (Finished (status_code ReturnCancelled)), vs)
     else (Err (Bail ''subtask.cancel called after terminal status delivered''), vs))"

definition cancel_waited :: "nat \<Rightarrow> nat option \<Rightarrow> vm_store \<Rightarrow> step_result vm_op" where
  "cancel_waited guest_task old_set vs =
     and_then (in_state (join (WGuest guest_task) old_set) vs) (\<lambda>_ vs. cancel_finish (WGuest guest_task) vs)"

definition cancel_check :: "nat \<Rightarrow> nat \<Rightarrow> bool \<Rightarrow> vm_store \<Rightarrow> step_result vm_op" where
  "cancel_check c guest_task async vs =
     and_then (peek (get_guest_task guest_task) vs) (\<lambda>t vs.
     if gt_lift_result t \<noteq> None then
       (if async then (Ok (Finished BLOCKED), vs)
        else
          and_then (peek (get_guest_task c) vs) (\<lambda>ct vs.
          and_then (in_state (join (WGuest guest_task) (Some (gt_sync_call_set ct))) vs) (\<lambda>_ vs.
          (Ok (Suspend (Waiting (gt_sync_call_set ct) c) (CancelWaited guest_task (wc_set (gt_common t)))), vs))))
     else cancel_finish (WGuest guest_task) vs)"

text \<open>A task that has not started is taken out of the pending calls of its instance.\<close>

definition cancel_unstarted :: "nat \<Rightarrow> vm_store \<Rightarrow> step_result vm_op" where
  "cancel_unstarted guest_task vs =
     and_then (in_state (mut_guest_task guest_task (\<lambda>t. t\<lparr>gt_lower_params := None, gt_lift_result := None\<rparr>)) vs) (\<lambda>t vs.
     let i = gt_instance t; kind = map_of (is_pending (cs_instance_states (vs_state vs) i)) guest_task;
         vs = upd_state (mut_instance_state i (\<lambda>st. st\<lparr>is_pending := bt_remove guest_task (is_pending st)\<rparr>)) vs in
     if kind = None then (Err (Bail ''subtask.cancel called after terminal status delivered''), vs)
     else (Ok (Finished (status_code StartCancelled)), vs))"

text \<open>A task that has started is sent the event, and woken if it waits and can be.\<close>

fun cancel_item :: "nat \<Rightarrow> wait_mode \<Rightarrow> work_item" where
  "cancel_item guest_task (WaitFiber fiber) = ResumeFiber fiber"
| "cancel_item guest_task (WaitCallback i) =
     GuestCallItem \<lparr>gc_task = guest_task, gc_kind = DeliverEvent i None\<rparr>"

definition cancel_started :: "nat \<Rightarrow> nat \<Rightarrow> bool \<Rightarrow> vm_store \<Rightarrow> step_result vm_op" where
  "cancel_started c guest_task async vs =
     and_then (in_state (mut_guest_task guest_task
         (\<lambda>t. t\<lparr>gt_cancel_sent := True, gt_event := Some EvCancelled, gt_wake_on_cancel := None\<rparr>)) vs) (\<lambda>t vs.
     case gt_wake_on_cancel t of
       None \<Rightarrow> cancel_check c guest_task async vs
     | Some k \<Rightarrow>
         and_then (in_state (mut_waitable_set k (\<lambda>ws. ws\<lparr>ws_waiting := bt_remove guest_task (ws_waiting ws)\<rparr>)) vs) (\<lambda>ws vs.
         case map_of (ws_waiting ws) guest_task of
           None \<Rightarrow> (Panic ''unwrap on None'', vs)
         | Some mode \<Rightarrow>
             (Ok (Suspend (Yielding c) (CancelYielded c guest_task async)),
              upd_state (push_high_priority (cancel_item guest_task mode)) vs)))"

definition subtask_cancel_guest :: "nat \<Rightarrow> bool \<Rightarrow> vm_store \<Rightarrow> step_result vm_op" where
  "subtask_cancel_guest guest_task async vs =
     and_then (peek current_task vs) (\<lambda>c vs.
     and_then (peek (get_guest_task guest_task) vs) (\<lambda>t vs.
     if gt_lower_params t \<noteq> None then cancel_unstarted guest_task vs
     else if gt_lift_result t \<noteq> None then cancel_started c guest_task async vs
     else cancel_finish (WGuest guest_task) vs))"

definition subtask_cancel_host :: "nat \<Rightarrow> vm_store \<Rightarrow> step_result vm_op" where
  "subtask_cancel_host task vs =
     and_then (in_state (mut_host_task task (\<lambda>t. t\<lparr>ht_join_handle := None\<rparr>)) vs) (\<lambda>t vs.
     case ht_join_handle t of
       Some handle \<Rightarrow> (Ok (Finished (status_code ReturnCancelled)), vs\<lparr>vs_aborted := insert handle (vs_aborted vs)\<rparr>)
     | None \<Rightarrow> cancel_finish (WHost task) vs)"

definition cancel_target :: "nat \<Rightarrow> nat \<Rightarrow> concurrent_state \<Rightarrow> (conc_error, waitable \<times> nat) outcome" where
  "cancel_target caller_instance task_id s =
     and_then_pure (waitables_get caller_instance task_id s) (\<lambda>(rep, st). case st of
       WsHostTask \<Rightarrow> and_then_pure (get_host_task rep s) (\<lambda>t. Ok (WHost rep, ht_caller_instance t))
     | WsGuestTask \<Rightarrow> and_then_pure (get_guest_task rep s) (\<lambda>t. case gt_caller t of
           CallerGuest task i \<Rightarrow> Ok (WGuest rep, i)
         | CallerHost tx remove post \<Rightarrow> Panic ''unreachable'')
     | _ \<Rightarrow> Err (Bail ''invalid task handle''))"

definition subtask_cancel :: "nat \<Rightarrow> bool \<Rightarrow> nat \<Rightarrow> vm_store \<Rightarrow> step_result vm_op" where
  "subtask_cancel caller_instance async task_id vs =
     and_then (peek (cancel_target caller_instance task_id) vs) (\<lambda>(w, expected_caller_instance) vs.
     if expected_caller_instance \<noteq> caller_instance then
       (Panic ''assertion failed: expected_caller_instance == caller_instance'', vs)
     else (case w of
         WHost task \<Rightarrow> subtask_cancel_host task vs
       | WGuest task \<Rightarrow> subtask_cancel_guest task async vs
       | WTransmit k \<Rightarrow> (Panic ''unreachable'', vs)))"


section \<open>Calls of host functions\<close>

text \<open>
  What a host function does: it is done at once, or it returns a future whose
  first poll is ready or pending.  A result that is missing stands for an error.
\<close>

datatype host_poll = PollReady "nat option" | PollPending

datatype import_result = HostDone "nat option" | HostFuture host_poll

definition host_value :: "nat option \<Rightarrow> (conc_error, nat) outcome" where
  "host_value v = ok_or (Bail ''host function failed'') v"

text \<open>Lowering the result, with the instance marked so that \<open>realloc\<close> cannot leave it.\<close>

definition lower_result :: "hooks \<Rightarrow> import_call \<Rightarrow> nat \<Rightarrow> vm_store \<Rightarrow> unit vm_op" where
  "lower_result hk c ret vs =
     (let i = co_instance (hk_options hk (ic_options c)) in
      and_then (on_guest (hk_lower_result hk c ret) (set_may_leave i False vs)) (\<lambda>_ vs.
      on_resources exit_call (set_may_leave i True vs)))"

definition enter_host :: "hooks \<Rightarrow> import_call \<Rightarrow> vm_store \<Rightarrow> unit vm_op" where
  "enter_host hk c vs =
     (if \<not> vs_may_leave vs (co_instance (hk_options hk (ic_options c))) then
        (Err (Bail ''cannot leave component instance''), vs)
      else on_guest (hk_lift_params hk c) (vs\<lparr>vs_resources := enter_call (vs_resources vs)\<rparr>))"

text \<open>The function a completed future leaves for a worker, for an async-lowered import.\<close>

definition first_poll_output :: "hooks \<Rightarrow> nat \<Rightarrow> import_call \<Rightarrow> nat option \<Rightarrow> vm_store \<Rightarrow> unit vm_op" where
  "first_poll_output hk task c result vs =
     and_then (host_value result, vs) (\<lambda>ret vs.
     and_then (lower_result hk c ret vs) (\<lambda>_ vs.
     and_then (in_state (mut_host_task task (\<lambda>t. t\<lparr>ht_join_handle := None\<rparr>)) vs) (\<lambda>_ vs.
     in_state (set_event (WHost task) (Some (EvSubtask Returned))) vs)))"

definition first_poll :: "hooks \<Rightarrow> import_call \<Rightarrow> host_poll \<Rightarrow> vm_store \<Rightarrow> nat option vm_op" where
  "first_poll hk c p vs =
     (let caller_instance = co_instance (hk_options hk (ic_options c)) in
      and_then (peek current_task vs) (\<lambda>_ vs.
      let handle = vs_join_handles vs; vs = vs\<lparr>vs_join_handles := handle + 1\<rparr> in
      and_then (in_state (cs_push (ObjHostTask (host_task_new caller_instance (Some handle)))) vs) (\<lambda>task vs.
      case p of
        PollReady result \<Rightarrow>
          and_then (first_poll_output hk task c result vs) (\<lambda>_ vs.
          and_then (in_state (cs_delete as_host_task task) vs) (\<lambda>_ vs. (Ok None, vs)))
      | PollPending \<Rightarrow>
          and_then (pop_scope vs) (\<lambda>cx vs.
          and_then (in_state (in_waitables caller_instance (st_insert task WsHostTask))
              (upd_state (push_future (FirstPollFuture task c handle (Some cx))) vs)) (\<lambda>handle vs.
          (Ok (Some handle), vs))))))"

definition call_host_async :: "hooks \<Rightarrow> import_call \<Rightarrow> import_result \<Rightarrow> vm_store \<Rightarrow> step_result vm_op" where
  "call_host_async hk c r vs =
     and_then (enter_host hk c vs) (\<lambda>_ vs.
     and_then (case r of
         HostDone result \<Rightarrow> and_then (host_value result, vs) (\<lambda>ret vs.
           and_then (lower_result hk c ret vs) (\<lambda>_ vs. (Ok None, vs)))
       | HostFuture p \<Rightarrow> first_poll hk c p vs) (\<lambda>task vs.
     finished (case task of Some task \<Rightarrow> status_pack Started (Some task) | None \<Rightarrow> status_pack Returned None, vs)))"

text \<open>A sync-lowered import blocks its caller until the result is there.\<close>

definition block_output :: "nat \<Rightarrow> nat \<Rightarrow> nat option \<Rightarrow> vm_store \<Rightarrow> unit vm_op" where
  "block_output c task result vs =
     and_then (host_value result, vs) (\<lambda>v vs.
     and_then (in_state (mut_guest_task c (\<lambda>t. t\<lparr>gt_result := Some v\<rparr>)) vs) (\<lambda>_ vs.
     in_state (set_event (WHost task) (Some (EvSubtask Returned))) vs))"

definition call_host_return :: "hooks \<Rightarrow> import_call \<Rightarrow> nat \<Rightarrow> vm_store \<Rightarrow> step_result vm_op" where
  "call_host_return hk c v vs = and_then (lower_result hk c v vs) (\<lambda>_ vs. (Ok (Finished 0), vs))"

definition block_finish :: "hooks \<Rightarrow> import_call \<Rightarrow> nat \<Rightarrow> nat option \<Rightarrow> vm_store \<Rightarrow> step_result vm_op" where
  "block_finish hk ic c old_result vs =
     and_then (in_state (mut_guest_task c (\<lambda>t. t\<lparr>gt_result := old_result\<rparr>)) vs) (\<lambda>t vs.
     case gt_result t of
       None \<Rightarrow> (Panic ''unwrap on None'', vs)
     | Some v \<Rightarrow> call_host_return hk ic v vs)"

definition poll_and_block :: "hooks \<Rightarrow> import_call \<Rightarrow> host_poll \<Rightarrow> vm_store \<Rightarrow> step_result vm_op" where
  "poll_and_block hk ic p vs = (case cs_guest_task (vs_state vs) of
      None \<Rightarrow> (case p of
          PollReady result \<Rightarrow> and_then (host_value result, vs) (\<lambda>v vs. call_host_return hk ic v vs)
        | PollPending \<Rightarrow> (Panic ''unreachable'', vs))
    | Some c \<Rightarrow>
        and_then (in_state (mut_guest_task c (\<lambda>t. t\<lparr>gt_result := None\<rparr>)) vs) (\<lambda>t vs.
        and_then (in_state (cs_push (ObjHostTask
            (host_task_new (co_instance (hk_options hk (ic_options ic))) None))) vs) (\<lambda>task vs.
        case p of
          PollReady result \<Rightarrow>
            and_then (block_output c task result vs) (\<lambda>_ vs.
            and_then (in_state (cs_delete as_host_task task) vs) (\<lambda>_ vs.
            block_finish hk ic c (gt_result t) vs))
        | PollPending \<Rightarrow>
            and_then (peek (get_guest_task c) (upd_state (push_future (BlockFuture c task)) vs)) (\<lambda>ct vs.
            and_then (in_state (join (WHost task) (Some (gt_sync_call_set ct))) vs) (\<lambda>_ vs.
            (Ok (Suspend (Waiting (gt_sync_call_set ct) c) (HostBlocked ic c (gt_result t))), vs))))))"

definition call_host_sync :: "hooks \<Rightarrow> import_call \<Rightarrow> import_result \<Rightarrow> vm_store \<Rightarrow> step_result vm_op" where
  "call_host_sync hk c r vs =
     and_then (enter_host hk c vs) (\<lambda>_ vs. case r of
       HostDone result \<Rightarrow> and_then (host_value result, vs) (\<lambda>v vs. call_host_return hk c v vs)
     | HostFuture p \<Rightarrow> poll_and_block hk c p vs)"


section \<open>Going on after a suspension\<close>

fun go_on :: "hooks \<Rightarrow> point \<Rightarrow> vm_store \<Rightarrow> step_result vm_op" where
  "go_on hk (CheckYielded check task) vs = check_yielded hk check task vs"
| "go_on hk (CheckWaited check task) vs = finished (check_finish hk check task vs)"
| "go_on hk (CallWaited w) vs = start_call_woken w vs"
| "go_on hk (CancelYielded c task async) vs = cancel_check c task async vs"
| "go_on hk (CancelWaited task old_set) vs = cancel_waited task old_set vs"
| "go_on hk (HostBlocked ic c old_result) vs = block_finish hk ic c old_result vs"

end
