(* ===== verification/Event_Loop.thy ===== *)
theory Event_Loop
  imports Tasks
begin

text \<open>
  The event loop, \<open>concurrent.rs\<close>: \<open>poll_until\<close> with its two queues, the handling
  of work items, and the fibers on which guest code runs.  Every fiber is a worker
  that runs one item after the other, so a fiber is idle, or it runs the start of
  a call or the delivery of an event, or it is suspended at a point inside of an
  intrinsic that such a run has called.  What core WebAssembly code does, and what
  the host and its futures do, are the inputs of the machine: one input per step,
  and every interleaving the code admits is a sequence of inputs.
\<close>

section \<open>Fibers and the loop\<close>

datatype activation =
    StartAct nat start_fn "nat option" bool
  | DeliverAct nat "nat option" nat callback_fn

fun act_task :: "activation \<Rightarrow> nat" where
  "act_task (StartAct task f old after) = task"
| "act_task (DeliverAct task old i cb) = task"

datatype fiber = IdleWorker | Suspended suspend_reason "nat option" point activation

text \<open>
  The loop: the suspended fibers, the fiber whose guest code runs now with the
  task that \<open>resume_fiber\<close> will restore, the rest of the batch of work items, and
  the value the last intrinsic returned.
\<close>

record event_loop =
  el_store :: vm_store
  el_fibers :: "nat \<Rightarrow> fiber option"
  el_next_fiber :: nat
  el_running :: "(nat \<times> nat option \<times> activation) option"
  el_batch :: "work_item list"
  el_output :: "32 word option"

type_synonym 'a loop_op = "(conc_error, 'a, event_loop) result"

abbreviation el_state :: "event_loop \<Rightarrow> concurrent_state" where
  "el_state l \<equiv> vs_state (el_store l)"

definition on_vm :: "(vm_store \<Rightarrow> 'a vm_op) \<Rightarrow> event_loop \<Rightarrow> 'a loop_op" where
  "on_vm f l = (case f (el_store l) of (r, vs) \<Rightarrow> (r, l\<lparr>el_store := vs\<rparr>))"

definition upd_vm :: "(vm_store \<Rightarrow> vm_store) \<Rightarrow> event_loop \<Rightarrow> event_loop" where
  "upd_vm f l = l\<lparr>el_store := f (el_store l)\<rparr>"

definition on_conc :: "(concurrent_state \<Rightarrow> 'a conc) \<Rightarrow> event_loop \<Rightarrow> 'a loop_op" where
  "on_conc f = on_vm (in_state f)"

definition upd_conc :: "(concurrent_state \<Rightarrow> concurrent_state) \<Rightarrow> event_loop \<Rightarrow> event_loop" where
  "upd_conc f = upd_vm (upd_state f)"

definition vm_store_new :: "component \<Rightarrow> resource_tables \<Rightarrow> (nat \<Rightarrow> 8 word list) \<Rightarrow> vm_store" where
  "vm_store_new c rts mems =
     \<lparr>vs_store = \<lparr>so_state = concurrent_state_new c, so_memories = mems, so_channels = 0,
        so_sent = (\<lambda>_. None), so_woken = []\<rparr>,
      vs_resources = rts, vs_may_enter = (\<lambda>_. True), vs_may_leave = (\<lambda>_. True),
      vs_needs_post_return = (\<lambda>_. False), vs_post_return_arg = None, vs_results = (\<lambda>_. None),
      vs_join_handles = 0, vs_aborted = {}, vs_storage = None\<rparr>"

definition event_loop_new :: "component \<Rightarrow> resource_tables \<Rightarrow> (nat \<Rightarrow> 8 word list) \<Rightarrow> event_loop" where
  "event_loop_new c rts mems =
     \<lparr>el_store = vm_store_new c rts mems, el_fibers = (\<lambda>_. None), el_next_fiber = 0, el_running = None,
      el_batch = [], el_output = None\<rparr>"


definition enable_concurrent_state_debug :: "bool \<Rightarrow> event_loop \<Rightarrow> event_loop" where
  "enable_concurrent_state_debug enable =
     upd_conc (\<lambda>s. s\<lparr>cs_table := table_enable_debug enable (cs_table s)\<rparr>)"


section \<open>Suspending and resuming fibers\<close>

text \<open>
  The second half of \<open>resume_fiber\<close>: the fiber has suspended itself, and the
  reason it left says who keeps it.
\<close>

definition fiber_suspends :: "nat \<Rightarrow> nat option \<Rightarrow> fiber \<Rightarrow> event_loop \<Rightarrow> unit loop_op" where
  "fiber_suspends fiber old_task content l =
     (let l = upd_vm (set_guest_task old_task) (l\<lparr>el_running := None\<rparr>);
          reason = cs_suspend_reason (el_state l);
          l = upd_conc (\<lambda>s. s\<lparr>cs_suspend_reason := None\<rparr>) l;
          kept = l\<lparr>el_fibers := (el_fibers l)(fiber \<mapsto> content)\<rparr> in
      case reason of
        None \<Rightarrow> (Panic ''unwrap on None'', l)
      | Some NeedWork \<Rightarrow>
          if cs_worker (el_state l) = None then (Ok (), upd_conc (\<lambda>s. s\<lparr>cs_worker := Some fiber\<rparr>) kept)
          else (Ok (), l)
      | Some (Yielding task) \<Rightarrow> (Ok (), upd_conc (push_low_priority (ResumeFiber fiber)) kept)
      | Some (Waiting k task) \<Rightarrow>
          (case on_conc (mut_waitable_set k
              (\<lambda>ws. ws\<lparr>ws_waiting := bt_insert task (WaitFiber fiber) (ws_waiting ws)\<rparr>)) kept of
             (Ok ws, l) \<Rightarrow>
               if map_of (ws_waiting ws) task = None then (Ok (), l) else (Panic ''assertion failed: old.is_none()'', l)
           | (_, l) \<Rightarrow> (Panic ''attempted to drop in-progress fiber'', l)))"

text \<open>The worker loop has finished an item and asks for another.\<close>

definition finish_item :: "nat \<Rightarrow> nat option \<Rightarrow> event_loop \<Rightarrow> unit loop_op" where
  "finish_item fiber old_task l =
     and_then (on_vm (suspend_begin NeedWork) l) (\<lambda>_ l. fiber_suspends fiber old_task IdleWorker l)"

text \<open>An intrinsic that guest code has called returns to it, or suspends the fiber.\<close>

definition guest_continues ::
    "nat \<Rightarrow> nat option \<Rightarrow> activation \<Rightarrow> step_result \<Rightarrow> event_loop \<Rightarrow> unit loop_op" where
  "guest_continues fiber old_task act p l = (case p of
      Finished v \<Rightarrow> (Ok (), l\<lparr>el_running := Some (fiber, old_task, act), el_output := Some v\<rparr>)
    | Suspend reason pt \<Rightarrow>
        and_then (on_vm (suspend_begin reason) l) (\<lambda>old_guest_task l.
        fiber_suspends fiber old_task (Suspended reason old_guest_task pt act) l))"

text \<open>What a worker does with a function left to it.\<close>

fun run_function :: "hooks \<Rightarrow> worker_function \<Rightarrow> vm_store \<Rightarrow> unit vm_op" where
  "run_function hk (NamedFunction n) vs = on_guest (hk_named hk n) vs"
| "run_function hk (AcceptReader w p k) vs =
     (case run_accept_reader (hk_canon hk) w p k (vs_store vs) of (r, st) \<Rightarrow> (r, vs\<lparr>vs_store := st\<rparr>))"
| "run_function hk (FirstPollOutput task c result) vs = first_poll_output hk task c result vs"
| "run_function hk (BlockOutput c task result) vs = block_output c task result vs"

definition handle_guest_call :: "hooks \<Rightarrow> guest_call \<Rightarrow> vm_store \<Rightarrow> activation vm_op" where
  "handle_guest_call hk call vs = (case gc_kind call of
      DeliverEvent i set_id \<Rightarrow>
        and_then (deliver_begin (gc_task call) i set_id vs) (\<lambda>(old_task, runtime_instance, callback, params) vs.
        (Ok (DeliverAct (gc_task call) old_task runtime_instance callback), vs))
    | StartCall f \<Rightarrow>
        and_then (start_begin hk (gc_task call) f vs) (\<lambda>(old_task, after, params) vs.
        (Ok (StartAct (gc_task call) f old_task after), vs)))"

definition run_item :: "hooks \<Rightarrow> nat \<Rightarrow> nat option \<Rightarrow> event_loop \<Rightarrow> unit loop_op" where
  "run_item hk fiber old_task l =
     (let item = cs_worker_item (el_state l); l = upd_conc (\<lambda>s. s\<lparr>cs_worker_item := None\<rparr>) l in
      case item of
        None \<Rightarrow> (Panic ''unwrap on None'', l)
      | Some (WorkerGuestCall call) \<Rightarrow>
          and_then (on_vm (handle_guest_call hk call) l) (\<lambda>act l.
          (Ok (), l\<lparr>el_running := Some (fiber, old_task, act)\<rparr>))
      | Some (WorkerItemFunction f) \<Rightarrow>
          and_then (on_vm (run_function hk f) l) (\<lambda>_ l. finish_item fiber old_task l))"

text \<open>The first half of \<open>resume_fiber\<close>, up to the guest code or the next suspension.\<close>

definition resume_fiber :: "hooks \<Rightarrow> nat \<Rightarrow> event_loop \<Rightarrow> unit loop_op" where
  "resume_fiber hk fiber l =
     (let old_task = cs_guest_task (el_state l); content = el_fibers l fiber;
          l = l\<lparr>el_fibers := (el_fibers l)(fiber := None)\<rparr> in
      case content of
        None \<Rightarrow> (Panic ''fiber is not suspended'', l)
      | Some IdleWorker \<Rightarrow> run_item hk fiber old_task l
      | Some (Suspended reason old_guest_task pt act) \<Rightarrow>
          and_then (on_vm (suspend_end reason old_guest_task) l) (\<lambda>_ l.
          and_then (on_vm (go_on hk pt) l) (\<lambda>p l. guest_continues fiber old_task act p l)))"

definition take_worker :: "event_loop \<Rightarrow> nat \<times> event_loop" where
  "take_worker l = (case cs_worker (el_state l) of
      Some fiber \<Rightarrow> (fiber, upd_conc (\<lambda>s. s\<lparr>cs_worker := None\<rparr>) l)
    | None \<Rightarrow> (el_next_fiber l, l\<lparr>el_next_fiber := el_next_fiber l + 1,
        el_fibers := (el_fibers l)(el_next_fiber l \<mapsto> IdleWorker)\<rparr>))"

definition run_on_worker :: "hooks \<Rightarrow> worker_item \<Rightarrow> event_loop \<Rightarrow> unit loop_op" where
  "run_on_worker hk item l =
     (case take_worker l of (fiber, l) \<Rightarrow>
      if cs_worker_item (el_state l) \<noteq> None then (Panic ''assertion failed: worker_item.is_none()'', l)
      else resume_fiber hk fiber (upd_conc (\<lambda>s. s\<lparr>cs_worker_item := Some item\<rparr>) l))"


section \<open>Work items\<close>

text \<open>A call that cannot enter its instance yet is kept there; its waiters are told once.\<close>

definition defer_call :: "guest_call \<Rightarrow> concurrent_state \<Rightarrow> unit conc" where
  "defer_call call s =
     and_then (mut_guest_task (gc_task call) (\<lambda>t. t\<lparr>gt_starting_sent := True\<rparr>) s) (\<lambda>t s.
     and_then (case gc_kind call of
         StartCall f \<Rightarrow>
           if gt_starting_sent t then (Ok (), s)
           else set_event (WGuest (gc_task call)) (Some (EvSubtask Starting)) s
       | DeliverEvent i set_id \<Rightarrow> (Ok (), s)) (\<lambda>_ s.
     and_then (get_guest_task (gc_task call) s, s) (\<lambda>t s.
     (Ok (), mut_instance_state (gt_instance t)
        (\<lambda>st. st\<lparr>is_pending := bt_insert (gc_task call) (gc_kind call) (is_pending st)\<rparr>) s))))"

definition poll_item :: "poll_params \<Rightarrow> concurrent_state \<Rightarrow> unit conc" where
  "poll_item p s =
     and_then (get_guest_task (pp_task p) s, s) (\<lambda>t s.
     and_then (if gt_event t \<noteq> None then Ok True
       else map_ok (\<lambda>ws. ws_ready ws \<noteq> {}) (get_waitable_set (pp_set p) s), s) (\<lambda>available s.
     and_then (if available then (Ok (), s)
       else discard (mut_guest_task (pp_task p) (\<lambda>t. t\<lparr>gt_event := Some EvNone\<rparr>) s)) (\<lambda>_ s.
     (Ok (), push_high_priority (GuestCallItem
        \<lparr>gc_task = pp_task p, gc_kind = DeliverEvent (pp_instance p) (Some (pp_set p))\<rparr>) s))))"

definition add_future :: "host_future \<Rightarrow> concurrent_state \<Rightarrow> unit conc" where
  "add_future future s = (case cs_futures s of
      None \<Rightarrow> (Panic ''unwrap on None'', s)
    | Some fs \<Rightarrow> (Ok (), s\<lparr>cs_futures := Some (fs @ [future])\<rparr>))"

fun handle_work_item :: "hooks \<Rightarrow> work_item \<Rightarrow> event_loop \<Rightarrow> unit loop_op" where
  "handle_work_item hk (PushFuture future) l = on_conc (add_future future) l"
| "handle_work_item hk (ResumeFiber fiber) l = resume_fiber hk fiber l"
| "handle_work_item hk (GuestCallItem call) l =
     and_then (on_vm (peek (is_ready call)) l) (\<lambda>ready l.
     if ready then run_on_worker hk (WorkerGuestCall call) l
     else on_conc (defer_call call) l)"
| "handle_work_item hk (PollItem p) l = on_conc (poll_item p) l"
| "handle_work_item hk (WorkerFunction f) l = run_on_worker hk (WorkerItemFunction f) l"


section \<open>Polling\<close>

text \<open>
  What the futures of the instance do when they are polled: one of them completes,
  or none does.  A future that was aborted completes with nothing to do; one that
  belongs to an async-lowered import puts its call scope back first.
\<close>

datatype host_output = OutputFailed | OutputDone | OutputValue "nat option"

datatype next_poll = NextPending | NextCompletes nat host_output

fun output_value :: "host_output \<Rightarrow> nat option" where
  "output_value (OutputValue v) = v"
| "output_value _ = None"

definition queue_function :: "worker_function \<Rightarrow> vm_store \<Rightarrow> vm_store" where
  "queue_function f = upd_state (push_high_priority (WorkerFunction f))"

fun complete_future :: "host_future \<Rightarrow> host_output \<Rightarrow> vm_store \<Rightarrow> unit vm_op" where
  "complete_future (NamedFuture n) out vs =
     (if n \<in> vs_aborted vs then (Ok (), vs)
      else (case out of
          OutputFailed \<Rightarrow> (Err (Bail ''background task failed''), vs)
        | OutputDone \<Rightarrow> (Ok (), vs)
        | OutputValue v \<Rightarrow> (Ok (), queue_function (NamedFunction n) vs)))"
| "complete_future (FirstPollFuture task c handle cx) out vs =
     (if handle \<in> vs_aborted vs then (Ok (), vs)
      else (Ok (), queue_function (FirstPollOutput task c (output_value out))
        (case cx of
           None \<Rightarrow> vs
         | Some cx \<Rightarrow> vs\<lparr>vs_resources := (vs_resources vs)
             \<lparr>rts_calls := call_contexts_push cx (rts_calls (vs_resources vs))\<rparr>\<rparr>)))"
| "complete_future (BlockFuture c task) out vs =
     (Ok (), queue_function (BlockOutput c task (output_value out)) vs)"

text \<open>\<open>Some True\<close>: a future has completed; \<open>Some False\<close>: there is none; \<open>None\<close>: all are pending.\<close>

definition remaining :: "next_poll \<Rightarrow> host_future list \<Rightarrow> host_future list" where
  "remaining nx futures = (case nx of
      NextCompletes k out \<Rightarrow> take k futures @ drop (Suc k) futures
    | NextPending \<Rightarrow> futures)"

definition poll_futures :: "next_poll \<Rightarrow> host_future list \<Rightarrow> vm_store \<Rightarrow> bool option vm_op" where
  "poll_futures nx futures vs = (case nx of
      NextCompletes k out \<Rightarrow>
        if k < length futures then
          and_then (complete_future (futures ! k) out vs) (\<lambda>_ vs. (Ok (Some True), vs))
        else (Ok (if futures = [] then Some False else None), vs)
    | NextPending \<Rightarrow> (Ok (if futures = [] then Some False else None), vs))"

datatype loop_next = LoopDone nat | LoopWork "work_item list" | LoopPending

text \<open>
  One round of \<open>poll_until\<close>: the future it was given is polled first, then the
  futures of the instance, then the queues are looked at, the high-priority one
  first, and if there is nothing to do the given future is polled once more before
  the loop reports a deadlock.  The two results of the given future are inputs.
\<close>

definition take_work :: "bool option \<Rightarrow> nat option \<Rightarrow> vm_store \<Rightarrow> loop_next vm_op" where
  "take_work nx again vs =
     (let high = cs_high_priority (vs_state vs); vs = upd_state (\<lambda>s. s\<lparr>cs_high_priority := []\<rparr>) vs in
      if high \<noteq> [] then (Ok (LoopWork high), vs)
      else
        (let low = cs_low_priority (vs_state vs); vs = upd_state (\<lambda>s. s\<lparr>cs_low_priority := []\<rparr>) vs in
         if low \<noteq> [] then (Ok (LoopWork low), vs)
         else (case nx of
             Some True \<Rightarrow> (Ok (LoopWork []), vs)
           | Some False \<Rightarrow>
               (case again of
                  Some v \<Rightarrow> (Ok (LoopDone v), vs)
                | None \<Rightarrow> (Err (Trap ''AsyncDeadlock''), vs))
           | None \<Rightarrow> (Ok LoopPending, vs))))"

definition poll_round :: "nat option \<Rightarrow> next_poll \<Rightarrow> nat option \<Rightarrow> vm_store \<Rightarrow> loop_next vm_op" where
  "poll_round main nx again vs = (case cs_futures (vs_state vs) of
      None \<Rightarrow> (Panic ''unwrap on None'', vs)
    | Some futures \<Rightarrow>
        (case main of
           Some v \<Rightarrow> (Ok (LoopDone v), vs)
         | None \<Rightarrow>
             (case and_then (poll_futures nx futures (upd_state (\<lambda>s. s\<lparr>cs_futures := None\<rparr>) vs))
                 (\<lambda>completed vs. take_work completed again vs) of
                (r, vs) \<Rightarrow> (r, upd_state (\<lambda>s. s\<lparr>cs_futures := Some (remaining nx futures)\<rparr>) vs))))"


section \<open>The machine\<close>

text \<open>
  The intrinsics of this theory and of waitables that guest code may call.  A call
  between guests is \<open>prepare_call\<close> and \<open>start_call\<close>, which the fused adapter calls
  one right after the other.
\<close>

datatype intrinsic =
    TaskReturn nat nat "val_raw list"
  | TaskCancel
  | CallGuest adapter_call start_args
  | CallHostAsync import_call import_result
  | CallHostSync import_call import_result
  | SetWait nat nat nat
  | SetPoll nat nat nat
  | YieldNow bool
  | SubtaskCancel nat bool nat
  | SubtaskDrop nat nat
  | SetNew nat
  | SetDrop nat nat
  | Join nat nat nat
  | Backpressure nat "32 word"
  | ContextSet "32 word" "32 word"

definition returns :: "unit vm_op \<Rightarrow> step_result vm_op" where
  "returns m = and_then m (\<lambda>_ vs. (Ok (Finished 0), vs))"

fun run_intrinsic :: "hooks \<Rightarrow> intrinsic \<Rightarrow> vm_store \<Rightarrow> step_result vm_op" where
  "run_intrinsic hk (TaskReturn ty opts storage) vs = returns (task_return hk ty opts storage vs)"
| "run_intrinsic hk TaskCancel vs = returns (task_cancel vs)"
| "run_intrinsic hk (CallGuest c a) vs = and_then (prepare_call c vs) (\<lambda>_ vs. start_call a vs)"
| "run_intrinsic hk (CallHostAsync c r) vs = call_host_async hk c r vs"
| "run_intrinsic hk (CallHostSync c r) vs = call_host_sync hk c r vs"
| "run_intrinsic hk (SetWait opts k address) vs = waitable_set_wait hk opts k address vs"
| "run_intrinsic hk (SetPoll opts k address) vs = waitable_set_poll hk opts k address vs"
| "run_intrinsic hk (YieldNow async) vs = yield_now async vs"
| "run_intrinsic hk (SubtaskCancel i async h) vs = subtask_cancel i async h vs"
| "run_intrinsic hk (SubtaskDrop i h) vs = returns (in_state (subtask_drop i h) vs)"
| "run_intrinsic hk (SetNew i) vs = and_then (in_state (waitable_set_new i) vs) (\<lambda>h vs. (Ok (Finished (of_nat h)), vs))"
| "run_intrinsic hk (SetDrop i h) vs = returns (in_state (waitable_set_drop i h) vs)"
| "run_intrinsic hk (Join i h k) vs = returns (in_state (waitable_join i h k) vs)"
| "run_intrinsic hk (Backpressure i b) vs = returns (in_state (backpressure_set i b) vs)"
| "run_intrinsic hk (ContextSet slot v) vs = returns (in_state (context_set slot v) vs)"

text \<open>The export or the callback of an activation has returned a value.\<close>

fun activation_end :: "hooks \<Rightarrow> activation \<Rightarrow> val_raw \<Rightarrow> vm_store \<Rightarrow> unit vm_op" where
  "activation_end hk (StartAct task f old_task after) ret vs =
     (if sf_callback f then stackless_end task f old_task after ret vs
      else stackful_end hk task f after ret vs)"
| "activation_end hk (DeliverAct task old_task i callback) ret vs = deliver_end task old_task i callback ret vs"

text \<open>
  The inputs: guest code calls an intrinsic or returns; the loop handles the next
  item of its batch or polls; and between two rounds the host prepares and queues
  a call, spawns a background task or aborts one.
\<close>

datatype input =
    GuestCalls intrinsic
  | GuestReturns val_raw
  | NextItem
  | PollRound "nat option" next_poll "nat option"
  | HostCalls host_call
  | HostSpawns
  | HostAborts nat

definition spawn :: "vm_store \<Rightarrow> vm_store" where
  "spawn vs = upd_state (push_future (NamedFuture (vs_join_handles vs))) (vs\<lparr>vs_join_handles := vs_join_handles vs + 1\<rparr>)"

definition step_running :: "hooks \<Rightarrow> input \<Rightarrow> nat \<Rightarrow> nat option \<Rightarrow> activation \<Rightarrow> event_loop \<Rightarrow> unit loop_op" where
  "step_running hk inp fiber old_task act l = (case inp of
      GuestCalls i \<Rightarrow> and_then (on_vm (run_intrinsic hk i) l) (\<lambda>p l. guest_continues fiber old_task act p l)
    | GuestReturns v \<Rightarrow> and_then (on_vm (activation_end hk act v) l) (\<lambda>_ l. finish_item fiber old_task l)
    | _ \<Rightarrow> (Ok (), l))"

definition step_idle :: "input \<Rightarrow> event_loop \<Rightarrow> unit loop_op" where
  "step_idle inp l = (case inp of
      PollRound main nx again \<Rightarrow>
        and_then (on_vm (poll_round main nx again) l) (\<lambda>nxt l. case nxt of
          LoopWork items \<Rightarrow> (Ok (), l\<lparr>el_batch := items\<rparr>)
        | _ \<Rightarrow> (Ok (), l))
    | HostCalls c \<Rightarrow> and_then (on_vm (prepare_host_call c) l) (\<lambda>task l. on_vm (queue_host_call c task) l)
    | HostSpawns \<Rightarrow> (Ok (), upd_vm spawn l)
    | HostAborts n \<Rightarrow> (Ok (), upd_vm (\<lambda>vs. vs\<lparr>vs_aborted := insert n (vs_aborted vs)\<rparr>) l)
    | _ \<Rightarrow> (Ok (), l))"

text \<open>An input that does not fit the state of the machine leaves it as it is.\<close>

definition step :: "hooks \<Rightarrow> input \<Rightarrow> event_loop \<Rightarrow> unit loop_op" where
  "step hk inp l = (case el_running l of
      Some (fiber, old_task, act) \<Rightarrow> step_running hk inp fiber old_task act l
    | None \<Rightarrow>
        (case el_batch l of
           item # items \<Rightarrow>
             if inp = NextItem then handle_work_item hk item (l\<lparr>el_batch := items\<rparr>) else (Ok (), l)
         | [] \<Rightarrow> step_idle inp l))"

fun run :: "hooks \<Rightarrow> input list \<Rightarrow> event_loop \<Rightarrow> unit loop_op" where
  "run hk [] l = (Ok (), l)"
| "run hk (inp # inps) l = and_then (step hk inp l) (\<lambda>_ l. run hk inps l)"

end
