(* ===== verification/Frames.thy ===== *)
theory Frames
  imports Event_Loop
begin

text \<open>
  What an operation leaves alone.  The locale \<open>conc_frame\<close> states what a preorder
  on states has to contain for every operation on waitables and tasks to stay
  inside of it: the elementary accesses to the table, the handle tables, the
  queues and the pending calls.  The lemmas of the locale walk through the
  operations once; each interpretation is one frame.
\<close>

section \<open>The contract\<close>

text \<open>An object is replaced by one of its kind, and a task stays in its instance.\<close>

fun same_shape :: "obj \<Rightarrow> obj \<Rightarrow> bool" where
  "same_shape (ObjHostTask x) (ObjHostTask y) = True"
| "same_shape (ObjGuestTask x) (ObjGuestTask y) = (gt_instance y = gt_instance x)"
| "same_shape (ObjTransmitHandle x) (ObjTransmitHandle y) = True"
| "same_shape (ObjTransmitState x) (ObjTransmitState y) = True"
| "same_shape (ObjWaitableSet x) (ObjWaitableSet y) = True"
| "same_shape (ObjErrorContext x) (ObjErrorContext y) = True"
| "same_shape _ _ = False"

fun is_start :: "work_item \<Rightarrow> bool" where
  "is_start (GuestCallItem call) = (case gc_kind call of StartCall f \<Rightarrow> True | DeliverEvent i k \<Rightarrow> False)"
| "is_start _ = False"

text \<open>Lowering values into a guest's memory does not touch the state of the event loop.\<close>

definition canon_frame :: "canon \<Rightarrow> bool" where
  "canon_frame c \<longleftrightarrow> (\<forall>T opts ty a vs st. so_state (snd (cn_lower_list c T opts ty a vs st)) = so_state st)"

lemma canon_frame_lower: "canon_frame c \<Longrightarrow> so_state (snd (cn_lower_list c T opts ty a vs st)) = so_state st"
  by (simp add: canon_frame_def)

lemma state_then:
  assumes "so_state (snd m) = so_state st" and "\<And>x u. so_state (snd (k x u)) = so_state u"
  shows "so_state (snd (and_then m k)) = so_state st"
  using assms by (cases m) (auto simp: and_then_def split: outcome.splits)

lemma accept_reader_guest_state:
  assumes c: "canon_frame c"
  shows "so_state (snd (accept_reader c T (ReaderGuest opts ty a n) buffer kind st)) = so_state st"
  unfolding accept_reader_def Let_def
  by (auto intro!: state_then canon_frame_lower [OF c] split: option.splits prod.splits outcome.splits)

locale conc_frame =
  fixes R :: "concurrent_state \<Rightarrow> concurrent_state \<Rightarrow> bool"
  assumes refl [simp]: "R s s"
    and trans: "R s t \<Longrightarrow> R t u \<Longrightarrow> R s u"
    and put: "obj_at s k = Some x \<Longrightarrow> same_shape x y \<Longrightarrow> R s (cs_put k y s)"
    and push: "R s (snd (cs_push x s))"
    and delete: "R s (snd (cs_delete (down :: obj \<Rightarrow> obj option) k s))"
    and add_child: "R s (snd (cs_add_child c p s))"
    and remove_child: "R s (snd (cs_remove_child c p s))"
    and handles: "R s (s\<lparr>cs_waitable_tables := w\<rparr>)"
    and high: "\<not> is_start item \<Longrightarrow> R s (push_high_priority item s)"
    and low: "\<not> is_start item \<Longrightarrow> R s (push_low_priority item s)"
    and partition: "R s (snd (partition_pending i s))"
    and unpend: "R s (mut_instance_state i (\<lambda>st. st\<lparr>is_pending := bt_remove task (is_pending st)\<rparr>) s)"
    and pressure: "R s (mut_instance_state i (\<lambda>st. st\<lparr>is_backpressure := b\<rparr>) s)"
    and start: "get_guest_task task s = Ok g \<Longrightarrow> sf_instance f = gt_instance g \<Longrightarrow>
      R s (push_high_priority (GuestCallItem \<lparr>gc_task = task, gc_kind = StartCall f\<rparr>) s)"
begin

lemma after:
  assumes "R s (snd m)" and "\<And>x t. m = (Ok x, t) \<Longrightarrow> R s t \<Longrightarrow> R s (snd (k x t))"
  shows "R s (snd (and_then m k))"
  using assms by (cases m) (auto simp: and_then_def split: outcome.splits)

lemma on_pair: "R s t \<Longrightarrow> R s (snd (r, t))"
  by simp

lemma get_mut:
  assumes "\<And>y. same_shape (up y) (up (f y))" and "\<And>x y. down x = Some y \<Longrightarrow> x = up y" and "R s t"
  shows "R s (snd (cs_get_mut down up k f t))"
proof (cases "cs_get down k t")
  case (Ok y)
  then obtain x where x: "obj_at t k = Some x" "down x = Some y" by (auto simp: cs_get_Ok)
  then have "R t (cs_put k (up (f y)) t)" using assms(1) [of y] assms(2) by (intro put [of t k x]) auto
  with assms(3) have "R s (cs_put k (up (f y)) t)" by (rule trans)
  then show ?thesis by (simp add: cs_get_mut_eq Ok)
qed (use assms(3) in \<open>simp_all add: cs_get_mut_eq\<close>)

lemma mut_rules:
  "R s t \<Longrightarrow> R s (snd (mut_host_task k f t))"
  "R s t \<Longrightarrow> (\<And>y. gt_instance (g y) = gt_instance y) \<Longrightarrow> R s (snd (mut_guest_task k g t))"
  "R s t \<Longrightarrow> R s (snd (mut_transmit_handle k h t))"
  "R s t \<Longrightarrow> R s (snd (mut_transmit_state k p t))"
  "R s t \<Longrightarrow> R s (snd (mut_waitable_set k q t))"
  by (auto intro!: get_mut)

lemma delete_any: "R s t \<Longrightarrow> R s (snd (cs_delete down k t))"
proof -
  assume st: "R s t"
  obtain r u where d: "table_delete Some k (cs_table t) = (r, u)" by fastforce
  have "snd (table_delete down k (cs_table t)) = u"
    by (cases r) (simp_all add: table_delete_down [of down] d)
  then have "snd (cs_delete down k t) = snd (cs_delete (Some :: obj \<Rightarrow> obj option) k t)"
    using d by (simp add: cs_delete_def case_prod_beta)
  then have "R t (snd (cs_delete down k t))" using delete [of t "Some :: obj \<Rightarrow> obj option" k] by simp
  with st show ?thesis by (rule trans)
qed

lemma basic_rules:
  "R s t \<Longrightarrow> R s (snd (cs_push x t))"
  "R s t \<Longrightarrow> R s (snd (cs_add_child c p t))"
  "R s t \<Longrightarrow> R s (snd (cs_remove_child c p t))"
  "R s t \<Longrightarrow> \<not> is_start item \<Longrightarrow> R s (push_high_priority item t)"
  "R s t \<Longrightarrow> \<not> is_start item \<Longrightarrow> R s (push_low_priority item t)"
  "R s t \<Longrightarrow> R s (snd (partition_pending i t))"
  "R s t \<Longrightarrow> R s (mut_instance_state i (\<lambda>st. st\<lparr>is_pending := bt_remove task (is_pending st)\<rparr>) t)"
  "R s t \<Longrightarrow> R s (mut_instance_state i (\<lambda>st. st\<lparr>is_backpressure := b\<rparr>) t)"
  by (erule trans, rule push add_child remove_child high low partition unpend pressure, assumption?)+

lemma in_handles: "R s t \<Longrightarrow> R s (snd (in_waitables i f t))"
  using trans [OF _ handles, of s t] by (auto simp: in_waitables_def split: option.splits prod.splits)

lemma discarded: "R s (snd m) \<Longrightarrow> R s (snd (discard m))"
  by (auto simp: discard_def intro!: after)

lemmas rules = after on_pair mut_rules delete_any basic_rules in_handles discarded


section \<open>Waitables\<close>

lemma common: "R s t \<Longrightarrow> R s (snd (common_mut w f t))"
  by (cases w) (auto intro!: mut_rules simp: snd_map_prod)

lemma wait_item_not_start [simp]: "\<not> is_start (wait_item k task mode)"
  by (cases mode) simp_all

lemma ready: "R s t \<Longrightarrow> R s (snd (mark_ready w t))"
  unfolding mark_ready_def by (auto intro!: rules split: option.splits list.splits)

lemma joins: "R s t \<Longrightarrow> R s (snd (join w k t))"
  unfolding join_def by (auto intro!: rules common ready split: option.splits)

lemma posts: "R s t \<Longrightarrow> R s (snd (set_event w e t))"
  unfolding set_event_def by (auto intro!: rules common ready)

lemma takes: "R s t \<Longrightarrow> R s (snd (take_event w t))"
  unfolding take_event_def by (auto intro!: rules common split: option.splits)

lemma delivers: "R s t \<Longrightarrow> R s (snd (on_delivery w e t))"
  by (cases "(w, e, t)" rule: on_delivery.cases)
     (auto simp: deliver_future_def deliver_stream_def Let_def intro!: in_handles discarded
       split: outcome.splits waitable_state.splits)

lemma disposes_ready:
  assumes "\<And>w s t. R s t \<Longrightarrow> R s (snd (del w t))"
  shows "R s t \<Longrightarrow> R s (snd (dispose_ready del ws t))"
  by (induction ws arbitrary: t) (auto intro!: after assms)

lemma reparents: "R s t \<Longrightarrow> R s (snd (reparent c ks t))"
  by (induction ks arbitrary: t) (auto intro!: rules)

lemma disposes:
  assumes "\<And>w s t. R s t \<Longrightarrow> R s (snd (del w t))"
  shows "R s t \<Longrightarrow> R s (snd (dispose del self me t))"
  unfolding dispose_def by (auto intro!: rules disposes_ready [OF assms] reparents split: caller.splits)

lemma deletes_depth: "R s t \<Longrightarrow> R s (snd (delete_from_depth n w t))"
proof (induction n arbitrary: s t w)
  case 0
  then show ?case by (cases w) (auto intro!: rules)
next
  case (Suc n)
  then show ?case by (cases w) (auto intro!: rules disposes)
qed

lemma deletes: "R s t \<Longrightarrow> R s (snd (delete_from w t))"
  unfolding delete_from_def by (rule deletes_depth)

lemma gets: "R s t \<Longrightarrow> R s (snd (get_event task i k t))"
  unfolding get_event_def deliver_ready_def Let_def
  by (auto intro!: rules common delivers split: option.splits prod.splits)

lemma set_intrinsics:
  "R s t \<Longrightarrow> R s (snd (waitable_set_new i t))"
  "R s t \<Longrightarrow> R s (snd (waitable_set_drop i h t))"
  "R s t \<Longrightarrow> R s (snd (waitable_join i h k t))"
  unfolding waitable_set_new_def waitable_set_drop_def waitable_join_def
  by (auto intro!: rules joins split: prod.splits)

lemma drops_subtask: "R s t \<Longrightarrow> R s (snd (subtask_drop i h t))"
  unfolding subtask_drop_def by (auto intro!: rules set_intrinsics takes deletes split: prod.splits)

lemma sets_context: "R s t \<Longrightarrow> R s (snd (context_set slot v t))"
  unfolding context_set_def by (auto intro!: rules split: option.splits simp: snd_map_prod)

lemma sets_backpressure: "R s t \<Longrightarrow> R s (snd (backpressure_set i b t))"
  unfolding backpressure_set_def Let_def by (auto intro!: rules)

lemma callback_code: "R s t \<Longrightarrow> R s (snd (handle_callback_code task i code b t))"
  unfolding handle_callback_code_def started_event_def callback_exit_def callback_yield_def
    callback_wait_or_poll_def callback_wait_def
  by (auto intro!: rules posts deletes split: prod.splits caller.splits)

lemma polls_item: "R s t \<Longrightarrow> R s (snd (poll_item p t))"
  unfolding poll_item_def by (auto intro!: rules)


section \<open>Tasks\<close>

lemma vm_after:
  assumes "R s (vs_state (snd m))"
    and "\<And>x vs. m = (Ok x, vs) \<Longrightarrow> R s (vs_state vs) \<Longrightarrow> R s (vs_state (snd (k x vs)))"
  shows "R s (vs_state (snd (and_then m k)))"
  using assms by (cases m) (auto simp: and_then_def split: outcome.splits)

lemma vm_pair: "R s (vs_state vs) \<Longrightarrow> R s (vs_state (snd (r, vs)))"
  by simp

lemma vm_state: "R s (snd (f (vs_state vs))) \<Longrightarrow> R s (vs_state (snd (in_state f vs)))"
  by (auto simp: in_state_def on_state_def split: prod.splits)

lemma vm_upd: "R s (f (vs_state vs)) \<Longrightarrow> R s (vs_state (upd_state f vs))"
  by (simp add: upd_state_def)

lemma vm_peek: "R s (vs_state vs) \<Longrightarrow> R s (vs_state (snd (peek f vs)))"
  by (simp add: peek_def)

lemma vm_guest: "R s (vs_state vs) \<Longrightarrow> R s (vs_state (snd (on_guest f vs)))"
  by (auto simp: on_guest_def split: prod.splits)

lemma vm_resources: "R s (vs_state vs) \<Longrightarrow> R s (vs_state (snd (on_resources f vs)))"
  by (auto simp: on_resources_def split: prod.splits)

lemma vm_discard: "R s (vs_state (snd m)) \<Longrightarrow> R s (vs_state (snd (discard m)))"
  by (auto simp: discard_def intro!: vm_after)

lemma vm_finished: "R s (vs_state (snd m)) \<Longrightarrow> R s (vs_state (snd (finished m)))"
  by (auto simp: finished_def intro!: vm_after)

lemmas vm_rules = vm_after vm_pair vm_state vm_upd vm_peek vm_guest vm_resources vm_discard vm_finished mut_rules

lemma vm_flags [simp]:
  "vs_state (set_may_enter i b vs) = vs_state vs" "vs_state (set_may_leave i b vs) = vs_state vs"
  "vs_state (make_call_end b f vs) = vs_state vs"
  by (simp_all add: set_may_enter_def set_may_leave_def make_call_end_def)

lemma scopes:
  "R s (vs_state vs) \<Longrightarrow> R s (vs_state (snd (maybe_push_call_context task vs)))"
  "R s (vs_state vs) \<Longrightarrow> R s (vs_state (snd (pop_scope vs)))"
  "R s (vs_state vs) \<Longrightarrow> R s (vs_state (snd (maybe_pop_call_context task vs)))"
proof -
  show p: "R s (vs_state (snd (pop_scope vs)))" if "R s (vs_state vs)" for vs
    using that by (auto simp: pop_scope_def split: prod.splits option.splits)
  show "R s (vs_state vs) \<Longrightarrow> R s (vs_state (snd (maybe_push_call_context task vs)))"
    unfolding maybe_push_call_context_def by (auto intro!: vm_rules split: option.splits)
  show "R s (vs_state vs) \<Longrightarrow> R s (vs_state (snd (maybe_pop_call_context task vs)))"
    unfolding maybe_pop_call_context_def by (auto intro!: vm_rules p)
qed

lemma new_task: "R s t \<Longrightarrow> R s (snd (guest_task_new a b c d e t))"
  unfolding guest_task_new_def by (auto intro!: rules)

lemma queues:
  assumes "R s (vs_state vs)"
  shows "R s (vs_state (snd (queue_call task callee pc rc fl async cb pr vs)))"
proof (cases "get_guest_task task (vs_state vs)")
  case (Ok t)
  show ?thesis
    using assms Ok by (auto simp: queue_call_def peek_def upd_state_def intro!: trans [OF assms] start)
qed (use assms in \<open>simp_all add: queue_call_def peek_def\<close>)

lemma host_calls:
  "R s (vs_state vs) \<Longrightarrow> R s (vs_state (snd (prepare_host_call c vs)))"
  "R s (vs_state vs) \<Longrightarrow> R s (vs_state (snd (queue_host_call c task vs)))"
  unfolding prepare_host_call_def queue_host_call_def
  by (auto simp: new_channel_def intro!: vm_rules new_task basic_rules queues split: prod.splits)

lemma lifts: "R s (vs_state vs) \<Longrightarrow> R s (vs_state (snd (run_lift hk lift src vs)))"
  by (cases lift) (auto intro!: vm_rules)

lemma lowers: "R s (vs_state vs) \<Longrightarrow> R s (vs_state (snd (run_lower hk lower n vs)))"
  by (cases lower) (auto intro!: vm_rules posts)

lemma ends_scope: "R s (vs_state vs) \<Longrightarrow> R s (vs_state (snd (end_scope t arg vs)))"
  unfolding end_scope_def post_return_arg_set_def by (auto intro!: vm_rules split: option.splits)

lemma completes: "R s (vs_state vs) \<Longrightarrow> R s (vs_state (snd (task_complete task res st arg vs)))"
  unfolding task_complete_def by (auto intro!: vm_rules ends_scope posts split: caller.splits option.splits)

lemma takes_lift: "R s (vs_state vs) \<Longrightarrow> R s (vs_state (snd (take_lift_result task vs)))"
  unfolding take_lift_result_def by (auto intro!: vm_rules)

lemma task_ends:
  "R s (vs_state vs) \<Longrightarrow> R s (vs_state (snd (task_return hk ty opts storage vs)))"
  "R s (vs_state vs) \<Longrightarrow> R s (vs_state (snd (task_cancel vs)))"
  unfolding task_return_def task_cancel_def by (auto intro!: vm_rules takes_lift lifts completes)

lemma make_calls: "R s (vs_state vs) \<Longrightarrow> R s (vs_state (snd (make_call_begin hk task f vs)))"
  unfolding make_call_begin_def by (auto intro!: vm_rules lowers split: option.splits)

lemma stores: "R s (vs_state vs) \<Longrightarrow> R s (vs_state (snd (store_payload hk p h w vs)))"
  unfolding store_payload_def Let_def by (auto intro!: vm_rules split: data_model.splits option.splits)

lemma check_delivers: "R s (vs_state vs) \<Longrightarrow> R s (vs_state (snd (check_deliver hk b p task vs)))"
  unfolding check_deliver_def by (auto intro!: vm_rules gets stores)

lemma check_finishes: "R s (vs_state vs) \<Longrightarrow> R s (vs_state (snd (check_finish hk c task vs)))"
  by (cases c) (auto intro!: check_delivers)

lemma checks:
  "R s (vs_state vs) \<Longrightarrow> R s (vs_state (snd (waitable_check_begin async c vs)))"
  "R s (vs_state vs) \<Longrightarrow> R s (vs_state (snd (check_yielded hk c task vs)))"
  "R s (vs_state vs) \<Longrightarrow> R s (vs_state (snd (waitable_set_check hk chk opts h a vs)))"
  unfolding waitable_set_check_def waitable_check_begin_def check_yielded_def Let_def
  by (auto intro!: vm_rules check_delivers split: waitable_check.splits)

lemma cancel_item_not_start [simp]: "\<not> is_start (cancel_item task mode)"
  by (cases mode) simp_all

lemma cancel_ends:
  "R s (vs_state vs) \<Longrightarrow> R s (vs_state (snd (cancel_finish w vs)))"
  "R s (vs_state vs) \<Longrightarrow> R s (vs_state (snd (cancel_waited task k vs)))"
  "R s (vs_state vs) \<Longrightarrow> R s (vs_state (snd (cancel_check c task async vs)))"
  unfolding cancel_finish_def cancel_waited_def cancel_check_def by (auto intro!: vm_rules takes joins)

lemma cancels: "R s (vs_state vs) \<Longrightarrow> R s (vs_state (snd (subtask_cancel i async h vs)))"
  unfolding subtask_cancel_def subtask_cancel_guest_def subtask_cancel_host_def cancel_unstarted_def
    cancel_started_def Let_def
  by (auto intro!: vm_rules basic_rules cancel_ends split: waitable.splits option.splits)

lemma enters_host: "R s (vs_state vs) \<Longrightarrow> R s (vs_state (snd (enter_host hk c vs)))"
  unfolding enter_host_def by (auto intro!: vm_rules)

lemma lowers_result: "R s (vs_state vs) \<Longrightarrow> R s (vs_state (snd (lower_result hk c v vs)))"
  unfolding lower_result_def Let_def by (auto intro!: vm_rules)

lemma outputs:
  "R s (vs_state vs) \<Longrightarrow> R s (vs_state (snd (first_poll_output hk task c v vs)))"
  "R s (vs_state vs) \<Longrightarrow> R s (vs_state (snd (block_output caller task v vs)))"
  unfolding first_poll_output_def block_output_def by (auto intro!: vm_rules lowers_result posts)

lemma futures: "R s t \<Longrightarrow> R s (push_future fut t)"
  unfolding push_future_def by (auto intro!: basic_rules)

lemma first_polls: "R s (vs_state vs) \<Longrightarrow> R s (vs_state (snd (first_poll hk c p vs)))"
  unfolding first_poll_def Let_def
  by (auto intro!: vm_rules basic_rules delete_any outputs scopes futures in_handles split: host_poll.splits)

lemma blocks:
  "R s (vs_state vs) \<Longrightarrow> R s (vs_state (snd (block_finish hk ic c old vs)))"
  "R s (vs_state vs) \<Longrightarrow> R s (vs_state (snd (poll_and_block hk ic p vs)))"
proof -
  show b: "R s (vs_state (snd (block_finish hk ic c old vs)))" if "R s (vs_state vs)" for vs c old
    using that unfolding block_finish_def call_host_return_def
    by (auto intro!: vm_rules lowers_result split: option.splits)
  show "R s (vs_state vs) \<Longrightarrow> R s (vs_state (snd (poll_and_block hk ic p vs)))"
    unfolding poll_and_block_def call_host_return_def
    by (auto intro!: vm_rules basic_rules delete_any outputs futures joins lowers_result b
        split: option.splits host_poll.splits)
qed

lemma calls_host:
  "R s (vs_state vs) \<Longrightarrow> R s (vs_state (snd (call_host_async hk c r vs)))"
  "R s (vs_state vs) \<Longrightarrow> R s (vs_state (snd (call_host_sync hk c r vs)))"
  unfolding call_host_async_def call_host_sync_def call_host_return_def
  by (auto intro!: vm_rules enters_host lowers_result first_polls blocks split: import_result.splits)

lemma starts_call:
  "R s (vs_state vs) \<Longrightarrow> R s (vs_state (snd (start_call a vs)))"
  "R s (vs_state vs) \<Longrightarrow> R s (vs_state (snd (take_sync_result task vs)))"
  unfolding start_call_def take_sync_result_def
  by (auto intro!: vm_rules queues joins deletes split: caller.splits option.splits)

lemma accepts:
  assumes c: "canon_frame c" and "R s (so_state st)"
  shows "R s (so_state (snd (run_accept_reader c w p k st)))"
proof -
  obtain r u where a: "accept_reader c (hw_type w) (ReaderGuest (gp_options p) (gp_ty p) (gp_address p) (gp_count p))
      (hw_buffer w) (hw_kind w) st = (r, u)" by fastforce
  with accept_reader_guest_state [OF c] have u: "so_state u = so_state st" by (metis snd_conv)
  have p: "R s (snd (transmit_set_event k e (so_state u)))" for e
    using assms(2) unfolding transmit_set_event_def u by (rule posts)
  show ?thesis
  proof (cases r)
    case (Ok x)
    obtain res code rb where x: "x = (res, code, rb)" by (cases x)
    show ?thesis
      using p [of "read_event (gp_ty p) code (Some (gp_handle p))"]
      by (auto simp: run_accept_reader_def accept_guest_read_def a Ok x on_state_def and_then_def channel_send_def
          split: prod.splits outcome.splits)
  qed (use assms(2) u in \<open>simp_all add: run_accept_reader_def accept_guest_read_def a\<close>)
qed

lemma runs_function:
  "canon_frame (hk_canon hk) \<Longrightarrow> R s (vs_state vs) \<Longrightarrow> R s (vs_state (snd (run_function hk f vs)))"
proof (cases f)
  case (AcceptReader w p k)
  assume "canon_frame (hk_canon hk)" "R s (vs_state vs)"
  then have "R s (so_state (snd (run_accept_reader (hk_canon hk) w p k (vs_store vs))))" by (rule accepts)
  then show ?thesis by (auto simp: AcceptReader split: prod.splits)
qed (auto intro!: vm_rules outputs)

end

text \<open>The frames that do not mention the current task, and those that do not mention entrance either.\<close>

locale task_frame = conc_frame +
  assumes current: "R s (s\<lparr>cs_guest_task := task\<rparr>)"
begin

lemma vm_current: "R s (vs_state vs) \<Longrightarrow> R s (vs_state (set_guest_task task vs))"
  using trans [OF _ current] by (simp add: set_guest_task_def upd_state_def)

lemma prepares: "R s (vs_state vs) \<Longrightarrow> R s (vs_state (snd (prepare_call c vs)))"
  unfolding prepare_call_def Let_def
  by (auto intro!: vm_rules vm_current new_task basic_rules split: option.splits)

lemma call_finishes: "R s (vs_state vs) \<Longrightarrow> R s (vs_state (snd (start_call_finish w st h vs)))"
  unfolding start_call_finish_def by (auto intro!: vm_rules vm_current joins starts_call)

lemma call_woken: "R s (vs_state vs) \<Longrightarrow> R s (vs_state (snd (start_call_woken w vs)))"
  unfolding start_call_woken_def
  by (auto intro!: vm_rules takes in_handles call_finishes split: option.splits event.splits)

lemma goes_on: "R s (vs_state vs) \<Longrightarrow> R s (vs_state (snd (go_on hk pt vs)))"
  by (cases pt) (auto intro!: vm_finished checks check_finishes call_woken cancel_ends blocks)

lemma intrinsics: "R s (vs_state vs) \<Longrightarrow> R s (vs_state (snd (run_intrinsic hk i vs)))"
  by (cases i)
     (auto simp: returns_def waitable_set_wait_def waitable_set_poll_def yield_now_def
       intro!: vm_rules task_ends prepares starts_call calls_host checks cancels set_intrinsics drops_subtask
         sets_context sets_backpressure)

lemma suspend_ends: "R s (vs_state vs) \<Longrightarrow> R s (vs_state (snd (suspend_end reason old vs)))"
  unfolding suspend_end_def by (auto intro!: vm_current scopes split: option.splits)

end

locale entry_frame = task_frame +
  assumes entered: "R s (mut_instance_state i (\<lambda>st. st\<lparr>is_do_not_enter := b\<rparr>) s)"
begin

lemma enters: "R s t \<Longrightarrow> R s (enter_instance i t)" "R s t \<Longrightarrow> R s (snd (exit_instance i t))"
  using trans [OF _ entered] by (auto simp: enter_instance_def exit_instance_def intro!: basic_rules)

lemma begins:
  "R s (vs_state vs) \<Longrightarrow> R s (vs_state (snd (start_begin hk task f vs)))"
  "R s (vs_state vs) \<Longrightarrow> R s (vs_state (snd (deliver_begin task i k vs)))"
  unfolding start_begin_def deliver_begin_def Let_def
  by (auto intro!: vm_rules vm_current scopes make_calls enters gets split: option.splits)

lemma handles_call: "R s (vs_state vs) \<Longrightarrow> R s (vs_state (snd (handle_guest_call hk call vs)))"
  unfolding handle_guest_call_def by (auto intro!: vm_rules begins split: guest_call_kind.splits)

lemma act_ends: "R s (vs_state vs) \<Longrightarrow> R s (vs_state (snd (activation_end hk act v vs)))"
  by (cases act)
     (auto simp: stackless_end_def stackful_end_def sync_lifted_end_def deliver_end_def Let_def
       intro!: vm_rules vm_current scopes enters callback_code lifts completes deletes
       split: option.splits caller.splits)

end

text \<open>The frames that do not mention what the scheduler keeps.\<close>

locale loop_frame = task_frame +
  assumes reason_set: "R s (s\<lparr>cs_suspend_reason := r\<rparr>)"
    and worker_set: "R s (s\<lparr>cs_worker := w\<rparr>)"
    and item_set: "R s (s\<lparr>cs_worker_item := item\<rparr>)"
begin

lemma suspend_begins: "R s (vs_state vs) \<Longrightarrow> R s (vs_state (snd (suspend_begin reason vs)))"
  unfolding suspend_begin_def
  by (auto intro!: vm_rules scopes trans [OF _ reason_set] split: option.splits)

lemma loop_after:
  assumes "R s (el_state (snd m))"
    and "\<And>x l. m = (Ok x, l) \<Longrightarrow> R s (el_state l) \<Longrightarrow> R s (el_state (snd (k x l)))"
  shows "R s (el_state (snd (and_then m k)))"
  using assms by (cases m) (auto simp: and_then_def split: outcome.splits)

lemma loop_vm: "R s (vs_state (snd (f (el_store l)))) \<Longrightarrow> R s (el_state (snd (on_vm f l)))"
  by (simp add: on_vm_def case_prod_beta)

lemma leaves:
  assumes "R s (el_state l)"
  shows "R s (el_state (snd (fiber_suspends fiber old_task content l)))"
proof -
  define u where "u = (el_state l)\<lparr>cs_guest_task := old_task, cs_suspend_reason := None\<rparr>"
  have "R s ((el_state l)\<lparr>cs_guest_task := old_task\<rparr>)" by (rule trans [OF assms current])
  then have u: "R s u" unfolding u_def by (rule trans) (use reason_set in fastforce)
  have w: "R s (u\<lparr>cs_worker := w\<rparr>)" for w by (rule trans [OF u worker_set])
  have m: "R s (snd (mut_waitable_set k f u))" for k f by (rule mut_rules [OF u])
  show ?thesis
    using u w m [unfolded u_def] basic_rules(5) [OF u, of "ResumeFiber fiber"]
    by (auto simp: fiber_suspends_def Let_def upd_vm_def upd_conc_def upd_state_def set_guest_task_def on_conc_def
        on_vm_def in_state_def on_state_def u_def case_prod_beta split: option.splits suspend_reason.splits outcome.splits)
qed

lemma finishes_item: "R s (el_state l) \<Longrightarrow> R s (el_state (snd (finish_item fiber old_task l)))"
  unfolding finish_item_def by (auto intro!: loop_after loop_vm suspend_begins leaves)

lemma continues: "R s (el_state l) \<Longrightarrow> R s (el_state (snd (guest_continues fiber old_task act p l)))"
  unfolding guest_continues_def by (auto intro!: loop_after loop_vm suspend_begins leaves split: progress.splits)

end

end
