(* ===== verification/Loop_Inv.thy ===== *)
theory Loop_Inv
  imports Frames
begin

text \<open>
  The invariants of the event loop: the current task is the one whose code runs,
  no reason to suspend and no worker item is left behind between two steps, and
  an instance that may not be entered is held by exactly one fiber.
\<close>

section \<open>Frames of the operations\<close>

text \<open>Only the high-priority queue and the pending calls of one instance differ.\<close>

definition repended :: "nat \<Rightarrow> concurrent_state \<Rightarrow> concurrent_state \<Rightarrow> bool" where
  "repended i s s' \<longleftrightarrow> (\<exists>h p. s' = s\<lparr>cs_high_priority := h,
     cs_instance_states := (cs_instance_states s)(i := (cs_instance_states s i)\<lparr>is_pending := p\<rparr>)\<rparr>)"

lemma repended_refl: "repended i s s"
  unfolding repended_def
  by (rule exI [of _ "cs_high_priority s"], rule exI [of _ "is_pending (cs_instance_states s i)"]) simp

lemma repended_trans: "repended i s t \<Longrightarrow> repended i t u \<Longrightarrow> repended i s u"
  unfolding repended_def by (elim exE) (simp, blast)

lemma repended_moves:
  "repended i s (push_high_priority item s)"
  "repended i s (mut_instance_state i (\<lambda>st. st\<lparr>is_pending := f st\<rparr>) s)"
proof -
  have "push_high_priority item s = s\<lparr>cs_high_priority := cs_high_priority s @ [item], cs_instance_states :=
      (cs_instance_states s)(i := (cs_instance_states s i)\<lparr>is_pending := is_pending (cs_instance_states s i)\<rparr>)\<rparr>"
    by (simp add: push_high_priority_def)
  then show "repended i s (push_high_priority item s)" unfolding repended_def by blast
  have "mut_instance_state i (\<lambda>st. st\<lparr>is_pending := f st\<rparr>) s = s\<lparr>cs_high_priority := cs_high_priority s,
      cs_instance_states := (cs_instance_states s)(i := (cs_instance_states s i)\<lparr>is_pending := f (cs_instance_states s i)\<rparr>)\<rparr>"
    by (simp add: mut_instance_state_def)
  then show "repended i s (mut_instance_state i (\<lambda>st. st\<lparr>is_pending := f st\<rparr>) s)" unfolding repended_def by blast
qed

lemma repended_partition_calls: "repended i s (snd (partition_calls i cs s))"
proof (induction i cs s rule: partition_calls.induct)
  case (1 i s)
  show ?case by (simp add: repended_refl)
next
  case (2 i task kind rest s)
  show ?case
  proof (cases "is_ready \<lparr>gc_task = task, gc_kind = kind\<rparr> s")
    case (Ok r)
    then show ?thesis
      using repended_trans [OF repended_moves(1) 2(1) [OF refl, of r s]]
        repended_trans [OF repended_moves(2) 2(2) [OF refl, of r s]]
      by (cases r) simp_all
  qed (simp_all add: repended_refl)
qed

lemma repended_partition: "repended i s (snd (partition_pending i s))"
  unfolding partition_pending_def by (rule repended_trans [OF repended_moves(2) repended_partition_calls])


lemma repended_view:
  "repended i s s' \<Longrightarrow> cs_guest_task s' = cs_guest_task s"
  "repended i s s' \<Longrightarrow> cs_suspend_reason s' = cs_suspend_reason s"
  "repended i s s' \<Longrightarrow> cs_worker s' = cs_worker s"
  "repended i s s' \<Longrightarrow> cs_worker_item s' = cs_worker_item s"
  "repended i s s' \<Longrightarrow> cs_table s' = cs_table s"
  "repended i s s' \<Longrightarrow> is_do_not_enter (cs_instance_states s' j) = is_do_not_enter (cs_instance_states s j)"
  by (auto simp: repended_def split: if_splits)

text \<open>The current task, what the scheduler keeps, and which instances may not be entered.\<close>

interpretation current: conc_frame "\<lambda>s s'. cs_guest_task s' = cs_guest_task s"
  by unfold_locales
    (simp_all add: push_high_priority_def push_low_priority_def mut_instance_state_def repended_view [OF repended_partition]
       cs_push_def cs_delete_def cs_add_child_def cs_remove_child_def case_prod_beta)

definition scheduler_view :: "concurrent_state \<Rightarrow> suspend_reason option \<times> nat option \<times> worker_item option" where
  "scheduler_view s = (cs_suspend_reason s, cs_worker s, cs_worker_item s)"

interpretation scheduler: entry_frame "\<lambda>s s'. scheduler_view s' = scheduler_view s"
  by unfold_locales
    (simp_all add: scheduler_view_def push_high_priority_def push_low_priority_def mut_instance_state_def
       repended_view [OF repended_partition] cs_push_def cs_delete_def cs_add_child_def cs_remove_child_def case_prod_beta)

definition closed_to :: "concurrent_state \<Rightarrow> nat \<Rightarrow> bool" where
  "closed_to s i = is_do_not_enter (cs_instance_states s i)"

interpretation closed: loop_frame "\<lambda>s s'. closed_to s' = closed_to s"
  by unfold_locales
    (simp_all add: closed_to_def fun_eq_iff push_high_priority_def push_low_priority_def mut_instance_state_def
       repended_view [OF repended_partition] cs_push_def cs_delete_def cs_add_child_def cs_remove_child_def case_prod_beta)

declare current.refl [simp del] scheduler.refl [simp del] closed.refl [simp del]


section \<open>Identifiers that are not reused\<close>

text \<open>
  With \<open>enable_concurrent_state_debug\<close> the table never hands out an identifier
  twice.  A queued start then fits its task: the task is dead, or it is still the
  one for which the call was queued, of the instance the call will enter.
\<close>

definition unique_ids :: "concurrent_state \<Rightarrow> bool" where
  "unique_ids s \<longleftrightarrow> tb_debug (cs_table s) \<and> tb_free_head (cs_table s) = None"

definition fits :: "concurrent_state \<Rightarrow> nat \<Rightarrow> start_fn \<Rightarrow> bool" where
  "fits s task f \<longleftrightarrow> task < length (tb_entries (cs_table s)) \<and>
     (\<forall>t. obj_at s task = Some (ObjGuestTask t) \<longrightarrow> gt_instance t = sf_instance f)"

definition start_item :: "nat \<Rightarrow> start_fn \<Rightarrow> work_item" where
  "start_item task f = GuestCallItem \<lparr>gc_task = task, gc_kind = StartCall f\<rparr>"

definition queued_starts :: "concurrent_state \<Rightarrow> (nat \<times> start_fn) set" where
  "queued_starts s = {(task, f). start_item task f \<in> set (cs_high_priority s) \<union> set (cs_low_priority s) \<or>
     (\<exists>i. (task, StartCall f) \<in> set (is_pending (cs_instance_states s i)))}"

definition faithful :: "concurrent_state \<Rightarrow> concurrent_state \<Rightarrow> bool" where
  "faithful s s' \<longleftrightarrow> (unique_ids s \<longrightarrow> unique_ids s' \<and> (\<forall>task f. fits s task f \<longrightarrow> fits s' task f) \<and>
     (\<forall>(task, f) \<in> queued_starts s' - queued_starts s. fits s' task f))"

text \<open>What a step may do to the table: append, and forget.\<close>

definition table_forgets :: "'a table \<Rightarrow> 'a table \<Rightarrow> bool" where
  "table_forgets t t' \<longleftrightarrow> tb_debug t' = tb_debug t \<and> tb_free_head t' = tb_free_head t \<and>
     length (tb_entries t) \<le> length (tb_entries t') \<and>
     (\<forall>k < length (tb_entries t). \<forall>x. table_lookup t' k = Some x \<longrightarrow> table_lookup t k = Some x)"

lemma forgets_refl [simp]: "table_forgets t t"
  by (simp add: table_forgets_def)

lemma forgets_trans: "table_forgets t u \<Longrightarrow> table_forgets u v \<Longrightarrow> table_forgets t v"
  by (auto simp: table_forgets_def)

lemma forgets_update:
  assumes "k < length (tb_entries t)"
    and "\<And>e' x. s = TOccupied e' \<Longrightarrow> te_entry e' = Boxed x \<Longrightarrow> table_lookup t k = Some x"
  shows "table_forgets t (t\<lparr>tb_entries := (tb_entries t)[k := s]\<rparr>)"
  using assms by (auto simp: table_forgets_def table_lookup_def table_occ_update [of k t] bind_eq_Some_conv)

lemma forgets_mut:
  assumes "\<And>e. te_entry (snd (f e)) = te_entry e"
  shows "table_forgets t (snd (table_occupied_mut k f t))"
proof (cases "table_occ t k")
  case (Some e)
  then have "k < length (tb_entries t)" by (rule table_occ_bound)
  with Some assms [of e] show ?thesis
    by (auto simp: table_occupied_mut_eq table_lookup_def intro!: forgets_update)
qed (simp add: table_occupied_mut_eq)

lemma forgets_then:
  assumes "table_forgets t (snd m)" and "\<And>x u. tb_debug u = tb_debug t \<Longrightarrow> table_forgets u (snd (k x u))"
  shows "table_forgets t (snd (and_then m k))"
proof (cases m)
  case (Pair r u)
  with assms(1) have u: "table_forgets t u" by simp
  then have "tb_debug u = tb_debug t" by (simp add: table_forgets_def)
  with u show ?thesis
    by (cases r) (auto simp: Pair and_then_def intro: forgets_trans [OF u assms(2)])
qed

lemma forgets_children:
  "table_forgets t (snd (table_add_child c p t))" "table_forgets t (snd (table_remove_child c p t))"
  unfolding table_add_child_def table_remove_child_def
  by (auto intro!: forgets_then forgets_mut simp: entry_add_child_def entry_remove_child_def)

lemma forgets_free: "tb_debug t \<Longrightarrow> table_forgets t (snd (table_free_entry k t))"
  by (auto simp: table_free_entry_def Let_def vec_get_def table_entry_new_def intro!: forgets_update
      split: option.splits table_slot.splits)

lemma forgets_delete:
  fixes t :: "'a table"
  assumes d: "tb_debug t"
  shows "table_forgets t (snd (table_delete down k t))"
proof -
  have m: "table_forgets u v" if "table_occupied_mut p (entry_remove_child k) u = (r, v)" for u v :: "'a table" and p r
    using forgets_mut [of "entry_remove_child k" u p] that by (simp add: entry_remove_child_def)
  show ?thesis
    unfolding table_delete_def table_delete_entry_def
    by (auto intro!: forgets_then forgets_free simp: d split: option.splits prod.splits outcome.splits)
       (erule m)+
qed

lemma forgets_push: "tb_free_head t = None \<Longrightarrow> table_forgets t (snd (table_push x t))"
  by (auto simp: table_push_def table_push_entry_def table_pop_free_list_def table_forgets_def table_lookup_def
      table_occ_append split: option.splits)

lemma faithful_table:
  assumes "unique_ids s \<Longrightarrow> table_forgets (cs_table s) t"
  shows "faithful s (s\<lparr>cs_table := t\<rparr>)"
proof -
  have f: "fits s task f \<Longrightarrow> table_forgets (cs_table s) t \<Longrightarrow> fits (s\<lparr>cs_table := t\<rparr>) task f" for task f
    by (auto simp: fits_def obj_at_def table_forgets_def)
  show ?thesis
    using assms f by (auto simp: faithful_def queued_starts_def) (auto simp: unique_ids_def table_forgets_def)
qed

lemma faithful_queues:
  assumes "cs_table s' = cs_table s" and "\<And>task f. (task, f) \<in> queued_starts s' \<Longrightarrow> (task, f) \<in> queued_starts s \<or> fits s task f"
  shows "faithful s s'"
  using assms by (auto simp: faithful_def unique_ids_def fits_def obj_at_def)

lemma same_shape_task: "same_shape x (ObjGuestTask t) \<Longrightarrow> \<exists>u. x = ObjGuestTask u \<and> gt_instance t = gt_instance u"
  by (cases x) simp_all

lemma faithful_put:
  assumes "obj_at s k = Some x" "same_shape x y"
  shows "faithful s (cs_put k y s)"
proof -
  obtain e where e: "table_occ (cs_table s) k = Some e" using assms(1) obj_at_Some_occ by blast
  have l: "length (tb_entries (cs_table (cs_put k y s))) = length (tb_entries (cs_table s))"
    by (simp add: cs_put_def e)
  have "fits s task f \<Longrightarrow> fits (cs_put k y s) task f" for task f
    using assms l by (auto simp: fits_def dest: same_shape_task split: if_splits)
  moreover have "queued_starts (cs_put k y s) = queued_starts s" by (simp add: queued_starts_def)
  moreover have "unique_ids (cs_put k y s) = unique_ids s" by (simp add: unique_ids_def cs_put_def e)
  ultimately show ?thesis by (simp add: faithful_def)
qed

lemma queued_pushed:
  "queued_starts (push_high_priority item s) \<subseteq> queued_starts s \<union> {(task, f). item = start_item task f}"
  "queued_starts (push_low_priority item s) \<subseteq> queued_starts s \<union> {(task, f). item = start_item task f}"
  by (auto simp: queued_starts_def push_high_priority_def push_low_priority_def)

lemma queued_pending:
  "set (is_pending (g (cs_instance_states s i))) \<subseteq> set (is_pending (cs_instance_states s i)) \<union> p \<Longrightarrow>
   queued_starts (mut_instance_state i g s) \<subseteq> queued_starts s \<union> {(task, f). (task, StartCall f) \<in> p}"
  by (auto simp: queued_starts_def mut_instance_state_def split: if_splits)

lemma queued_partition_calls:
  "queued_starts (snd (partition_calls i cs s)) \<subseteq> queued_starts s \<union> {(task, f). (task, StartCall f) \<in> set cs}"
proof (induction i cs s rule: partition_calls.induct)
  case (2 i task kind rest s)
  show ?case
  proof (cases "is_ready \<lparr>gc_task = task, gc_kind = kind\<rparr> s")
    case (Ok r)
    have "queued_starts (mut_instance_state i (\<lambda>st. st\<lparr>is_pending := bt_insert task kind (is_pending st)\<rparr>) s)
        \<subseteq> queued_starts s \<union> {(k, f). (k, StartCall f) \<in> {(task, kind)}}"
      by (rule queued_pending) (auto dest: set_bt_insertD)
    moreover have "queued_starts (push_high_priority (GuestCallItem \<lparr>gc_task = task, gc_kind = kind\<rparr>) s)
        \<subseteq> queued_starts s \<union> {(k, f). (k, StartCall f) \<in> {(task, kind)}}"
      by (rule order_trans [OF queued_pushed(1)]) (auto simp: start_item_def)
    ultimately show ?thesis
      using Ok 2(1) [OF refl, of r s] 2(2) [OF refl, of r s] by (cases r) (simp_all, blast+)
  qed auto
qed auto

lemma queued_partition: "queued_starts (snd (partition_pending i s)) \<subseteq> queued_starts s"
proof -
  have "queued_starts (mut_instance_state i (\<lambda>st. st\<lparr>is_pending := []\<rparr>) s) \<subseteq> queued_starts s"
    using queued_pending [of "\<lambda>st. st\<lparr>is_pending := []\<rparr>" s i "{}"] by simp
  moreover have "{(task, f). (task, StartCall f) \<in> set (is_pending (cs_instance_states s i))} \<subseteq> queued_starts s"
    by (auto simp: queued_starts_def)
  ultimately show ?thesis
    unfolding partition_pending_def
    using queued_partition_calls [of i "is_pending (cs_instance_states s i)" "mut_instance_state i (\<lambda>st. st\<lparr>is_pending := []\<rparr>) s"]
    by blast
qed

lemma faithful_trans: "faithful s t \<Longrightarrow> faithful t u \<Longrightarrow> faithful s u"
  unfolding faithful_def by blast

lemma faithful_subset: "cs_table s' = cs_table s \<Longrightarrow> queued_starts s' \<subseteq> queued_starts s \<Longrightarrow> faithful s s'"
  by (rule faithful_queues) auto

lemma faithful_table_ops:
  "faithful s (snd (cs_push x s))"
  "faithful s (snd (cs_delete down k s))"
  "faithful s (snd (cs_add_child c p s))"
  "faithful s (snd (cs_remove_child c p s))"
  by (simp_all add: cs_push_def cs_delete_def cs_add_child_def cs_remove_child_def case_prod_beta)
     (auto intro!: faithful_table forgets_push forgets_delete forgets_children simp: unique_ids_def)

lemma faithful_start:
  assumes "get_guest_task task s = Ok g" "sf_instance f = gt_instance g"
  shows "faithful s (push_high_priority (GuestCallItem \<lparr>gc_task = task, gc_kind = StartCall f\<rparr>) s)"
proof (rule faithful_queues)
  have g: "obj_at s task = Some (ObjGuestTask g)" using assms(1) by (auto simp: cs_get_Ok)
  then have "task < length (tb_entries (cs_table s))" using obj_at_Some_occ table_occ_bound by blast
  with g assms(2) have "fits s task f" by (simp add: fits_def)
  then show "(k, h) \<in> queued_starts s \<or> fits s k h"
    if "(k, h) \<in> queued_starts (push_high_priority (GuestCallItem \<lparr>gc_task = task, gc_kind = StartCall f\<rparr>) s)" for k h
    using that queued_pushed(1) [of "GuestCallItem \<lparr>gc_task = task, gc_kind = StartCall f\<rparr>" s]
    by (auto simp: start_item_def)
qed (simp add: push_high_priority_def)

lemma queued_item: "\<not> is_start item \<Longrightarrow> item \<noteq> start_item task f"
  by (auto simp: start_item_def)

lemma faithful_instance:
  assumes "set (is_pending (g (cs_instance_states s i))) \<subseteq> set (is_pending (cs_instance_states s i))"
  shows "faithful s (mut_instance_state i g s)"
  using queued_pending [of g s i "{}"] assms by (auto intro!: faithful_subset)

interpretation faithful: entry_frame faithful
proof
  show "faithful s (snd (partition_pending i s))" for s i
    by (rule faithful_subset) (simp_all add: repended_view [OF repended_partition] queued_partition)
  show "faithful s (push_high_priority item s)" "faithful s (push_low_priority item s)" if "\<not> is_start item" for item s
    using queued_pushed [of item s] queued_item [OF that]
    by (auto intro!: faithful_subset simp: push_high_priority_def push_low_priority_def)
qed (auto intro: faithful_trans faithful_put faithful_start faithful_table_ops
    intro!: faithful_instance simp: faithful_subset queued_starts_def bt_remove_def)

interpretation faithful: loop_frame faithful
  by unfold_locales (auto intro!: faithful_subset simp: queued_starts_def)

end
