(* ===== verification/Loop_Safety.thy ===== *)
theory Loop_Safety
  imports Loop_Inv
begin

text \<open>
  Safety of the event loop over all its runs.  The current task is the task whose
  code runs, a fiber that suspends does so on behalf of the task it runs, and an
  instance is marked as one that may not be entered exactly while one fiber,
  running or suspended, is inside of it.
\<close>

section \<open>Runs\<close>

inductive reach :: "hooks \<Rightarrow> event_loop \<Rightarrow> event_loop \<Rightarrow> bool" for hk l0 where
  init: "reach hk l0 l0"
| more: "reach hk l0 l \<Longrightarrow> step hk inp l = (Ok (), l') \<Longrightarrow> reach hk l0 l'"

lemma reach_run: "reach hk l0 l \<Longrightarrow> run hk inps l = (Ok (), l') \<Longrightarrow> reach hk l0 l'"
proof (induction inps arbitrary: l)
  case (Cons inp inps)
  from Cons.prems(2) obtain u where u: "step hk inp l = (Ok (), u)" "run hk inps u = (Ok (), l')"
    by (auto elim: and_then_OkE)
  show ?case by (rule Cons.IH [OF more [OF Cons.prems(1) u(1)] u(2)])
qed simp

text \<open>What runs on a fiber, and the instance it is inside of.\<close>

fun act_old :: "activation \<Rightarrow> nat option" where
  "act_old (StartAct task f old after) = old"
| "act_old (DeliverAct task old i cb) = old"

fun act_instance :: "activation \<Rightarrow> nat option" where
  "act_instance (StartAct task f old after) = (if exclusive f then Some (sf_instance f) else None)"
| "act_instance (DeliverAct task old i cb) = Some i"

fun fiber_act :: "fiber \<Rightarrow> activation option" where
  "fiber_act IdleWorker = None"
| "fiber_act (Suspended reason old pt act) = Some act"

definition suspended_acts :: "event_loop \<Rightarrow> nat \<Rightarrow> activation option" where
  "suspended_acts l k = Option.bind (el_fibers l k) fiber_act"

definition acting :: "event_loop \<Rightarrow> nat \<Rightarrow> activation option" where
  "acting l = (case el_running l of
      Some (fiber, old, act) \<Rightarrow> (suspended_acts l)(fiber \<mapsto> act)
    | None \<Rightarrow> suspended_acts l)"

definition inside :: "(nat \<Rightarrow> activation option) \<Rightarrow> nat \<Rightarrow> nat set" where
  "inside a i = {fiber. \<exists>act. a fiber = Some act \<and> act_instance act = Some i}"

text \<open>The task on whose behalf a fiber that is suspended goes on.\<close>

fun point_task :: "point \<Rightarrow> nat option" where
  "point_task (CheckYielded c t) = Some t"
| "point_task (CheckWaited c t) = Some t"
| "point_task (CallWaited w) = Some (cw_caller w)"
| "point_task (CancelYielded c t async) = Some c"
| "point_task (CancelWaited t old) = None"
| "point_task (HostBlocked ic c old) = Some c"

definition point_ok :: "nat \<Rightarrow> point \<Rightarrow> bool" where
  "point_ok task pt \<longleftrightarrow> (point_task pt = None \<or> point_task pt = Some task)"

fun fiber_ok :: "fiber \<Rightarrow> bool" where
  "fiber_ok IdleWorker = True"
| "fiber_ok (Suspended reason old pt act) \<longleftrightarrow> act_old act = None \<and> reason_task reason = Some (act_task act) \<and>
     point_ok (act_task act) pt \<and> (old = Some (act_task act) \<or> (\<exists>w. pt = CallWaited w))"


section \<open>What the intrinsics do to the current task\<close>

text \<open>An intrinsic returns to the task that called it, or suspends on its behalf.\<close>

definition good_progress :: "nat \<Rightarrow> step_result \<Rightarrow> concurrent_state \<Rightarrow> bool" where
  "good_progress task p s \<longleftrightarrow> (case p of
      Finished v \<Rightarrow> cs_guest_task s = Some task
    | Suspend reason pt \<Rightarrow> reason_task reason = Some task \<and> point_ok task pt \<and>
        (cs_guest_task s = Some task \<or> (\<exists>w. pt = CallWaited w)))"

definition calls_well :: "nat \<Rightarrow> step_result vm_op \<Rightarrow> bool" where
  "calls_well task m \<longleftrightarrow> (case fst m of Ok p \<Rightarrow> good_progress task p (vs_state (snd m)) | _ \<Rightarrow> True)"

lemma well_fails [simp]: "calls_well task (Err e, vs)" "calls_well task (Panic e', vs)"
  by (simp_all add: calls_well_def)

lemma well_after:
  assumes "\<And>x vs. m = (Ok x, vs) \<Longrightarrow> calls_well task (k x vs)"
  shows "calls_well task (and_then m k)"
proof (cases m)
  case (Pair r vs)
  then show ?thesis using assms by (cases r) simp_all
qed

lemma well_pair: "good_progress task p (vs_state vs) \<Longrightarrow> calls_well task (Ok p, vs)"
  by (simp add: calls_well_def)

lemma well_done: "cs_guest_task (vs_state vs) = Some task \<Longrightarrow> calls_well task (Ok (Finished v), vs)"
  by (simp add: calls_well_def good_progress_def)

definition cur :: "nat \<Rightarrow> vm_store \<Rightarrow> bool" where
  "cur task vs \<longleftrightarrow> cs_guest_task (vs_state vs) = Some task"

lemma cur_after:
  assumes "cur task (snd m)" and "\<And>x vs. cur task vs \<Longrightarrow> calls_well task (k x vs)"
  shows "calls_well task (and_then m k)"
  by (rule well_after, rule assms(2)) (use assms(1) in \<open>simp only: snd_conv\<close>)

lemma cur_finished: "cur task (snd m) \<Longrightarrow> calls_well task (finished m)"
  unfolding finished_def by (rule cur_after, assumption, rule well_done, simp only: cur_def)

lemma cur_then:
  assumes "cur task (snd m)" and "\<And>x vs. cur task vs \<Longrightarrow> cur task (snd (k x vs))"
  shows "cur task (snd (and_then m k))"
  using assms by (cases m; cases "fst m") simp_all

lemma cur_current: "cur task vs \<Longrightarrow> calls_well task (k task vs) \<Longrightarrow> calls_well task (and_then (peek current_task vs) k)"
  by (simp add: cur_def peek_def current_task_def)

lemma cur_peek: "cur task vs \<Longrightarrow> cur task (snd (peek f vs))"
  by (simp add: peek_def)

lemma cur_frame: "cs_guest_task (vs_state (snd m)) = cs_guest_task (vs_state vs) \<Longrightarrow> cur task vs \<Longrightarrow> cur task (snd m)"
  by (simp add: cur_def)

lemma vs_state_ops [simp]:
  "vs_state (snd (in_state f vs)) = snd (f (vs_state vs))"
  "snd (peek g vs) = vs"
  "vs_state (snd (on_guest h vs)) = vs_state vs"
  "vs_state (snd (on_resources k vs)) = vs_state vs"
  "vs_state (upd_state u vs) = u (vs_state vs)"
  by (simp_all add: in_state_def on_state_def peek_def on_guest_def on_resources_def upd_state_def case_prod_beta)

lemma current_mut [simp]: "cs_guest_task (snd (cs_get_mut down up k f s)) = cs_guest_task s"
  by (cases "cs_get down k s") (simp_all add: cs_get_mut_eq)

lemma cur_ops:
  "cur task vs \<Longrightarrow> cur task (snd (check_finish hk c t vs))"
  "cur task vs \<Longrightarrow> cur task (snd (check_deliver hk b q t vs))"
  "cur task vs \<Longrightarrow> cur task (snd (lower_result hk ic v vs))"
  "cur task vs \<Longrightarrow> cur task (snd (block_output d t r vs))"
  "cur task vs \<Longrightarrow> cur task (snd (enter_host hk ic vs))"
  "cur task vs \<Longrightarrow> cur task (snd (first_poll hk ic p vs))"
  "cur task vs \<Longrightarrow> cur task (snd (task_return hk ty opts storage vs))"
  "cur task vs \<Longrightarrow> cur task (snd (task_cancel vs))"
  "cur task vs \<Longrightarrow> cur task (snd (in_state (join w j) vs))"
  "cur task vs \<Longrightarrow> cur task (snd (in_state (take_event w) vs))"
  "cur task vs \<Longrightarrow> cur task (snd (in_state (cs_push x) vs))"
  "cur task vs \<Longrightarrow> cur task (snd (in_state (cs_delete down n) vs))"
  "cur task vs \<Longrightarrow> cur task (snd (in_state (cs_get_mut down' up n f) vs))"
  "cur task vs \<Longrightarrow> cur task (snd (peek g vs))"
  "cur task vs \<Longrightarrow> cur task (snd (x, vs))"
  by (simp_all add: cur_def current.check_finishes [OF refl] current.check_delivers [OF refl] current.lowers_result [OF refl] current.outputs [OF refl]
      current.enters_host [OF refl] current.first_polls [OF refl] current.task_ends [OF refl] current.joins [OF refl]
      current.takes [OF refl] current.basic_rules [OF refl] current.delete_any [OF refl])

lemma cur_waits:
  assumes "cur task vs" "reason_task r = Some task" "point_ok task pt"
  shows "calls_well task (Ok (Suspend r pt), vs)"
  using assms by (simp add: calls_well_def good_progress_def cur_def)

lemma cur_done: "cur task vs \<Longrightarrow> calls_well task (Ok (Finished v), vs)"
  unfolding cur_def by (rule well_done)

lemmas well_rules = cur_after cur_finished cur_current cur_ops cur_waits cur_done

lemma point_ok_simps [simp]:
  "point_ok task (CheckYielded c t) \<longleftrightarrow> t = task" "point_ok task (CheckWaited c t) \<longleftrightarrow> t = task"
  "point_ok task (CallWaited w) \<longleftrightarrow> cw_caller w = task" "point_ok task (CancelYielded k t async) \<longleftrightarrow> k = task"
  "point_ok task (CancelWaited t old)" "point_ok task (HostBlocked ic k res) \<longleftrightarrow> k = task"
  by (simp_all add: point_ok_def)

lemma well_checks:
  "cur task vs \<Longrightarrow> calls_well task (check_yielded hk c task vs)"
  "cur task vs \<Longrightarrow> calls_well task (waitable_set_check hk chk opts h a vs)"
  "cur task vs \<Longrightarrow> calls_well task (yield_now async vs)"
  unfolding check_yielded_def waitable_set_check_def yield_now_def waitable_check_begin_def Let_def
  by (auto intro!: well_rules split: waitable_check.splits)

lemma well_cancels:
  "cur task vs \<Longrightarrow> calls_well task (cancel_finish w vs)"
  "cur task vs \<Longrightarrow> calls_well task (cancel_waited t old vs)"
  "cur task vs \<Longrightarrow> calls_well task (cancel_check task t async vs)"
  unfolding cancel_waited_def cancel_check_def cancel_finish_def by (auto intro!: well_rules)

lemma cur_upd: "cs_guest_task (f (vs_state vs)) = cs_guest_task (vs_state vs) \<Longrightarrow> cur task vs \<Longrightarrow> cur task (upd_state f vs)"
  by (simp add: cur_def)

lemma cur_aborted [simp]: "cur task (vs\<lparr>vs_aborted := a\<rparr>) = cur task vs"
  by (simp add: cur_def)

lemma well_subtask_cancel: "cur task vs \<Longrightarrow> calls_well task (subtask_cancel i async h vs)"
  unfolding subtask_cancel_def subtask_cancel_guest_def subtask_cancel_host_def cancel_unstarted_def cancel_started_def Let_def
  by (auto intro!: well_rules well_cancels cur_upd simp: mut_instance_state_def push_high_priority_def
      split: waitable.splits option.splits)

lemma well_host_calls:
  "cur task vs \<Longrightarrow> calls_well task (block_finish hk ic c old vs)"
  "cur task vs \<Longrightarrow> calls_well task (poll_and_block hk ic p vs)"
  "cur task vs \<Longrightarrow> calls_well task (call_host_sync hk ic r vs)"
  "cur task vs \<Longrightarrow> calls_well task (call_host_async hk ic r vs)"
proof -
  show b: "cur task vs \<Longrightarrow> calls_well task (block_finish hk ic c old vs)" for vs c old
    unfolding block_finish_def call_host_return_def by (auto intro!: well_rules split: option.splits)
  have f: "cur task vs \<Longrightarrow> cur task (upd_state (push_future fut) vs)" for fut vs
    by (rule cur_upd) (simp_all add: push_future_def push_high_priority_def)
  show pb: "cur task vs \<Longrightarrow> calls_well task (poll_and_block hk ic p vs)" for vs p
    unfolding poll_and_block_def call_host_return_def
    by (auto intro!: well_rules b f split: option.splits host_poll.splits) (auto simp: cur_def)
  show "cur task vs \<Longrightarrow> calls_well task (call_host_sync hk ic r vs)"
    unfolding call_host_sync_def call_host_return_def
    by (auto intro!: well_rules pb split: import_result.splits)
  show "cur task vs \<Longrightarrow> calls_well task (call_host_async hk ic r vs)"
    unfolding call_host_async_def by (auto intro!: well_rules cur_then split: import_result.splits)
qed

lemma well_call_woken: "calls_well (cw_caller w) (start_call_woken w vs)"
proof -
  have d: "cur (cw_caller w) (snd (x, set_guest_task (Some (cw_caller w)) v))" for x v by (simp add: cur_def set_guest_task_def)
  have f: "calls_well (cw_caller w) (start_call_finish w st h v)" for st h v
    unfolding start_call_finish_def by (auto intro!: well_after cur_finished d)
  show ?thesis
    unfolding start_call_woken_def
    by (auto intro!: well_after f well_pair simp: good_progress_def split: option.splits event.splits)
qed

text \<open>A call between guests suspends on behalf of the task that made it.\<close>

definition called_by :: "nat \<Rightarrow> vm_store \<Rightarrow> bool" where
  "called_by task vs \<longleftrightarrow> (\<exists>k t i. cs_guest_task (vs_state vs) = Some k \<and>
     obj_at (vs_state vs) k = Some (ObjGuestTask t) \<and> gt_caller t = CallerGuest task i)"

lemma cs_push_lookup: "cs_push x s = (Ok k, s') \<Longrightarrow> obj_at s' k = Some x"
  by (auto simp: cs_push_def table_push_def table_push_entry_def table_pop_free_list_def obj_at_def table_lookup_def
      table_entry_new_def table_occ_update table_occ_append vec_get_def u32_try_from_def
      split: prod.splits option.splits outcome.splits if_splits table_slot.splits elim!: and_then_OkE)

lemma guest_task_new_caller: "guest_task_new lp lr c cb i s = (Ok g, s') \<Longrightarrow> gt_caller g = c"
  by (auto simp: guest_task_new_def elim!: and_then_OkE)

lemma in_state_Ok: "in_state f vs = (Ok x, vs') \<longleftrightarrow> (\<exists>s'. f (vs_state vs) = (Ok x, s') \<and> vs' = upd_state (\<lambda>_. s') vs)"
  by (auto simp: in_state_def on_state_def upd_state_def split: prod.splits)

lemma called_prepare:
  assumes "cur task vs" "prepare_call c vs = (Ok (), vs')"
  shows "called_by task vs'"
proof -
  from assms obtain g k u1 u2 u3 y where g: "gt_caller g = CallerGuest task (ac_caller_instance c)"
    and k: "cs_push (ObjGuestTask g) u1 = (Ok k, u2)"
    and m: "mut_guest_task task (\<lambda>t. t\<lparr>gt_subtasks := insert k (gt_subtasks t)\<rparr>) u2 = (Ok y, u3)"
    and v: "vs_state vs' = u3\<lparr>cs_guest_task := Some k\<rparr>"
    by (auto simp: prepare_call_def cur_def peek_def in_state_Ok set_guest_task_def upd_state_def
        elim!: and_then_OkE) (blast dest: guest_task_new_caller)
  have "obj_at u2 k = Some (ObjGuestTask g)" by (rule cs_push_lookup [OF k])
  with m have "\<exists>t. obj_at u3 k = Some (ObjGuestTask t) \<and> gt_caller t = gt_caller g"
    by (auto simp: cs_get_mut_eq cs_get_Ok split: outcome.splits if_splits)
  with g v show ?thesis by (auto simp: called_by_def obj_at_def)
qed

lemma well_start_call:
  assumes c: "called_by task vs"
  shows "calls_well task (start_call a vs)"
proof -
  obtain k t i where k: "cs_guest_task (vs_state vs) = Some k" and t: "obj_at (vs_state vs) k = Some (ObjGuestTask t)"
    and i: "gt_caller t = CallerGuest task i" using c unfolding called_by_def by blast
  have "get_guest_task k (vs_state vs) = Ok t" using t by (auto simp: cs_get_Ok)
  then show ?thesis
    unfolding start_call_def using k i
    by (auto intro!: well_after well_pair simp: peek_def current_task_def in_state_Ok cs_get_mut_eq good_progress_def
        split: caller.splits)
qed

lemma cur_intrinsics:
  "cur task vs \<Longrightarrow> cur task (snd (in_state (subtask_drop i h) vs))"
  "cur task vs \<Longrightarrow> cur task (snd (in_state (waitable_set_new i) vs))"
  "cur task vs \<Longrightarrow> cur task (snd (in_state (waitable_set_drop i h) vs))"
  "cur task vs \<Longrightarrow> cur task (snd (in_state (waitable_join i h k) vs))"
  "cur task vs \<Longrightarrow> cur task (snd (in_state (backpressure_set i b) vs))"
  "cur task vs \<Longrightarrow> cur task (snd (in_state (context_set x y) vs))"
  by (simp_all add: cur_def current.set_intrinsics [OF refl] current.drops_subtask [OF refl]
      current.sets_context [OF refl] current.sets_backpressure [OF refl])

lemma well_intrinsics:
  assumes c: "cur task vs"
  shows "calls_well task (run_intrinsic hk i vs)"
proof (cases i)
  case (CallGuest c a)
  then show ?thesis using called_prepare [OF assms] by (auto intro!: well_after well_start_call)
qed (use c in \<open>auto simp: returns_def waitable_set_wait_def waitable_set_poll_def intro!: well_rules well_checks well_cancels
  well_subtask_cancel well_host_calls cur_intrinsics\<close>)

lemma well_goes_on:
  assumes "point_ok task pt" "cur task vs \<or> (\<exists>w. pt = CallWaited w)"
  shows "calls_well task (go_on hk pt vs)"
  using assms well_call_woken
  by (cases pt) (auto intro!: well_rules well_checks well_cancels well_host_calls)


section \<open>The loop\<close>

lemma el_state_ops [simp]:
  "el_state (snd (on_vm f l)) = vs_state (snd (f (el_store l)))"
  "el_state (upd_conc g l) = g (el_state l)"
  "el_fibers (upd_conc g l) = el_fibers l" "el_running (upd_conc g l) = el_running l"
  "el_next_fiber (upd_conc g l) = el_next_fiber l" "el_batch (upd_conc g l) = el_batch l"
  by (simp_all add: on_vm_def upd_conc_def upd_vm_def case_prod_beta)

lemma on_vm_Ok: "on_vm f l = (Ok x, l') \<longleftrightarrow> (\<exists>vs. f (el_store l) = (Ok x, vs) \<and> l' = l\<lparr>el_store := vs\<rparr>)"
  by (auto simp: on_vm_def split: prod.splits)

text \<open>What holds while a fiber runs, with the state of the fiber left open.\<close>

definition fibers_ok :: "event_loop \<Rightarrow> bool" where
  "fibers_ok l \<longleftrightarrow> (\<forall>k c. el_fibers l k = Some c \<longrightarrow> k < el_next_fiber l \<and> fiber_ok c) \<and>
     (\<forall>w. cs_worker (el_state l) = Some w \<longrightarrow> el_fibers l w = Some IdleWorker) \<and>
     cs_worker_item (el_state l) = None"

definition in_flight :: "nat \<Rightarrow> event_loop \<Rightarrow> bool" where
  "in_flight fiber l \<longleftrightarrow> fibers_ok l \<and> fiber < el_next_fiber l \<and> el_fibers l fiber = None"

definition loop_ok :: "event_loop \<Rightarrow> bool" where
  "loop_ok l \<longleftrightarrow> fibers_ok l \<and> cs_suspend_reason (el_state l) = None \<and>
     cs_guest_task (el_state l) = map_option (\<lambda>(fiber, old, act). act_task act) (el_running l) \<and>
     (\<forall>fiber old act. el_running l = Some (fiber, old, act) \<longrightarrow>
        in_flight fiber l \<and> old = None \<and> act_old act = None)"

lemma fiber_suspends_Ok:
  assumes "fiber_suspends fiber old content l = (Ok (), l')"
  obtains r where "cs_suspend_reason (el_state l) = Some r" "el_running l' = None" "el_batch l' = el_batch l"
    "el_next_fiber l' = el_next_fiber l" "cs_guest_task (el_state l') = old" "cs_suspend_reason (el_state l') = None"
    "cs_worker_item (el_state l') = cs_worker_item (el_state l)"
    "el_fibers l' = (el_fibers l)(fiber \<mapsto> content) \<or> r = NeedWork \<and> el_fibers l' = el_fibers l"
    "cs_worker (el_state l') = cs_worker (el_state l) \<or>
      r = NeedWork \<and> cs_worker (el_state l') = Some fiber \<and> el_fibers l' = (el_fibers l)(fiber \<mapsto> content)"
proof (cases "cs_suspend_reason (el_state l)")
  case None
  then show ?thesis using assms by (simp add: fiber_suspends_def upd_vm_def set_guest_task_def Let_def)
next
  case (Some r)
  show ?thesis
  proof (rule that [OF Some])
  qed (use assms Some in \<open>auto simp: fiber_suspends_def upd_vm_def set_guest_task_def Let_def on_conc_def
    on_vm_def in_state_def on_state_def cs_get_mut_eq push_low_priority_def
    split: suspend_reason.splits prod.splits outcome.splits if_splits\<close>)
qed

lemma suspend_begin_Ok:
  assumes "suspend_begin reason vs = (Ok old, vs')"
  shows "old = (if reason_task reason = None then None else cs_guest_task (vs_state vs))"
    "cs_suspend_reason (vs_state vs') = Some reason" "cs_worker (vs_state vs') = cs_worker (vs_state vs)"
    "cs_worker_item (vs_state vs') = cs_worker_item (vs_state vs)"
proof -
  have c: "cs_guest_task (vs_state v) = cs_guest_task (vs_state vs)"
    "scheduler_view (vs_state v) = scheduler_view (vs_state vs)"
    if "maybe_pop_call_context task vs = (Ok (), v)" for task v
    using current.scopes(3) [of vs "vs_state vs" task] scheduler.scopes(3) [of vs "vs_state vs" task] that by simp_all
  show "old = (if reason_task reason = None then None else cs_guest_task (vs_state vs))"
    "cs_suspend_reason (vs_state vs') = Some reason" "cs_worker (vs_state vs') = cs_worker (vs_state vs)"
    "cs_worker_item (vs_state vs') = cs_worker_item (vs_state vs)"
    using assms c
    by (auto simp: suspend_begin_def scheduler_view_def elim!: and_then_OkE split: option.splits if_splits)
qed

lemma suspends_ok:
  assumes f: "in_flight fiber l" and c: "fiber_ok content"
    and r: "cs_suspend_reason (el_state l) = Some NeedWork \<Longrightarrow> content = IdleWorker"
    and s: "fiber_suspends fiber None content l = (Ok (), l')"
  shows "loop_ok l'" "acting l' = (suspended_acts l)(fiber := fiber_act content)" "el_batch l' = el_batch l"
proof -
  from s show "el_batch l' = el_batch l" by (rule fiber_suspends_Ok)
  from s obtain q where q: "cs_suspend_reason (el_state l) = Some q" "el_running l' = None"
    "el_next_fiber l' = el_next_fiber l" "cs_guest_task (el_state l') = None" "cs_suspend_reason (el_state l') = None"
    "cs_worker_item (el_state l') = cs_worker_item (el_state l)"
    and k: "el_fibers l' = (el_fibers l)(fiber \<mapsto> content) \<or> q = NeedWork \<and> el_fibers l' = el_fibers l"
    and w: "cs_worker (el_state l') = cs_worker (el_state l) \<or>
      q = NeedWork \<and> cs_worker (el_state l') = Some fiber \<and> el_fibers l' = (el_fibers l)(fiber \<mapsto> content)"
    by (rule fiber_suspends_Ok)
  have i: "q = NeedWork \<Longrightarrow> content = IdleWorker" using r q(1) by simp
  have n: "el_fibers l fiber = None" "fiber < el_next_fiber l" "cs_worker_item (el_state l) = None"
    using f by (simp_all add: in_flight_def fibers_ok_def)
  show "acting l' = (suspended_acts l)(fiber := fiber_act content)"
    using q(2) k i n by (auto simp: acting_def suspended_acts_def fun_eq_iff)
  have "fibers_ok l'"
    unfolding fibers_ok_def
  proof (intro conjI allI impI)
    show "k < el_next_fiber l'" "fiber_ok d" if "el_fibers l' k = Some d" for k d
      using that k f c q(3) n by (auto simp: in_flight_def fibers_ok_def split: if_splits)
    show "el_fibers l' v = Some IdleWorker" if "cs_worker (el_state l') = Some v" for v
      using that k w f i n by (auto simp: in_flight_def fibers_ok_def dest: fun_cong [of _ _ fiber])
    show "cs_worker_item (el_state l') = None" using q(6) n by simp
  qed
  then show "loop_ok l'" using q by (simp add: loop_ok_def)
qed

lemma in_flight_store:
  assumes "in_flight fiber l" "cs_worker (vs_state vs) = cs_worker (el_state l)"
    "cs_worker_item (vs_state vs) = cs_worker_item (el_state l)"
  shows "in_flight fiber (l\<lparr>el_store := vs\<rparr>)"
  using assms by (simp add: in_flight_def fibers_ok_def)

lemma suspended_acts_store [simp]: "suspended_acts (l\<lparr>el_store := vs\<rparr>) = suspended_acts l"
  by (simp add: suspended_acts_def fun_eq_iff)

lemma finish_ok:
  assumes "in_flight fiber l" "finish_item fiber None l = (Ok (), l')"
  shows "loop_ok l'" "acting l' = (suspended_acts l)(fiber := None)" "el_batch l' = el_batch l"
proof -
  from assms(2) obtain q vs where q: "suspend_begin NeedWork (el_store l) = (Ok q, vs)"
    and s: "fiber_suspends fiber None IdleWorker (l\<lparr>el_store := vs\<rparr>) = (Ok (), l')"
    by (auto simp: finish_item_def on_vm_Ok elim!: and_then_OkE)
  have "in_flight fiber (l\<lparr>el_store := vs\<rparr>)"
    using suspend_begin_Ok [OF q] assms(1) by (intro in_flight_store) simp_all
  from suspends_ok [OF this _ _ s]
  show "loop_ok l'" "acting l' = (suspended_acts l)(fiber := None)" "el_batch l' = el_batch l" by simp_all
qed

lemma continue_ok:
  assumes "in_flight fiber l" "cs_suspend_reason (el_state l) = None" "act_old act = None"
    and p: "good_progress (act_task act) p (el_state l)"
    and c: "guest_continues fiber None act p l = (Ok (), l')"
  shows "loop_ok l'" "acting l' = (suspended_acts l)(fiber \<mapsto> act)" "el_batch l' = el_batch l"
proof -
  have "loop_ok l' \<and> acting l' = (suspended_acts l)(fiber \<mapsto> act) \<and> el_batch l' = el_batch l"
  proof (cases p)
    case (Finished v)
    with c have l': "l' = l\<lparr>el_running := Some (fiber, None, act), el_output := Some v\<rparr>"
      by (simp add: guest_continues_def)
    show ?thesis
      using assms(1-3) p Finished unfolding l'
      by (auto simp: loop_ok_def in_flight_def fibers_ok_def good_progress_def acting_def suspended_acts_def fun_eq_iff)
  next
    case (Suspend r pt)
    from c Suspend obtain old vs where b: "suspend_begin r (el_store l) = (Ok old, vs)"
      and s: "fiber_suspends fiber None (Suspended r old pt act) (l\<lparr>el_store := vs\<rparr>) = (Ok (), l')"
      by (auto simp: guest_continues_def on_vm_Ok elim!: and_then_OkE)
    have f: "in_flight fiber (l\<lparr>el_store := vs\<rparr>)"
      using suspend_begin_Ok [OF b] assms(1) by (intro in_flight_store) simp_all
    have k: "fiber_ok (Suspended r old pt act)"
      using p Suspend suspend_begin_Ok(1) [OF b] assms(3) by (auto simp: good_progress_def)
    have "r \<noteq> NeedWork" using p Suspend by (auto simp: good_progress_def)
    then show ?thesis using suspends_ok [OF f k _ s] suspend_begin_Ok(2) [OF b] by simp
  qed
  then show "loop_ok l'" "acting l' = (suspended_acts l)(fiber \<mapsto> act)" "el_batch l' = el_batch l" by simp_all
qed


section \<open>Entering and leaving instances\<close>

definition marked :: "activation \<Rightarrow> bool \<Rightarrow> (nat \<Rightarrow> bool) \<Rightarrow> nat \<Rightarrow> bool" where
  "marked act b c = (case act_instance act of Some i \<Rightarrow> c(i := b) | None \<Rightarrow> c)"

lemma closed_exit: "closed_to (snd (exit_instance i s)) = (closed_to s)(i := False)"
  by (simp add: exit_instance_def closed.basic_rules(6) [OF refl])
     (simp add: closed_to_def mut_instance_state_def fun_eq_iff)

lemma closed_enter: "closed_to (enter_instance i s) = (closed_to s)(i := True)"
  by (simp add: enter_instance_def closed_to_def mut_instance_state_def fun_eq_iff)

lemma exit_then:
  assumes "and_then (in_state (exit_instance i) vs) k = (Ok y, vs')"
    and "\<And>v. closed_to (vs_state (snd (k () v))) = closed_to (vs_state v)"
  shows "closed_to (vs_state vs') = (closed_to (vs_state vs))(i := False)"
proof -
  from assms(1) obtain v where v: "in_state (exit_instance i) vs = (Ok (), v)" "k () v = (Ok y, vs')"
    by (auto elim!: and_then_OkE)
  from v(1) have "closed_to (vs_state v) = (closed_to (vs_state vs))(i := False)"
    using closed_exit [of i "vs_state vs"] by (auto simp: in_state_Ok)
  with assms(2) [of v] v(2) show ?thesis by simp
qed

lemma closed_stackless:
  assumes "stackless_end task f old after ret vs = (Ok (), vs')"
  shows "closed_to (vs_state vs') = (closed_to (vs_state vs))(sf_instance f := False)"
  using exit_then [OF assms [unfolded stackless_end_def]]
  by (auto intro!: closed.vm_rules closed.vm_current closed.scopes closed.callback_code closed.refl)

lemma closed_deliver_end:
  assumes "deliver_end task old i cb ret vs = (Ok (), vs')"
  shows "closed_to (vs_state vs') = (closed_to (vs_state vs))(i := False)"
proof -
  from assms obtain t v where t: "in_state (mut_guest_task task (\<lambda>t. t\<lparr>gt_callback := Some cb\<rparr>))
      (set_may_enter i (cf_may_enter_after_call cb) vs) = (Ok t, v)"
    and r: "and_then (in_state (exit_instance i) v) (\<lambda>_ vs. and_then (maybe_pop_call_context task vs) (\<lambda>_ vs.
       and_then (in_state (handle_callback_code task i (of_nat ret) False) vs) (\<lambda>_ vs.
       (Ok (), set_guest_task old vs)))) = (Ok (), vs')"
    by (auto simp: deliver_end_def elim!: and_then_OkE)
  have "closed_to (vs_state v) = closed_to (vs_state vs)"
    using t by (auto simp: in_state_Ok cs_get_mut_eq closed_to_def set_may_enter_def split: outcome.splits)
  with exit_then [OF r] show ?thesis
    by (auto intro!: closed.vm_rules closed.vm_current closed.scopes closed.callback_code closed.refl)
qed

lemma closed_sync_lifted:
  assumes "sync_lifted_end hk task f ret vs = (Ok (), vs')"
  shows "closed_to (vs_state vs') = (closed_to (vs_state vs))(sf_instance f := False)"
  by (rule exit_then [OF assms [unfolded sync_lifted_end_def]])
     (auto intro!: closed.vm_rules closed.lifts closed.completes closed.refl simp: Let_def split: option.splits)

lemma closed_act_end:
  assumes "activation_end hk act v vs = (Ok (), vs')"
  shows "closed_to (vs_state vs') = marked act False (closed_to (vs_state vs))"
proof (cases act)
  case (StartAct task f old after)
  show ?thesis
  proof (cases "sf_callback f")
    case True
    with assms StartAct show ?thesis using closed_stackless by (auto simp: marked_def exclusive_def)
  next
    case False
    with assms StartAct obtain u where u: "(if sf_async f then
          and_then (peek (get_guest_task task) (make_call_end after f vs)) (\<lambda>t vs.
          if gt_lift_result t \<noteq> None then (Err (Trap ''NoAsyncResult''), vs) else (Ok (), vs))
        else sync_lifted_end hk task f v (make_call_end after f vs)) = (Ok (), u)"
      and r: "and_then (maybe_pop_call_context task u) (\<lambda>_ vs.
     and_then (peek (get_guest_task task) vs) (\<lambda>t vs.
     case gt_caller t of
       CallerHost tx remove_task_automatically post \<Rightarrow>
         if remove_task_automatically then in_state (delete_from (WGuest task)) vs else (Ok (), vs)
     | CallerGuest c i \<Rightarrow>
         discard (in_state (mut_guest_task task (\<lambda>t. t\<lparr>gt_exited := True\<rparr>)) vs))) = (Ok (), vs')"
      by (auto simp: stackful_end_def simp del: split_paired_Ex elim!: and_then_OkE)
    have "closed_to (vs_state vs') = closed_to (vs_state u)"
      using arg_cong [OF r, of "\<lambda>m. closed_to (vs_state (snd m))"]
      by (subst (asm) closed.vm_after [OF closed.scopes(3) [OF closed.refl]])
         (auto intro!: closed.vm_rules closed.deletes closed.refl split: caller.splits)
    moreover have "closed_to (vs_state u) = marked act False (closed_to (vs_state vs))"
      using u closed_sync_lifted False
      by (auto simp: marked_def StartAct exclusive_def peek_def elim!: and_then_OkE split: if_splits)
    ultimately show ?thesis by simp
  qed
next
  case (DeliverAct task old i cb)
  with assms closed_deliver_end show ?thesis by (auto simp: marked_def)
qed

lemma frame_Ok:
  assumes "m = (Ok x, vs')"
  shows "closed_to (vs_state (snd m)) = c \<Longrightarrow> closed_to (vs_state vs') = c"
    "cs_guest_task (vs_state (snd m)) = g \<Longrightarrow> cs_guest_task (vs_state vs') = g"
    "faithful s (vs_state (snd m)) \<Longrightarrow> faithful s (vs_state vs')"
  using assms by simp_all

lemma closed_set_current [simp]: "closed_to (vs_state (set_guest_task t vs)) = closed_to (vs_state vs)"
  by (simp add: set_guest_task_def closed_to_def fun_eq_iff)

lemma closed_put [simp]: "closed_to (cs_put k x s) = closed_to s"
  by (simp add: closed_to_def fun_eq_iff)

lemma start_begin_Ok:
  assumes "start_begin hk task f vs = (Ok (old, after, params), vs')"
  shows "old = cs_guest_task (vs_state vs)" "cs_guest_task (vs_state vs') = Some task"
    "closed_to (vs_state vs') = marked (StartAct task f old after) True (closed_to (vs_state vs))"
proof -
  from assms obtain u where u: "maybe_push_call_context task (set_guest_task (Some task) vs) = (Ok (), u)"
    and m: "make_call_begin hk task f (if exclusive f then upd_state (enter_instance (sf_instance f)) u else u)
      = (Ok (after, params), vs')" and o: "old = cs_guest_task (vs_state vs)"
    by (auto simp: start_begin_def Let_def elim!: and_then_OkE)
  show "old = cs_guest_task (vs_state vs)" by (rule o)
  have "cs_guest_task (vs_state u) = Some task"
    using frame_Ok(2) [OF u current.scopes(1) [OF refl]] by (simp add: set_guest_task_def)
  with frame_Ok(2) [OF m current.make_calls [OF refl]] show "cs_guest_task (vs_state vs') = Some task"
    by (auto simp: enter_instance_def mut_instance_state_def split: if_splits)
  have "closed_to (vs_state u) = closed_to (vs_state vs)"
    using frame_Ok(1) [OF u closed.scopes(1) [OF closed.refl]] by simp
  with frame_Ok(1) [OF m closed.make_calls [OF closed.refl]]
  show "closed_to (vs_state vs') = marked (StartAct task f old after) True (closed_to (vs_state vs))"
    by (auto simp: marked_def closed_enter split: if_splits)
qed

lemma deliver_begin_Ok:
  assumes "deliver_begin task i k vs = (Ok (old, j, cb, params), vs')"
  shows "old = cs_guest_task (vs_state vs)" "cs_guest_task (vs_state vs') = Some task"
    "closed_to (vs_state vs') = (closed_to (vs_state vs))(j := True)"
    "\<exists>s t. faithful (vs_state vs) s \<and> obj_at s task = Some (ObjGuestTask t) \<and> j = gt_instance t"
proof -
  from assms obtain e u t v w y where u: "in_state (get_event task i k) vs = (Ok e, u)"
    and t: "get_guest_task task (vs_state u) = Ok t" and j: "j = gt_instance t"
    and v: "maybe_push_call_context task (set_guest_task (Some task) u) = (Ok (), v)"
    and w: "in_state (mut_guest_task task (\<lambda>t. t\<lparr>gt_callback := None\<rparr>)) (upd_state (enter_instance j) v) = (Ok y, w)"
    and v': "vs' = set_may_enter j False w" and o: "old = cs_guest_task (vs_state u)"
    by (auto simp: deliver_begin_def Let_def peek_def elim!: and_then_OkE split: option.splits)
  have c: "cs_guest_task (vs_state u) = cs_guest_task (vs_state vs)" "closed_to (vs_state u) = closed_to (vs_state vs)"
    "faithful (vs_state vs) (vs_state u)"
    using frame_Ok [OF u] current.gets [OF refl] closed.gets [OF closed.refl] faithful.gets [OF faithful.refl] by simp_all
  show "old = cs_guest_task (vs_state vs)" using c(1) o by simp
  have g: "cs_guest_task (vs_state w) = cs_guest_task (vs_state v)"
    "closed_to (vs_state w) = (closed_to (vs_state v))(j := True)"
    using w
    by (auto simp: in_state_Ok cs_get_mut_eq closed_enter split: outcome.splits)
       (simp add: enter_instance_def mut_instance_state_def)
  have "cs_guest_task (vs_state v) = Some task"
    using frame_Ok(2) [OF v current.scopes(1) [OF refl]] by (simp add: set_guest_task_def)
  with g show "cs_guest_task (vs_state vs') = Some task" by (simp add: v' set_may_enter_def)
  have "closed_to (vs_state v) = closed_to (vs_state vs)"
    using frame_Ok(1) [OF v closed.scopes(1) [OF closed.refl]] c by simp
  with g show "closed_to (vs_state vs') = (closed_to (vs_state vs))(j := True)" by (simp add: v' set_may_enter_def)
  have "obj_at (vs_state u) task = Some (ObjGuestTask t)" using t by (auto simp: cs_get_Ok)
  with c(3) j show "\<exists>s t. faithful (vs_state vs) s \<and> obj_at s task = Some (ObjGuestTask t) \<and> j = gt_instance t" by blast
qed

end
