(* ===== verification/Loop_Runs.thy ===== *)
theory Loop_Runs
  imports Loop_Safety
begin

text \<open>
  Every run of the event loop keeps the current task exact and, when the table
  does not reuse identifiers, admits at most one fiber into an instance whose
  exports have to run alone.
\<close>

section \<open>Who is inside of an instance\<close>

definition excl :: "(nat \<Rightarrow> activation option) \<Rightarrow> (nat \<Rightarrow> bool) \<Rightarrow> bool" where
  "excl a c \<longleftrightarrow> (\<forall>i. if c i then \<exists>k. inside a i = {k} else inside a i = {})"

lemma inside_upd:
  "inside (a(k \<mapsto> act)) i = (if act_instance act = Some i then insert k (inside (a(k := None)) i) else inside (a(k := None)) i)"
  by (auto simp: inside_def)

lemma excl_leave:
  assumes "excl (a(k \<mapsto> act)) c"
  shows "excl (a(k := None)) (marked act False c)"
  unfolding excl_def
proof
  fix i
  have k: "k \<notin> inside (a(k := None)) i" by (simp add: inside_def)
  from assms have e: "if c i then \<exists>j. inside (a(k \<mapsto> act)) i = {j} else inside (a(k \<mapsto> act)) i = {}"
    unfolding excl_def by blast
  show "if marked act False c i then \<exists>j. inside (a(k := None)) i = {j} else inside (a(k := None)) i = {}"
    using e k by (auto simp: inside_upd marked_def split: if_splits option.splits)
qed

lemma excl_enter:
  assumes "excl (a(k := None)) c" and "\<And>i. act_instance act = Some i \<Longrightarrow> \<not> c i"
  shows "excl (a(k \<mapsto> act)) (marked act True c)"
  using assms unfolding excl_def by (auto simp: inside_upd marked_def split: if_splits option.splits)

text \<open>Every start that is queued, or in the batch, fits its task.\<close>

definition batch_starts :: "event_loop \<Rightarrow> (nat \<times> start_fn) set" where
  "batch_starts l = {(task, f). start_item task f \<in> set (el_batch l)}"

definition starts_fit :: "event_loop \<Rightarrow> bool" where
  "starts_fit l \<longleftrightarrow> unique_ids (el_state l) \<and>
     (\<forall>(task, f) \<in> queued_starts (el_state l) \<union> batch_starts l. fits (el_state l) task f)"

definition secure :: "event_loop \<Rightarrow> bool" where
  "secure l \<longleftrightarrow> starts_fit l \<and> excl (acting l) (closed_to (el_state l))"

lemma starts_fit_frame:
  assumes "starts_fit l" "faithful (el_state l) (el_state l')"
    and "batch_starts l' \<subseteq> batch_starts l \<union> queued_starts (el_state l)"
  shows "starts_fit l'"
  unfolding starts_fit_def
proof (intro conjI ballI)
  from assms show "unique_ids (el_state l')" by (simp add: starts_fit_def faithful_def)
  fix p
  assume p: "p \<in> queued_starts (el_state l') \<union> batch_starts l'"
  then show "case p of (task, f) \<Rightarrow> fits (el_state l') task f"
    using assms unfolding starts_fit_def faithful_def by (cases p) blast
qed

lemma secure_frame:
  assumes "secure l" "faithful (el_state l) (el_state l')" "closed_to (el_state l') = closed_to (el_state l)"
    and "acting l' = acting l" "batch_starts l' \<subseteq> batch_starts l \<union> queued_starts (el_state l)"
  shows "secure l'"
  using assms starts_fit_frame [of l l'] by (simp add: secure_def)

text \<open>A step that moves no fiber.\<close>

lemma quiet_ok:
  assumes "loop_ok l" "el_running l' = el_running l" "el_fibers l' = el_fibers l" "el_next_fiber l' = el_next_fiber l"
    and "cs_guest_task (el_state l') = cs_guest_task (el_state l)"
    and "scheduler_view (el_state l') = scheduler_view (el_state l)"
  shows "loop_ok l'" "acting l' = acting l"
  using assms
  by (auto simp: loop_ok_def fibers_ok_def in_flight_def scheduler_view_def acting_def suspended_acts_def fun_eq_iff
      split: option.splits)



section \<open>Steps of guest code\<close>

lemma running_ok:
  assumes "loop_ok l" "el_running l = Some (fiber, old, act)"
  shows "in_flight fiber l" "old = None" "act_old act = None" "cs_suspend_reason (el_state l) = None"
    "cs_guest_task (el_state l) = Some (act_task act)" "acting l = (suspended_acts l)(fiber \<mapsto> act)"
    "(suspended_acts l)(fiber := None) = suspended_acts l"
  using assms by (auto simp: loop_ok_def acting_def in_flight_def suspended_acts_def fun_eq_iff)

lemma scheduler_same:
  assumes "scheduler_view s' = scheduler_view s"
  shows "cs_suspend_reason s' = cs_suspend_reason s" "cs_worker s' = cs_worker s" "cs_worker_item s' = cs_worker_item s"
  using assms by (simp_all add: scheduler_view_def)

lemma batch_same: "el_batch l' = el_batch l \<Longrightarrow> batch_starts l' \<subseteq> batch_starts l \<union> q"
  by (auto simp: batch_starts_def)

lemma guest_calls_ok:
  assumes l: "loop_ok l" "el_running l = Some (fiber, old, act)"
    and s: "and_then (on_vm (run_intrinsic hk i) l) (\<lambda>p l. guest_continues fiber old act p l) = (Ok (), l')"
  shows "loop_ok l'" "secure l \<Longrightarrow> secure l'"
proof -
  note r = running_ok [OF l]
  from s obtain p vs where i: "run_intrinsic hk i (el_store l) = (Ok p, vs)"
    and c: "guest_continues fiber None act p (l\<lparr>el_store := vs\<rparr>) = (Ok (), l')"
    by (auto simp: on_vm_Ok r(2) elim!: and_then_OkE)
  have v: "scheduler_view (vs_state vs) = scheduler_view (el_state l)"
    using scheduler.intrinsics [of "el_store l" "el_state l" hk i] i by simp
  have g: "good_progress (act_task act) p (vs_state vs)"
    using well_intrinsics [of "act_task act" "el_store l" hk i] i r(5) by (simp add: cur_def calls_well_def)
  have f: "in_flight fiber (l\<lparr>el_store := vs\<rparr>)"
    using scheduler_same [OF v] r(1) by (intro in_flight_store) simp_all
  have k: "loop_ok l'" "acting l' = acting l" "el_batch l' = el_batch l"
    using continue_ok [OF f _ r(3) _ c] scheduler_same [OF v] r(4) r(6) g by simp_all
  show "loop_ok l'" by (rule k(1))
  have "closed_to (el_state l') = closed_to (el_state l)"
    using closed.continues [of "l\<lparr>el_store := vs\<rparr>" "el_state l" fiber None act p]
      closed.intrinsics [of "el_store l" "el_state l" hk i] i c by simp
  moreover have "faithful (el_state l) (el_state l')"
    using faithful.continues [of "el_state l" "l\<lparr>el_store := vs\<rparr>" fiber None act p]
      faithful.intrinsics [of "el_state l" "el_store l" hk i] i c by simp
  ultimately show "secure l \<Longrightarrow> secure l'" using secure_frame [of l l'] batch_same [OF k(3)] k(2) by simp
qed

lemma guest_returns_ok:
  assumes l: "loop_ok l" "el_running l = Some (fiber, old, act)"
    and s: "and_then (on_vm (activation_end hk act v) l) (\<lambda>_ l. finish_item fiber old l) = (Ok (), l')"
  shows "loop_ok l'" "secure l \<Longrightarrow> secure l'"
proof -
  note r = running_ok [OF l]
  from s obtain vs where i: "activation_end hk act v (el_store l) = (Ok (), vs)"
    and c: "finish_item fiber None (l\<lparr>el_store := vs\<rparr>) = (Ok (), l')"
    by (auto simp: on_vm_Ok r(2) elim!: and_then_OkE)
  have w: "scheduler_view (vs_state vs) = scheduler_view (el_state l)"
    using scheduler.act_ends [of "el_store l" "el_state l" hk act v] i by simp
  have f: "in_flight fiber (l\<lparr>el_store := vs\<rparr>)"
    using scheduler_same [OF w] r(1) by (intro in_flight_store) simp_all
  have k: "loop_ok l'" "acting l' = (suspended_acts l)(fiber := None)" "el_batch l' = el_batch l"
    using finish_ok [OF f c] by simp_all
  show "loop_ok l'" by (rule k(1))
  have "closed_to (el_state l') = marked act False (closed_to (el_state l))"
    using closed.finishes_item [of "l\<lparr>el_store := vs\<rparr>" "vs_state vs" fiber None] closed_act_end [OF i] c by simp
  then have "excl (acting l) (closed_to (el_state l)) \<Longrightarrow> excl (acting l') (closed_to (el_state l'))"
    using excl_leave [of "suspended_acts l" fiber act] by (simp add: k(2) r(6))
  moreover have "faithful (el_state l) (el_state l')"
    using faithful.finishes_item [of "el_state l" "l\<lparr>el_store := vs\<rparr>" fiber None]
      faithful.act_ends [of "el_state l" "el_store l" hk act v] i c by simp
  ultimately show "secure l \<Longrightarrow> secure l'"
    using starts_fit_frame [of l l'] batch_same [OF k(3)] by (simp add: secure_def)
qed



section \<open>Steps of the loop\<close>

lemma resume_suspended_ok:
  assumes l: "loop_ok l" "el_running l = None" and k: "el_fibers l fiber = Some (Suspended r old pt act)"
    and s: "resume_fiber hk fiber l = (Ok (), l')"
  shows "loop_ok l'" "secure l \<Longrightarrow> secure l'"
proof -
  let ?l = "l\<lparr>el_fibers := (el_fibers l)(fiber := None)\<rparr>"
  have g: "cs_guest_task (el_state l) = None" "cs_suspend_reason (el_state l) = None" using l by (simp_all add: loop_ok_def)
  have o: "fiber_ok (Suspended r old pt act)" using l(1) k unfolding loop_ok_def fibers_ok_def by blast
  have n: "in_flight fiber ?l" using l(1) k by (auto simp: loop_ok_def fibers_ok_def in_flight_def)
  from s k g(1) obtain vs us p where e: "suspend_end r old (el_store l) = (Ok (), vs)"
    and p: "go_on hk pt vs = (Ok p, us)"
    and c: "guest_continues fiber None act p (?l\<lparr>el_store := us\<rparr>) = (Ok (), l')"
    by (auto simp: resume_fiber_def Let_def on_vm_Ok elim!: and_then_OkE)
  have d: "cs_guest_task (vs_state vs) = old"
    using e o frame_Ok(2) [OF _ current.scopes(1) [OF refl]] by (auto simp: suspend_end_def set_guest_task_def)
  have v: "scheduler_view (vs_state us) = scheduler_view (el_state l)"
    using scheduler.suspend_ends [of "el_store l" "el_state l" r old] scheduler.goes_on [of vs "el_state l" hk pt] e p by simp
  have w: "good_progress (act_task act) p (vs_state us)"
    using well_goes_on [of "act_task act" pt vs hk] o d p by (auto simp: cur_def calls_well_def)
  have f: "in_flight fiber (?l\<lparr>el_store := us\<rparr>)"
    using scheduler_same [OF v] n by (intro in_flight_store) simp_all
  have a: "(suspended_acts ?l)(fiber \<mapsto> act) = acting l"
    using k l(2) by (auto simp: suspended_acts_def acting_def fun_eq_iff)
  have q: "loop_ok l'" "acting l' = acting l" "el_batch l' = el_batch l"
    using continue_ok [OF f _ _ _ c] scheduler_same [OF v] g(2) o a w by simp_all
  show "loop_ok l'" by (rule q(1))
  have "closed_to (el_state l') = closed_to (el_state l)"
    using closed.continues [of "?l\<lparr>el_store := us\<rparr>" "el_state l" fiber None act p] c p e
      closed.suspend_ends [of "el_store l" "el_state l" r old] closed.goes_on [of vs "el_state l" hk pt] by simp
  moreover have "faithful (el_state l) (el_state l')"
    using faithful.continues [of "el_state l" "?l\<lparr>el_store := us\<rparr>" fiber None act p] c p e
      faithful.suspend_ends [of "el_state l" "el_store l" r old] faithful.goes_on [of "el_state l" vs hk pt] by simp
  ultimately show "secure l \<Longrightarrow> secure l'" using secure_frame [of l l'] batch_same [OF q(3)] q(2) by simp
qed

lemma resume_ok:
  assumes l: "loop_ok l" "el_running l = None" and s: "resume_fiber hk fiber l = (Ok (), l')"
  shows "loop_ok l'" "secure l \<Longrightarrow> secure l'"
proof -
  have i: "cs_worker_item (el_state l) = None" using l by (simp add: loop_ok_def fibers_ok_def)
  from s i obtain r old pt act where "el_fibers l fiber = Some (Suspended r old pt act)"
    by (auto simp: resume_fiber_def run_item_def Let_def split: option.splits fiber.splits)
  from resume_suspended_ok [OF l this s] show "loop_ok l'" "secure l \<Longrightarrow> secure l'" .
qed

text \<open>A worker takes an item; \<open>run_taken\<close> is what it does with it.\<close>

definition run_taken :: "hooks \<Rightarrow> nat \<Rightarrow> worker_item \<Rightarrow> event_loop \<Rightarrow> unit loop_op" where
  "run_taken hk fiber item l = (case item of
      WorkerGuestCall call \<Rightarrow>
        and_then (on_vm (handle_guest_call hk call) l) (\<lambda>act l. (Ok (), l\<lparr>el_running := Some (fiber, None, act)\<rparr>))
    | WorkerItemFunction f \<Rightarrow>
        and_then (on_vm (run_function hk f) l) (\<lambda>_ l. finish_item fiber None l))"

lemma run_on_worker_taken:
  assumes l: "loop_ok l" "el_running l = None"
  obtains fiber u where "run_on_worker hk item l = run_taken hk fiber item u" "in_flight fiber u"
    "el_state u = (el_state l)\<lparr>cs_worker := None, cs_worker_item := None\<rparr>" "suspended_acts u = acting l"
    "(acting l)(fiber := None) = acting l" "el_batch u = el_batch l"
proof -
  define fiber where "fiber = fst (take_worker l)"
  define u where "u = upd_conc (\<lambda>s. s\<lparr>cs_worker_item := None\<rparr>) ((upd_conc (\<lambda>s. s\<lparr>cs_worker_item := Some item\<rparr>)
     (snd (take_worker l)))\<lparr>el_fibers := (el_fibers (snd (take_worker l)))(fiber := None)\<rparr>)"
  have g: "cs_guest_task (el_state l) = None" "cs_worker_item (el_state l) = None"
    using l by (simp_all add: loop_ok_def fibers_ok_def)
  have w: "el_fibers (snd (take_worker l)) fiber = Some IdleWorker"
    using l(1) by (auto simp: fiber_def take_worker_def loop_ok_def fibers_ok_def split: option.splits)
  have n: "el_fibers l (el_next_fiber l) = None"
    using l(1) by (cases "el_fibers l (el_next_fiber l)") (auto simp: loop_ok_def fibers_ok_def)
  have s: "el_state (snd (take_worker l)) = (el_state l)\<lparr>cs_worker := None\<rparr>"
    by (simp add: take_worker_def split: option.splits)
  show ?thesis
  proof (rule that [of fiber u])
    show "run_on_worker hk item l = run_taken hk fiber item u"
      using w s g
      by (auto simp: run_on_worker_def resume_fiber_def run_item_def run_taken_def u_def fiber_def Let_def case_prod_beta
          upd_conc_def upd_vm_def split: worker_item.splits)
  qed (use l n s in \<open>auto simp: u_def fiber_def take_worker_def in_flight_def loop_ok_def fibers_ok_def acting_def
      suspended_acts_def fun_eq_iff less_Suc_eq split: option.splits if_splits\<close>)
qed

lemma handle_guest_call_Ok:
  assumes "handle_guest_call hk call vs = (Ok act, vs')"
  shows "act_old act = cs_guest_task (vs_state vs)" "cs_guest_task (vs_state vs') = Some (act_task act)"
    "closed_to (vs_state vs') = marked act True (closed_to (vs_state vs))"
  using assms
  by (auto simp: handle_guest_call_def marked_def elim!: and_then_OkE
      dest: start_begin_Ok(1,2) deliver_begin_Ok(1,2) start_begin_Ok(3) [unfolded marked_def] deliver_begin_Ok(3)
      split: guest_call_kind.splits)

lemma ready_instance:
  assumes "is_ready call s = Ok True"
  obtains t where "obj_at s (gc_task call) = Some (ObjGuestTask t)" "\<not> closed_to s (gt_instance t)"
  using assms
  by (cases "gc_kind call") (auto simp: is_ready_def and_then_pure_Ok_iff cs_get_Ok closed_to_def Let_def)

lemma handle_guest_call_free:
  assumes h: "handle_guest_call hk call vs = (Ok act, vs')" and r: "is_ready call (vs_state vs) = Ok True"
    and u: "unique_ids (vs_state vs)" and f: "\<And>f. gc_kind call = StartCall f \<Longrightarrow> fits (vs_state vs) (gc_task call) f"
    and i: "act_instance act = Some i"
  shows "\<not> closed_to (vs_state vs) i"
proof -
  obtain t where t: "obj_at (vs_state vs) (gc_task call) = Some (ObjGuestTask t)" "\<not> closed_to (vs_state vs) (gt_instance t)"
    by (rule ready_instance [OF r])
  show ?thesis
  proof (cases "gc_kind call")
    case (StartCall f)
    with h obtain old after where "act = StartAct (gc_task call) f old after"
      by (auto simp: handle_guest_call_def elim!: and_then_OkE)
    with i f [OF StartCall] t show ?thesis by (auto simp: fits_def split: if_splits)
  next
    case (DeliverEvent j k)
    with h obtain old cb ps where a: "act = DeliverAct (gc_task call) old i cb"
      and d: "deliver_begin (gc_task call) j k vs = (Ok (old, i, cb, ps), vs')"
      using i by (auto simp: handle_guest_call_def elim!: and_then_OkE)
    from deliver_begin_Ok(4) [OF d] obtain s t' where s: "faithful (vs_state vs) s"
      "obj_at s (gc_task call) = Some (ObjGuestTask t')" "i = gt_instance t'" by blast
    have "gc_task call < length (tb_entries (cs_table (vs_state vs)))"
      using obj_at_Some_occ [OF t(1)] table_occ_bound by blast
    then have "fits (vs_state vs) (gc_task call) (example_start\<lparr>sf_instance := gt_instance t\<rparr>)"
      using t(1) by (simp add: fits_def)
    then have "fits s (gc_task call) (example_start\<lparr>sf_instance := gt_instance t\<rparr>)"
      using s(1) u unfolding faithful_def by blast
    with s(2,3) t(2) show ?thesis by (simp add: fits_def)
  qed
qed

lemma run_call_ok:
  assumes l: "loop_ok l" "el_running l = None" and r: "is_ready call (el_state l) = Ok True"
    and s: "run_on_worker hk (WorkerGuestCall call) l = (Ok (), l')"
  shows "loop_ok l'"
    "secure l \<Longrightarrow> (\<And>f. gc_kind call = StartCall f \<Longrightarrow> fits (el_state l) (gc_task call) f) \<Longrightarrow> secure l'"
proof -
  obtain fiber u where t: "run_on_worker hk (WorkerGuestCall call) l = run_taken hk fiber (WorkerGuestCall call) u"
    and u: "in_flight fiber u" "el_state u = (el_state l)\<lparr>cs_worker := None, cs_worker_item := None\<rparr>"
      "suspended_acts u = acting l" "(acting l)(fiber := None) = acting l" "el_batch u = el_batch l"
    by (rule run_on_worker_taken [OF l, of hk "WorkerGuestCall call"])
  from s t obtain act vs where h: "handle_guest_call hk call (el_store u) = (Ok act, vs)"
    and l': "l' = u\<lparr>el_store := vs, el_running := Some (fiber, None, act)\<rparr>"
    by (auto simp: run_taken_def on_vm_Ok elim!: and_then_OkE)
  note k = handle_guest_call_Ok [OF h]
  have g: "cs_guest_task (el_state l) = None" "cs_suspend_reason (el_state l) = None" using l by (simp_all add: loop_ok_def)
  have v: "scheduler_view (vs_state vs) = scheduler_view (el_state u)"
    using scheduler.handles_call [of "el_store u" "el_state u" hk call] h by simp
  have "in_flight fiber (u\<lparr>el_store := vs\<rparr>)" using scheduler_same [OF v] u(1) by (intro in_flight_store) simp_all
  then show "loop_ok l'"
    using k g u(2) scheduler_same [OF v] by (auto simp: l' loop_ok_def in_flight_def fibers_ok_def)
  have a: "acting l' = (acting l)(fiber \<mapsto> act)"
    using u(3) by (simp add: l' acting_def suspended_acts_def [abs_def] fun_eq_iff)
  have c: "closed_to (el_state u) = closed_to (el_state l)" by (simp add: u(2) closed_to_def fun_eq_iff)
  have fu: "faithful (el_state l) (el_state u)" unfolding u(2)
    by (rule faithful_trans [OF faithful.worker_set faithful.item_set, of _ None None, simplified])
  then have fl: "faithful (el_state l) (el_state l')"
    using faithful.handles_call [of "el_state l" "el_store u" hk call] h by (simp add: l')
  show "secure l'" if c': "secure l" and f: "\<And>f. gc_kind call = StartCall f \<Longrightarrow> fits (el_state l) (gc_task call) f"
  proof -
    have q: "unique_ids (el_state l)" "excl ((acting l)(fiber := None)) (closed_to (el_state l))"
      using c' u(4) by (simp_all add: secure_def starts_fit_def)
    have "unique_ids (el_state u)" "\<And>task f. fits (el_state l) task f \<Longrightarrow> fits (el_state u) task f"
      using fu q(1) by (simp_all add: faithful_def)
    moreover have "is_ready call (el_state u) = Ok True" using r by (simp add: u(2) is_ready_def Let_def cs_get_def)
    ultimately have n: "act_instance act = Some i \<Longrightarrow> \<not> closed_to (el_state l) i" for i
      using handle_guest_call_free [OF h _ _ _, of i] f c by simp
    have "closed_to (el_state l') = marked act True (closed_to (el_state l))" using k(3) c by (simp add: l')
    with excl_enter [OF q(2), of act, OF n] have "excl (acting l') (closed_to (el_state l'))" by (simp add: a)
    moreover have "batch_starts l' \<subseteq> batch_starts l \<union> queued_starts (el_state l)"
      by (rule batch_same) (simp add: l' u(5))
    ultimately show ?thesis using starts_fit_frame [OF _ fl] c' by (simp add: secure_def)
  qed
qed

lemma run_function_ok:
  assumes c: "canon_frame (hk_canon hk)" and l: "loop_ok l" "el_running l = None"
    and s: "run_on_worker hk (WorkerItemFunction f) l = (Ok (), l')"
  shows "loop_ok l'" "secure l \<Longrightarrow> secure l'"
proof -
  obtain fiber u where t: "run_on_worker hk (WorkerItemFunction f) l = run_taken hk fiber (WorkerItemFunction f) u"
    and u: "in_flight fiber u" "el_state u = (el_state l)\<lparr>cs_worker := None, cs_worker_item := None\<rparr>"
      "suspended_acts u = acting l" "(acting l)(fiber := None) = acting l" "el_batch u = el_batch l"
    by (rule run_on_worker_taken [OF l, of hk "WorkerItemFunction f"])
  from s t obtain vs where h: "run_function hk f (el_store u) = (Ok (), vs)"
    and k: "finish_item fiber None (u\<lparr>el_store := vs\<rparr>) = (Ok (), l')"
    by (auto simp: run_taken_def on_vm_Ok elim!: and_then_OkE)
  have v: "scheduler_view (vs_state vs) = scheduler_view (el_state u)"
    using scheduler.runs_function [OF c, of "el_store u" "el_state u" f] h by simp
  have i: "in_flight fiber (u\<lparr>el_store := vs\<rparr>)" using scheduler_same [OF v] u(1) by (intro in_flight_store) simp_all
  have q: "loop_ok l'" "acting l' = acting l" "el_batch l' = el_batch l" using finish_ok [OF i k] u(3,4,5) by simp_all
  show "loop_ok l'" by (rule q(1))
  have "closed_to (el_state u) = closed_to (el_state l)" by (simp add: u(2) closed_to_def fun_eq_iff)
  then have "closed_to (el_state l') = closed_to (el_state l)"
    using closed.finishes_item [of "u\<lparr>el_store := vs\<rparr>" "el_state l" fiber None] k
      closed.runs_function [OF c, of "el_store u" "el_state l" f] h by simp
  moreover have "faithful (el_state l) (el_state u)" unfolding u(2)
    by (rule faithful_trans [OF faithful.worker_set faithful.item_set, of _ None None, simplified])
  then have "faithful (el_state l) (el_state l')"
    using faithful.finishes_item [of "el_state l" "u\<lparr>el_store := vs\<rparr>" fiber None] k
      faithful.runs_function [OF c, of "el_state l" "el_store u" f] h by simp
  ultimately show "secure l \<Longrightarrow> secure l'" using secure_frame [of l l'] batch_same [OF q(3)] q(2) by simp
qed

lemma pending_frame:
  "cs_guest_task (mut_instance_state i (\<lambda>st. st\<lparr>is_pending := g st\<rparr>) s) = cs_guest_task s"
  "scheduler_view (mut_instance_state i (\<lambda>st. st\<lparr>is_pending := g st\<rparr>) s) = scheduler_view s"
  "closed_to (mut_instance_state i (\<lambda>st. st\<lparr>is_pending := g st\<rparr>) s) = closed_to s"
  by (simp_all add: mut_instance_state_def scheduler_view_def closed_to_def fun_eq_iff)

lemma faithful_defer:
  assumes "\<And>f. kind = StartCall f \<Longrightarrow> fits s task f"
  shows "faithful s (mut_instance_state i (\<lambda>st. st\<lparr>is_pending := bt_insert task kind (is_pending st)\<rparr>) s)"
proof (rule faithful_queues)
  fix k f
  have "set (bt_insert task kind (is_pending (cs_instance_states s i))) \<subseteq>
      set (is_pending (cs_instance_states s i)) \<union> {(task, kind)}" by (auto dest: set_bt_insertD)
  with queued_pending [of "\<lambda>st. st\<lparr>is_pending := bt_insert task kind (is_pending st)\<rparr>" s i "{(task, kind)}"]
  show "(k, f) \<in> queued_starts (mut_instance_state i (\<lambda>st. st\<lparr>is_pending := bt_insert task kind (is_pending st)\<rparr>) s) \<Longrightarrow>
      (k, f) \<in> queued_starts s \<or> fits s k f"
    using assms by auto
qed (simp add: mut_instance_state_def)

lemma defer_call_Ok:
  assumes d: "defer_call call s = (Ok (), s')"
  shows "cs_guest_task s' = cs_guest_task s" "scheduler_view s' = scheduler_view s" "closed_to s' = closed_to s"
    "unique_ids s \<Longrightarrow> (\<And>f. gc_kind call = StartCall f \<Longrightarrow> fits s (gc_task call) f) \<Longrightarrow> faithful s s'"
proof -
  let ?g = "\<lambda>t. t\<lparr>gt_starting_sent := True\<rparr>"
  from d obtain t u i v where u: "mut_guest_task (gc_task call) ?g s = (Ok t, u)"
    and v: "(case gc_kind call of
         StartCall f \<Rightarrow>
           if gt_starting_sent t then (Ok (), u)
           else set_event (WGuest (gc_task call)) (Some (EvSubtask Starting)) u
       | DeliverEvent i set_id \<Rightarrow> (Ok (), u)) = (Ok (), v)"
    and s': "s' = mut_instance_state i
        (\<lambda>st. st\<lparr>is_pending := bt_insert (gc_task call) (gc_kind call) (is_pending st)\<rparr>) v"
    unfolding defer_call_def by (elim and_then_OkE) (auto simp: and_then_Ok_iff)
  have c: "cs_guest_task v = cs_guest_task s" "scheduler_view v = scheduler_view s" "closed_to v = closed_to s" "faithful s v"
  proof -
    have q: "cs_guest_task u = cs_guest_task s" "scheduler_view u = scheduler_view s" "closed_to u = closed_to s" "faithful s u"
      using arg_cong [OF u, of snd] current.mut_rules(2) [where t = s and s = s and k = "gc_task call" and g = ?g]
        scheduler.mut_rules(2) [where t = s and s = s and k = "gc_task call" and g = ?g]
        closed.mut_rules(2) [where t = s and s = s and k = "gc_task call" and g = ?g]
        faithful.mut_rules(2) [where t = s and s = s and k = "gc_task call" and g = ?g] by simp_all
    show "cs_guest_task v = cs_guest_task s" "scheduler_view v = scheduler_view s" "closed_to v = closed_to s" "faithful s v"
      using arg_cong [OF v, of snd] q current.posts [of u s "WGuest (gc_task call)"]
        scheduler.posts [of u s "WGuest (gc_task call)"] closed.posts [of u s "WGuest (gc_task call)"]
        faithful.posts [of s u "WGuest (gc_task call)"]
      by (auto split: guest_call_kind.splits if_splits)
  qed
  show "cs_guest_task s' = cs_guest_task s" "scheduler_view s' = scheduler_view s" "closed_to s' = closed_to s"
    using c by (simp_all add: s' pending_frame)
  show "faithful s s'" if "unique_ids s" "\<And>f. gc_kind call = StartCall f \<Longrightarrow> fits s (gc_task call) f"
    unfolding s' by (rule faithful_trans [OF c(4) faithful_defer]) (use that c(4) in \<open>auto simp: faithful_def\<close>)
qed

lemma quiet_secure:
  assumes "loop_ok l" and "secure l" and "el_running l' = el_running l" "el_fibers l' = el_fibers l"
    and "faithful (el_state l) (el_state l')" "closed_to (el_state l') = closed_to (el_state l)"
    and "batch_starts l' \<subseteq> batch_starts l \<union> queued_starts (el_state l)"
  shows "secure l'"
proof -
  have "suspended_acts l' = suspended_acts l" by (rule ext) (simp add: suspended_acts_def assms(4))
  then have "acting l' = acting l" using assms(3) by (simp add: acting_def split: option.splits)
  with assms show ?thesis using secure_frame [of l l'] by blast
qed

text \<open>An operation on the state that fits all four frames.\<close>

lemma conc_step:
  assumes l: "loop_ok l" and s: "on_conc f l = (Ok x, l')"
    and f: "\<And>s'. f (el_state l) = (Ok x, s') \<Longrightarrow> cs_guest_task s' = cs_guest_task (el_state l) \<and>
      scheduler_view s' = scheduler_view (el_state l) \<and> closed_to s' = closed_to (el_state l) \<and>
      (secure l \<longrightarrow> faithful (el_state l) s')"
  shows "loop_ok l'" "secure l \<Longrightarrow> secure l'"
proof -
  from s obtain s' where k: "f (el_state l) = (Ok x, s')" and l': "l' = l\<lparr>el_store := upd_state (\<lambda>_. s') (el_store l)\<rparr>"
    by (auto simp: on_conc_def on_vm_Ok in_state_Ok)
  note c = f [OF k]
  show "loop_ok l'" using c by (intro quiet_ok(1) [OF l]) (simp_all add: l')
  show "secure l'" if "secure l"
    using c that by (intro quiet_secure [OF l that]) (simp_all add: l' batch_starts_def)
qed

lemma item_taken:
  assumes "loop_ok l" "el_batch l = item # items"
  shows "loop_ok (l\<lparr>el_batch := items\<rparr>)" "secure l \<Longrightarrow> secure (l\<lparr>el_batch := items\<rparr>)"
    "secure l \<Longrightarrow> item = start_item task f \<Longrightarrow> fits (el_state l) task f"
proof -
  show "loop_ok (l\<lparr>el_batch := items\<rparr>)" by (rule quiet_ok [OF assms(1)]) simp_all
  show "secure (l\<lparr>el_batch := items\<rparr>)" if "secure l"
    by (rule quiet_secure [OF assms(1) that]) (use assms(2) in \<open>auto simp: batch_starts_def\<close>)
  show "secure l \<Longrightarrow> item = start_item task f \<Longrightarrow> fits (el_state l) task f"
    using assms(2) by (auto simp: secure_def starts_fit_def batch_starts_def)
qed

lemma call_item_ok:
  assumes l: "loop_ok l" "el_running l = None"
    and s: "handle_work_item hk (GuestCallItem call) l = (Ok (), l')"
  shows "loop_ok l'"
    "secure l \<Longrightarrow> (\<And>f. gc_kind call = StartCall f \<Longrightarrow> fits (el_state l) (gc_task call) f) \<Longrightarrow> secure l'"
proof -
  from s obtain ready where r: "is_ready call (el_state l) = Ok ready"
    and k: "(if ready then run_on_worker hk (WorkerGuestCall call) l else on_conc (defer_call call) l) = (Ok (), l')"
    by (auto simp: on_vm_def peek_def elim!: and_then_OkE split: if_splits)
  have d: "loop_ok l'" if "on_conc (defer_call call) l = (Ok (), l')"
    using that defer_call_Ok(1-3) [of call "el_state l"] by (auto simp: on_conc_def on_vm_Ok in_state_Ok intro!: quiet_ok(1) [OF l(1)])
  show "loop_ok l'"
    using k r run_call_ok(1) [OF l, of call hk l'] d by (auto split: if_splits)
  show "secure l'" if c: "secure l" and f: "\<And>f. gc_kind call = StartCall f \<Longrightarrow> fits (el_state l) (gc_task call) f"
  proof (cases ready)
    case True
    with k have "run_on_worker hk (WorkerGuestCall call) l = (Ok (), l')" by simp
    from run_call_ok(2) [OF l _ this c f] r True show ?thesis by simp
  next
    case False
    with k have "on_conc (defer_call call) l = (Ok (), l')" by simp
    moreover have "unique_ids (el_state l)" using c by (simp add: secure_def starts_fit_def)
    ultimately show ?thesis using defer_call_Ok [of call "el_state l"] f by (intro conc_step(2) [OF l(1) _ _ c]) blast+
  qed
qed

lemma add_future_Ok:
  assumes "add_future fut s = (Ok (), s')"
  shows "cs_guest_task s' = cs_guest_task s" "scheduler_view s' = scheduler_view s" "closed_to s' = closed_to s" "faithful s s'"
proof -
  from assms obtain fs where s': "s' = s\<lparr>cs_futures := fs\<rparr>" by (auto simp: add_future_def split: option.splits)
  show "cs_guest_task s' = cs_guest_task s" "scheduler_view s' = scheduler_view s" "closed_to s' = closed_to s"
    by (simp_all add: s' scheduler_view_def closed_to_def fun_eq_iff)
  show "faithful s s'" by (rule faithful_subset) (simp_all add: s' queued_starts_def)
qed

lemma poll_item_Ok:
  assumes "poll_item p s = (Ok (), s')"
  shows "cs_guest_task s' = cs_guest_task s" "scheduler_view s' = scheduler_view s" "closed_to s' = closed_to s" "faithful s s'"
  using arg_cong [OF assms, of snd] current.polls_item [of s s p] scheduler.polls_item [of s s p]
    closed.polls_item [of s s p] faithful.polls_item [of s s p] by simp_all

lemma work_item_ok:
  assumes c: "canon_frame (hk_canon hk)" and l: "loop_ok l" "el_running l = None"
    and s: "handle_work_item hk item l = (Ok (), l')"
  shows "loop_ok l'" "secure l \<Longrightarrow> (\<And>task f. item = start_item task f \<Longrightarrow> fits (el_state l) task f) \<Longrightarrow> secure l'"
proof -
  have "loop_ok l' \<and> (secure l \<longrightarrow> (\<forall>task f. item = start_item task f \<longrightarrow> fits (el_state l) task f) \<longrightarrow> secure l')"
  proof (cases item)
    case (PushFuture fut)
    with s have "on_conc (add_future fut) l = (Ok (), l')" by simp
    from conc_step [OF l(1) this] add_future_Ok show ?thesis by blast
  next
    case (PollItem p)
    with s have "on_conc (poll_item p) l = (Ok (), l')" by simp
    from conc_step [OF l(1) this] poll_item_Ok show ?thesis by blast
  next
    case (ResumeFiber fiber)
    with s have "resume_fiber hk fiber l = (Ok (), l')" by simp
    from resume_ok [OF l this] show ?thesis by blast
  next
    case (WorkerFunction f)
    with s have "run_on_worker hk (WorkerItemFunction f) l = (Ok (), l')" by simp
    from run_function_ok [OF c l this] show ?thesis by blast
  next
    case (GuestCallItem call)
    have "item = start_item (gc_task call) f" if "gc_kind call = StartCall f" for f
      using that by (cases call) (simp add: GuestCallItem start_item_def)
    then show ?thesis using call_item_ok [OF l s [unfolded GuestCallItem]] by blast
  qed
  then show "loop_ok l'" "secure l \<Longrightarrow> (\<And>task f. item = start_item task f \<Longrightarrow> fits (el_state l) task f) \<Longrightarrow> secure l'" by blast+
qed

text \<open>A round of polling only moves work from the queues into the batch.\<close>

definition polled :: "concurrent_state \<Rightarrow> work_item list \<Rightarrow> concurrent_state \<Rightarrow> bool" where
  "polled s items s' \<longleftrightarrow> (\<exists>h lo fs. s' = s\<lparr>cs_high_priority := h, cs_low_priority := lo, cs_futures := fs\<rparr> \<and>
     set items \<union> set h \<union> set lo \<subseteq> set (cs_high_priority s) \<union> set (cs_low_priority s) \<union> range WorkerFunction)"

lemma polled_view:
  assumes "polled s items s'"
  shows "cs_guest_task s' = cs_guest_task s" "scheduler_view s' = scheduler_view s" "closed_to s' = closed_to s" "faithful s s'"
    "start_item task f \<in> set items \<Longrightarrow> (task, f) \<in> queued_starts s"
proof -
  from assms obtain h lo fs where s': "s' = s\<lparr>cs_high_priority := h, cs_low_priority := lo, cs_futures := fs\<rparr>"
    and i: "set items \<union> set h \<union> set lo \<subseteq> set (cs_high_priority s) \<union> set (cs_low_priority s) \<union> range WorkerFunction"
    unfolding polled_def by blast
  show "cs_guest_task s' = cs_guest_task s" "scheduler_view s' = scheduler_view s" "closed_to s' = closed_to s"
    by (simp_all add: s' scheduler_view_def closed_to_def fun_eq_iff)
  have n: "start_item task f \<noteq> WorkerFunction g" for task f g by (simp add: start_item_def)
  show "faithful s s'"
    by (rule faithful_subset) (use i n in \<open>auto simp: s' queued_starts_def\<close>)
  show "start_item task f \<in> set items \<Longrightarrow> (task, f) \<in> queued_starts s"
    using i n by (auto simp: queued_starts_def)
qed

lemma complete_future_state:
  assumes "complete_future fut out vs = (Ok (), vs')"
  shows "vs_state vs' = vs_state vs \<or> (\<exists>f. vs_state vs' = push_high_priority (WorkerFunction f) (vs_state vs))"
  using assms
  by (cases "(fut, out, vs)" rule: complete_future.cases)
     (auto simp: queue_function_def split: if_splits host_output.splits option.splits)

definition loop_items :: "loop_next \<Rightarrow> work_item list" where
  "loop_items nxt = (case nxt of LoopWork items \<Rightarrow> items | _ \<Rightarrow> [])"

lemma take_work_state:
  assumes "take_work nx again vs = (Ok nxt, vs')"
  shows "\<exists>h lo. vs_state vs' = (vs_state vs)\<lparr>cs_high_priority := h, cs_low_priority := lo\<rparr> \<and>
    set (loop_items nxt) \<union> set h \<union> set lo \<subseteq> set (cs_high_priority (vs_state vs)) \<union> set (cs_low_priority (vs_state vs))"
proof -
  let ?s = "vs_state vs"
  have "vs_state vs' = ?s\<lparr>cs_high_priority := [], cs_low_priority := cs_low_priority ?s\<rparr> \<and> loop_items nxt = cs_high_priority ?s \<or>
    vs_state vs' = ?s\<lparr>cs_high_priority := [], cs_low_priority := []\<rparr> \<and> set (loop_items nxt) \<subseteq> set (cs_low_priority ?s)"
    using assms by (auto simp: take_work_def Let_def loop_items_def split: if_splits option.splits bool.splits)
  then show ?thesis
  proof
    assume "vs_state vs' = ?s\<lparr>cs_high_priority := [], cs_low_priority := cs_low_priority ?s\<rparr> \<and> loop_items nxt = cs_high_priority ?s"
    then show ?thesis by (intro exI [of _ "[]"] exI [of _ "cs_low_priority ?s"]) simp
  next
    assume "vs_state vs' = ?s\<lparr>cs_high_priority := [], cs_low_priority := []\<rparr> \<and> set (loop_items nxt) \<subseteq> set (cs_low_priority ?s)"
    then show ?thesis by (intro exI [of _ "[]"]) auto
  qed
qed

lemma poll_round_Ok:
  assumes p: "poll_round main nx again vs = (Ok nxt, vs')"
  shows "polled (vs_state vs) (loop_items nxt) (vs_state vs')"
proof (cases "main = None")
  case False
  then have "vs' = vs" "loop_items nxt = []" using p by (auto simp: poll_round_def loop_items_def split: option.splits)
  then show ?thesis unfolding polled_def
    by (intro exI [of _ "cs_high_priority (vs_state vs)"] exI [of _ "cs_low_priority (vs_state vs)"]
        exI [of _ "cs_futures (vs_state vs)"]) auto
next
  case True
  with p obtain fs q u where f: "poll_futures nx fs (upd_state (\<lambda>s. s\<lparr>cs_futures := None\<rparr>) vs) = (Ok q, u)"
    and t: "\<exists>v. take_work q again u = (Ok nxt, v) \<and> vs_state vs' = (vs_state v)\<lparr>cs_futures := Some (remaining nx fs)\<rparr>"
    by (auto simp: poll_round_def and_then_Ok_iff split: option.splits prod.splits)
  let ?s = "(vs_state vs)\<lparr>cs_futures := None\<rparr>"
  have u: "vs_state u = ?s \<or> (\<exists>f. vs_state u = push_high_priority (WorkerFunction f) ?s)"
    using f complete_future_state by (fastforce simp: poll_futures_def and_then_Ok_iff split: next_poll.splits if_splits)
  from t obtain v where v: "take_work q again u = (Ok nxt, v)" "vs_state vs' = (vs_state v)\<lparr>cs_futures := Some (remaining nx fs)\<rparr>"
    by blast
  from take_work_state [OF v(1)] obtain h lo where w: "vs_state v = (vs_state u)\<lparr>cs_high_priority := h, cs_low_priority := lo\<rparr>"
    "set (loop_items nxt) \<union> set h \<union> set lo \<subseteq> set (cs_high_priority (vs_state u)) \<union> set (cs_low_priority (vs_state u))" by blast
  have a: "vs_state vs' = (vs_state vs)\<lparr>cs_high_priority := h, cs_low_priority := lo, cs_futures := Some (remaining nx fs)\<rparr>"
    using u w(1) v(2) by (auto simp: push_high_priority_def)
  have "set (cs_high_priority (vs_state u)) \<union> set (cs_low_priority (vs_state u)) \<subseteq>
    set (cs_high_priority (vs_state vs)) \<union> set (cs_low_priority (vs_state vs)) \<union> range WorkerFunction"
    using u by (auto simp: push_high_priority_def)
  with w(2) have "set (loop_items nxt) \<union> set h \<union> set lo \<subseteq>
    set (cs_high_priority (vs_state vs)) \<union> set (cs_low_priority (vs_state vs)) \<union> range WorkerFunction" by (rule subset_trans)
  with a show ?thesis unfolding polled_def by blast
qed

lemma vm_step:
  assumes l: "loop_ok l" and l': "el_state l' = s'" "el_running l' = el_running l" "el_fibers l' = el_fibers l"
      "el_next_fiber l' = el_next_fiber l" "batch_starts l' \<subseteq> batch_starts l \<union> queued_starts (el_state l)"
    and s: "cs_guest_task s' = cs_guest_task (el_state l)" "scheduler_view s' = scheduler_view (el_state l)"
      "closed_to s' = closed_to (el_state l)" "faithful (el_state l) s'"
  shows "loop_ok l'" "secure l \<Longrightarrow> secure l'"
  using quiet_ok(1) [OF l, of l'] quiet_secure [OF l, of l'] l' s by simp_all

lemma host_calls_ok:
  assumes l: "loop_ok l" and s: "and_then (on_vm (prepare_host_call c) l) (\<lambda>task l. on_vm (queue_host_call c task) l) = (Ok (), l')"
  shows "loop_ok l'" "secure l \<Longrightarrow> secure l'"
proof -
  from s obtain task u v where u: "prepare_host_call c (el_store l) = (Ok task, u)"
    and v: "queue_host_call c task u = (Ok (), v)" and l': "l' = l\<lparr>el_store := v\<rparr>"
    by (auto simp: on_vm_Ok elim!: and_then_OkE)
  have "cs_guest_task (vs_state v) = cs_guest_task (el_state l)"
    using current.host_calls(1) [of "el_store l" "el_state l" c] current.host_calls(2) [of u "el_state l" c task] u v by simp
  moreover have "scheduler_view (vs_state v) = scheduler_view (el_state l)"
    using scheduler.host_calls(1) [of "el_store l" "el_state l" c] scheduler.host_calls(2) [of u "el_state l" c task] u v by simp
  moreover have "closed_to (vs_state v) = closed_to (el_state l)"
    using closed.host_calls(1) [of "el_store l" "el_state l" c] closed.host_calls(2) [of u "el_state l" c task] u v by simp
  moreover have "faithful (el_state l) (vs_state v)"
    using faithful.host_calls(1) [of "el_state l" "el_store l" c] faithful.host_calls(2) [of "el_state l" u c task] u v by simp
  ultimately show "loop_ok l'" "secure l \<Longrightarrow> secure l'"
    using vm_step [OF l, of l' "vs_state v"] by (simp_all add: l' batch_starts_def)
qed

lemma poll_ok:
  assumes l: "loop_ok l" and s: "and_then (on_vm (poll_round main nx again) l) (\<lambda>nxt l. case nxt of
          LoopWork items \<Rightarrow> (Ok (), l\<lparr>el_batch := items\<rparr>)
        | _ \<Rightarrow> (Ok (), l)) = (Ok (), l')"
  shows "loop_ok l'" "secure l \<Longrightarrow> secure l'"
proof -
  from s obtain nxt v where p: "poll_round main nx again (el_store l) = (Ok nxt, v)"
    and l': "el_state l' = vs_state v" "el_running l' = el_running l" "el_fibers l' = el_fibers l"
      "el_next_fiber l' = el_next_fiber l" "el_batch l' = el_batch l \<or> el_batch l' = loop_items nxt"
    by (auto simp: on_vm_Ok loop_items_def elim!: and_then_OkE split: loop_next.splits)
  note v = polled_view [OF poll_round_Ok [OF p]]
  have "batch_starts l' \<subseteq> batch_starts l \<union> queued_starts (el_state l)"
    using l'(5) v(5) by (auto simp: batch_starts_def)
  then show "loop_ok l'" "secure l \<Longrightarrow> secure l'" using vm_step [OF l l'(1-4)] v by blast+
qed

lemma idle_ok:
  assumes l: "loop_ok l" and s: "step_idle inp l = (Ok (), l')"
  shows "loop_ok l'" "secure l \<Longrightarrow> secure l'"
proof -
  have "loop_ok l' \<and> (secure l \<longrightarrow> secure l')"
  proof (cases inp)
    case (PollRound main nx again)
    with s poll_ok [OF l] show ?thesis by (simp add: step_idle_def)
  next
    case (HostCalls c)
    with s host_calls_ok [OF l] show ?thesis by (simp add: step_idle_def)
  next
    case HostSpawns
    let ?f = "NamedFuture (vs_join_handles (el_store l))"
    have "el_state l' = push_future ?f (el_state l)" "el_running l' = el_running l" "el_fibers l' = el_fibers l"
      "el_next_fiber l' = el_next_fiber l" "batch_starts l' \<subseteq> batch_starts l \<union> queued_starts (el_state l)"
      using s HostSpawns by (auto simp: step_idle_def upd_vm_def spawn_def batch_starts_def)
    from vm_step [OF l this] show ?thesis
      using current.futures [OF refl] scheduler.futures [OF scheduler.refl] closed.futures [OF closed.refl]
        faithful.futures [OF faithful.refl] by blast
  next
    case (HostAborts n)
    have "el_state l' = el_state l" "el_running l' = el_running l" "el_fibers l' = el_fibers l"
      "el_next_fiber l' = el_next_fiber l" "batch_starts l' \<subseteq> batch_starts l \<union> queued_starts (el_state l)"
      using s HostAborts by (auto simp: step_idle_def upd_vm_def batch_starts_def)
    from vm_step [OF l this] show ?thesis by simp
  qed (use s l in \<open>simp_all add: step_idle_def\<close>)
  then show "loop_ok l'" "secure l \<Longrightarrow> secure l'" by blast+
qed

lemma step_ok:
  assumes c: "canon_frame (hk_canon hk)" and l: "loop_ok l" and s: "step hk inp l = (Ok (), l')"
  shows "loop_ok l'" "secure l \<Longrightarrow> secure l'"
proof -
  have "loop_ok l' \<and> (secure l \<longrightarrow> secure l')"
  proof (cases "el_running l")
    case (Some r)
    obtain fiber old act where r: "r = (fiber, old, act)" by (cases r)
    note k = Some [unfolded r]
    show ?thesis
      using s k guest_calls_ok [OF l k] guest_returns_ok [OF l k] l
      by (cases inp) (simp_all add: step_def step_running_def)
  next
    case None
    show ?thesis
    proof (cases "el_batch l")
      case Nil
      with s None idle_ok [OF l] show ?thesis by (simp add: step_def)
    next
      case (Cons item items)
      note t = item_taken [OF l Cons]
      show ?thesis
      proof (cases "inp = NextItem")
        case True
        with s None Cons have h: "handle_work_item hk item (l\<lparr>el_batch := items\<rparr>) = (Ok (), l')" by (simp add: step_def)
        have n: "el_running (l\<lparr>el_batch := items\<rparr>) = None" using None by simp
        show ?thesis using work_item_ok [OF c t(1) n h] t(2,3) by simp
      qed (use s l None Cons in \<open>simp add: step_def\<close>)
    qed
  qed
  then show "loop_ok l'" "secure l \<Longrightarrow> secure l'" by blast+
qed

end
