(* ===== verification/Transmit_Runs.thy ===== *)
theory Transmit_Runs
  imports Transmit_Steps
begin

text \<open>
  What a write and a read that meet do: which bytes move, which event the waiting
  end gets, what is left pending, and what the next operation on an end makes of
  it.
\<close>

section \<open>Handles\<close>

lemma put_by_index_spec:
  assumes g: "get_by_index ty h s = Ok (rep, old)"
  obtains s' where "put_by_index ty h x s = (Ok (), s')" "get_by_index ty h s' = Ok (rep, x)"
    "\<And>ty' h'. h' \<noteq> h \<or> table_instance (cs_component s) ty' \<noteq> table_instance (cs_component s) ty \<Longrightarrow>
       get_by_index ty' h' s' = get_by_index ty' h' s"
    "\<exists>ts. s' = s\<lparr>cs_waitable_tables := ts\<rparr>"
proof -
  let ?i = "table_instance (cs_component s) ty"
  from g obtain tb where tb: "vec_get (cs_waitable_tables s) ?i = Some tb"
    by (auto simp: get_by_index_def waitables_get_def and_then_pure_Ok_iff split: option.splits)
  from g tb have sl: "st_slot_at h tb = Some (StOccupied rep (waitable_state_of ty old))"
    by (auto simp: get_by_index_def waitables_get_def and_then_pure_Ok_iff st_get_by_index_def
        split: option.splits state_slot.splits if_splits elim!: get_mut_by_index_from.elims)
  let ?tb = "tb\<lparr>st_slots := (st_slots tb)[h - 1 := StOccupied rep (waitable_state_of ty x)]\<rparr>"
  let ?s = "s\<lparr>cs_waitable_tables := (cs_waitable_tables s)[?i := ?tb]\<rparr>"
  have i: "?i < length (cs_waitable_tables s)" using tb by (auto simp: vec_get_def split: if_splits)
  have h: "h \<noteq> 0" "h - 1 < length (st_slots tb)" using sl
    by (auto simp: st_slot_at_def st_table_index_def u32_checked_sub_def vec_get_def bind_eq_Some_conv split: if_splits)
  have p: "put_by_index ty h x s = (Ok (), ?s)"
    using g tb sl by (simp add: put_by_index_def in_waitables_def st_get_mut_by_index_def discard_def)
  have same: "get_by_index ty h ?s = Ok (rep, x)"
    using i h sl by (cases ty) (auto simp: get_by_index_def waitables_get_def vec_get_def st_get_by_index_def st_slot_at_def
        st_table_index_def u32_checked_sub_def split: if_splits)
  have other: "get_by_index ty' h' ?s = get_by_index ty' h' s"
    if "h' \<noteq> h \<or> table_instance (cs_component s) ty' \<noteq> ?i" for ty' h'
  proof (cases "table_instance (cs_component s) ty' = ?i")
    case True
    with that have "h' \<noteq> h" by simp
    then have "st_slot_at h' ?tb = st_slot_at h' tb" using h(1)
      by (auto simp: st_slot_at_def st_table_index_def u32_checked_sub_def vec_get_def nth_list_update split: if_splits)
    then have "st_get_by_index h' ?tb = st_get_by_index h' tb" by (simp add: st_get_by_index_def)
    with True tb i show ?thesis by (simp add: get_by_index_def waitables_get_def vec_get_def)
  qed (simp add: get_by_index_def waitables_get_def vec_get_def)
  show thesis by (rule that [OF p same other]) auto
qed


definition handles_ok :: "concurrent_state \<Rightarrow> bool" where
  "handles_ok s \<longleftrightarrow> list_all st_inv (cs_waitable_tables s)"

lemma handles_ok_cong: "cs_waitable_tables s' = cs_waitable_tables s \<Longrightarrow> handles_ok s' = handles_ok s"
  by (simp add: handles_ok_def)

lemma handles_ok_put:
  assumes ok: "handles_ok s" and put: "put_by_index ty h x s = (Ok (), s')"
  shows "handles_ok s'"
proof -
  let ?i = "table_instance (cs_component s) ty" and ?f = "\<lambda>_. waitable_state_of ty x"
  from put obtain p where p: "in_waitables ?i (st_get_mut_by_index h ?f) s = (Ok p, s')"
    by (auto simp: put_by_index_def discard_def elim!: and_then_OkE)
  then obtain tb tb' r where tb: "vec_get (cs_waitable_tables s) ?i = Some tb" "st_get_mut_by_index h ?f tb = (Ok r, tb')"
      "s' = s\<lparr>cs_waitable_tables := (cs_waitable_tables s)[?i := tb']\<rparr>"
    by (auto simp: in_waitables_def split: option.splits prod.splits)
  have "st_inv tb" using ok tb(1) by (auto simp: handles_ok_def list_all_length vec_get_def split: if_splits)
  then have "st_inv tb'"
    using tb(2) st_get_mut_by_index_live [of tb h _ _ ?f] st_remove_dead(2) [of tb h ?f] by (cases "st_lookup tb h") fastforce+
  then show ?thesis using ok tb(3)
    by (auto simp: handles_ok_def list_all_length nth_update_if)
qed


section \<open>Operations that wait\<close>

lemma handle_get:
  assumes "handle_state s rep = Some k" and "transmit_at s k = Some t"
  obtains hd where "get_transmit_handle rep s = Ok hd" "th_state hd = k" "get_transmit_state k s = Ok t"
  using assms by (auto simp: handle_state_Some transmit_at_Some)

lemma waitables_frame [simp]:
  "transmit_at (s\<lparr>cs_waitable_tables := ts\<rparr>) = transmit_at s" "handle_state (s\<lparr>cs_waitable_tables := ts\<rparr>) = handle_state s"
  "common_at (s\<lparr>cs_waitable_tables := ts\<rparr>) = common_at s" "obj_at (s\<lparr>cs_waitable_tables := ts\<rparr>) = obj_at s"
proof -
  show o: "obj_at (s\<lparr>cs_waitable_tables := ts\<rparr>) = obj_at s" by (simp add: obj_at_def)
  show "transmit_at (s\<lparr>cs_waitable_tables := ts\<rparr>) = transmit_at s" "handle_state (s\<lparr>cs_waitable_tables := ts\<rparr>) = handle_state s"
    "common_at (s\<lparr>cs_waitable_tables := ts\<rparr>) = common_at s"
    by (simp_all add: transmit_at_def handle_state_def common_at_def o fun_eq_iff)
qed

definition request :: "canon \<Rightarrow> table_index \<Rightarrow> nat \<Rightarrow> flat_abi option \<Rightarrow> nat \<Rightarrow> nat \<Rightarrow> nat \<Rightarrow> guest_pending" where
  "request c ty oi flat handle address n = \<lparr>gp_ty = ty, gp_flat_abi = flat, gp_options = cn_options c oi,
     gp_address = address, gp_count = n, gp_handle = handle\<rparr>"

lemma guest_read_waits:
  assumes a: "opt_async (cn_options c oi)" and g: "get_by_index ty h (so_state st) = Ok (rep, SfRead False)"
    and hs: "handle_state (so_state st) rep = Some k" and t: "transmit_at (so_state st) k = Some t"
    and idle: "\<not> ts_done t" "ts_write t = WrOpen" "ts_read t = RdOpen"
  obtains s1 ts where "put_by_index ty h SfBusy (so_state st) = (Ok (), s1)" "s1 = (so_state st)\<lparr>cs_waitable_tables := ts\<rparr>"
    "guest_read c ty oi flat h address n st = (Ok Blocked, st\<lparr>so_state := cs_put k (ObjTransmitState
       (t\<lparr>ts_read := RdGuestReady (request c ty oi flat h address n)\<rparr>)) s1\<rparr>)"
proof (rule put_by_index_spec [OF g, of SfBusy])
  fix s1 assume s1: "put_by_index ty h SfBusy (so_state st) = (Ok (), s1)" "\<exists>ts. s1 = (so_state st)\<lparr>cs_waitable_tables := ts\<rparr>"
  then obtain ts where ts: "s1 = (so_state st)\<lparr>cs_waitable_tables := ts\<rparr>" by blast
  have o: "handle_state s1 rep = Some k" "transmit_at s1 k = Some t" using hs t ts by simp_all
  from handle_get [OF o] obtain hd where hd: "get_transmit_handle rep s1 = Ok hd" "th_state hd = k" "get_transmit_state k s1 = Ok t" by blast
  have tt: "t\<lparr>ts_write := WrOpen\<rparr> = t" using idle by simp
  have o1: "obj_at s1 k = Some (ObjTransmitState t)" using o by (simp add: transmit_at_Some)
  have "guest_read c ty oi flat h address n st = (Ok Blocked, st\<lparr>so_state := cs_put k (ObjTransmitState
       (t\<lparr>ts_read := RdGuestReady (request c ty oi flat h address n)\<rparr>)) s1\<rparr>)"
    using a g s1(1) hd idle o1
    by (simp add: guest_read_def Let_def on_state_def put_transmit_def discard_def tt guest_read_writer_def
        set_guest_read_def request_def)
  with s1 ts show thesis by (intro that) auto
qed

lemma guest_write_waits:
  assumes a: "opt_async (cn_options c oi)" and g: "get_by_index ty h (so_state st) = Ok (rep, SfWrite False)"
    and hs: "handle_state (so_state st) rep = Some k" and t: "transmit_at (so_state st) k = Some t"
    and idle: "\<not> ts_done t" "ts_write t = WrOpen" "ts_read t = RdOpen"
  obtains s1 ts where "put_by_index ty h SfBusy (so_state st) = (Ok (), s1)" "s1 = (so_state st)\<lparr>cs_waitable_tables := ts\<rparr>"
    "guest_write c ty oi flat h address n st = (Ok Blocked, st\<lparr>so_state := cs_put k (ObjTransmitState
       (t\<lparr>ts_write := WrGuestReady (request c ty oi flat h address n) PwContinue\<rparr>)) s1\<rparr>)"
proof (rule put_by_index_spec [OF g, of SfBusy])
  fix s1 assume s1: "put_by_index ty h SfBusy (so_state st) = (Ok (), s1)" "\<exists>ts. s1 = (so_state st)\<lparr>cs_waitable_tables := ts\<rparr>"
  then obtain ts where ts: "s1 = (so_state st)\<lparr>cs_waitable_tables := ts\<rparr>" by blast
  have o: "handle_state s1 rep = Some k" "transmit_at s1 k = Some t" using hs t ts by simp_all
  from handle_get [OF o] obtain hd where hd: "get_transmit_handle rep s1 = Ok hd" "th_state hd = k" "get_transmit_state k s1 = Ok t" by blast
  have tt: "t\<lparr>ts_read := RdOpen\<rparr> = t" using idle by simp
  have o1: "obj_at s1 k = Some (ObjTransmitState t)" using o by (simp add: transmit_at_Some)
  have "guest_write c ty oi flat h address n st = (Ok Blocked, st\<lparr>so_state := cs_put k (ObjTransmitState
       (t\<lparr>ts_write := WrGuestReady (request c ty oi flat h address n) PwContinue\<rparr>)) s1\<rparr>)"
    using a g s1(1) hd idle o1
    by (simp add: guest_write_def Let_def on_state_def put_transmit_def discard_def tt guest_write_reader_def
        set_guest_write_def request_def)
  with s1 ts show thesis by (intro that) auto
qed


section \<open>A write that meets a read\<close>

lemma complete_event_spec:
  assumes inv: "wset_inv s" and w: "common_at s (WTransmit rep) = Some cm" and n: "n + total_of (wc_event cm) \<le> u32_max"
  obtains s' where "complete_event rep total_of ev kind n s = (Ok (), s')" "wset_inv s'"
    "common_at s' = (common_at s)(WTransmit rep \<mapsto> cm\<lparr>wc_event := Some (ev (return_code_completed kind (n + total_of (wc_event cm))))\<rparr>)"
    "same_frame s s'" "same_transmits s s'"
proof -
  let ?e = "ev (return_code_completed kind (n + total_of (wc_event cm)))"
  show thesis
  proof (rule take_event_spec [OF inv w])
    fix s1 assume s1: "take_event (WTransmit rep) s = (Ok (wc_event cm), s1)" "wset_inv s1"
      "common_at s1 = (common_at s)(WTransmit rep \<mapsto> cm\<lparr>wc_event := None\<rparr>)" "same_frame s s1"
    have w1: "common_at s1 (WTransmit rep) = Some (cm\<lparr>wc_event := None\<rparr>)" using s1(3) by simp
    show thesis
    proof (rule set_event_spec [OF s1(2) w1, of ?e])
      fix s2 assume s2: "set_event (WTransmit rep) (Some ?e) s1 = (Ok (), s2)" "wset_inv s2"
        "common_at s2 = (common_at s1)(WTransmit rep \<mapsto> cm\<lparr>wc_event := None, wc_event := Some ?e\<rparr>)" "same_frame s1 s2"
      have c: "complete_event rep total_of ev kind n s = (Ok (), s2)"
        using n s1(1) s2(1) by (simp add: complete_event_def transmit_take_event_def transmit_set_event_def u32_checked_add_def)
      show thesis
      proof (rule that [OF c s2(2)])
        show "common_at s2 = (common_at s)(WTransmit rep \<mapsto> cm\<lparr>wc_event := Some ?e\<rparr>)" using s1(3) s2(3) by simp
        show "same_frame s s2" using s1(4) s2(4) by (rule same_frame_trans)
        show "same_transmits s s2" using same_complete_event [of s rep total_of ev kind n] c by simp
      qed
    qed
  qed
qed


text \<open>Two buffers of items that are copied as bytes: aligned, and inside of the memories.\<close>

definition buffer_ok :: "flat_abi \<Rightarrow> guest_pending \<Rightarrow> nat \<Rightarrow> store \<Rightarrow> bool" where
  "buffer_ok abi p n st \<longleftrightarrow> gp_flat_abi p = Some abi \<and> gp_address p mod fa_align abi = 0 \<and>
     (\<exists>m. opt_memory (gp_options p) = Some m \<and> gp_address p + fa_size abi * n \<le> length (so_memories st m))"

definition buffer_memory :: "guest_pending \<Rightarrow> nat" where
  "buffer_memory p = the (opt_memory (gp_options p))"

definition buffer_bytes :: "flat_abi \<Rightarrow> guest_pending \<Rightarrow> nat \<Rightarrow> store \<Rightarrow> 8 word list" where
  "buffer_bytes abi p n st = take (fa_size abi * n) (drop (gp_address p) (so_memories st (buffer_memory p)))"

definition buffer_filled :: "guest_pending \<Rightarrow> 8 word list \<Rightarrow> store \<Rightarrow> nat \<Rightarrow> 8 word list" where
  "buffer_filled p bytes st = (so_memories st)(buffer_memory p :=
     overwrite (gp_address p) bytes (so_memories st (buffer_memory p)))"

lemma copy_flat_moves:
  assumes "buffer_ok abi w n st" and "buffer_ok abi r n st"
  shows "copy_flat abi (gp_options w) (gp_address w) (gp_options r) (gp_address r) n st =
    (Ok (), st\<lparr>so_memories := buffer_filled r (buffer_bytes abi w n st) st\<rparr>)"
proof (cases "fa_size abi * n = 0")
  case True
  then have "buffer_bytes abi w n st = []" by (auto simp: buffer_bytes_def)
  then show ?thesis using True by (auto simp: copy_flat_def buffer_filled_def)
next
  case False
  then show ?thesis using assms
    by (auto simp: copy_flat_def Let_def buffer_ok_def buffer_memory_def buffer_bytes_def buffer_filled_def
        options_memory_def sub_slice_def)
qed

lemma common_put_transmit:
  assumes "obj_at s k = Some (ObjTransmitState t)"
  shows "common_at (cs_put k (ObjTransmitState t') s) = common_at s"
  using assms by (auto simp: common_at_def fun_eq_iff elim!: obj_common_as.elims)

lemma get_by_index_cong:
  assumes "cs_waitable_tables s' = cs_waitable_tables s" "cs_component s' = cs_component s"
  shows "get_by_index ty h s' = get_by_index ty h s"
  using assms by (simp add: get_by_index_def waitables_get_def)

lemma handle_put_if:
  "transmit_at s k = Some t \<Longrightarrow> handle_state (if b then cs_put k (ObjTransmitState u) s else s) = handle_state s"
  by (simp add: transmit_put)

lemma guest_write_meets:
  assumes a: "opt_async (cn_options c oi)" and g: "get_by_index (StreamIndex wt) h (so_state st) = Ok (rep, SfWrite False)"
    and hs: "handle_state (so_state st) rep = Some k" and t: "transmit_at (so_state st) k = Some t"
    and rd: "ts_read t = RdGuestReady r" "\<not> ts_done t" "gp_ty r = StreamIndex rt" "0 < n" "0 < gp_count r"
    and inv: "wset_inv (so_state st)" and cm: "common_at (so_state st) (WTransmit (ts_read_handle t)) = Some cm"
    and j: "j = min n (gp_count r)" "j + read_total (wc_event cm) \<le> u32_max"
    and w: "w = request c (StreamIndex wt) oi (Some abi) h address n"
    and ok: "buffer_ok abi w j st" "buffer_ok abi r j st"
  obtains st' where "guest_write c (StreamIndex wt) oi (Some abi) h address n st = (Ok (Completed j), st')"
    "so_memories st' = buffer_filled r (buffer_bytes abi w j st) st" "wset_inv (so_state st')"
    "transmit_at (so_state st') = (transmit_at (so_state st))(k \<mapsto> t\<lparr>ts_read := if n < gp_count r
       then RdGuestReady (r\<lparr>gp_address := gp_address r + j * item_size (cs_component (so_state st)) (StreamIndex wt),
         gp_count := gp_count r - j\<rparr>) else RdOpen\<rparr>)"
    "common_at (so_state st') = (common_at (so_state st))(WTransmit (ts_read_handle t) \<mapsto>
       cm\<lparr>wc_event := Some (StreamRead (Completed (j + read_total (wc_event cm))) (Some (rt, gp_handle r)))\<rparr>)"
    "get_by_index (StreamIndex wt) h (so_state st') = Ok (rep, SfWrite False)"
    "\<And>ty' h'. h' \<noteq> h \<or> table_instance (cs_component (so_state st)) ty' \<noteq> table_instance (cs_component (so_state st)) (StreamIndex wt) \<Longrightarrow>
       get_by_index ty' h' (so_state st') = get_by_index ty' h' (so_state st)"
    "handle_state (so_state st') = handle_state (so_state st)" "cs_component (so_state st') = cs_component (so_state st)"
    "handles_ok (so_state st) \<Longrightarrow> handles_ok (so_state st')"
proof (rule put_by_index_spec [OF g, of SfBusy])
  let ?ty = "StreamIndex wt" and ?s = "so_state st"
  let ?t1 = "t\<lparr>ts_read := RdOpen\<rparr>"
  fix s1 assume s1: "put_by_index ?ty h SfBusy ?s = (Ok (), s1)" "get_by_index ?ty h s1 = Ok (rep, SfBusy)"
    "\<exists>ts. s1 = ?s\<lparr>cs_waitable_tables := ts\<rparr>"
    "\<And>ty' h'. h' \<noteq> h \<or> table_instance (cs_component ?s) ty' \<noteq> table_instance (cs_component ?s) ?ty \<Longrightarrow>
       get_by_index ty' h' s1 = get_by_index ty' h' ?s"
  then obtain ts where ts: "s1 = ?s\<lparr>cs_waitable_tables := ts\<rparr>" by blast
  have o: "handle_state s1 rep = Some k" "transmit_at s1 k = Some t" using hs t ts by simp_all
  from handle_get [OF o] obtain hd where hd: "get_transmit_handle rep s1 = Ok hd" "th_state hd = k" "get_transmit_state k s1 = Ok t" by blast
  have o1: "obj_at s1 k = Some (ObjTransmitState t)" using o by (simp add: transmit_at_Some)
  let ?s2 = "cs_put k (ObjTransmitState ?t1) s1"
  have i1: "wset_inv s1" using wset_inv_table [of s1 ?s "{}"] inv ts by simp
  have i2: "wset_inv ?s2" using i1 o1 by (rule wset_inv_inert) simp
  have c2: "common_at ?s2 (WTransmit (ts_read_handle t)) = Some cm" using cm ts o1 by (simp add: common_put_transmit)
  let ?ev = "\<lambda>code. read_event (gp_ty r) code (Some (gp_handle r))"
  show thesis
  proof (rule complete_event_spec [OF i2 c2, of j read_total ?ev Stream, OF j(2)])
    fix s3 assume s3: "complete_event (ts_read_handle t) read_total ?ev Stream j ?s2 = (Ok (), s3)" "wset_inv s3"
      "common_at s3 = (common_at ?s2)(WTransmit (ts_read_handle t) \<mapsto>
         cm\<lparr>wc_event := Some (?ev (return_code_completed Stream (j + read_total (wc_event cm))))\<rparr>)"
      "same_frame ?s2 s3" "same_transmits ?s2 s3"
    let ?it = "item_size (cs_component ?s) ?ty"
    let ?r = "RdGuestReady (r\<lparr>gp_address := gp_address r + j * ?it, gp_count := gp_count r - j\<rparr>)"
    let ?t4 = "t\<lparr>ts_read := if n < gp_count r then ?r else RdOpen\<rparr>"
    let ?s4 = "if n < gp_count r then cs_put k (ObjTransmitState ?t4) s3 else s3"
    have o3: "obj_at s3 k = Some (ObjTransmitState ?t1)"
      using transmit_put(1) [OF o(2), of ?t1] same_transmits_at [OF s3(5)] by (simp add: transmit_at_Some [symmetric])
    have comp: "cs_component s3 = cs_component ?s" using s3(4) ts by (simp add: same_frame_def)
    have g4: "get_by_index ?ty h ?s4 = Ok (rep, SfBusy)"
      using s1(2) s3(4) by (subst get_by_index_cong [of _ s1]) (simp_all add: same_frame_def)
    have i4: "wset_inv ?s4" using s3(2) wset_inv_inert [OF s3(2) o3] by simp
    have t4: "transmit_at ?s4 = (transmit_at ?s)(k \<mapsto> ?t4)"
      using same_transmits_at [OF s3(5)] transmit_put(1) [of s1 k t ?t1] o(2) transmit_put(1) [of s3 k ?t1 ?t4] ts
      by (auto simp: fun_eq_iff)
    have c4: "common_at ?s4 = common_at s3" using o3 by (simp add: common_put_transmit)
    show thesis
    proof (rule put_by_index_spec [OF g4, of "SfWrite False"])
      fix s5 assume s5: "put_by_index ?ty h (SfWrite False) ?s4 = (Ok (), s5)" "get_by_index ?ty h s5 = Ok (rep, SfWrite False)"
        "\<exists>ts. s5 = ?s4\<lparr>cs_waitable_tables := ts\<rparr>"
        "\<And>ty' h'. h' \<noteq> h \<or> table_instance (cs_component ?s4) ty' \<noteq> table_instance (cs_component ?s4) ?ty \<Longrightarrow>
           get_by_index ty' h' s5 = get_by_index ty' h' ?s4"
      have "handles_ok ?s4 = handles_ok s1" using s3(4) by (intro handles_ok_cong) (simp add: same_frame_def)
      then have hok: "handles_ok ?s \<Longrightarrow> handles_ok s5" using handles_ok_put [OF _ s1(1)] handles_ok_put [OF _ s5(1)] by simp
      have comp4: "cs_component ?s4 = cs_component ?s" using comp by simp
      have "handle_state ?s4 = handle_state s3" using transmit_at_Some [THEN iffD2, OF o3] by (rule handle_put_if)
      then have hs4: "handle_state ?s4 = handle_state ?s"
        using s3(5) transmit_put(2) [OF o(2), of ?t1] ts by (simp only: same_transmits_def waitables_frame)
      have other: "get_by_index ty' h' s5 = get_by_index ty' h' ?s"
        if "h' \<noteq> h \<or> table_instance (cs_component ?s) ty' \<noteq> table_instance (cs_component ?s) ?ty" for ty' h'
      proof -
        have "get_by_index ty' h' ?s4 = get_by_index ty' h' s1"
          using s3(4) by (intro get_by_index_cong) (simp_all add: same_frame_def)
        with s5(4) [of h' ty'] s1(4) [of h' ty'] that comp4 show ?thesis by simp
      qed
      let ?m = "buffer_filled r (buffer_bytes abi w j st) st"
      let ?st = "st\<lparr>so_memories := ?m, so_state := s5\<rparr>" and ?st2 = "st\<lparr>so_state := ?s2\<rparr>"
      have w': "gp_ty w = ?ty" "gp_flat_abi w = Some abi" "gp_count w = n" using w by (simp_all add: request_def)
      have fr: "gp_flat_abi r = Some abi" using ok(2) by (simp add: buffer_ok_def)
      have cp: "copy_flat abi (gp_options w) (gp_address w) (gp_options r) (gp_address r) j ?st2 = (Ok (), ?st2\<lparr>so_memories := ?m\<rparr>)"
        using copy_flat_moves [of abi w j ?st2 r] ok by (simp add: buffer_ok_def buffer_filled_def buffer_bytes_def)
      have j32: "j \<le> u32_max" using j(2) by simp
      have gw: "guest_write_guest c k t w r ?st2 = (Ok (Completed j), st\<lparr>so_memories := ?m, so_state := ?s4\<rparr>)"
        using cp rd fr w' s3(1) o3 comp j32 j(1)
        by (simp add: guest_write_guest_def copy_items_def Let_def on_state_def put_transmit_def discard_def
            count_code_def return_code_completed_def u32_try_from_def)
      have run: "guest_write c ?ty oi (Some abi) h address n st = (Ok (Completed j), ?st)"
        using a g s1(1) hd rd o1 gw s5(1)
        by (simp add: guest_write_def Let_def on_state_def put_transmit_def discard_def guest_write_reader_def
            w request_def)
      show thesis
        by (rule that [OF run])
           (use other hok comp4 hs4 s5(1-3) i4 t4 c4 s3(3) cm ts o1 wset_inv_table [of s5 ?s4 "{}"] in \<open>auto simp: common_put_transmit rd(3) return_code_completed_def\<close>)
    qed
  qed
qed


lemma guest_read_meets:
  assumes a: "opt_async (cn_options c oi)" and g: "get_by_index (StreamIndex rt) h (so_state st) = Ok (rep, SfRead False)"
    and hs: "handle_state (so_state st) rep = Some k" and t: "transmit_at (so_state st) k = Some t"
    and wr: "ts_write t = WrGuestReady w PwContinue" "\<not> ts_done t" "gp_ty w = StreamIndex wt" "0 < n" "0 < gp_count w"
    and inv: "wset_inv (so_state st)" and cm: "common_at (so_state st) (WTransmit (ts_write_handle t)) = Some cm"
    and j: "j = min n (gp_count w)" "j + write_total (wc_event cm) \<le> u32_max"
    and r: "r = request c (StreamIndex rt) oi (Some abi) h address n"
    and ok: "buffer_ok abi w j st" "buffer_ok abi r j st"
  obtains st' where "guest_read c (StreamIndex rt) oi (Some abi) h address n st = (Ok (Completed j), st')"
    "so_memories st' = buffer_filled r (buffer_bytes abi w j st) st" "wset_inv (so_state st')"
    "transmit_at (so_state st') = (transmit_at (so_state st))(k \<mapsto> t\<lparr>ts_write := if n < gp_count w
       then WrGuestReady (w\<lparr>gp_address := gp_address w + j * item_size (cs_component (so_state st)) (StreamIndex rt),
         gp_count := gp_count w - j\<rparr>) PwContinue else WrOpen\<rparr>)"
    "common_at (so_state st') = (common_at (so_state st))(WTransmit (ts_write_handle t) \<mapsto>
       cm\<lparr>wc_event := Some (StreamWrite (Completed (j + write_total (wc_event cm))) (Some (wt, gp_handle w)))\<rparr>)"
    "get_by_index (StreamIndex rt) h (so_state st') = Ok (rep, SfRead False)"
    "\<And>ty' h'. h' \<noteq> h \<or> table_instance (cs_component (so_state st)) ty' \<noteq> table_instance (cs_component (so_state st)) (StreamIndex rt) \<Longrightarrow>
       get_by_index ty' h' (so_state st') = get_by_index ty' h' (so_state st)"
    "handle_state (so_state st') = handle_state (so_state st)" "cs_component (so_state st') = cs_component (so_state st)"
    "handles_ok (so_state st) \<Longrightarrow> handles_ok (so_state st')"
proof (rule put_by_index_spec [OF g, of SfBusy])
  let ?ty = "StreamIndex rt" and ?s = "so_state st"
  let ?t1 = "t\<lparr>ts_write := WrOpen\<rparr>"
  fix s1 assume s1: "put_by_index ?ty h SfBusy ?s = (Ok (), s1)" "get_by_index ?ty h s1 = Ok (rep, SfBusy)"
    "\<exists>ts. s1 = ?s\<lparr>cs_waitable_tables := ts\<rparr>"
    "\<And>ty' h'. h' \<noteq> h \<or> table_instance (cs_component ?s) ty' \<noteq> table_instance (cs_component ?s) ?ty \<Longrightarrow>
       get_by_index ty' h' s1 = get_by_index ty' h' ?s"
  then obtain ts where ts: "s1 = ?s\<lparr>cs_waitable_tables := ts\<rparr>" by blast
  have o: "handle_state s1 rep = Some k" "transmit_at s1 k = Some t" using hs t ts by simp_all
  from handle_get [OF o] obtain hd where hd: "get_transmit_handle rep s1 = Ok hd" "th_state hd = k" "get_transmit_state k s1 = Ok t" by blast
  have o1: "obj_at s1 k = Some (ObjTransmitState t)" using o by (simp add: transmit_at_Some)
  let ?s2 = "cs_put k (ObjTransmitState ?t1) s1"
  have i1: "wset_inv s1" using wset_inv_table [of s1 ?s "{}"] inv ts by simp
  have i2: "wset_inv ?s2" using i1 o1 by (rule wset_inv_inert) simp
  have c2: "common_at ?s2 (WTransmit (ts_write_handle t)) = Some cm" using cm ts o1 by (simp add: common_put_transmit)
  let ?ev = "\<lambda>code. write_event (gp_ty w) code (Some (gp_handle w))"
  show thesis
  proof (rule complete_event_spec [OF i2 c2, of j write_total ?ev Stream, OF j(2)])
    fix s3 assume s3: "complete_event (ts_write_handle t) write_total ?ev Stream j ?s2 = (Ok (), s3)" "wset_inv s3"
      "common_at s3 = (common_at ?s2)(WTransmit (ts_write_handle t) \<mapsto>
         cm\<lparr>wc_event := Some (?ev (return_code_completed Stream (j + write_total (wc_event cm))))\<rparr>)"
      "same_frame ?s2 s3" "same_transmits ?s2 s3"
    let ?it = "item_size (cs_component ?s) ?ty"
    let ?w = "WrGuestReady (w\<lparr>gp_address := gp_address w + j * ?it, gp_count := gp_count w - j\<rparr>) PwContinue"
    let ?t4 = "t\<lparr>ts_write := if n < gp_count w then ?w else WrOpen\<rparr>"
    let ?s4 = "if n < gp_count w then cs_put k (ObjTransmitState ?t4) s3 else s3"
    have o3: "obj_at s3 k = Some (ObjTransmitState ?t1)"
      using transmit_put(1) [OF o(2), of ?t1] same_transmits_at [OF s3(5)] by (simp add: transmit_at_Some [symmetric])
    have comp: "cs_component s3 = cs_component ?s" using s3(4) ts by (simp add: same_frame_def)
    have g4: "get_by_index ?ty h ?s4 = Ok (rep, SfBusy)"
      using s1(2) s3(4) by (subst get_by_index_cong [of _ s1]) (simp_all add: same_frame_def)
    have i4: "wset_inv ?s4" using s3(2) wset_inv_inert [OF s3(2) o3] by simp
    have t4: "transmit_at ?s4 = (transmit_at ?s)(k \<mapsto> ?t4)"
      using same_transmits_at [OF s3(5)] transmit_put(1) [of s1 k t ?t1] o(2) transmit_put(1) [of s3 k ?t1 ?t4] ts
      by (auto simp: fun_eq_iff)
    have c4: "common_at ?s4 = common_at s3" using o3 by (simp add: common_put_transmit)
    show thesis
    proof (rule put_by_index_spec [OF g4, of "SfRead False"])
      fix s5 assume s5: "put_by_index ?ty h (SfRead False) ?s4 = (Ok (), s5)" "get_by_index ?ty h s5 = Ok (rep, SfRead False)"
        "\<exists>ts. s5 = ?s4\<lparr>cs_waitable_tables := ts\<rparr>"
        "\<And>ty' h'. h' \<noteq> h \<or> table_instance (cs_component ?s4) ty' \<noteq> table_instance (cs_component ?s4) ?ty \<Longrightarrow>
           get_by_index ty' h' s5 = get_by_index ty' h' ?s4"
      have "handles_ok ?s4 = handles_ok s1" using s3(4) by (intro handles_ok_cong) (simp add: same_frame_def)
      then have hok: "handles_ok ?s \<Longrightarrow> handles_ok s5" using handles_ok_put [OF _ s1(1)] handles_ok_put [OF _ s5(1)] by simp
      have comp4: "cs_component ?s4 = cs_component ?s" using comp by simp
      have "handle_state ?s4 = handle_state s3" using transmit_at_Some [THEN iffD2, OF o3] by (rule handle_put_if)
      then have hs4: "handle_state ?s4 = handle_state ?s"
        using s3(5) transmit_put(2) [OF o(2), of ?t1] ts by (simp only: same_transmits_def waitables_frame)
      have other: "get_by_index ty' h' s5 = get_by_index ty' h' ?s"
        if "h' \<noteq> h \<or> table_instance (cs_component ?s) ty' \<noteq> table_instance (cs_component ?s) ?ty" for ty' h'
      proof -
        have "get_by_index ty' h' ?s4 = get_by_index ty' h' s1"
          using s3(4) by (intro get_by_index_cong) (simp_all add: same_frame_def)
        with s5(4) [of h' ty'] s1(4) [of h' ty'] that comp4 show ?thesis by simp
      qed
      let ?m = "buffer_filled r (buffer_bytes abi w j st) st"
      let ?st = "st\<lparr>so_memories := ?m, so_state := s5\<rparr>" and ?st2 = "st\<lparr>so_state := ?s2\<rparr>"
      have r': "gp_ty r = ?ty" "gp_flat_abi r = Some abi" "gp_count r = n" using r by (simp_all add: request_def)
      have fr: "gp_flat_abi w = Some abi" using ok(1) by (simp add: buffer_ok_def)
      have cp: "copy_flat abi (gp_options w) (gp_address w) (gp_options r) (gp_address r) j ?st2 = (Ok (), ?st2\<lparr>so_memories := ?m\<rparr>)"
        using copy_flat_moves [of abi w j ?st2 r] ok by (simp add: buffer_ok_def buffer_filled_def buffer_bytes_def)
      have j32: "j \<le> u32_max" using j(2) by simp
      have gr: "guest_read_guest c k t r w PwContinue ?st2 = (Ok (Completed j), st\<lparr>so_memories := ?m, so_state := ?s4\<rparr>)"
        using cp wr fr r' s3(1) o3 comp j32 j(1)
        by (simp add: guest_read_guest_def copy_items_def Let_def on_state_def put_transmit_def discard_def
            count_code_def return_code_completed_def u32_try_from_def)
      have run: "guest_read c ?ty oi (Some abi) h address n st = (Ok (Completed j), ?st)"
        using a g s1(1) hd wr o1 gr s5(1)
        by (simp add: guest_read_def Let_def on_state_def put_transmit_def discard_def guest_read_writer_def
            r request_def)
      show thesis
        by (rule that [OF run])
           (use other hok comp4 hs4 s5(1-3) i4 t4 c4 s3(3) cm ts o1 wset_inv_table [of s5 ?s4 "{}"] in \<open>auto simp: common_put_transmit wr(3) return_code_completed_def\<close>)
    qed
  qed
qed


section \<open>Both orders of a rendezvous\<close>

definition idle_stream :: "nat \<Rightarrow> nat \<Rightarrow> nat \<Rightarrow> nat \<Rightarrow> concurrent_state \<Rightarrow> bool" where
  "idle_stream wt wh rt rh s \<longleftrightarrow> (\<exists>k t w r.
     transmit_at s k = Some t \<and> ts_write t = WrOpen \<and> ts_read t = RdOpen \<and> \<not> ts_done t \<and>
     handle_state s (ts_write_handle t) = Some k \<and> handle_state s (ts_read_handle t) = Some k \<and>
     get_by_index (StreamIndex wt) wh s = Ok (ts_write_handle t, SfWrite False) \<and>
     get_by_index (StreamIndex rt) rh s = Ok (ts_read_handle t, SfRead False) \<and>
     common_at s (WTransmit (ts_write_handle t)) = Some w \<and> wc_event w = None \<and>
     common_at s (WTransmit (ts_read_handle t)) = Some r \<and> wc_event r = None)"

lemma get_by_index_slot:
  assumes "get_by_index ty h s = Ok (rep, x)"
  shows "waitables_get (table_instance (cs_component s) ty) h s = Ok (rep, waitable_state_of ty x)"
  using assms by (auto simp: get_by_index_def and_then_pure_Ok_iff split: if_splits elim!: get_mut_by_index_from.elims)

lemma distinct_ends:
  assumes "get_by_index ty h s = Ok (rep, SfWrite d)" and "get_by_index ty' h' s = Ok (rep', SfRead d')"
  shows "h' \<noteq> h \<or> table_instance (cs_component s) ty' \<noteq> table_instance (cs_component s) ty"
  using get_by_index_slot [OF assms(1)] get_by_index_slot [OF assms(2)] by (cases ty; cases ty') auto

lemma put_by_index_other:
  assumes "get_by_index ty h s = Ok (rep, old)" and "put_by_index ty h x s = (Ok (), s')"
    and "h' \<noteq> h \<or> table_instance (cs_component s) ty' \<noteq> table_instance (cs_component s) ty"
  shows "get_by_index ty' h' (cs_put k y s') = get_by_index ty' h' s"
proof (rule put_by_index_spec [OF assms(1), of x])
  fix u assume "put_by_index ty h x s = (Ok (), u)"
    "\<And>ty' h'. h' \<noteq> h \<or> table_instance (cs_component s) ty' \<noteq> table_instance (cs_component s) ty \<Longrightarrow>
       get_by_index ty' h' u = get_by_index ty' h' s"
  with assms(2,3) show ?thesis by (subst get_by_index_cong [of _ u]) auto
qed

lemma put_by_index_same:
  assumes "get_by_index ty h s = Ok (rep, old)" and "put_by_index ty h x s = (Ok (), s')"
  shows "get_by_index ty h s' = Ok (rep, x)"
  by (rule put_by_index_spec [OF assms(1), of x]) (use assms(2) in simp)

lemma buffer_state [simp]:
  "buffer_ok abi p n (st\<lparr>so_state := s\<rparr>) = buffer_ok abi p n st"
  "buffer_bytes abi p n (st\<lparr>so_state := s\<rparr>) = buffer_bytes abi p n st"
  "buffer_filled p bytes (st\<lparr>so_state := s\<rparr>) = buffer_filled p bytes st"
  by (simp_all add: buffer_ok_def buffer_bytes_def buffer_filled_def)

lemma wait_frame:
  fixes t' :: transmit_state
  assumes inv: "wset_inv s" and t: "transmit_at s k = Some t" and s1: "s1 = s\<lparr>cs_waitable_tables := ts\<rparr>"
  defines "s2 \<equiv> cs_put k (ObjTransmitState t') s1"
  shows "wset_inv s2" and "transmit_at s2 k = Some t'" and "handle_state s2 = handle_state s" and "common_at s2 = common_at s"
proof -
  have i: "wset_inv s1" using wset_inv_table [of s1 s "{}"] inv s1 by simp
  have t1: "transmit_at s1 k = Some t" using t s1 by simp
  then have o: "obj_at s1 k = Some (ObjTransmitState t)" by (simp add: transmit_at_Some)
  show "wset_inv s2" unfolding s2_def using i o by (rule wset_inv_inert) simp
  show "transmit_at s2 k = Some t'" "handle_state s2 = handle_state s" "common_at s2 = common_at s"
    using transmit_put [OF t1] common_put_transmit [OF o] s1 by (simp_all add: s2_def)
qed

lemma read_then_write:
  assumes idle: "idle_stream wt wh rt rh (so_state st)" and inv: "wset_inv (so_state st)"
    and async: "opt_async (cn_options c wo)" "opt_async (cn_options c ro)"
    and pos: "0 < n" "0 < m" and j: "j = min n m" "j \<le> u32_max"
    and ok: "buffer_ok abi (request c (StreamIndex wt) wo (Some abi) wh wa n) j st"
      "buffer_ok abi (request c (StreamIndex rt) ro (Some abi) rh ra m) j st"
  obtains k t r st1 st2 where "guest_read c (StreamIndex rt) ro (Some abi) rh ra m st = (Ok Blocked, st1)"
    "guest_write c (StreamIndex wt) wo (Some abi) wh wa n st1 = (Ok (Completed j), st2)"
    "so_memories st2 = buffer_filled (request c (StreamIndex rt) ro (Some abi) rh ra m)
      (buffer_bytes abi (request c (StreamIndex wt) wo (Some abi) wh wa n) j st) st"
    "handle_state (so_state st2) (ts_read_handle t) = Some k" "\<not> ts_done t" "ts_write t = WrOpen" "ts_read t = RdOpen"
    "transmit_at (so_state st2) k = Some (t\<lparr>ts_read := if n < m
       then RdGuestReady (request c (StreamIndex rt) ro (Some abi) rh (ra + j * item_size (cs_component (so_state st)) (StreamIndex wt)) (m - j))
       else RdOpen\<rparr>)"
    "get_by_index (StreamIndex rt) rh (so_state st2) = Ok (ts_read_handle t, SfBusy)"
    "common_at (so_state st2) (WTransmit (ts_read_handle t)) = Some (r\<lparr>wc_event := Some (StreamRead (Completed j) (Some (rt, rh)))\<rparr>)"
    "wset_inv (so_state st2)" "handles_ok (so_state st) \<Longrightarrow> handles_ok (so_state st2)"
proof -
  let ?r = "request c (StreamIndex rt) ro (Some abi) rh ra m" and ?w = "request c (StreamIndex wt) wo (Some abi) wh wa n"
  from idle obtain k t w r where t: "transmit_at (so_state st) k = Some t" "ts_write t = WrOpen" "ts_read t = RdOpen" "\<not> ts_done t"
    and h: "handle_state (so_state st) (ts_write_handle t) = Some k" "handle_state (so_state st) (ts_read_handle t) = Some k"
    and g: "get_by_index (StreamIndex wt) wh (so_state st) = Ok (ts_write_handle t, SfWrite False)"
      "get_by_index (StreamIndex rt) rh (so_state st) = Ok (ts_read_handle t, SfRead False)"
    and r: "common_at (so_state st) (WTransmit (ts_read_handle t)) = Some r" "wc_event r = None"
    unfolding idle_stream_def by blast
  show thesis
  proof (rule guest_read_waits [OF async(2) g(2) h(2) t(1) t(4,2,3), of "Some abi" ra m])
    fix s1 ts let ?t = "t\<lparr>ts_read := RdGuestReady ?r\<rparr>" let ?s2 = "cs_put k (ObjTransmitState ?t) s1"
    assume p: "put_by_index (StreamIndex rt) rh SfBusy (so_state st) = (Ok (), s1)" and ts: "s1 = (so_state st)\<lparr>cs_waitable_tables := ts\<rparr>"
      and run: "guest_read c (StreamIndex rt) ro (Some abi) rh ra m st = (Ok Blocked, st\<lparr>so_state := ?s2\<rparr>)"
    note f = wait_frame [OF inv t(1) ts, of ?t]
    have g2: "get_by_index (StreamIndex wt) wh ?s2 = Ok (ts_write_handle t, SfWrite False)"
      using put_by_index_other [OF g(2) p, of wh "StreamIndex wt" k "ObjTransmitState ?t"] distinct_ends [OF g] g(1) by auto
    have b2: "get_by_index (StreamIndex rt) rh ?s2 = Ok (ts_read_handle t, SfBusy)"
      using put_by_index_same [OF g(2) p] by (subst get_by_index_cong [of _ s1]) simp_all
    have comp: "cs_component ?s2 = cs_component (so_state st)" using ts by simp
    show thesis
    proof (rule guest_write_meets [of c wo wt wh "st\<lparr>so_state := ?s2\<rparr>" "ts_write_handle t" k ?t ?r rt n r j ?w abi wa], goal_cases)
      case (17 st2)
      have "get_by_index (StreamIndex rt) rh (so_state st2) = Ok (ts_read_handle t, SfBusy)"
        using 17(7) [of rh "StreamIndex rt"] distinct_ends [OF g] b2 comp by auto
      moreover have "handles_ok (so_state st) \<Longrightarrow> handles_ok ?s2"
        using handles_ok_put [OF _ p] by (subst handles_ok_cong [of _ s1]) simp_all
      ultimately show thesis
        by (intro that [OF run 17(1)]) (use 17 f h t r j comp in \<open>auto simp: request_def\<close>)
    qed (use async g2 f h t pos j ok r in \<open>auto simp: request_def\<close>)
  qed
qed

lemma write_then_read:
  assumes idle: "idle_stream wt wh rt rh (so_state st)" and inv: "wset_inv (so_state st)"
    and async: "opt_async (cn_options c wo)" "opt_async (cn_options c ro)"
    and pos: "0 < n" "0 < m" and j: "j = min n m" "j \<le> u32_max"
    and ok: "buffer_ok abi (request c (StreamIndex wt) wo (Some abi) wh wa n) j st"
      "buffer_ok abi (request c (StreamIndex rt) ro (Some abi) rh ra m) j st"
  obtains k t w st1 st2 where "guest_write c (StreamIndex wt) wo (Some abi) wh wa n st = (Ok Blocked, st1)"
    "guest_read c (StreamIndex rt) ro (Some abi) rh ra m st1 = (Ok (Completed j), st2)"
    "so_memories st2 = buffer_filled (request c (StreamIndex rt) ro (Some abi) rh ra m)
      (buffer_bytes abi (request c (StreamIndex wt) wo (Some abi) wh wa n) j st) st"
    "handle_state (so_state st2) (ts_write_handle t) = Some k" "\<not> ts_done t" "ts_write t = WrOpen" "ts_read t = RdOpen"
    "transmit_at (so_state st2) k = Some (t\<lparr>ts_write := if m < n
       then WrGuestReady (request c (StreamIndex wt) wo (Some abi) wh (wa + j * item_size (cs_component (so_state st)) (StreamIndex rt)) (n - j)) PwContinue
       else WrOpen\<rparr>)"
    "get_by_index (StreamIndex wt) wh (so_state st2) = Ok (ts_write_handle t, SfBusy)"
    "common_at (so_state st2) (WTransmit (ts_write_handle t)) = Some (w\<lparr>wc_event := Some (StreamWrite (Completed j) (Some (wt, wh)))\<rparr>)"
    "wset_inv (so_state st2)" "handles_ok (so_state st) \<Longrightarrow> handles_ok (so_state st2)"
proof -
  let ?r = "request c (StreamIndex rt) ro (Some abi) rh ra m" and ?w = "request c (StreamIndex wt) wo (Some abi) wh wa n"
  from idle obtain k t w r where t: "transmit_at (so_state st) k = Some t" "ts_write t = WrOpen" "ts_read t = RdOpen" "\<not> ts_done t"
    and h: "handle_state (so_state st) (ts_write_handle t) = Some k" "handle_state (so_state st) (ts_read_handle t) = Some k"
    and g: "get_by_index (StreamIndex wt) wh (so_state st) = Ok (ts_write_handle t, SfWrite False)"
      "get_by_index (StreamIndex rt) rh (so_state st) = Ok (ts_read_handle t, SfRead False)"
    and w: "common_at (so_state st) (WTransmit (ts_write_handle t)) = Some w" "wc_event w = None"
    unfolding idle_stream_def by blast
  show thesis
  proof (rule guest_write_waits [OF async(1) g(1) h(1) t(1) t(4,2,3), of "Some abi" wa n])
    fix s1 ts let ?t = "t\<lparr>ts_write := WrGuestReady ?w PwContinue\<rparr>" let ?s2 = "cs_put k (ObjTransmitState ?t) s1"
    assume p: "put_by_index (StreamIndex wt) wh SfBusy (so_state st) = (Ok (), s1)" and ts: "s1 = (so_state st)\<lparr>cs_waitable_tables := ts\<rparr>"
      and run: "guest_write c (StreamIndex wt) wo (Some abi) wh wa n st = (Ok Blocked, st\<lparr>so_state := ?s2\<rparr>)"
    note f = wait_frame [OF inv t(1) ts, of ?t]
    have g2: "get_by_index (StreamIndex rt) rh ?s2 = Ok (ts_read_handle t, SfRead False)"
      using put_by_index_other [OF g(1) p, of rh "StreamIndex rt" k "ObjTransmitState ?t"] distinct_ends [OF g] g(2) by auto
    have b2: "get_by_index (StreamIndex wt) wh ?s2 = Ok (ts_write_handle t, SfBusy)"
      using put_by_index_same [OF g(1) p] by (subst get_by_index_cong [of _ s1]) simp_all
    have comp: "cs_component ?s2 = cs_component (so_state st)" using ts by simp
    show thesis
    proof (rule guest_read_meets [of c ro rt rh "st\<lparr>so_state := ?s2\<rparr>" "ts_read_handle t" k ?t ?w wt m w j ?r abi ra], goal_cases)
      case (17 st2)
      have "get_by_index (StreamIndex wt) wh (so_state st2) = Ok (ts_write_handle t, SfBusy)"
        using 17(7) [of wh "StreamIndex wt"] distinct_ends [OF g] b2 comp by auto
      moreover have "handles_ok (so_state st) \<Longrightarrow> handles_ok ?s2"
        using handles_ok_put [OF _ p] by (subst handles_ok_cong [of _ s1]) simp_all
      ultimately show thesis
        by (intro that [OF run 17(1)]) (use 17 f h t w j comp in \<open>auto simp: request_def\<close>)
    qed (use async g2 f h t pos j ok w in \<open>auto simp: request_def\<close>)
  qed
qed


text \<open>Delivering the event of a stream end makes its handle usable again.\<close>

lemma deliver_stream_put:
  assumes "get_by_index (StreamIndex ty) h s = Ok (rep, SfBusy)"
  shows "deliver_stream (WTransmit rep) ty h new s = put_by_index (StreamIndex ty) h new s"
  using get_by_index_slot [OF assms] assms by (simp add: deliver_stream_def put_by_index_def Let_def)

lemma st_by_rep_same:
  assumes inv: "st_inv tb" and l: "st_lookup tb h = Some (rep, x)"
  shows "st_get_mut_by_rep rep (\<lambda>x. x) tb = (Ok (Some (h, x)), tb)"
proof -
  from st_lookup_cases [OF l] obtain i where i: "h = Suc i" "i < length (st_slots tb)" "st_slots tb ! i = StOccupied rep x" by blast
  then have "st_index_of tb rep = Suc i" using inv l by (auto simp: st_inv_def)
  then have "vec_get (st_reps tb) rep = Some (Suc i)" by (auto simp: st_index_of_def split: option.splits)
  moreover have "(st_slots tb)[i := StOccupied rep x] = st_slots tb" using i list_update_id [of "st_slots tb" i] by simp
  ultimately show ?thesis using i by (simp add: st_get_mut_by_rep_def st_get_mut_by_index_def vec_get_def)
qed

lemma handle_slot:
  assumes "handles_ok s" and "get_by_index ty h s = Ok (rep, x)"
  obtains tb where "vec_get (cs_waitable_tables s) (table_instance (cs_component s) ty) = Some tb" "st_inv tb"
    "st_lookup tb h = Some (rep, waitable_state_of ty x)"
proof -
  from get_by_index_slot [OF assms(2)] obtain tb where
    tb: "vec_get (cs_waitable_tables s) (table_instance (cs_component s) ty) = Some tb"
      "st_get_by_index h tb = Ok (rep, waitable_state_of ty x)"
    by (auto simp: waitables_get_def split: option.splits)
  moreover have "st_inv tb" using assms(1) tb(1) by (auto simp: handles_ok_def list_all_length vec_get_def split: if_splits)
  ultimately show thesis using that by (simp add: st_get_by_index_eq split: option.splits)
qed

text \<open>Getting the event of an end makes its handle usable again; the stream stays as it is.\<close>

lemma delivered:
  assumes ok: "handles_ok s" and g: "get_by_index (StreamIndex ty) h s = Ok (rep, SfBusy)"
    and t: "handle_state s rep = Some k" "transmit_at s k = Some t"
    and e: "common_at s (WTransmit rep) = Some cm" "wc_event cm = Some e"
    and on: "\<And>u. on_delivery (WTransmit rep) e u = deliver_stream (WTransmit rep) ty h new u"
  obtains s' where "deliver_ready (stream_instance (cs_component s) ty) (WTransmit rep) s = (Ok (Some (e, Some (WTransmit rep, h))), s')"
    "get_by_index (StreamIndex ty) h s' = Ok (rep, new)" "handle_state s' rep = Some k" "transmit_at s' k = Some t" "handles_ok s'"
proof -
  let ?s = "put_common (WTransmit rep) (cm\<lparr>wc_event := None\<rparr>) s"
  have m: "common_mut (WTransmit rep) (\<lambda>c. c\<lparr>wc_event := None\<rparr>) s = (Ok cm, ?s)" using e(1) by (rule common_mut_at)
  have st: "same_transmits s ?s" using same_common_mut [of s "WTransmit rep" "\<lambda>c. c\<lparr>wc_event := None\<rparr>"] by (simp only: m snd_conv)
  have f: "cs_waitable_tables ?s = cs_waitable_tables s" "cs_component ?s = cs_component s" by (simp_all add: put_common_def)
  have g1: "get_by_index (StreamIndex ty) h ?s = Ok (rep, SfBusy)" using g get_by_index_cong [OF f] by simp
  have ok1: "handles_ok ?s" using ok handles_ok_cong [OF f(1)] by simp
  from handle_slot [OF ok1 g1] obtain tb where
    tb: "vec_get (cs_waitable_tables ?s) (stream_instance (cs_component ?s) ty) = Some tb" "st_inv tb" "st_lookup tb h = Some (rep, WsStream ty SfBusy)"
    by auto
  have "(cs_waitable_tables ?s)[stream_instance (cs_component ?s) ty := tb] = cs_waitable_tables ?s"
    using tb(1) list_update_id [of "cs_waitable_tables ?s"] by (auto simp: vec_get_def split: if_splits)
  then have r: "in_waitables (stream_instance (cs_component ?s) ty) (st_get_mut_by_rep rep (\<lambda>x. x)) ?s = (Ok (Some (h, WsStream ty SfBusy)), ?s)"
    using tb(1) st_by_rep_same [OF tb(2,3)] by (simp add: in_waitables_def)
  show thesis
  proof (rule put_by_index_spec [OF g1, of new])
    fix s' assume s': "put_by_index (StreamIndex ty) h new ?s = (Ok (), s')" "get_by_index (StreamIndex ty) h s' = Ok (rep, new)"
      "\<exists>ts. s' = ?s\<lparr>cs_waitable_tables := ts\<rparr>"
    have "handle_state ?s = handle_state s" "transmit_at ?s = transmit_at s" using st by (simp_all add: same_transmits_def)
    then have "handle_state s' rep = Some k" "transmit_at s' k = Some t" using s'(3) t by auto
    moreover have "deliver_ready (stream_instance (cs_component s) ty) (WTransmit rep) s = (Ok (Some (e, Some (WTransmit rep, h))), s')"
      using m r e(2) on deliver_stream_put [OF g1] s'(1) f(2) by (simp add: deliver_ready_def)
    ultimately show thesis using that s'(2) handles_ok_put [OF ok1 s'(1)] by blast
  qed
qed

lemma guest_read_twice:
  assumes a: "opt_async (cn_options c oi)" and g: "get_by_index ty h (so_state st) = Ok (rep, SfRead False)"
    and hs: "handle_state (so_state st) rep = Some k" and t: "transmit_at (so_state st) k = Some t"
    and busy: "\<not> ts_done t" "ts_write t = WrOpen" "ts_read t \<noteq> RdOpen"
  shows "fst (guest_read c ty oi flat h address n st) = Panic ''assertion failed: matches!(&transmit.read, ReadState::Open)''"
proof (rule put_by_index_spec [OF g, of SfBusy])
  fix s1 assume s1: "put_by_index ty h SfBusy (so_state st) = (Ok (), s1)" "\<exists>ts. s1 = (so_state st)\<lparr>cs_waitable_tables := ts\<rparr>"
  then obtain ts where ts: "s1 = (so_state st)\<lparr>cs_waitable_tables := ts\<rparr>" by blast
  have o: "handle_state s1 rep = Some k" "transmit_at s1 k = Some t" using hs t ts by simp_all
  from handle_get [OF o] obtain hd where hd: "get_transmit_handle rep s1 = Ok hd" "th_state hd = k" "get_transmit_state k s1 = Ok t" by blast
  have o1: "obj_at s1 k = Some (ObjTransmitState t)" using o by (simp add: transmit_at_Some)
  then show ?thesis using a g s1(1) hd busy
    by (simp add: guest_read_def Let_def on_state_def put_transmit_def discard_def guest_read_writer_def set_guest_read_def)
qed

lemma drop_writable_busy:
  assumes g: "get_by_index ty h (so_state st) = Ok (rep, SfWrite d)"
    and hs: "handle_state (so_state st) rep = Some k" and t: "transmit_at (so_state st) k = Some t"
    and busy: "ts_write t = WrGuestReady p post" and ok: "handles_ok (so_state st)"
  shows "fst (guest_drop_writable c ty h st) = Panic ''can not call host_drop_writer on a guest-owned writer''"
proof -
  let ?i = "table_instance (cs_component (so_state st)) ty"
  from handle_slot [OF ok g] obtain tb where tb: "vec_get (cs_waitable_tables (so_state st)) ?i = Some tb" "st_inv tb"
    "st_lookup tb h = Some (rep, waitable_state_of ty (SfWrite d))" by blast
  from st_remove_live [OF tb(2,3)] obtain tb' where
    rm: "st_remove_by_index h tb = (Ok (rep, waitable_state_of ty (SfWrite d)), tb')" by blast
  let ?s = "(so_state st)\<lparr>cs_waitable_tables := (cs_waitable_tables (so_state st))[?i := tb']\<rparr>"
  have r: "remove_handle ty h (so_state st) = (Ok (rep, ty, SfWrite d), ?s)"
    using tb rm by (cases ty) (simp_all add: remove_handle_def in_waitables_def)
  have o: "handle_state ?s rep = Some k" "transmit_at ?s k = Some t" using hs t by simp_all
  from handle_get [OF o] obtain hd where hd: "get_transmit_handle rep ?s = Ok hd" "th_state hd = k" "get_transmit_state k ?s = Ok t" by blast
  have o1: "obj_at ?s k = Some (ObjTransmitState t)" using o by (simp add: transmit_at_Some)
  show ?thesis using r hd o1 busy
    by (cases "ts_writer_watcher t")
       (simp_all add: guest_drop_writable_def on_state_def host_drop_writer_def wake_watcher_def put_transmit_def discard_def drop_writer_state_def)
qed


section \<open>An example\<close>

definition example_canon :: canon where
  "example_canon = \<lparr>cn_options = \<lambda>_. \<lparr>opt_async = True, opt_memory = Some 0, opt_string_encoding = Utf8\<rparr>,
     cn_load = \<lambda>_ _ _ st. (Ok 0, st), cn_store = \<lambda>_ _ _ _ st. (Ok (), st),
     cn_lower_list = \<lambda>_ _ _ _ _ st. (Ok (), st), cn_lift_list = \<lambda>_ _ _ _ _ st. (Ok [], st), cn_unit = 0\<rparr>"

definition example_store :: store where
  "example_store = \<lparr>so_state = snd (stream_new 0 (concurrent_state_new example_component)),
     so_memories = \<lambda>_. replicate 16 7, so_channels = 0, so_sent = \<lambda>_. None, so_woken = []\<rparr>"

lemma example_canon_keeps: "canon_keeps example_canon"
  by (simp add: canon_keeps_def example_canon_def)

lemma example_store_eq:
  "stream_new 0 (concurrent_state_new example_component) = (Ok \<lparr>rp_write = 2, rp_read = 1\<rparr>, so_state example_store)"
  "cs_table (so_state example_store) = \<lparr>tb_entries =
   [TOccupied \<lparr>te_entry = Boxed (ObjTransmitState (transmit_state_default\<lparr>ts_write_handle := 1, ts_read_handle := 2\<rparr>)),
      te_parent = None, te_children = {}\<rparr>,
    TOccupied \<lparr>te_entry = Boxed (ObjTransmitHandle (transmit_handle_new 0)), te_parent = None, te_children = {}\<rparr>,
    TOccupied \<lparr>te_entry = Boxed (ObjTransmitHandle (transmit_handle_new 0)), te_parent = None, te_children = {}\<rparr>],
   tb_free_head = None, tb_debug = False\<rparr>"
  "cs_waitable_tables (so_state example_store) = [\<lparr>st_next = 2,
     st_slots = [StOccupied 2 (WsStream 0 (SfRead False)), StOccupied 1 (WsStream 0 (SfWrite False))], st_reps = [0, 2, 1]\<rparr>]"
  "cs_component (so_state example_store) = example_component"
  by (simp_all add: example_store_def stream_new_def guest_new_def new_transmit_def state_table_insert_def table_eval st_eval
      example_component_def)

lemma example_store_reach: "transmit_reach example_canon example_store"
proof -
  let ?st = "example_store\<lparr>so_state := concurrent_state_new example_component\<rparr>"
  have "transmit_reach example_canon ?st" by (rule tr_init) simp
  from tr_new [OF this, of "StreamIndex 0"] show ?thesis
    using example_store_eq(1) by (simp add: stream_new_def)
qed

lemma new_transmit_wset:
  assumes "wset_inv s" and "new_transmit s = (Ok p, s')"
  shows "wset_inv s'"
proof -
  from assms(2) obtain k w r s1 s2 s3 t where n: "cs_push (ObjTransmitState transmit_state_default) s = (Ok k, s1)"
    "cs_push (ObjTransmitHandle (transmit_handle_new k)) s1 = (Ok w, s2)" "cs_push (ObjTransmitHandle (transmit_handle_new k)) s2 = (Ok r, s3)"
    "mut_transmit_state k (\<lambda>t. t\<lparr>ts_write_handle := w, ts_read_handle := r\<rparr>) s3 = (Ok t, s')"
    by (auto simp: new_transmit_def elim!: and_then_OkE)
  have "wset_inv s1" using assms(1) _ n(1) by (rule wset_inv_push) (simp add: fresh_obj_def)
  then have "wset_inv s2" using _ n(2) by (rule wset_inv_push) (simp add: fresh_obj_def default_defs)
  then have i: "wset_inv s3" using _ n(3) by (rule wset_inv_push) (simp add: fresh_obj_def default_defs)
  from n(4) obtain u where u: "obj_at s3 k = Some (ObjTransmitState u)"
    "s' = cs_put k (ObjTransmitState (u\<lparr>ts_write_handle := w, ts_read_handle := r\<rparr>)) s3"
    by (auto simp: cs_get_mut_eq cs_get_Ok split: outcome.splits elim!: as_transmit_state.elims)
  show ?thesis unfolding u(2) using i u(1) by (rule wset_inv_inert) simp
qed

lemma example_store_wset: "wset_inv (so_state example_store)"
proof -
  have "wset_inv (snd (new_transmit (concurrent_state_new example_component)))"
    using new_transmit_wset [OF wset_inv_new] by (simp add: new_transmit_def table_eval)
  then show ?thesis
    by (rule wset_inv_table [THEN iffD2, rotated -1]) (simp add: example_store_eq new_transmit_def table_eval)
qed

lemma example_views:
  "transmit_at (so_state example_store) 0 = Some (transmit_state_default\<lparr>ts_write_handle := 1, ts_read_handle := 2\<rparr>)"
  "handle_state (so_state example_store) 1 = Some 0" "handle_state (so_state example_store) 2 = Some 0"
  "common_at (so_state example_store) (WTransmit 1) = Some waitable_common_default"
  "common_at (so_state example_store) (WTransmit 2) = Some waitable_common_default"
  "get_by_index (StreamIndex 0) 2 (so_state example_store) = Ok (1, SfWrite False)"
  "get_by_index (StreamIndex 0) 1 (so_state example_store) = Ok (2, SfRead False)"
  by (simp_all add: transmit_views view_eval example_store_eq default_defs get_by_index_def waitables_get_def
      example_component_def st_get_by_index_def st_slot_at_def st_table_index_def u32_checked_sub_def)

lemma example_idle: "idle_stream 0 2 0 1 (so_state example_store)"
  unfolding idle_stream_def
  by (rule exI [of _ 0], rule exI [of _ "transmit_state_default\<lparr>ts_write_handle := 1, ts_read_handle := 2\<rparr>"])
     (simp add: example_views [simplified] transmit_state_default_def waitable_common_default_def)

lemma handles_ok_insert:
  assumes ok: "handles_ok s" and ins: "state_table_insert ty rep x s = (Ok r, s')"
  shows "handles_ok s'"
proof (cases "vec_get (cs_waitable_tables s) (table_instance (cs_component s) ty)")
  case None
  with ok ins show ?thesis by (simp add: state_table_insert_def in_waitables_def)
next
  case (Some tb)
  have "st_inv tb" using ok Some by (auto simp: handles_ok_def list_all_length vec_get_def split: if_splits)
  then have "st_inv tb'" if "st_insert rep (waitable_state_of ty x) tb = (Ok r, tb')" for tb'
    using that by (cases rule: st_insert_cases [where rep = rep and s = "waitable_state_of ty x"]) auto
  with ok ins Some show ?thesis
    by (auto simp: state_table_insert_def in_waitables_def handles_ok_def list_all_length nth_update_if split: prod.splits)
qed

lemma handles_ok_new:
  assumes ok: "handles_ok s" and new: "guest_new ty s = (Ok p, s')"
  shows "handles_ok s'"
proof -
  from new obtain w r s1 r' s2 w' where n: "new_transmit s = (Ok (w, r), s1)"
    "state_table_insert ty r (SfRead False) s1 = (Ok r', s2)" "state_table_insert ty w (SfWrite False) s2 = (Ok w', s')"
    by (auto simp: guest_new_def elim!: and_then_OkE)
  have "cs_waitable_tables s1 = cs_waitable_tables s" using n(1)
    by (auto simp: new_transmit_def cs_push_def cs_get_mut_def elim!: and_then_OkE split: prod.splits)
  with ok have "handles_ok s1" using handles_ok_cong by blast
  with n(2,3) handles_ok_insert show ?thesis by blast
qed

lemma example_handles: "handles_ok (so_state example_store)"
proof -
  have "handles_ok (concurrent_state_new example_component)" by (simp add: handles_ok_def concurrent_state_new_def list_all_length)
  then show ?thesis using example_store_eq(1) unfolding stream_new_def by (rule handles_ok_new)
qed


text \<open>A run in which a stream is deleted while its write end is ready in a set.\<close>

definition stale_joined :: concurrent_state where
  "stale_joined = snd (waitable_join 0 3 1 (snd (stream_new 0 (snd (waitable_set_new 0
     (snd (cs_push (ObjGuestTask example_task) (concurrent_state_new example_component))))))))"

definition stale_read :: store where
  "stale_read = snd (stream_drop_readable example_canon 0 2 (example_store\<lparr>so_state := stale_joined\<rparr>))"

definition stale_dropped :: store where
  "stale_dropped = snd (stream_drop_writable example_canon 0 3 stale_read)"

definition stale_new :: concurrent_state where
  "stale_new = snd (stream_new 0 (so_state stale_dropped))"

lemmas new_eval = stream_new_def guest_new_def new_transmit_def
  state_table_insert_def waitables_get_def st_get_by_index_def default_defs discard_def 
lemmas run_eval = table_eval st_eval new_eval

abbreviation occupied_by :: "obj \<Rightarrow> nat option \<Rightarrow> nat set \<Rightarrow> obj table_slot" where
  "occupied_by x p cs \<equiv> TOccupied \<lparr>te_entry = Boxed x, te_parent = p, te_children = cs\<rparr>"

lemma stale_joined_eq: 
  "cs_table stale_joined = \<lparr>tb_entries = [occupied_by (ObjGuestTask example_task) None {},
     occupied_by (ObjWaitableSet waitable_set_default) None {3},
     occupied_by (ObjTransmitState (transmit_state_default\<lparr>ts_write_handle := 3, ts_read_handle := 4\<rparr>)) None {},
     occupied_by (ObjTransmitHandle \<lparr>th_common = \<lparr>wc_event = None, wc_set = Some 1\<rparr>, th_state = 2\<rparr>) (Some 1) {},
     occupied_by (ObjTransmitHandle (transmit_handle_new 2)) None {}], tb_free_head = None, tb_debug = False\<rparr>"
  "cs_waitable_tables stale_joined = [\<lparr>st_next = 3, st_slots = [StOccupied 1 WsSet, StOccupied 4 (WsStream 0 (SfRead False)), StOccupied 3 (WsStream 0 (SfWrite False))],
     st_reps = [0, 1, 0, 3, 2]\<rparr>]"
  "cs_component stale_joined = example_component"
  by (simp_all add: stale_joined_def run_eval example_component_def waitable_set_new_def waitable_join_def from_instance_def waitable_set_handle_def join_def)

lemma stale_read_eq: 
  "fst (stream_drop_readable example_canon 0 2 (example_store\<lparr>so_state := stale_joined\<rparr>)) = Ok ()"
  "cs_table (so_state stale_read) = \<lparr>tb_entries = [occupied_by (ObjGuestTask example_task) None {},
     occupied_by (ObjWaitableSet \<lparr>ws_ready = {WTransmit 3}, ws_waiting = []\<rparr>) None {3},
     occupied_by (ObjTransmitState (transmit_state_default\<lparr>ts_write_handle := 3, ts_read_handle := 4, ts_read := RdDropped\<rparr>)) None {},
     occupied_by (ObjTransmitHandle \<lparr>th_common = \<lparr>wc_event = Some (StreamWrite (Dropped 0) None), wc_set = Some 1\<rparr>, th_state = 2\<rparr>) (Some 1) {},
     occupied_by (ObjTransmitHandle (transmit_handle_new 2)) None {}], tb_free_head = None, tb_debug = False\<rparr>"
  "cs_waitable_tables (so_state stale_read) = [\<lparr>st_next = 1, st_slots = [StOccupied 1 WsSet, StFree 3, StOccupied 3 (WsStream 0 (SfWrite False))],
     st_reps = [0, 1, 0, 3, 0]\<rparr>]"
  "cs_component (so_state stale_read) = example_component"
  by (simp_all add: stale_read_def run_eval stale_joined_eq example_component_def stream_drop_readable_def guest_drop_readable_def on_state_def
   remove_handle_def st_remove_by_index_def host_drop_reader_def put_transmit_def wake_watcher_def 
   transmit_state_default_def update_event_def transmit_take_event_def transmit_set_event_def take_event_def set_event_def mark_ready_def)

lemma stale_dropped_eq:
  "fst (stream_drop_writable example_canon 0 3 stale_read) = Ok ()"
  "cs_table (so_state stale_dropped) = \<lparr>tb_entries = [occupied_by (ObjGuestTask example_task) None {},
     occupied_by (ObjWaitableSet \<lparr>ws_ready = {WTransmit 3}, ws_waiting = []\<rparr>) None {},
     TFree None, TFree (Some 2), TFree (Some 3)], tb_free_head = Some 4, tb_debug = False\<rparr>"
  "cs_waitable_tables (so_state stale_dropped) = [\<lparr>st_next = 2, st_slots = [StOccupied 1 WsSet, StFree 3, StFree 1], st_reps = [0, 1, 0, 0, 0]\<rparr>]"
  "cs_component (so_state stale_dropped) = example_component"
  by (simp_all add: stale_dropped_def run_eval stale_read_eq example_component_def stream_drop_writable_def guest_drop_writable_def on_state_def
   remove_handle_def st_remove_by_index_def host_drop_writer_def put_transmit_def wake_watcher_def drop_writer_state_def
   transmit_state_default_def delete_transmit_def cs_delete_def table_delete_def table_delete_entry_def table_free_entry_def)

lemma stale_new_eq:
  "fst (stream_new 0 (so_state stale_dropped)) = Ok \<lparr>rp_write = 2, rp_read = 3\<rparr>"
  "cs_table stale_new = \<lparr>tb_entries = [occupied_by (ObjGuestTask example_task) None {},
     occupied_by (ObjWaitableSet \<lparr>ws_ready = {WTransmit 3}, ws_waiting = []\<rparr>) None {},
     occupied_by (ObjTransmitHandle (transmit_handle_new 4)) None {},
     occupied_by (ObjTransmitHandle (transmit_handle_new 4)) None {},
     occupied_by (ObjTransmitState (transmit_state_default\<lparr>ts_write_handle := 3, ts_read_handle := 2\<rparr>)) None {}],
     tb_free_head = None, tb_debug = False\<rparr>"
  by (simp_all add: stale_new_def run_eval stale_dropped_eq example_component_def)


section \<open>Properties\<close>

text \<open>
  C28: In every reachable store a transmit and the handles of its two ends point at
  each other: the handles of a live transmit are exactly its write handle and its
  read handle, and those are distinct.
\<close>

theorem transmit_ends_linked:
  assumes "canon_keeps c" and "transmit_reach c st" and "transmit_at (so_state st) k = Some t"
  shows "{h. handle_state (so_state st) h = Some k} = {ts_write_handle t, ts_read_handle t} \<and>
    ts_write_handle t \<noteq> ts_read_handle t"
proof -
  note l = transmit_invD(3) [OF transmit_reach_inv [OF assms(1,2)]]
  have "h = ts_write_handle t \<or> h = ts_read_handle t" if "handle_state (so_state st) h = Some k" for h
    using linked_handle [OF l that] assms(3) by (metis option.inject)
  with linkedD [OF l assms(3)] show ?thesis by blast
qed

theorem transmit_ends_linked_witness:
  "{h. handle_state (so_state example_store) h = Some 0} = {1, 2}"
  using transmit_ends_linked [OF example_canon_keeps example_store_reach example_views(1)]
  by (simp add: transmit_state_default_def)

text \<open>
  C29: In every reachable store at most one end of a transmit waits for the other:
  while a write is pending the read end is open and idle, and while a read is
  pending the write end is.  So the second operation always finds the first and
  completes it, and none can wait for ever on an operation that waits on it.
\<close>

theorem one_end_pending:
  assumes "canon_keeps c" and "transmit_reach c st" and "transmit_at (so_state st) k = Some t"
  shows "(write_pending (ts_write t) \<longrightarrow> ts_read t = RdOpen) \<and> (read_pending (ts_read t) \<longrightarrow> ts_write t = WrOpen)"
  using transmit_invD(4) [OF transmit_reach_inv [OF assms(1,2)] assms(3)] by (simp add: ends_ok_def)

lemma example_waits:
  obtains s1 ts where "s1 = (so_state example_store)\<lparr>cs_waitable_tables := ts\<rparr>"
    "guest_read example_canon (StreamIndex 0) 0 None 1 4 2 example_store = (Ok Blocked, example_store\<lparr>so_state := cs_put 0 (ObjTransmitState
       (transmit_state_default\<lparr>ts_write_handle := 1, ts_read_handle := 2,
          ts_read := RdGuestReady (request example_canon (StreamIndex 0) 0 None 1 4 2)\<rparr>)) s1\<rparr>)"
proof -
  let ?t = "transmit_state_default\<lparr>ts_write_handle := 1, ts_read_handle := 2\<rparr>"
  have a: "opt_async (cn_options example_canon 0)" "\<not> ts_done ?t" "ts_write ?t = WrOpen" "ts_read ?t = RdOpen"
    by (simp_all add: example_canon_def transmit_state_default_def)
  show thesis by (rule guest_read_waits [OF a(1) example_views(7,3,1) a(2-4), of None 4 2]) (rule that, simp_all)
qed

theorem one_end_pending_witness:
  "\<exists>st t. transmit_reach example_canon st \<and> transmit_at (so_state st) 0 = Some t \<and> read_pending (ts_read t) \<and> ts_write t = WrOpen"
proof (rule example_waits)
  fix s1 ts let ?t = "transmit_state_default\<lparr>ts_write_handle := 1, ts_read_handle := 2,
    ts_read := RdGuestReady (request example_canon (StreamIndex 0) 0 None 1 4 2)\<rparr>"
  let ?st = "example_store\<lparr>so_state := cs_put 0 (ObjTransmitState ?t) s1\<rparr>"
  assume s1: "s1 = (so_state example_store)\<lparr>cs_waitable_tables := ts\<rparr>"
    and "guest_read example_canon (StreamIndex 0) 0 None 1 4 2 example_store = (Ok Blocked, ?st)"
  from example_store_reach this(2) have r: "transmit_reach example_canon ?st" by (rule tr_guest_read)
  have "transmit_at s1 0 = Some (transmit_state_default\<lparr>ts_write_handle := 1, ts_read_handle := 2\<rparr>)"
    using example_views(1) s1 by simp
  then have t: "transmit_at (so_state ?st) 0 = Some ?t" using transmit_put by simp
  from one_end_pending [OF example_canon_keeps r t] r t show ?thesis by (intro exI [of _ ?st] exI [of _ ?t]) simp
qed

text \<open>
  C30: It does not matter which end of a stream comes first.  A write of n items
  that meets a pending read of m, and a read of m that meets a pending write of n,
  both complete with the smaller of the two counts and both leave the same
  memories: the first bytes of the writer's buffer, that many items, are at the
  start of the reader's buffer, and nothing else has changed.
\<close>

theorem rendezvous_order:
  assumes "idle_stream wt wh rt rh (so_state st)" and "wset_inv (so_state st)"
    and "opt_async (cn_options c wo)" and "opt_async (cn_options c ro)"
    and "0 < n" and "0 < m" and "min n m \<le> u32_max"
    and "buffer_ok abi (request c (StreamIndex wt) wo (Some abi) wh wa n) (min n m) st"
    and "buffer_ok abi (request c (StreamIndex rt) ro (Some abi) rh ra m) (min n m) st"
  shows "\<exists>a b a' b'. guest_read c (StreamIndex rt) ro (Some abi) rh ra m st = (Ok Blocked, a) \<and>
      guest_write c (StreamIndex wt) wo (Some abi) wh wa n a = (Ok (Completed (min n m)), b) \<and>
      guest_write c (StreamIndex wt) wo (Some abi) wh wa n st = (Ok Blocked, a') \<and>
      guest_read c (StreamIndex rt) ro (Some abi) rh ra m a' = (Ok (Completed (min n m)), b') \<and>
      so_memories b = so_memories b' \<and>
      so_memories b = buffer_filled (request c (StreamIndex rt) ro (Some abi) rh ra m)
        (buffer_bytes abi (request c (StreamIndex wt) wo (Some abi) wh wa n) (min n m) st) st"
  by (rule read_then_write [OF assms(1-6) refl assms(7-9)], rule write_then_read [OF assms(1-6) refl assms(7-9)]) auto

lemma example_buffer:
  "address + n \<le> 16 \<Longrightarrow> buffer_ok \<lparr>fa_size = 1, fa_align = 1\<rparr>
     (request example_canon ty oi (Some \<lparr>fa_size = 1, fa_align = 1\<rparr>) h address m) n example_store"
  by (simp add: buffer_ok_def request_def example_canon_def example_store_def)

theorem rendezvous_order_witness:
  "\<exists>a b a' b'. guest_read example_canon (StreamIndex 0) 0 (Some \<lparr>fa_size = 1, fa_align = 1\<rparr>) 1 8 3 example_store = (Ok Blocked, a) \<and>
     guest_write example_canon (StreamIndex 0) 0 (Some \<lparr>fa_size = 1, fa_align = 1\<rparr>) 2 0 2 a = (Ok (Completed 2), b) \<and>
     guest_write example_canon (StreamIndex 0) 0 (Some \<lparr>fa_size = 1, fa_align = 1\<rparr>) 2 0 2 example_store = (Ok Blocked, a') \<and>
     guest_read example_canon (StreamIndex 0) 0 (Some \<lparr>fa_size = 1, fa_align = 1\<rparr>) 1 8 3 a' = (Ok (Completed 2), b') \<and>
     so_memories b = so_memories b'"
proof -
  let ?abi = "\<lparr>fa_size = 1, fa_align = 1\<rparr>"
  have a: "opt_async (cn_options example_canon 0)" by (simp add: example_canon_def)
  have b: "buffer_ok ?abi (request example_canon (StreamIndex 0) 0 (Some ?abi) 2 0 2) (min 2 3) example_store"
    "buffer_ok ?abi (request example_canon (StreamIndex 0) 0 (Some ?abi) 1 8 3) (min 2 3) example_store"
    by (rule example_buffer, simp)+
  have "min 2 3 = (2::nat)" "(2::nat) \<le> u32_max" by (simp_all add: u32_max_def)
  with rendezvous_order [OF example_idle example_store_wset a a _ _ _ b] show ?thesis by auto
qed


text \<open>
  C31: A read that was only partly served cannot be followed by another read.  After
  a read of m items, a write of n < m, and the delivery of the read's event, the
  handle is free again but the rest of the first read is still pending, and the
  next read of that end fails an assertion of the host, whatever it asks for.
\<close>

theorem partial_read_then_read_panics:
  assumes "idle_stream wt wh rt rh (so_state st)" and "wset_inv (so_state st)" and "handles_ok (so_state st)"
    and "opt_async (cn_options c wo)" and "opt_async (cn_options c ro)"
    and "0 < n" and "n < m" and "n \<le> u32_max"
    and "buffer_ok abi (request c (StreamIndex wt) wo (Some abi) wh wa n) n st"
    and "buffer_ok abi (request c (StreamIndex rt) ro (Some abi) rh ra m) n st"
  shows "\<exists>a b rep e s. guest_read c (StreamIndex rt) ro (Some abi) rh ra m st = (Ok Blocked, a) \<and>
      guest_write c (StreamIndex wt) wo (Some abi) wh wa n a = (Ok (Completed n), b) \<and>
      deliver_ready (stream_instance (cs_component (so_state b)) rt) (WTransmit rep) (so_state b) =
        (Ok (Some (StreamRead (Completed n) e, Some (WTransmit rep, rh))), s) \<and>
      (\<forall>ra' m'. fst (guest_read c (StreamIndex rt) ro (Some abi) rh ra' m' (b\<lparr>so_state := s\<rparr>)) =
         Panic ''assertion failed: matches!(&transmit.read, ReadState::Open)'')"
proof -
  have mn: "min n m = n" "0 < m" using assms(6,7) by auto
  show ?thesis
  proof (rule read_then_write [OF assms(1,2,4,5,6) mn(2) mn(1) [symmetric] assms(8-10)], goal_cases)
    case (1 k t r a b)
    let ?t = "t\<lparr>ts_read := RdGuestReady (request c (StreamIndex rt) ro (Some abi) rh
      (ra + n * item_size (cs_component (so_state st)) (StreamIndex wt)) (m - n))\<rparr>"
    have tb: "transmit_at (so_state b) k = Some ?t" using 1(8) assms(7) by simp
    show ?case
    proof (rule delivered [OF 1(12) [OF assms(3)] 1(9) 1(4) tb 1(10), where new = "SfRead False" and e = "StreamRead (Completed n) (Some (rt, rh))"], goal_cases)
      case (3 s)
      have "fst (guest_read c (StreamIndex rt) ro (Some abi) rh ra' m' (b\<lparr>so_state := s\<rparr>)) =
         Panic ''assertion failed: matches!(&transmit.read, ReadState::Open)''" for ra' m'
        by (rule guest_read_twice [OF assms(5), where k = k and t = ?t]) (use 3 1(5,6) in simp_all)
      with 1(1,2) 3(1) show ?case by blast
    qed simp_all
  qed
qed

theorem partial_read_then_read_panics_witness:
  "\<exists>a b rep e s. guest_read example_canon (StreamIndex 0) 0 (Some \<lparr>fa_size = 1, fa_align = 1\<rparr>) 1 8 3 example_store = (Ok Blocked, a) \<and>
     guest_write example_canon (StreamIndex 0) 0 (Some \<lparr>fa_size = 1, fa_align = 1\<rparr>) 2 0 2 a = (Ok (Completed 2), b) \<and>
     deliver_ready (stream_instance (cs_component (so_state b)) 0) (WTransmit rep) (so_state b) =
       (Ok (Some (StreamRead (Completed 2) e, Some (WTransmit rep, 1))), s) \<and>
     fst (guest_read example_canon (StreamIndex 0) 0 (Some \<lparr>fa_size = 1, fa_align = 1\<rparr>) 1 12 1 (b\<lparr>so_state := s\<rparr>)) =
       Panic ''assertion failed: matches!(&transmit.read, ReadState::Open)''"
proof -
  have a: "opt_async (cn_options example_canon 0)" by (simp add: example_canon_def)
  have "(0::nat) < 2" "(2::nat) < 3" "(2::nat) \<le> u32_max" "(0::nat) + 2 \<le> 16" "(8::nat) + 2 \<le> 16" by (simp_all add: u32_max_def)
  note n = this
  from partial_read_then_read_panics [OF example_idle example_store_wset example_handles a a n(1-3) example_buffer [OF n(4)] example_buffer [OF n(5)]]
  show ?thesis by blast
qed

text \<open>
  C32: A writer whose write was only partly taken cannot drop its end.  After a write
  of n items, a read of m < n, and the delivery of the write's event, the handle is
  free again but the rest of the write is still pending, and dropping the writable
  end reaches code that the host takes to be unreachable.
\<close>

theorem drop_after_partial_write_panics:
  assumes "idle_stream wt wh rt rh (so_state st)" and "wset_inv (so_state st)" and "handles_ok (so_state st)"
    and "opt_async (cn_options c wo)" and "opt_async (cn_options c ro)"
    and "0 < m" and "m < n" and "m \<le> u32_max"
    and "buffer_ok abi (request c (StreamIndex wt) wo (Some abi) wh wa n) m st"
    and "buffer_ok abi (request c (StreamIndex rt) ro (Some abi) rh ra m) m st"
  shows "\<exists>a b rep e s. guest_write c (StreamIndex wt) wo (Some abi) wh wa n st = (Ok Blocked, a) \<and>
      guest_read c (StreamIndex rt) ro (Some abi) rh ra m a = (Ok (Completed m), b) \<and>
      deliver_ready (stream_instance (cs_component (so_state b)) wt) (WTransmit rep) (so_state b) =
        (Ok (Some (StreamWrite (Completed m) e, Some (WTransmit rep, wh))), s) \<and>
      fst (guest_drop_writable c (StreamIndex wt) wh (b\<lparr>so_state := s\<rparr>)) =
        Panic ''can not call host_drop_writer on a guest-owned writer''"
proof -
  have mn: "min n m = m" "0 < n" using assms(6,7) by auto
  show ?thesis
  proof (rule write_then_read [OF assms(1,2,4,5) mn(2) assms(6) mn(1) [symmetric] assms(8-10)], goal_cases)
    case (1 k t w a b)
    let ?t = "t\<lparr>ts_write := WrGuestReady (request c (StreamIndex wt) wo (Some abi) wh
      (wa + m * item_size (cs_component (so_state st)) (StreamIndex rt)) (n - m)) PwContinue\<rparr>"
    have tb: "transmit_at (so_state b) k = Some ?t" using 1(8) assms(7) by simp
    show ?case
    proof (rule delivered [OF 1(12) [OF assms(3)] 1(9) 1(4) tb 1(10), where new = "SfWrite False" and e = "StreamWrite (Completed m) (Some (wt, wh))"], goal_cases)
      case (3 s)
      have "fst (guest_drop_writable c (StreamIndex wt) wh (b\<lparr>so_state := s\<rparr>)) =
        Panic ''can not call host_drop_writer on a guest-owned writer''"
        by (rule drop_writable_busy [where k = k and t = ?t and d = False]) (use 3 in simp_all)
      with 1(1,2) 3(1) show ?case by blast
    qed simp_all
  qed
qed

theorem drop_after_partial_write_panics_witness:
  "\<exists>a b rep e s. guest_write example_canon (StreamIndex 0) 0 (Some \<lparr>fa_size = 1, fa_align = 1\<rparr>) 2 0 3 example_store = (Ok Blocked, a) \<and>
     guest_read example_canon (StreamIndex 0) 0 (Some \<lparr>fa_size = 1, fa_align = 1\<rparr>) 1 8 2 a = (Ok (Completed 2), b) \<and>
     deliver_ready (stream_instance (cs_component (so_state b)) 0) (WTransmit rep) (so_state b) =
       (Ok (Some (StreamWrite (Completed 2) e, Some (WTransmit rep, 2))), s) \<and>
     fst (guest_drop_writable example_canon (StreamIndex 0) 2 (b\<lparr>so_state := s\<rparr>)) =
       Panic ''can not call host_drop_writer on a guest-owned writer''"
proof -
  have a: "opt_async (cn_options example_canon 0)" by (simp add: example_canon_def)
  have "(0::nat) < 2" "(2::nat) < 3" "(2::nat) \<le> u32_max" "(0::nat) + 2 \<le> 16" "(8::nat) + 2 \<le> 16" by (simp_all add: u32_max_def)
  note n = this
  from drop_after_partial_write_panics [OF example_idle example_store_wset example_handles a a n(1-3) example_buffer [OF n(4)] example_buffer [OF n(5)]]
  show ?thesis by blast
qed


text \<open>
  C33: Deleting a stream leaves its handles in the ready set of the waitable set they
  belong to.  A task makes a waitable set and a stream, joins the write end to the
  set, drops the read end, which makes the write end ready, drops the write end,
  which deletes the stream, and makes another stream; every call returns normally.
  The new write end gets the entry of the old one, so the stale element of the
  ready set names it, and the next look for an event of the set panics.
\<close>

theorem stale_ready_panics:
  "\<exists>s1 s2 s3 s4 st5 st6 s7.
     cs_push (ObjGuestTask example_task) (concurrent_state_new example_component) = (Ok 0, s1) \<and>
     waitable_set_new 0 s1 = (Ok 1, s2) \<and>
     stream_new 0 s2 = (Ok \<lparr>rp_write = 3, rp_read = 2\<rparr>, s3) \<and>
     waitable_join 0 3 1 s3 = (Ok (), s4) \<and>
     stream_drop_readable example_canon 0 2 (example_store\<lparr>so_state := s4\<rparr>) = (Ok (), st5) \<and>
     stream_drop_writable example_canon 0 3 st5 = (Ok (), st6) \<and>
     stream_new 0 (so_state st6) = (Ok \<lparr>rp_write = 2, rp_read = 3\<rparr>, s7) \<and>
     fst (get_event 0 0 (Some 1) s7) = Panic ''unwrap on None''"
proof -
  let ?s1 = "snd (cs_push (ObjGuestTask example_task) (concurrent_state_new example_component))"
  let ?s2 = "snd (waitable_set_new 0 ?s1)" let ?s3 = "snd (stream_new 0 ?s2)"
  have "fst (get_event 0 0 (Some 1) stale_new) = Panic ''unwrap on None''"
    by (simp add: get_event_def stale_new_eq table_eval deliver_ready_def example_task_def default_defs)
  moreover have "cs_push (ObjGuestTask example_task) (concurrent_state_new example_component) = (Ok 0, ?s1)"
    by (simp add: table_eval)
  moreover have "waitable_set_new 0 ?s1 = (Ok 1, ?s2)" by (simp add: run_eval example_component_def waitable_set_new_def)
  moreover have "stream_new 0 ?s2 = (Ok \<lparr>rp_write = 3, rp_read = 2\<rparr>, ?s3)"
    by (simp add: run_eval example_component_def waitable_set_new_def)
  moreover have "waitable_join 0 3 1 ?s3 = (Ok (), stale_joined)"
    by (simp add: stale_joined_def run_eval example_component_def waitable_set_new_def waitable_join_def from_instance_def
        waitable_set_handle_def join_def)
  ultimately show ?thesis
    using stale_read_eq(1) stale_dropped_eq(1) stale_new_eq(1)
    by (metis prod.collapse stale_dropped_def stale_new_def stale_read_def)
qed


end
