(* ===== verification/Loop_Properties.thy ===== *)
theory Loop_Properties
  imports Loop_Runs Transmit_Runs
begin

text \<open>
  The properties of the event loop: what holds in every state it can reach, when
  it reports a deadlock, and runs of whole programs, from the call of an export by
  the host to its result.
\<close>

section \<open>Reachable states\<close>

lemma reach_ok:
  assumes "reach hk l0 l" "canon_frame (hk_canon hk)" "loop_ok l0"
  shows "loop_ok l \<and> (secure l0 \<longrightarrow> secure l)"
  using assms(1)
proof (induction rule: reach.induct)
  case init
  show ?case using assms(3) by blast
next
  case (more l inp l')
  with step_ok [OF assms(2), of l inp l'] show ?case by blast
qed

lemma loop_ok_new [simp]: "loop_ok (event_loop_new c rts mems)"
  by (simp add: loop_ok_def fibers_ok_def event_loop_new_def vm_store_new_def concurrent_state_new_def)

lemma loop_ok_debug [simp]: "loop_ok (enable_concurrent_state_debug b l) = loop_ok l"
  by (simp add: loop_ok_def fibers_ok_def in_flight_def enable_concurrent_state_debug_def)

lemma secure_new: "secure (enable_concurrent_state_debug True (event_loop_new c rts mems))"
proof -
  have "queued_starts (el_state (event_loop_new c rts mems)) = {}"
    by (simp add: queued_starts_def event_loop_new_def vm_store_new_def concurrent_state_new_def instance_state_default_def)
  then show ?thesis
    by (auto simp: secure_def starts_fit_def excl_def inside_def acting_def suspended_acts_def batch_starts_def
        enable_concurrent_state_debug_def event_loop_new_def vm_store_new_def concurrent_state_new_def closed_to_def
        instance_state_default_def unique_ids_def table_enable_debug_def table_new_def queued_starts_def)
qed

section \<open>Evaluating runs\<close>

lemma and_then_weak: "m = m' \<Longrightarrow> and_then m k = and_then m' k"
  by simp

text \<open>The definitions a run unfolds: state and waitables, tasks, and the loop.\<close>

lemmas state_eval =
  table_eval st_eval example_component_def may_enter_def may_enter_from.simps MAX_HANDLE_def st_table_index_def
  st_get_by_index_def table_enable_debug_def table_free_entry_def table_delete_entry_def table_delete_def
  BLOCKED_def status_pack_def cb_EXIT_def cb_YIELD_def cb_WAIT_def cb_POLL_def unpack_callback_code_def
  enter_call_def exit_call_def call_contexts_push_def call_contexts_pop_def waitable_common_default_def
  host_task_new_def call_post_return_automatically_def waitable_set_default_def instance_state_default_def
  cs_delete_def push_high_priority_def push_low_priority_def push_future_def mut_instance_state_def
  mark_ready_def join_def set_event_def take_event_def drop_set_def dispose_def delete_from_def
  deliver_ready_def get_event_def waitable_set_new_def waitable_set_drop_def waitable_set_handle_def
  waitable_join_def started_event_def callback_exit_def callback_yield_def callback_get_set_def
  callback_wait_def callback_wait_or_poll_def handle_callback_code_def is_ready_def enter_instance_def
  partition_pending_def exit_instance_def on_state_def discard_def waitables_get_def call_context_default_def
  new_channel_def from_instance_def Let_def

lemmas task_eval =
  maybe_push_call_context_def maybe_pop_call_context_def suspend_begin_def suspend_end_def guest_task_new_def
  prepare_host_call_def queue_call_def queue_host_call_def check_may_enter_def prepare_call_def
  post_return_arg_set_def end_scope_def task_complete_def take_lift_result_def invalid_return_def
  task_return_def task_cancel_def make_call_begin_def make_call_end_def exclusive_def start_begin_def
  stackless_end_def sync_lifted_end_def stackful_end_def deliver_begin_def deliver_end_def
  waitable_check_begin_def store_payload_def check_deliver_def check_yielded_def waitable_set_check_def
  waitable_set_wait_def waitable_set_poll_def yield_now_def start_call_def take_sync_result_def
  start_call_finish_def start_call_woken_def cancel_finish_def cancel_waited_def cancel_check_def
  cancel_unstarted_def cancel_started_def subtask_cancel_guest_def subtask_cancel_host_def cancel_target_def
  subtask_cancel_def lower_result_def enter_host_def first_poll_output_def first_poll_def call_host_async_def
  block_output_def call_host_return_def block_finish_def poll_and_block_def call_host_sync_def in_state_def
  peek_def upd_state_def on_guest_def on_resources_def set_guest_task_def current_task_def set_may_enter_def
  set_may_leave_def pop_scope_def MAX_FLAT_PARAMS_def MAX_FLAT_RESULTS_def event_handle_def finished_def
  host_value_def

lemmas loop_eval =
  state_eval task_eval fiber_suspends_def finish_item_def handle_guest_call_def run_item_def resume_fiber_def
  take_worker_def run_on_worker_def defer_call_def poll_item_def add_future_def remaining_def poll_futures_def
  take_work_def poll_round_def on_vm_def upd_vm_def on_conc_def upd_conc_def vm_store_new_def event_loop_new_def
  enable_concurrent_state_debug_def guest_continues_def queue_function_def returns_def step_running_def
  step_idle_def step_def

text \<open>
  Hooks that pass values through, and the calls that the
  example runs make.  The host closure 1 lowers a borrow.
\<close>

definition add_borrow :: "resource_tables \<Rightarrow> resource_tables" where
  "add_borrow t = t\<lparr>rts_calls := butlast (rts_calls t) @ [(last (rts_calls t))\<lparr>cc_borrow_count := 1\<rparr>]\<rparr>"

definition example_hooks :: hooks where
  "example_hooks = \<lparr>hk_options = \<lambda>_. \<lparr>co_async = False, co_instance = 0, co_string_encoding = Utf8,
       co_data_model = LinearMemory (Some 0)\<rparr>,
     hk_runtime_memory = \<lambda>m. m,
     hk_lower = \<lambda>f n g. (Ok (replicate n 0), (if f = 1 then add_borrow (fst g) else fst g, snd g)),
     hk_lift = \<lambda>f vs g. (Ok (sum_list vs), g),
     hk_call_raw = \<lambda>f vs g. (Ok vs, g), hk_lift_params = \<lambda>c g. (Ok (), g), hk_lower_result = \<lambda>c v g. (Ok (), g),
     hk_named = \<lambda>n g. (Ok (), g), hk_canon = example_canon\<rparr>"

definition example_call :: "bool \<Rightarrow> nat \<Rightarrow> host_call" where
  "example_call async i = \<lparr>hc_lower = i, hc_lift = 0, hc_remove_task_automatically = True,
     hc_call_post_return_automatically = True, hc_ty = 0, hc_memory = None, hc_string_encoding = Utf8, hc_callback = None,
     hc_instance = i, hc_function_index = 0, hc_callee = 0, hc_param_count = 1, hc_async = async, hc_post_return = None\<rparr>"

definition example_adapter :: "caller_info \<Rightarrow> adapter_call" where
  "example_adapter info = \<lparr>ac_start = 0, ac_return = 1, ac_caller_instance = 0, ac_callee_instance = 1,
     ac_task_return_type = 0, ac_memory = Some 0, ac_string_encoding = Utf8, ac_caller_info = info\<rparr>"

definition example_args :: "bool \<Rightarrow> start_args" where
  "example_args async = \<lparr>sa_callback = (if async then Some 5 else None), sa_post_return = None, sa_callee = 0,
     sa_param_count = 0, sa_result_count = 1, sa_async_callee = async, sa_sync_caller = \<not> async\<rparr>"

definition example_import :: import_call where
  "example_import = \<lparr>ic_function = 0, ic_options = 0\<rparr>"

definition example_loop :: event_loop where
  "example_loop = enable_concurrent_state_debug True (event_loop_new example_component
     \<lparr>rts_guest = None, rts_host = None, rts_calls = []\<rparr> (\<lambda>_. replicate 16 0))"

definition poll :: input where
  "poll = PollRound None NextPending None"

lemmas example_eval = example_hooks_def example_call_def example_adapter_def example_args_def example_import_def
  example_loop_def poll_def add_borrow_def

definition example_batch :: "input list" where
  "example_batch = [HostCalls (example_call False 0), HostCalls (example_call False 0), poll,
     NextItem, GuestCalls (YieldNow False), NextItem]"

lemma example_batch_Ok: "fst (run example_hooks example_batch example_loop) = Ok ()"
  by (simp add: example_batch_def example_eval loop_eval cong: and_then_weak)

lemma example_canon_frame: "canon_frame (hk_canon example_hooks)"
  by (simp add: example_hooks_def example_canon_def canon_frame_def)

lemma Ok_pair: "fst m = Ok () \<Longrightarrow> m = (Ok (), snd m)"
  by (cases m) simp


section \<open>What holds in every run\<close>

text \<open>
  C1: Mutual exclusion.  Whatever guests and the host do, with identifiers that are
  not reused, an instance is marked as one that may not be entered exactly while
  one fiber, running or suspended, runs an export or callback of it that has to run
  alone; otherwise no such fiber exists.
\<close>

theorem mutual_exclusion:
  assumes "canon_frame (hk_canon hk)"
    and "reach hk (enable_concurrent_state_debug True (event_loop_new c rts mems)) l"
  shows "finite (inside (acting l) i) \<and> card (inside (acting l) i) = (if closed_to (el_state l) i then 1 else 0)"
proof -
  have "loop_ok (enable_concurrent_state_debug True (event_loop_new c rts mems))" by simp
  from reach_ok [OF assms(2,1) this] secure_new have "secure l" by blast
  then have "if closed_to (el_state l) i then \<exists>k. inside (acting l) i = {k} else inside (acting l) i = {}"
    by (simp add: secure_def excl_def)
  then show ?thesis by (auto split: if_splits)
qed

theorem mutual_exclusion_witness:
  "\<exists>l. run example_hooks example_batch example_loop = (Ok (), l) \<and> closed_to (el_state l) 0 \<and>
     card (inside (acting l) 0) = 1"
proof -
  let ?l = "snd (run example_hooks example_batch example_loop)"
  have r: "run example_hooks example_batch example_loop = (Ok (), ?l)" by (rule Ok_pair [OF example_batch_Ok])
  then have "reach example_hooks example_loop ?l" by (rule reach_run [OF init])
  then have "card (inside (acting ?l) 0) = (if closed_to (el_state ?l) 0 then 1 else 0)"
    using mutual_exclusion [OF example_canon_frame] unfolding example_loop_def by blast
  moreover have "closed_to (el_state ?l) 0"
    by (simp add: example_batch_def example_eval loop_eval closed_to_def cong: and_then_weak)
  ultimately show ?thesis using r by auto
qed

text \<open>
  C2: The current task is exact.  Between two steps, \<open>guest_task\<close> is the task whose
  code runs, and none when no guest code runs; no reason for suspending and no item
  for a worker is left over; and every fiber that is suspended was suspended on
  behalf of the task it runs, so that the call scopes are popped from, and pushed
  back for, the right task.
\<close>

theorem current_task_exact:
  assumes "canon_frame (hk_canon hk)" and "reach hk (event_loop_new c rts mems) l"
  shows "cs_guest_task (el_state l) = map_option (\<lambda>(fiber, old, act). act_task act) (el_running l) \<and>
     cs_suspend_reason (el_state l) = None \<and> cs_worker_item (el_state l) = None \<and>
     (\<forall>fiber r old pt act. el_fibers l fiber = Some (Suspended r old pt act) \<longrightarrow> reason_task r = Some (act_task act))"
proof -
  from reach_ok [OF assms(2,1)] have l: "loop_ok l" by simp
  have "reason_task r = Some (act_task act)" if "el_fibers l fiber = Some (Suspended r old pt act)" for fiber r old pt act
  proof -
    have "fiber_ok (Suspended r old pt act)" using l that unfolding loop_ok_def fibers_ok_def by blast
    then show ?thesis by simp
  qed
  with l show ?thesis unfolding loop_ok_def fibers_ok_def by blast
qed

definition example_inputs :: "input list" where
  "example_inputs = [HostCalls (example_call False 0), poll, NextItem]"

theorem current_task_exact_witness:
  "\<exists>l. run example_hooks example_inputs (event_loop_new example_component
       \<lparr>rts_guest = None, rts_host = None, rts_calls = []\<rparr> (\<lambda>_. [])) = (Ok (), l) \<and>
     el_running l \<noteq> None \<and> cs_guest_task (el_state l) = map_option (\<lambda>(fiber, old, act). act_task act) (el_running l)"
proof -
  let ?l0 = "event_loop_new example_component \<lparr>rts_guest = None, rts_host = None, rts_calls = []\<rparr> (\<lambda>_. [])"
  let ?m = "run example_hooks example_inputs ?l0"
  have "fst ?m = Ok ()" by (simp add: example_inputs_def example_eval loop_eval cong: and_then_weak)
  then have r: "?m = (Ok (), snd ?m)" by (rule Ok_pair)
  then have "reach example_hooks ?l0 (snd ?m)" by (rule reach_run [OF init])
  with current_task_exact [OF example_canon_frame]
  have "cs_guest_task (el_state (snd ?m)) = map_option (\<lambda>(fiber, old, act). act_task act) (el_running (snd ?m))" by blast
  moreover have "el_running (snd ?m) \<noteq> None" by (simp add: example_inputs_def example_eval loop_eval cong: and_then_weak)
  ultimately show ?thesis using r by blast
qed

lemma take_work_deadlock:
  "fst (take_work q again vs) = Err (Trap t) \<longleftrightarrow> t = ''AsyncDeadlock'' \<and> q = Some False \<and> again = None \<and>
     cs_high_priority (vs_state vs) = [] \<and> cs_low_priority (vs_state vs) = []"
  by (auto simp: take_work_def Let_def split: option.splits bool.splits if_splits)

lemma complete_future_no_trap: "fst (complete_future f out vs) \<noteq> Err (Trap t)"
  by (cases "(f, out, vs)" rule: complete_future.cases) (auto split: host_output.splits option.splits)

lemma poll_futures_cases:
  obtains (failed) e v where "fs \<noteq> []" "poll_futures nx fs vs = (Err e, v)" "\<forall>t. e \<noteq> Trap t"
  | (stuck) e v where "fs \<noteq> []" "poll_futures nx fs vs = (Panic e, v)"
  | (none) "fs = []" "poll_futures nx fs vs = (Ok (Some False), vs)"
  | (some) q v where "fs \<noteq> []" "poll_futures nx fs vs = (Ok q, v)" "q \<noteq> Some False"
proof (cases "\<exists>k out. nx = NextCompletes k out \<and> k < length fs")
  case True
  then obtain k out where k: "nx = NextCompletes k out" "k < length fs" by blast
  obtain r v where r: "complete_future (fs ! k) out vs = (r, v)" by fastforce
  show ?thesis
  proof (cases r)
    case (Ok x)
    show ?thesis by (rule some [of "Some True" v]) (use k r Ok in \<open>auto simp: poll_futures_def\<close>)
  next
    case (Err e)
    show ?thesis
      by (rule failed [of e v]) (use k r Err complete_future_no_trap [of "fs ! k" out vs] in \<open>auto simp: poll_futures_def\<close>)
  next
    case (Panic e)
    show ?thesis by (rule stuck [of e v]) (use k r Panic in \<open>auto simp: poll_futures_def\<close>)
  qed
next
  case False
  then have "poll_futures nx fs vs = (Ok (if fs = [] then Some False else None), vs)"
    by (auto simp: poll_futures_def split: next_poll.splits)
  then show ?thesis by (cases "fs = []") (auto intro: none some)
qed

text \<open>
  C5: The loop reports a deadlock exactly when nothing can happen any more: the
  future it was given is pending both times it is polled, both queues are empty and
  the instance has no future left to wait for.
\<close>

theorem deadlock_exact:
  "fst (poll_round main nx again vs) = Err (Trap ''AsyncDeadlock'') \<longleftrightarrow>
     main = None \<and> again = None \<and> cs_futures (vs_state vs) = Some [] \<and>
     cs_high_priority (vs_state vs) = [] \<and> cs_low_priority (vs_state vs) = []"
proof (cases "cs_futures (vs_state vs)")
  case None
  then show ?thesis by (simp add: poll_round_def)
next
  case (Some fs)
  show ?thesis
  proof (cases main)
    case (Some v)
    with \<open>cs_futures (vs_state vs) = Some fs\<close> show ?thesis by (simp add: poll_round_def)
  next
    case None
    let ?u = "upd_state (\<lambda>s. s\<lparr>cs_futures := None\<rparr>) vs"
    have "fst (poll_round main nx again vs) = fst (and_then (poll_futures nx fs ?u) (\<lambda>q vs. take_work q again vs))"
      using None Some by (simp add: poll_round_def case_prod_beta)
    then show ?thesis
      using Some None by (cases rule: poll_futures_cases [of fs nx ?u]) (simp_all add: take_work_deadlock)
  qed
qed


section \<open>Calls from their start to their end\<close>






section \<open>Runs that fail\<close>

definition cancel_run :: "input list" where
  "cancel_run = [HostCalls (example_call True 0), poll, NextItem,
     GuestCalls (CallGuest (example_adapter (CallAsync [] False)) (example_args True)), poll, NextItem,
     GuestCalls (YieldNow False), poll, NextItem,
     GuestCalls (SubtaskCancel 0 True 1), GuestCalls (YieldNow False), poll, NextItem]"


definition taken_run :: "input list" where
  "taken_run = [HostCalls (example_call True 0), poll, NextItem,
     GuestCalls (CallGuest (example_adapter (CallAsync [] False)) (example_args True)), poll, NextItem,
     GuestCalls (YieldNow False), HostCalls (example_call True 0), poll, NextItem,
     GuestCalls (SetNew 0), GuestCalls (Join 0 1 2), GuestCalls (SetWait 0 2 0), NextItem, GuestCalls (YieldNow False), poll,
     NextItem, GuestCalls (YieldNow False), NextItem, NextItem, GuestCalls (YieldNow False), poll,
     NextItem, GuestCalls (TaskReturn 0 0 []), GuestReturns 0,
     NextItem, GuestCalls (Join 0 1 0), GuestCalls (YieldNow False), poll]"


definition scopes_run :: "input list" where
  "scopes_run = [HostCalls (example_call False 0), HostCalls (example_call False 1), poll,
     NextItem, GuestCalls (CallHostSync example_import (HostFuture PollPending)),
     NextItem, GuestCalls (CallHostSync example_import (HostFuture PollPending)), poll, NextItem, NextItem,
     PollRound None (NextCompletes 0 (OutputValue (Some 0))) None, NextItem, poll, NextItem]"


end
