(* ===== verification/Spec2Isabelle.thy ===== *)
theory Spec2Isabelle
  imports Slab Resource_Table Host_Resources Error_Contexts Loop_Properties
begin

text \<open>
  A model of the component-model runtime of Wasmtime with its support for
  asynchronous components, and of the arenas it is built on.  Paths below are
  relative to \<open>src/crates/wasmtime/src/runtime\<close> unless they start with \<open>src/\<close>.

  \<^bold>\<open>The program.\<close>  A component instance runs guest code in tasks.  All objects
  of the asynchronous runtime (guest and host tasks, waitable sets, the ends and
  states of streams and futures, error contexts) are boxed in one \<open>Table\<close>; guests
  name them by handles of per-instance \<open>StateTable\<close>s.  An event loop takes work
  items from two queues and runs guest code on fibers.  Tasks call each other
  through fused adapters, wait on waitable sets for events of subtasks, streams
  and futures, and exchange values through linear memories by the canonical ABI.
  Resources are handles with owners and borrows that are counted per call; the
  host keeps its own tables of them.

  \<^bold>\<open>Theories and sources.\<close>

  \<^item> \<open>Prelude\<close>: outcomes of fallible functions (\<open>Ok\<close>, \<open>Err\<close>, \<open>Panic\<close>), the
    question-mark operator as \<open>and_then\<close>, checked \<open>u32\<close> arithmetic, slices, and
    ordered maps as sorted association lists.
  \<^item> \<open>Free_List\<close>, \<open>Family\<close>: what the arenas share.  \<open>Free_List\<close> has the locales
    \<open>arena\<close> and \<open>atomic_arena\<close>, which state the contract of allocation and
    release once; \<open>Slab\<close>, \<open>Async_Table\<close>, \<open>Resource_Table\<close>, \<open>State_Table\<close> and
    \<open>Handle_Table\<close> interpret them.  \<open>Family\<close> is the parent-child relation of the
    two tables that have one.
  \<^item> \<open>Slab\<close>: \<open>src/crates/slab/src/lib.rs\<close>.
  \<^item> \<open>Async_Table\<close>: \<open>component/concurrent/table.rs\<close>.
  \<^item> \<open>State_Table\<close>: \<open>component/concurrent/states.rs\<close>.
  \<^item> \<open>Resource_Table\<close>: \<open>component/resource_table.rs\<close>.
  \<^item> \<open>Handle_Table\<close>: \<open>vm/component/resources.rs\<close>.  \<open>Host_Handle\<close> and
    \<open>Host_Resources\<close>: \<open>component/resources.rs\<close>.
  \<^item> \<open>Abi_Codes\<close>: \<open>Status\<close>, \<open>Event\<close>, \<open>ReturnCode\<close> and callback codes.  \<open>Buffers\<close>:
    \<open>futures_and_streams/buffers.rs\<close>.
  \<^item> \<open>Concurrent_State\<close>: the record \<open>concurrent_state\<close> is \<open>ConcurrentState\<close> of
    \<open>component/concurrent.rs\<close>, the datatype \<open>obj\<close> is what its table boxes.  The
    views \<open>obj_at\<close> and \<open>parent_at\<close> hide the table from the theories above it.
  \<^item> \<open>Admission\<close>: \<open>may_enter\<close>, \<open>GuestCall::is_ready\<close>, \<open>partition_pending\<close>,
    \<open>enter_instance\<close>, \<open>exit_instance\<close>, \<open>backpressure.set\<close> and \<open>context.get/set\<close>.
  \<^item> \<open>Waitables\<close>: the methods of \<open>Waitable\<close>, the waitable-set intrinsics,
    \<open>subtask.drop\<close>, \<open>get_event\<close> and \<open>handle_callback_code\<close>.  \<open>Waitable_Sets\<close>: the
    invariant of these and what follows from it.
  \<^item> \<open>Transmit_State\<close>, \<open>Transmit\<close>: \<open>futures_and_streams.rs\<close>.  \<open>Transmit_Inv\<close>,
    \<open>Transmit_Steps\<close>, \<open>Transmit_Runs\<close>: its invariant, and what runs of reads and
    writes do.
  \<^item> \<open>Unicode\<close>: the encodings of strings (locale \<open>codec\<close>).  \<open>Transcode\<close>: the
    transcoders of \<open>vm/component/libcalls.rs\<close>.  \<open>Strings\<close>: lowering and lifting of
    strings in \<open>component/func/typed.rs\<close>.  \<open>Error_Contexts\<close>: error contexts.
  \<^item> \<open>Tasks\<close>: \<open>GuestTask::new\<close>, both functions \<open>prepare_call\<close>, \<open>queue_call\<close>,
    \<open>start_call\<close>, \<open>task.return\<close>, \<open>task.cancel\<close>, the delivery of events to callbacks,
    \<open>waitable-set.wait/poll\<close>, \<open>yield\<close>, \<open>subtask.cancel\<close>, \<open>first_poll\<close> and
    \<open>poll_and_block\<close> of \<open>component/concurrent.rs\<close>, and \<open>call_host\<close> of
    \<open>component/func/host.rs\<close>.  A function that suspends its fiber is cut at the
    suspension; the datatype \<open>point\<close> names the places where it goes on.
  \<^item> \<open>Event_Loop\<close>: \<open>poll_until\<close>, \<open>handle_work_item\<close>, \<open>run_on_worker\<close>,
    \<open>resume_fiber\<close> and \<open>handle_guest_call\<close> as a machine whose inputs are what guest
    code, the host and its futures do.
  \<^item> \<open>Frames\<close>: the locales \<open>conc_frame\<close>, \<open>task_frame\<close>, \<open>entry_frame\<close> and
    \<open>loop_frame\<close> say what a preorder on states has to contain for the operations of
    tasks and of the loop to stay inside of it, and walk through the operations once.
    \<open>Loop_Inv\<close> interprets them four times: for the current task, for what the
    scheduler keeps, for the instances that may not be entered, and for the queued
    starts, which fit their tasks while identifiers are not reused.
  \<^item> \<open>Loop_Safety\<close>, \<open>Loop_Runs\<close>: the relation \<open>reach\<close> over the steps of the machine,
    its invariant, and that every step keeps it.  \<open>Loop_Properties\<close>: what follows for
    all runs, calls followed from their start to their end, and runs that fail.

  \<^bold>\<open>Conventions.\<close>  A method that mutates its receiver returns its outcome with
  the new state, also when it fails or panics, so that half-done operations are
  visible.  Every \<open>unwrap\<close>, assertion, index and \<open>unreachable!\<close> of the source is a
  \<open>Panic\<close>.  Identifiers, handles and counts are natural numbers with the bounds of
  \<open>u32\<close> checked where the source converts; packed codes are 32-bit words and bytes
  8-bit words.  \<open>BTreeMap\<close> is a sorted association list, \<open>BTreeSet\<close> a finite set
  read in order.

  \<^bold>\<open>Parameters.\<close>  The growth of a \<open>Vec\<close> (locale \<open>vec_growth\<close>), the functions of
  \<open>encoding_rs\<close>, the guest's \<open>realloc\<close>, the loading and storing of values by the
  canonical ABI (\<open>canon\<close>), and closures and guest functions that cannot call back
  into the runtime (\<open>hooks\<close>).  Hypotheses on them are stated where they are used;
  \<open>canon_frame\<close> is the one that spans theories: lowering a list of values into a
  guest's memory does not touch the state of the event loop.

  \<^bold>\<open>Bounds and fuel.\<close>  Deleting a task recurses into its undelivered subtasks;
  \<open>delete_from\<close> counts the depth down from the number of table entries, and
  \<open>delete_from_terminates\<close> shows that no run reaches the bound.  The walk of
  \<open>may_enter\<close> is a partial function, and \<open>may_enter_decides\<close> shows that it returns
  when the callers are live and acyclic.  The machine runs one input per step, so
  that a run is as long as its list of inputs.  All other recursion is structural or
  has a measure.

  \<^bold>\<open>What is shown.\<close>  The arenas keep their free lists and hand out only dead
  slots; parents outlive their children; handles and representations correspond
  one to one; borrows and lends agree with the handles that are present.  Pending
  calls are those that may not run.  The ready set of a waitable set is exact, an
  event wakes one waiter, delivery consumes each event once.  The two ends of a
  stream point at each other, at most one waits, and either order of a write and a
  read has the same effect.  Strings survive lowering and lifting in every
  encoding, and the transcoders agree with each other.  Error contexts refine a
  multiset of references.  In every run of the event loop the current task is the
  one whose code runs, and an instance is closed exactly while one fiber is inside
  of it; the loop reports a deadlock exactly when nothing can happen any more; calls
  from the host and between guests hand back their results with the scopes and the
  current task restored.  The failures found on the way are theorems too, each a run
  of normal steps that ends in a panic or in an error that belongs to someone else.

  \<^bold>\<open>Not modelled.\<close>  Compilers and interpreters (Cranelift, Winch, Pulley), the
  translation of modules and the generation of fused adapters in
  \<open>src/crates/environ\<close> and \<open>src/crates/cranelift\<close>: they produce the code that runs
  as a guest here and share no state with the runtime modelled.  The core runtime
  (memories, tables, globals, garbage collection, stack switching, traps, the
  pooling allocator): unsafe code over raw memory and the operating system, of
  which the model uses only memories as lists of bytes.  The WASI crates, the C
  API and the command line: input and output over the interfaces modelled here.
  Of the component runtime: typed lifting and lowering of values other than
  strings and resources, which Rust macros generate per type; the handles
  \<open>StreamReader\<close>, \<open>StreamWriter\<close> and their futures, which only wrap the operations
  modelled; wakers, thread-local storage and the switch of stacks.
\<close>

end
